(* ===== verification/Prelude.thy ===== *)
theory Prelude
  imports Main "HOL-Library.Word"
begin

text \<open>
  Shared vocabulary of the development.

  \<^item> The result type of fallible C code: \<open>fail + 'a\<close>. A C function of the library either
    returns, returns its error code (\<open>Failed\<close>), runs into an \<^verbatim>\<open>assert\<close> (\<open>Abort\<close>; the
    default build, \<^verbatim>\<open>CONFIG_ADBUS_RELEASE=n\<close>, keeps the asserts), or reads or writes outside
    the memory it was given (\<open>Fault\<close>, undefined behaviour).
  \<^item> Bytes are HOL's 8-bit characters, a block of memory is a \<open>char list\<close>, a C string is
    the list of its characters without the terminator.
  \<^item> Little-endian integers (the host is little-endian), alignment, and the library's
    character classes.
\<close>

unbundle bit_operations_syntax

named_theorems res_simps \<open>unfolding rules for the result combinators\<close>
named_theorems dv_simps \<open>what the vector operations do to the abstract contents\<close>
named_theorems buf_simps \<open>what the buffer operations do to contents and signature\<close>
named_theorems iter_simps \<open>what the iterator operations do on well-formed data\<close>

section \<open>Results\<close>

datatype fail = Failed | Abort | Fault

type_synonym 'a res = "fail + 'a"

definition bindr :: "'a res \<Rightarrow> ('a \<Rightarrow> 'b res) \<Rightarrow> 'b res" where
  "bindr m f = (case m of Inl e \<Rightarrow> Inl e | Inr x \<Rightarrow> f x)"

definition assertr :: "bool \<Rightarrow> unit res" where
  "assertr b = (if b then Inr () else Inl Abort)"

definition checkr :: "bool \<Rightarrow> unit res" where
  "checkr b = (if b then Inr () else Inl Failed)"

lemma bindr_simps [simp]:
  "bindr (Inl e) f = Inl e"
  "bindr (Inr x) f = f x"
  by (simp_all add: bindr_def)

lemma bindr_assoc: "bindr (bindr m f) g = bindr m (\<lambda>x. bindr (f x) g)"
  by (simp add: bindr_def split: sum.splits)

lemma bindr_Inr_conv: "bindr m f = Inr y \<longleftrightarrow> (\<exists>x. m = Inr x \<and> f x = Inr y)"
  by (simp add: bindr_def split: sum.splits)

lemma bindr_Inl_conv:
  "bindr m f = Inl e \<longleftrightarrow> m = Inl e \<or> (\<exists>x. m = Inr x \<and> f x = Inl e)"
  by (auto simp add: bindr_def split: sum.splits)

lemma bindr_cong [fundef_cong]:
  "m = m' \<Longrightarrow> (\<And>x. m' = Inr x \<Longrightarrow> f x = f' x) \<Longrightarrow> bindr m f = bindr m' f'"
  by (simp add: bindr_def split: sum.splits)

lemma assertr_simps [simp]:
  "assertr True = Inr ()"
  "assertr False = Inl Abort"
  "assertr b = Inr u \<longleftrightarrow> b"
  "assertr b = Inl e \<longleftrightarrow> \<not> b \<and> e = Abort"
  by (auto simp: assertr_def)

lemma checkr_simps [simp]:
  "checkr True = Inr ()"
  "checkr False = Inl Failed"
  "checkr b = Inr u \<longleftrightarrow> b"
  "checkr b = Inl e \<longleftrightarrow> \<not> b \<and> e = Failed"
  by (auto simp: checkr_def)

lemmas res_convs = bindr_Inr_conv bindr_Inl_conv

section \<open>Characters and C strings\<close>

abbreviation NUL :: char where "NUL \<equiv> CHR 0x00"

definition ord_of :: "char \<Rightarrow> nat" where "ord_of c = of_char c"

definition in_range :: "char \<Rightarrow> char \<Rightarrow> char \<Rightarrow> bool" where
  "in_range lo hi c \<longleftrightarrow> ord_of lo \<le> ord_of c \<and> ord_of c \<le> ord_of hi"

text \<open>The character classes the name checks of \<^verbatim>\<open>misc.c\<close> spell out again and again.\<close>

definition is_alpha :: "char \<Rightarrow> bool" where
  "is_alpha c \<longleftrightarrow> in_range CHR ''a'' CHR ''z'' c \<or> in_range CHR ''A'' CHR ''Z'' c"

definition is_digit :: "char \<Rightarrow> bool" where
  "is_digit c \<longleftrightarrow> in_range CHR ''0'' CHR ''9'' c"

text \<open>The number of characters before the first NUL: \<^verbatim>\<open>strlen\<close> on an array.\<close>

definition c_strlen :: "string \<Rightarrow> nat" where
  "c_strlen xs = length (takeWhile (\<lambda>c. c \<noteq> NUL) xs)"

lemma c_strlen_no_nul: "NUL \<notin> set xs \<Longrightarrow> c_strlen xs = length xs"
  unfolding c_strlen_def by (subst takeWhile_eq_all_conv[THEN iffD2]) auto

lemma c_strlen_append_nul: "NUL \<notin> set xs \<Longrightarrow> c_strlen (xs @ NUL # ys) = length xs"
  unfolding c_strlen_def by (subst takeWhile_append2) auto

lemma list_all_notin: "list_all P xs \<Longrightarrow> \<not> P x \<Longrightarrow> x \<notin> set xs"
  by (auto simp: list_all_iff)

section \<open>Little-endian integers\<close>

primrec le_bytes :: "nat \<Rightarrow> nat \<Rightarrow> char list" where
  "le_bytes 0 n = []"
| "le_bytes (Suc k) n = char_of n # le_bytes k (n div 256)"

primrec le_val :: "char list \<Rightarrow> nat" where
  "le_val [] = 0"
| "le_val (c # cs) = of_char c + 256 * le_val cs"

lemma length_le_bytes [simp]: "length (le_bytes k n) = k"
  by (induction k arbitrary: n) auto

lemma le_val_le_bytes [simp]: "le_val (le_bytes k n) = n mod 256 ^ k"
proof (induction k arbitrary: n)
  case 0
  then show ?case by simp
next
  case (Suc k)
  have "n mod 256 + 256 * (n div 256 mod 256 ^ k) = n mod (256 * 256 ^ k)"
    by (simp add: mod_mult2_eq)
  with Suc show ?case by simp
qed

lemma le_val_less: "le_val cs < 256 ^ length cs"
proof (induction cs)
  case Nil
  then show ?case by simp
next
  case (Cons c cs)
  have "(of_char c :: nat) < 256" by (rule nat_of_char_less_256)
  moreover have "256 * le_val cs + 256 \<le> 256 * 256 ^ length cs"
    using Cons by (metis Suc_leI mult_Suc_right mult_le_mono2 add.commute)
  ultimately have "of_char c + 256 * le_val cs < 256 * 256 ^ length cs" by linarith
  then show ?case by simp
qed

lemma le_bytes_le_val: "le_bytes (length cs) (le_val cs) = cs"
proof (induction cs)
  case Nil
  then show ?case by simp
next
  case (Cons c cs)
  have c: "(of_char c :: nat) < 256" by (rule nat_of_char_less_256)
  then have "(of_char c + 256 * le_val cs) div 256 = le_val cs"
    by simp
  moreover have "char_of (of_char c + 256 * le_val cs) = (char_of (of_char c :: nat) :: char)"
    by (subst char_of_mod_256 [symmetric], simp only: mod_mult_self2 char_of_mod_256)
  ultimately show ?case using Cons by simp
qed

lemma unat_bounds:
  "unat (w1 :: 8 word) < 256"
  "unat (w2 :: 16 word) < 65536"
  "unat (w4 :: 32 word) < 4294967296"
  "unat (w8 :: 64 word) < 18446744073709551616"
  by (rule order_less_le_trans[OF unsigned_less], simp)+

section \<open>Alignment\<close>

text \<open>
  \<^verbatim>\<open>ADBUS_ALIGN\<close> is computed on \<^verbatim>\<open>uintptr_t\<close>; \<open>align\<close> is its value on sizes that do not
  overflow, which is what the rest of the development uses.
\<close>

definition ADBUS_ALIGN :: "64 word \<Rightarrow> 64 word \<Rightarrow> 64 word" where
  "ADBUS_ALIGN p boundary = (p + (boundary - 1)) AND NOT (boundary - 1)"

definition align :: "nat \<Rightarrow> nat \<Rightarrow> nat" where
  "align p b = (p + (b - 1)) div b * b"

lemma align_ge: "0 < b \<Longrightarrow> p \<le> align p b"
proof -
  assume b: "0 < b"
  have "(p + (b - 1)) div b * b = p + (b - 1) - (p + (b - 1)) mod b"
    by (simp add: minus_mod_eq_div_mult)
  moreover have "(p + (b - 1)) mod b \<le> b - 1"
    using b by (simp add: Suc_leI flip: less_Suc_eq_le)
  ultimately show ?thesis by (simp add: align_def)
qed

lemma align_less: "0 < b \<Longrightarrow> align p b < p + b"
proof -
  assume b: "0 < b"
  have "align p b \<le> p + (b - 1)" by (simp add: align_def)
  also have "\<dots> < p + b" using b by simp
  finally show ?thesis .
qed

lemma dvd_align: "b dvd align p b"
  by (simp add: align_def)

lemma align_id: "0 < b \<Longrightarrow> b dvd p \<Longrightarrow> align p b = p"
proof -
  assume b: "0 < b" and d: "b dvd p"
  from d obtain q where q: "p = q * b" by (metis dvd_div_mult_self)
  have "(q * b + (b - 1)) div b = q + (b - 1) div b" using b by (subst div_mult_self3) auto
  also have "\<dots> = q" using b by simp
  finally have "(q * b + (b - 1)) div b = q" .
  with q show ?thesis by (simp add: align_def)
qed

section \<open>Overwriting part of a block\<close>

definition overwrite :: "'a list \<Rightarrow> nat \<Rightarrow> 'a list \<Rightarrow> 'a list" where
  "overwrite xs off ys = take off xs @ ys @ drop (off + length ys) xs"

lemma length_overwrite [simp]:
  "off + length ys \<le> length xs \<Longrightarrow> length (overwrite xs off ys) = length xs"
  by (simp add: overwrite_def)

lemma take_overwrite [simp]: "n \<le> off \<Longrightarrow> off \<le> length xs \<Longrightarrow> take n (overwrite xs off ys) = take n xs"
  by (simp add: overwrite_def)

lemma overwrite_append:
  "off = length xs \<Longrightarrow> length ys = length zs \<Longrightarrow> overwrite (xs @ ys @ us) off zs = xs @ zs @ us"
  by (simp add: overwrite_def)

lemma align_1 [simp]: "align p 1 = p" "align p (Suc 0) = p"
  by (simp_all add: align_def)

section \<open>Decimal numbers\<close>

text \<open>What \<^verbatim>\<open>%u\<close> and \<^verbatim>\<open>%d\<close> print for a number that is not negative.\<close>

fun dec :: "nat \<Rightarrow> string" where
  "dec n = (if n < 10 then [char_of (48 + n)] else dec (n div 10) @ [char_of (48 + n mod 10)])"

declare dec.simps [simp del]

primrec undec :: "nat \<Rightarrow> string \<Rightarrow> nat" where
  "undec a [] = a"
| "undec a (c # cs) = undec (10 * a + (of_char c - 48)) cs"

lemma undec_append: "undec a (xs @ ys) = undec (undec a xs) ys"
  by (induction xs arbitrary: a) auto

lemma undec_dec: "undec 0 (dec n) = n"
proof (induction n rule: dec.induct)
  case (1 n)
  show ?case
  proof (cases "n < 10")
    case True
    then show ?thesis by (simp add: dec.simps[of n])
  next
    case False
    with 1 have "undec 0 (dec (n div 10)) = n div 10" by simp
    moreover have "10 * (n div 10) + n mod 10 = n" by (rule mult_div_mod_eq)
    ultimately show ?thesis using False by (simp add: dec.simps[of n] undec_append)
  qed
qed

lemma dec_inject [simp]: "dec m = dec n \<longleftrightarrow> m = n"
  by (metis undec_dec)

lemma dec_digits: "list_all is_digit (dec n)"
proof (induction n rule: dec.induct)
  case (1 n)
  have "is_digit (char_of (48 + k))" if "k < 10" for k :: nat
    using that by (simp add: is_digit_def in_range_def ord_of_def)
  with 1 show ?case by (subst dec.simps) simp
qed

lemma dec_not_Nil [simp]: "dec n \<noteq> []"
  by (subst dec.simps) simp

end
