(* ===== verification/Vector.thy ===== *)
theory Vector
  imports Prelude
begin

text \<open>
  The containers of \<^verbatim>\<open>include/c/dmem\<close>: \<^verbatim>\<open>DVECTOR_INIT\<close> at element type \<^verbatim>\<open>char\<close>
  (\<^verbatim>\<open>vector.h\<close>) with its allocation, its size and the block it owns, and \<^verbatim>\<open>d_String\<close>
  (\<^verbatim>\<open>string.h\<close>), the NUL terminated string kept in such a vector. The asserts of the
  default build are kept: a violated one is \<open>Inl Abort\<close>, and \<^verbatim>\<open>dv_shred\<close> overwrites
  the unused tail with question marks.

  The interfaces are the locales \<open>byte_vector\<close> (what every user of a vector relies on) and
  \<open>char_sink\<close> (what code that builds a string piece by piece relies on). Both are
  interpreted on the definitions below, so that the other theories may describe a
  \<^verbatim>\<open>d_Vector(char)\<close> by its contents and a \<^verbatim>\<open>d_String\<close> by its characters.
\<close>

section \<open>Vectors\<close>

record dvec =
  dv_size :: nat
  dv_alloc :: nat
  dv_data :: "char list"

definition dv_init :: dvec where
  "dv_init = \<lparr>dv_size = 0, dv_alloc = 0, dv_data = []\<rparr>"

definition dv_shred :: "dvec \<Rightarrow> dvec" where
  "dv_shred v = v\<lparr>dv_data := take (dv_size v) (dv_data v)
                    @ replicate (dv_alloc v - dv_size v) CHR ''?''\<rparr>"

definition dv_clear :: "dvec \<Rightarrow> dvec" where
  "dv_clear v = dv_shred (v\<lparr>dv_size := 0\<rparr>)"

definition dv_release :: "dvec \<Rightarrow> char list \<times> dvec" where
  "dv_release v = (dv_data v, \<lparr>dv_size = 0, dv_alloc = 0, dv_data = []\<rparr>)"

text \<open>
  \<^verbatim>\<open>realloc\<close> keeps the old block; the bytes it adds have no specified value, and are
  overwritten by \<^verbatim>\<open>dv_shred\<close> at once.
\<close>

definition dv_reserve :: "dvec \<Rightarrow> nat \<Rightarrow> dvec" where
  "dv_reserve v sz =
     (if sz \<le> dv_alloc v then v
      else let a = (dv_alloc v + 16) * 3 div 2;
               a = (if a < sz then sz else a)
           in dv_shred (v\<lparr>dv_alloc := a,
                          dv_data := dv_data v @ replicate (a - dv_alloc v) CHR ''?''\<rparr>))"

definition dv_resize :: "dvec \<Rightarrow> nat \<Rightarrow> dvec" where
  "dv_resize v sz = (dv_reserve v sz)\<lparr>dv_size := sz\<rparr>"

text \<open>\<^verbatim>\<open>dv_push\<close> returns the vector and the offset of the room it made.\<close>

definition dv_push :: "dvec \<Rightarrow> nat \<Rightarrow> dvec \<times> nat" where
  "dv_push v num =
     (let old = dv_size v; v = dv_resize v (old + num)
      in (v\<lparr>dv_data := overwrite (dv_data v) old (replicate num CHR ''?'')\<rparr>, old))"

definition dv_insert :: "dvec \<Rightarrow> nat \<Rightarrow> nat \<Rightarrow> (dvec \<times> nat) res" where
  "dv_insert v index num =
     bindr (assertr (index \<le> dv_size v)) (\<lambda>_.
       let old = dv_size v; numafter = old - index; v = dv_resize v (old + num);
           v = (if numafter > 0
                then v\<lparr>dv_data := overwrite (dv_data v) (index + num)
                                     (take numafter (drop index (dv_data v)))\<rparr>
                else v)
       in Inr (v\<lparr>dv_data := overwrite (dv_data v) index (replicate num CHR ''?'')\<rparr>, index))"

definition dv_pop :: "dvec \<Rightarrow> nat \<Rightarrow> dvec res" where
  "dv_pop v num =
     bindr (assertr (num \<le> dv_size v)) (\<lambda>_.
       Inr (dv_shred (v\<lparr>dv_size := dv_size v - num\<rparr>)))"

definition dv_remove :: "dvec \<Rightarrow> nat \<Rightarrow> nat \<Rightarrow> dvec res" where
  "dv_remove v index num =
     bindr (assertr (index + num \<le> dv_size v)) (\<lambda>_.
       let numafter = dv_size v - (index + num);
           v = (if numafter > 0
                then v\<lparr>dv_data := overwrite (dv_data v) index
                                     (take numafter (drop (index + num) (dv_data v)))\<rparr>
                else v)
       in Inr (dv_shred (v\<lparr>dv_size := dv_size v - num\<rparr>)))"

text \<open>\<^verbatim>\<open>memcpy\<close> into the block at an offset, \<^verbatim>\<open>dv_push\<close> and \<^verbatim>\<open>memcpy\<close> in one.\<close>

definition dv_memcpy :: "dvec \<Rightarrow> nat \<Rightarrow> char list \<Rightarrow> dvec" where
  "dv_memcpy v off xs = v\<lparr>dv_data := overwrite (dv_data v) off xs\<rparr>"

definition dv_append :: "dvec \<Rightarrow> char list \<Rightarrow> dvec" where
  "dv_append v xs = (case dv_push v (length xs) of (v, off) \<Rightarrow> dv_memcpy v off xs)"

definition dv_inv :: "dvec \<Rightarrow> bool" where
  "dv_inv v \<longleftrightarrow> dv_size v \<le> dv_alloc v \<and> length (dv_data v) = dv_alloc v"

definition dv_list :: "dvec \<Rightarrow> char list" where
  "dv_list v = take (dv_size v) (dv_data v)"

subsection \<open>The operations on the contents\<close>

lemma dv_init_list [dv_simps]: "dv_list dv_init = []" "dv_inv dv_init"
  by (simp_all add: dv_list_def dv_init_def dv_inv_def)

lemma length_dv_list [dv_simps]: "dv_inv v \<Longrightarrow> length (dv_list v) = dv_size v"
  by (simp add: dv_list_def dv_inv_def)

lemma dv_shred_inv [dv_simps]:
  "dv_size v \<le> dv_alloc v \<Longrightarrow> dv_size v \<le> length (dv_data v) \<Longrightarrow> dv_inv (dv_shred v)"
  by (simp add: dv_shred_def dv_inv_def)

lemma dv_shred_list [dv_simps]:
  "dv_size v \<le> length (dv_data v) \<Longrightarrow> dv_list (dv_shred v) = dv_list v"
  by (simp add: dv_shred_def dv_list_def)

lemma dv_clear_props [dv_simps]:
  "dv_inv v \<Longrightarrow> dv_inv (dv_clear v)" "dv_list (dv_clear v) = []"
  by (simp_all add: dv_clear_def dv_shred_def dv_inv_def dv_list_def)

lemma dv_reserve_props [dv_simps]:
  assumes "dv_inv v"
  shows "dv_inv (dv_reserve v sz)" "dv_list (dv_reserve v sz) = dv_list v"
    "dv_size (dv_reserve v sz) = dv_size v" "sz \<le> dv_alloc (dv_reserve v sz)"
  using assms by (simp_all add: dv_reserve_def Let_def dv_inv_def dv_shred_def dv_list_def)

lemma dv_resize_grow:
  assumes "dv_inv v" "dv_size v \<le> sz"
  shows "dv_inv (dv_resize v sz)" "dv_size (dv_resize v sz) = sz"
    "take (dv_size v) (dv_data (dv_resize v sz)) = dv_list v"
    "length (dv_data (dv_resize v sz)) = dv_alloc (dv_resize v sz)"
  using assms dv_reserve_props[OF assms(1), of sz]
  by (simp_all add: dv_resize_def dv_inv_def dv_list_def)

lemma dv_append_props [dv_simps]:
  assumes "dv_inv v"
  shows "dv_inv (dv_append v xs)" "dv_list (dv_append v xs) = dv_list v @ xs"
proof -
  let ?w = "dv_resize v (dv_size v + length xs)"
  have le: "dv_size v \<le> dv_size v + length xs" by simp
  note w = dv_resize_grow[OF assms le]
  have len: "dv_size v + length xs \<le> length (dv_data ?w)"
    using w(1,2,4) by (simp add: dv_inv_def)
  have "overwrite (overwrite (dv_data ?w) (dv_size v) (replicate (length xs) CHR ''?''))
          (dv_size v) xs = overwrite (dv_data ?w) (dv_size v) xs"
    using len by (simp add: overwrite_def)
  then have eq: "dv_append v xs = ?w\<lparr>dv_data := overwrite (dv_data ?w) (dv_size v) xs\<rparr>"
    by (simp add: dv_append_def dv_push_def dv_memcpy_def Let_def)
  show "dv_inv (dv_append v xs)"
    using w(1,2,4) len by (simp add: eq dv_inv_def)
  show "dv_list (dv_append v xs) = dv_list v @ xs"
    using assms w(2,3) len by (auto simp: eq dv_list_def overwrite_def dv_inv_def)
qed

lemma dv_pop_props [dv_simps]:
  assumes "dv_inv v" "num \<le> dv_size v"
  shows "\<exists>v'. dv_pop v num = Inr v' \<and> dv_inv v' \<and> dv_list v' = take (dv_size v - num) (dv_list v)
           \<and> dv_size v' = dv_size v - num"
  using assms by (auto simp: dv_pop_def dv_inv_def dv_shred_def dv_list_def min_def)

lemma dv_remove_props [dv_simps]:
  assumes "dv_inv v" "index + num \<le> dv_size v"
  shows "\<exists>v'. dv_remove v index num = Inr v' \<and> dv_inv v'
           \<and> dv_list v' = take index (dv_list v) @ drop (index + num) (dv_list v)"
proof -
  let ?n = "dv_size v - (index + num)"
  let ?d = "overwrite (dv_data v) index (take ?n (drop (index + num) (dv_data v)))"
  have len: "length ?d = dv_alloc v" and sz: "dv_size v - num \<le> dv_alloc v"
    using assms by (auto simp: dv_inv_def overwrite_def min_def)
  have tk: "take (dv_size v - num) ?d
      = take index (dv_list v) @ drop (index + num) (dv_list v)"
  proof -
    from assms(2) obtain k where k: "dv_size v = index + num + k" using le_Suc_ex by blast
    with assms(1) show ?thesis
      by (auto simp: overwrite_def dv_inv_def dv_list_def drop_take take_add min_def)
  qed
  show ?thesis
  proof (cases "?n > 0")
    case True
    let ?w = "v\<lparr>dv_data := ?d, dv_size := dv_size v - num\<rparr>"
    have "dv_remove v index num = Inr (dv_shred ?w)"
      using True assms(2) by (simp add: dv_remove_def Let_def)
    moreover have "dv_inv (dv_shred ?w)" using len sz by (intro dv_shred_inv) simp_all
    moreover have "dv_list (dv_shred ?w) = dv_list ?w" using len sz by (intro dv_shred_list) simp
    ultimately show ?thesis using tk by (simp add: dv_list_def)
  next
    case False
    then have "dv_size v = index + num" using assms(2) by simp
    with assms show ?thesis
      by (auto simp: dv_remove_def Let_def dv_shred_def dv_inv_def dv_list_def min_def)
  qed
qed

lemma dv_insert_props:
  assumes "dv_inv v" "index \<le> dv_size v" "length xs = num"
  shows "\<exists>v'. dv_insert v index num = Inr (v', index) \<and> dv_inv v'
           \<and> dv_size v' = dv_size v + num \<and> dv_inv (dv_memcpy v' index xs)
           \<and> dv_list (dv_memcpy v' index xs)
               = take index (dv_list v) @ xs @ drop index (dv_list v)"
proof -
  let ?w = "dv_resize v (dv_size v + num)" and ?n = "dv_size v - index"
  have le: "dv_size v \<le> dv_size v + num" by simp
  note w = dv_resize_grow[OF assms(1) le]
  have len: "dv_size v + num \<le> length (dv_data ?w)"
    using w(1,2,4) by (simp add: dv_inv_def)
  define e where "e = (if ?n > 0 then overwrite (dv_data ?w) (index + num)
                         (take ?n (drop index (dv_data ?w))) else dv_data ?w)"
  have e_len: "length e = length (dv_data ?w)"
    using len assms(2) by (simp add: e_def)
  have lst: "take (dv_size v) (dv_data ?w) = dv_list v" by (rule w(3))
  have e_hi: "take ?n (drop (index + num) e) = drop index (dv_list v)"
    using len assms(2) by (auto simp: e_def overwrite_def drop_take simp flip: lst)
  have e_lo: "take index e = take index (dv_list v)"
    using len assms(2) by (auto simp: e_def overwrite_def min_def simp flip: lst)
  let ?v = "?w\<lparr>dv_data := overwrite e index (replicate num CHR ''?'')\<rparr>"
  have ins: "dv_insert v index num = Inr (?v, index)"
    using assms(2) by (simp add: dv_insert_def Let_def e_def)
  have inv: "dv_inv ?v" using w(1,2,4) len e_len assms(2) by (simp add: dv_inv_def)
  have ow: "overwrite (overwrite e index (replicate num CHR ''?'')) index xs = overwrite e index xs"
    using len e_len assms(2,3) by (simp add: overwrite_def)
  have inv2: "dv_inv (dv_memcpy ?v index xs)"
    using w(1,2,4) len e_len assms(2,3) by (simp add: dv_inv_def dv_memcpy_def ow)
  have sz: "dv_size v + num = index + num + ?n" using assms(2) by simp
  have "take (dv_size v + num) (overwrite e index xs)
      = take index (dv_list v) @ xs @ drop index (dv_list v)"
    using len e_len assms(2,3) e_lo e_hi length_dv_list[OF assms(1)]
    by (simp add: overwrite_def sz take_add min_def)
  then have "dv_list (dv_memcpy ?v index xs)
      = take index (dv_list v) @ xs @ drop index (dv_list v)"
    by (simp add: dv_list_def dv_memcpy_def ow w(2))
  with ins inv inv2 show ?thesis by (simp add: w(2))
qed

section \<open>The vector interface\<close>

text \<open>
  What the users of a byte vector rely on: an abstraction to the contents, appending at the
  end, dropping a prefix, clearing. The stream lemma is the use the library makes of a
  buffer: bytes are appended as they arrive, complete units are taken off the front.
\<close>

locale byte_vector =
  fixes empty :: 'v
    and append :: "'v \<Rightarrow> char list \<Rightarrow> 'v"
    and remove :: "'v \<Rightarrow> nat \<Rightarrow> nat \<Rightarrow> 'v res"
    and clear :: "'v \<Rightarrow> 'v"
    and contents :: "'v \<Rightarrow> char list"
    and invar :: "'v \<Rightarrow> bool"
  assumes invar_empty: "invar empty" and contents_empty: "contents empty = []"
    and invar_append: "invar v \<Longrightarrow> invar (append v xs)"
    and contents_append: "invar v \<Longrightarrow> contents (append v xs) = contents v @ xs"
    and remove_ok: "invar v \<Longrightarrow> i + n \<le> length (contents v) \<Longrightarrow>
          \<exists>v'. remove v i n = Inr v' \<and> invar v'
             \<and> contents v' = take i (contents v) @ drop (i + n) (contents v)"
    and invar_clear: "invar v \<Longrightarrow> invar (clear v)"
    and contents_clear: "invar v \<Longrightarrow> contents (clear v) = []"
begin

lemma append_append: "invar v \<Longrightarrow> contents (append (append v xs) ys) = contents (append v (xs @ ys))"
  by (simp add: contents_append invar_append)

lemma fold_append:
  "invar v \<Longrightarrow> invar (foldl append v xss) \<and> contents (foldl append v xss) = contents v @ concat xss"
  by (induction xss arbitrary: v) (simp_all add: invar_append contents_append)

lemma stream:
  assumes "invar v" "n \<le> length (contents v @ xs)"
  shows "\<exists>v'. remove (append v xs) 0 n = Inr v' \<and> invar v' \<and> contents v' = drop n (contents v @ xs)"
proof -
  have "0 + n \<le> length (contents (append v xs))"
    using assms by (simp add: contents_append)
  from remove_ok[OF invar_append[OF assms(1)] this] show ?thesis
    by (simp add: contents_append assms(1))
qed

end

interpretation dv: byte_vector dv_init dv_append dv_remove dv_clear dv_list dv_inv
  by unfold_locales (auto simp: dv_simps intro!: dv_remove_props[simplified])

section \<open>Strings\<close>

text \<open>
  \<^verbatim>\<open>d_String\<close> is a vector that is empty or ends in a NUL. Source strings are given as the
  block of readable characters, so that reading more than the block holds is a \<open>Fault\<close>.
\<close>

definition ds_size :: "dvec \<Rightarrow> nat" where
  "ds_size s = (if dv_size s > 0 then dv_size s - 1 else 0)"

definition ds_inv :: "dvec \<Rightarrow> bool" where
  "ds_inv s \<longleftrightarrow> dv_inv s \<and> (dv_size s > 0 \<longrightarrow> dv_data s ! (dv_size s - 1) = NUL)"

definition ds_str :: "dvec \<Rightarrow> string" where
  "ds_str s = take (ds_size s) (dv_data s)"

definition ds_cstr :: "dvec \<Rightarrow> string" where
  "ds_cstr s = (if dv_size s > 0 then takeWhile (\<lambda>c. c \<noteq> NUL) (dv_data s) else [])"

definition ds_terminate :: "dvec \<Rightarrow> dvec" where
  "ds_terminate s = s\<lparr>dv_data := (dv_data s)[dv_size s - 1 := NUL]\<rparr>"

definition ds_clear :: "dvec \<Rightarrow> dvec" where
  "ds_clear s = dv_clear s"

definition ds_set_n :: "dvec \<Rightarrow> string \<Rightarrow> nat \<Rightarrow> dvec res" where
  "ds_set_n s r n =
     (if length r < n then Inl Fault
      else case dv_push (dv_clear s) (n + 1) of (s, dest) \<Rightarrow>
        Inr (ds_terminate (dv_memcpy s dest (take n r))))"

definition ds_set :: "dvec \<Rightarrow> string \<Rightarrow> dvec res" where
  "ds_set s r = ds_set_n s r (c_strlen r)"

definition ds_cat_n :: "dvec \<Rightarrow> string \<Rightarrow> nat \<Rightarrow> dvec res" where
  "ds_cat_n s r n =
     (if length r < n then Inl Fault
      else case (if dv_size s = 0 then dv_push s (n + 1)
                 else case dv_push s n of (v, off) \<Rightarrow> (v, off - 1)) of (s, dest) \<Rightarrow>
        Inr (ds_terminate (dv_memcpy s dest (take n r))))"

definition ds_cat :: "dvec \<Rightarrow> string \<Rightarrow> dvec res" where
  "ds_cat s r = ds_cat_n s r (c_strlen r)"

definition ds_cat_s :: "dvec \<Rightarrow> dvec \<Rightarrow> dvec res" where
  "ds_cat_s s r = ds_cat_n s (ds_str r) (ds_size r)"

definition ds_cat_char :: "dvec \<Rightarrow> char \<Rightarrow> dvec" where
  "ds_cat_char s ch =
     (case (if dv_size s = 0 then dv_push s (1 + 1)
            else case dv_push s 1 of (v, off) \<Rightarrow> (v, off - 1)) of (s, dest) \<Rightarrow>
        dv_memcpy s dest [ch, NUL])"

definition ds_insert_n :: "dvec \<Rightarrow> nat \<Rightarrow> string \<Rightarrow> nat \<Rightarrow> dvec res" where
  "ds_insert_n s index r n =
     bindr (assertr (index \<le> ds_size s)) (\<lambda>_.
       if index = ds_size s then ds_cat_n s r n
       else if length r < n then Inl Fault
       else bindr (dv_insert s index n) (\<lambda>(s, dest). Inr (dv_memcpy s dest (take n r))))"

definition ds_remove :: "dvec \<Rightarrow> nat \<Rightarrow> nat \<Rightarrow> dvec res" where
  "ds_remove s index n =
     bindr (assertr (n \<le> ds_size s)) (\<lambda>_. dv_remove s index n)"

definition ds_remove_end :: "dvec \<Rightarrow> nat \<Rightarrow> dvec res" where
  "ds_remove_end s n =
     bindr (assertr (n \<le> ds_size s)) (\<lambda>_.
       if n > 0 then bindr (dv_pop s n) (\<lambda>s. Inr (ds_terminate s)) else Inr s)"

definition ds_begins_with_n :: "dvec \<Rightarrow> string \<Rightarrow> nat \<Rightarrow> bool res" where
  "ds_begins_with_n s r n =
     (if ds_size s < n then Inr False
      else if length r < n then Inl Fault
      else Inr (take n (ds_str s) = take n r))"

definition ds_ends_with_n :: "dvec \<Rightarrow> string \<Rightarrow> nat \<Rightarrow> bool res" where
  "ds_ends_with_n s r n =
     (if ds_size s < n then Inr False
      else if length r < n then Inl Fault
      else Inr (take n (drop (ds_size s - n) (ds_str s)) = take n r))"

subsection \<open>The operations on the characters\<close>

lemma dv_list_nonempty:
  "ds_inv s \<Longrightarrow> dv_size s \<noteq> 0 \<Longrightarrow> dv_list s = ds_str s @ [NUL]"
proof -
  assume inv: "ds_inv s" and sz: "dv_size s \<noteq> 0"
  then obtain n where n: "dv_size s = Suc n" by (cases "dv_size s") auto
  with inv have "n < length (dv_data s)" "dv_data s ! n = NUL"
    by (auto simp: ds_inv_def dv_inv_def)
  with n show ?thesis by (simp add: dv_list_def ds_str_def ds_size_def take_Suc_conv_app_nth)
qed

text \<open>A vector whose contents are a string and a NUL is a well-formed \<^verbatim>\<open>d_String\<close>.\<close>

lemma ds_of_list:
  assumes "dv_inv s" "dv_list s = xs @ [NUL]"
  shows "ds_inv s" "ds_str s = xs" "ds_size s = length xs"
proof -
  from assms have sz: "dv_size s = Suc (length xs)"
    by (metis length_append_singleton length_dv_list)
  with assms(1) have lt: "length xs < length (dv_data s)" by (simp add: dv_inv_def)
  from assms(2) sz have tk: "take (Suc (length xs)) (dv_data s) = xs @ [NUL]"
    by (simp add: dv_list_def)
  with lt have "take (length xs) (dv_data s) = xs" "dv_data s ! length xs = NUL"
    by (simp_all add: take_Suc_conv_app_nth)
  with assms(1) sz show "ds_inv s" "ds_str s = xs" "ds_size s = length xs"
    by (simp_all add: ds_inv_def ds_str_def ds_size_def)
qed

lemma length_ds_str: "ds_inv s \<Longrightarrow> length (ds_str s) = ds_size s"
  by (auto simp: ds_inv_def ds_str_def ds_size_def dv_inv_def)

lemma ds_inv_empty: "ds_inv dv_init" "ds_str dv_init = []"
  by (simp_all add: ds_inv_def ds_str_def ds_size_def dv_init_def dv_inv_def)

lemma ds_clear_props: "ds_inv s \<Longrightarrow> ds_inv (ds_clear s)" "ds_str (ds_clear s) = []"
  by (simp_all add: ds_clear_def dv_clear_def ds_inv_def ds_str_def ds_size_def dv_inv_def dv_shred_def)

text \<open>\<^verbatim>\<open>dv_push\<close> followed by writing all of the new room, starting \<open>k\<close> characters back.\<close>

lemma dv_push_memcpy:
  assumes "dv_inv v" "k \<le> dv_size v" "length xs = n + k"
  shows "\<exists>w. dv_push v n = (w, dv_size v) \<and> dv_size w = dv_size v + n
           \<and> dv_inv (dv_memcpy w (dv_size v - k) xs)
           \<and> dv_list (dv_memcpy w (dv_size v - k) xs) = take (dv_size v - k) (dv_list v) @ xs"
proof -
  let ?w = "dv_resize v (dv_size v + n)"
  have le: "dv_size v \<le> dv_size v + n" by simp
  note w = dv_resize_grow[OF assms(1) le]
  have len: "dv_size v + n \<le> length (dv_data ?w)"
    using w(1,2,4) by (simp add: dv_inv_def)
  let ?p = "overwrite (dv_data ?w) (dv_size v) (replicate n CHR ''?'')"
  have p_len: "length ?p = length (dv_data ?w)" using len by simp
  have push: "dv_push v n = (?w\<lparr>dv_data := ?p\<rparr>, dv_size v)"
    by (simp add: dv_push_def Let_def)
  have fits: "dv_size v - k + length xs = dv_size v + n" using assms(2,3) by simp
  have tk: "take (dv_size v - k) ?p = take (dv_size v - k) (dv_list v)"
    using len w(3) by (simp add: overwrite_def min_def flip: w(3))
  have "take (dv_size v + n) (overwrite ?p (dv_size v - k) xs)
      = take (dv_size v - k) (dv_list v) @ xs"
    using fits len p_len tk length_dv_list[OF assms(1)] by (simp add: overwrite_def[of ?p])
  then have lst: "dv_list (dv_memcpy (?w\<lparr>dv_data := ?p\<rparr>) (dv_size v - k) xs)
      = take (dv_size v - k) (dv_list v) @ xs"
    by (simp add: dv_list_def dv_memcpy_def w(2))
  have inv: "dv_inv (dv_memcpy (?w\<lparr>dv_data := ?p\<rparr>) (dv_size v - k) xs)"
    using w(1,4) fits len p_len by (simp add: dv_inv_def dv_memcpy_def)
  show ?thesis using push lst inv by (simp add: w(2))
qed

lemma ds_cat_char_props:
  assumes "ds_inv s"
  shows "ds_inv (ds_cat_char s c)" "ds_str (ds_cat_char s c) = ds_str s @ [c]"
proof -
  have dv: "dv_inv s" using assms by (simp add: ds_inv_def)
  have "dv_inv (ds_cat_char s c) \<and> dv_list (ds_cat_char s c) = (ds_str s @ [c]) @ [NUL]"
  proof (cases "dv_size s = 0")
    case True
    with dv_push_memcpy[OF dv, of 0 "[c, NUL]" 2] show ?thesis
      by (auto simp: ds_cat_char_def numeral_2_eq_2 ds_str_def ds_size_def)
  next
    case False
    with dv_push_memcpy[OF dv, of 1 "[c, NUL]" 1] dv_list_nonempty[OF assms False]
      length_dv_list[OF dv] length_ds_str[OF assms] show ?thesis
      by (auto simp: ds_cat_char_def ds_size_def)
  qed
  then show "ds_inv (ds_cat_char s c)" "ds_str (ds_cat_char s c) = ds_str s @ [c]"
    using ds_of_list by blast+
qed

lemma dv_list_terminate:
  "dv_inv s \<Longrightarrow> dv_size s = Suc n \<Longrightarrow> dv_inv (ds_terminate s)"
  "dv_inv s \<Longrightarrow> dv_size s = Suc n \<Longrightarrow> dv_list (ds_terminate s) = take n (dv_list s) @ [NUL]"
  by (auto simp: ds_terminate_def dv_inv_def dv_list_def take_update_swap list_update_append
      take_Suc_conv_app_nth)

lemma ds_memcpy_terminate:
  assumes "dv_inv (dv_memcpy w off (xs @ [c]))"
    and "dv_list (dv_memcpy w off (xs @ [c])) = ys @ xs @ [c]"
    and "length ys = off" and "dv_size w = Suc (off + length xs)"
    and "length (dv_data w) = dv_alloc w"
  shows "dv_inv (ds_terminate (dv_memcpy w off xs))"
    "dv_list (ds_terminate (dv_memcpy w off xs)) = (ys @ xs) @ [NUL]"
proof -
  have len: "off + length xs < length (dv_data w)"
    using assms(1,4,5) by (simp add: dv_inv_def dv_memcpy_def)
  then have "dv_inv (dv_memcpy w off xs)"
    using assms(1,4,5) by (simp add: dv_inv_def dv_memcpy_def)
  moreover have "dv_size (dv_memcpy w off xs) = Suc (off + length xs)"
    using assms(4) by (simp add: dv_memcpy_def)
  moreover have "take (off + length xs) (dv_list (dv_memcpy w off xs)) = ys @ xs"
  proof -
    have "take (off + length xs) (dv_list (dv_memcpy w off (xs @ [c]))) = ys @ xs"
      using assms(2,3) by simp
    then show ?thesis using len assms(3,4)
      by (simp add: dv_list_def dv_memcpy_def overwrite_def)
  qed
  ultimately show "dv_inv (ds_terminate (dv_memcpy w off xs))"
    "dv_list (ds_terminate (dv_memcpy w off xs)) = (ys @ xs) @ [NUL]"
    using dv_list_terminate by metis+
qed

lemma dv_push_length:
  "dv_inv v \<Longrightarrow> length (dv_data (fst (dv_push v n))) = dv_alloc (fst (dv_push v n))"
proof -
  assume "dv_inv v"
  from dv_resize_grow[OF this, of "dv_size v + n"] show ?thesis
    by (simp add: dv_push_def Let_def dv_inv_def)
qed

lemma ds_cat_n_props:
  assumes "ds_inv s" "n \<le> length r"
  shows "\<exists>s'. ds_cat_n s r n = Inr s' \<and> ds_inv s' \<and> ds_str s' = ds_str s @ take n r"
proof -
  have dv: "dv_inv s" using assms by (simp add: ds_inv_def)
  define k where "k = (if dv_size s = 0 then 0 else 1::nat)"
  define m where "m = (if dv_size s = 0 then n + 1 else n)"
  have k: "k \<le> dv_size s" "length (take n r @ [NUL]) = m + k"
    using assms(2) by (simp_all add: k_def m_def)
  from dv_push_memcpy[OF dv this] obtain w where
    w: "dv_push s m = (w, dv_size s)" "dv_size w = dv_size s + m"
       "dv_inv (dv_memcpy w (dv_size s - k) (take n r @ [NUL]))"
       "dv_list (dv_memcpy w (dv_size s - k) (take n r @ [NUL]))
          = take (dv_size s - k) (dv_list s) @ take n r @ [NUL]" by auto
  have len: "length (dv_data w) = dv_alloc w"
    using dv_push_length[OF dv, of m] w(1) by simp
  have str: "take (dv_size s - k) (dv_list s) = ds_str s"
    by (simp add: k_def ds_str_def ds_size_def dv_list_def)
  have ls: "length (ds_str s) = dv_size s - k"
    using length_ds_str[OF assms(1)] by (simp add: k_def ds_size_def)
  have sz: "dv_size w = Suc (dv_size s - k + length (take n r))"
    using w(2) assms(2) by (simp add: k_def m_def)
  have eq: "ds_cat_n s r n = Inr (ds_terminate (dv_memcpy w (dv_size s - k) (take n r)))"
    using assms(2) w(1) by (auto simp: ds_cat_n_def k_def m_def)
  note t = ds_memcpy_terminate[OF w(3) w(4)[unfolded str] ls sz len]
  show ?thesis using eq ds_of_list[OF t] by simp
qed

lemma ds_set_n_props:
  assumes "ds_inv s" "n \<le> length r"
  shows "\<exists>s'. ds_set_n s r n = Inr s' \<and> ds_inv s' \<and> ds_str s' = take n r"
proof -
  have "ds_set_n s r n = ds_cat_n (ds_clear s) r n"
    by (simp add: ds_set_n_def ds_cat_n_def ds_clear_def dv_clear_def dv_shred_def)
  then show ?thesis
    using ds_cat_n_props[OF ds_clear_props(1)[OF assms(1)] assms(2)] ds_clear_props(2) by simp
qed

lemma ds_remove_end_props:
  assumes "ds_inv s" "n \<le> ds_size s"
  shows "\<exists>s'. ds_remove_end s n = Inr s' \<and> ds_inv s' \<and> ds_str s' = take (ds_size s - n) (ds_str s)"
proof (cases "n = 0")
  case True
  with assms show ?thesis by (simp add: ds_remove_end_def length_ds_str)
next
  case False
  have dv: "dv_inv s" using assms by (simp add: ds_inv_def)
  have sz: "dv_size s \<noteq> 0" "n \<le> dv_size s" "dv_size s - n = Suc (ds_size s - n)"
    using False assms(2) by (auto simp: ds_size_def split: if_splits)
  obtain v where v: "dv_pop s n = Inr v" "dv_inv v" "dv_list v = take (dv_size s - n) (dv_list s)"
    "dv_size v = Suc (ds_size s - n)"
    using dv_pop_props[OF dv sz(2)] sz(3) by auto
  have lst: "take (ds_size s - n) (dv_list v) = take (ds_size s - n) (ds_str s)"
    using v(3) sz dv_list_nonempty[OF assms(1) sz(1)] length_ds_str[OF assms(1)] by simp
  have eq: "ds_remove_end s n = Inr (ds_terminate v)"
    using False assms(2) v(1) by (simp add: ds_remove_end_def)
  have t: "dv_inv (ds_terminate v)" "dv_list (ds_terminate v) = take (ds_size s - n) (ds_str s) @ [NUL]"
    using dv_list_terminate[OF v(2,4)] lst by simp_all
  show ?thesis using eq ds_of_list[OF t] by simp
qed

lemma ds_remove_props:
  assumes "ds_inv s" "index + n \<le> ds_size s"
  shows "\<exists>s'. ds_remove s index n = Inr s' \<and> ds_inv s'
           \<and> ds_str s' = take index (ds_str s) @ drop (index + n) (ds_str s)"
proof (cases "dv_size s = 0")
  case True
  with assms have "n = 0" "index = 0" by (simp_all add: ds_size_def)
  with assms True show ?thesis
    by (simp add: ds_remove_def dv_remove_def Let_def ds_inv_def dv_inv_def ds_str_def ds_size_def
        dv_shred_def)
next
  case False
  have dv: "dv_inv s" using assms by (simp add: ds_inv_def)
  have le: "index + n \<le> dv_size s" using assms(2) by (simp add: ds_size_def split: if_splits)
  obtain v where v: "dv_remove s index n = Inr v" "dv_inv v"
    "dv_list v = take index (dv_list s) @ drop (index + n) (dv_list s)"
    using dv_remove_props[OF dv le] by auto
  have "dv_list v = (take index (ds_str s) @ drop (index + n) (ds_str s)) @ [NUL]"
    using v(3) dv_list_nonempty[OF assms(1) False] length_ds_str[OF assms(1)] assms(2) by simp
  from ds_of_list[OF v(2) this] show ?thesis
    using v(1) assms(2) by (simp add: ds_remove_def)
qed

lemma ds_insert_n_props:
  assumes "ds_inv s" "index \<le> ds_size s" "n \<le> length r"
  shows "\<exists>s'. ds_insert_n s index r n = Inr s' \<and> ds_inv s'
           \<and> ds_str s' = take index (ds_str s) @ take n r @ drop index (ds_str s)"
proof (cases "index = ds_size s")
  case True
  with ds_cat_n_props[OF assms(1,3)] length_ds_str[OF assms(1)] show ?thesis
    by (auto simp: ds_insert_n_def)
next
  case False
  have dv: "dv_inv s" using assms by (simp add: ds_inv_def)
  have sz: "dv_size s \<noteq> 0" "index \<le> dv_size s"
    using False assms(2) by (auto simp: ds_size_def split: if_splits)
  obtain v where v: "dv_insert s index n = Inr (v, index)" "dv_inv (dv_memcpy v index (take n r))"
    "dv_list (dv_memcpy v index (take n r)) = take index (dv_list s) @ take n r @ drop index (dv_list s)"
    using dv_insert_props[OF dv sz(2), of "take n r" n] assms(3) by auto
  have "dv_list (dv_memcpy v index (take n r))
      = (take index (ds_str s) @ take n r @ drop index (ds_str s)) @ [NUL]"
    using v(3) dv_list_nonempty[OF assms(1) sz(1)] length_ds_str[OF assms(1)] assms(2) by simp
  from ds_of_list[OF v(2) this] show ?thesis
    using v(1) assms False by (simp add: ds_insert_n_def)
qed

section \<open>The interface of code that builds strings\<close>

text \<open>
  \<open>HexEncode\<close>, \<open>HexDecode\<close>, \<open>RandomData\<close> and the path and match string builders write
  a string with \<^verbatim>\<open>ds_cat\<close> and \<^verbatim>\<open>ds_cat_char\<close>. The pieces they write, in order, are the
  string they build.
\<close>

locale char_sink =
  fixes empty :: 's
    and cat_char :: "'s \<Rightarrow> char \<Rightarrow> 's"
    and cat :: "'s \<Rightarrow> string \<Rightarrow> nat \<Rightarrow> 's res"
    and str :: "'s \<Rightarrow> string"
    and invar :: "'s \<Rightarrow> bool"
  assumes invar_empty: "invar empty" and str_empty: "str empty = []"
    and invar_cat_char: "invar s \<Longrightarrow> invar (cat_char s c)"
    and str_cat_char: "invar s \<Longrightarrow> str (cat_char s c) = str s @ [c]"
    and cat_ok: "invar s \<Longrightarrow> n \<le> length r \<Longrightarrow>
          \<exists>s'. cat s r n = Inr s' \<and> invar s' \<and> str s' = str s @ take n r"
begin

lemma foldl_cat_char:
  "invar s \<Longrightarrow> invar (foldl cat_char s cs) \<and> str (foldl cat_char s cs) = str s @ cs"
  by (induction cs arbitrary: s) (simp_all add: invar_cat_char str_cat_char)

lemma cat_is_foldl:
  assumes "invar s"
  shows "\<exists>s'. cat s r (length r) = Inr s' \<and> str s' = str (foldl cat_char s r)"
  using cat_ok[OF assms, of "length r" r] foldl_cat_char[OF assms, of r] by auto

lemma build_from_empty: "str (foldl cat_char empty cs) = cs"
  using foldl_cat_char[OF invar_empty] str_empty by simp

end

interpretation ds: char_sink dv_init ds_cat_char ds_cat_n ds_str ds_inv
  by unfold_locales (simp_all add: ds_inv_empty ds_cat_char_props ds_cat_n_props)

end
