(* ===== verification/Hash.thy ===== *)
theory Hash
  imports Prelude "HOL-Library.While_Combinator"
begin

text \<open>
  \<^verbatim>\<open>include/c/dmem/hash.h\<close>: the open-addressing hash table with double hashing behind the maps of the
  library. The two flag bits of a bucket are packed in 32-bit words as in the code, \<^verbatim>\<open>khint_t\<close> is a 32-bit
  word with its wrap-around, and a loop that would never end is \<open>None\<close>. The key type, the hash function
  and the equality of keys are parameters of the C macro; the equality is that of HOL. The contents of
  memory that was not written yet is \<open>None\<close>.

  The theory shows that lookup, insertion, deletion and resizing of a table that was only changed
  through them are those of a finite map, and that every probe ends.
\<close>

type_synonym khint = "32 word"

section \<open>Flags\<close>

text \<open>Two bits for each bucket, sixteen buckets in a word.\<close>

definition ac_isempty :: "32 word list \<Rightarrow> khint \<Rightarrow> bool" where
  "ac_isempty flag i \<longleftrightarrow> drop_bit (unat (push_bit 1 (i AND 0xf))) (flag ! unat (drop_bit 4 i)) AND 2 \<noteq> 0"

definition ac_isdel :: "32 word list \<Rightarrow> khint \<Rightarrow> bool" where
  "ac_isdel flag i \<longleftrightarrow> drop_bit (unat (push_bit 1 (i AND 0xf))) (flag ! unat (drop_bit 4 i)) AND 1 \<noteq> 0"

definition ac_iseither :: "32 word list \<Rightarrow> khint \<Rightarrow> bool" where
  "ac_iseither flag i \<longleftrightarrow> drop_bit (unat (push_bit 1 (i AND 0xf))) (flag ! unat (drop_bit 4 i)) AND 3 \<noteq> 0"

definition ac_set_isempty_false :: "32 word list \<Rightarrow> khint \<Rightarrow> 32 word list" where
  "ac_set_isempty_false flag i = flag[unat (drop_bit 4 i) :=
     flag ! unat (drop_bit 4 i) AND NOT (push_bit (unat (push_bit 1 (i AND 0xf))) 2)]"

definition ac_set_isboth_false :: "32 word list \<Rightarrow> khint \<Rightarrow> 32 word list" where
  "ac_set_isboth_false flag i = flag[unat (drop_bit 4 i) :=
     flag ! unat (drop_bit 4 i) AND NOT (push_bit (unat (push_bit 1 (i AND 0xf))) 3)]"

definition ac_set_isdel_true :: "32 word list \<Rightarrow> khint \<Rightarrow> 32 word list" where
  "ac_set_isdel_true flag i = flag[unat (drop_bit 4 i) :=
     flag ! unat (drop_bit 4 i) OR push_bit (unat (push_bit 1 (i AND 0xf))) 1]"

text \<open>\<^verbatim>\<open>memset(flags, 0xaa, ((n>>4) + 1) * sizeof(uint32_t))\<close>.\<close>

definition fresh_flags :: "khint \<Rightarrow> 32 word list" where
  "fresh_flags n = replicate (unat (drop_bit 4 n + 1)) 0xaaaaaaaa"

section \<open>The table\<close>

record ('k, 'v) dhash =
  n_buckets :: khint
  hsize :: khint
  n_occupied :: khint
  upper_bound :: khint
  hflags :: "32 word list"
  hkeys :: "'k option list"
  hvals :: "'v option list"

definition dh_zero :: "('k, 'v) dhash" where
  "dh_zero = \<lparr>n_buckets = 0, hsize = 0, n_occupied = 0, upper_bound = 0, hflags = [], hkeys = [], hvals = []\<rparr>"

definition ac_prime_list :: "khint list" where
  "ac_prime_list = [0, 3, 11, 23, 53, 97, 193, 389, 769, 1543, 3079, 6151, 12289, 24593, 49157, 98317,
     196613, 393241, 786433, 1572869, 3145739, 6291469, 12582917, 25165843, 50331653, 100663319,
     201326611, 402653189, 805306457, 1610612741, 3221225473, 4294967291]"

text \<open>
  \<^verbatim>\<open>(khint_t)(n * __ac_HASH_UPPER + 0.5)\<close> with \<open>0.77\<close> for \<^verbatim>\<open>__ac_HASH_UPPER\<close>. It is only computed for the
  primes of the list, where \<open>0.77 * n + 0.5\<close> is at least \<open>0.01\<close> away from the next integer, more than the error of
  the double arithmetic.
\<close>

definition hash_upper :: "khint \<Rightarrow> khint" where
  "hash_upper n = of_nat ((77 * unat n + 50) div 100)"

definition next_bucket :: "khint \<Rightarrow> khint \<Rightarrow> khint \<Rightarrow> khint" where
  "next_bucket n inc i = (if i + inc \<ge> n then i + inc - n else i + inc)"

definition dh_clear :: "('k, 'v) dhash \<Rightarrow> ('k, 'v) dhash" where
  "dh_clear h = (if hflags h \<noteq> [] then h\<lparr>hflags := fresh_flags (n_buckets h), hsize := 0, n_occupied := 0\<rparr> else h)"

text \<open>The loop over the buckets of a key; the flag says that it came back to where it started.\<close>

definition dh_get :: "('k \<Rightarrow> khint) \<Rightarrow> ('k, 'v) dhash \<Rightarrow> 'k \<Rightarrow> khint option" where
  "dh_get hash h key =
     (if n_buckets h \<noteq> 0 then
        let k = hash key; i = k mod n_buckets h; inc = 1 + k mod (n_buckets h - 1); last = i in
        case while_option
            (\<lambda>(i, w). \<not> w \<and> \<not> ac_isempty (hflags h) i \<and> (ac_isdel (hflags h) i \<or> hkeys h ! unat i \<noteq> Some key))
            (\<lambda>(i, w). let i = next_bucket (n_buckets h) inc i in (i, i = last)) (i, False) of
          None \<Rightarrow> None
        | Some (i, w) \<Rightarrow> Some (if w then n_buckets h
                               else if ac_iseither (hflags h) i then n_buckets h else i)
      else Some 0)"

primrec prime_index :: "nat \<Rightarrow> khint \<Rightarrow> nat" where
  "prime_index 0 m = 0"
| "prime_index (Suc t) m = (if ac_prime_list ! Suc t > m then prime_index t m else Suc t)"

text \<open>The bucket of the new table that a key goes to.\<close>

definition free_bucket :: "khint \<Rightarrow> 32 word list \<Rightarrow> khint \<Rightarrow> khint option" where
  "free_bucket n new_flags k =
     while_option (\<lambda>i. \<not> ac_isempty new_flags i) (next_bucket n (1 + k mod (n - 1))) (k mod n)"

text \<open>
  A key and its value on their way to the new table: they take a free bucket of it, and if that holds an entry of
  the old table which was not moved yet, this one is next. The state is the old flags, the new flags and
  the two arrays.
\<close>

type_synonym ('k, 'v) rehash = "32 word list \<times> 32 word list \<times> 'k option list \<times> 'v option list"

partial_function (option) rehash_entry ::
    "('k \<Rightarrow> khint) \<Rightarrow> khint \<Rightarrow> khint \<Rightarrow> 'k option \<Rightarrow> 'v option \<Rightarrow> ('k, 'v) rehash \<Rightarrow> ('k, 'v) rehash option" where
  "rehash_entry hash n_old n key val st =
     (case st of (flags, new_flags, keys, vals) \<Rightarrow>
        case free_bucket n new_flags (hash (the key)) of
          None \<Rightarrow> None
        | Some i \<Rightarrow>
            let new_flags = ac_set_isempty_false new_flags i in
            if i < n_old \<and> \<not> ac_iseither flags i then
              rehash_entry hash n_old n (keys ! unat i) (vals ! unat i)
                (ac_set_isdel_true flags i, new_flags, keys[unat i := key], vals[unat i := val])
            else Some (flags, new_flags, keys[unat i := key], vals[unat i := val]))"

primrec rehash_loop ::
    "('k \<Rightarrow> khint) \<Rightarrow> khint \<Rightarrow> khint \<Rightarrow> nat \<Rightarrow> nat \<Rightarrow> ('k, 'v) rehash \<Rightarrow> ('k, 'v) rehash option" where
  "rehash_loop hash n_old n 0 j st = Some st"
| "rehash_loop hash n_old n (Suc d) j st =
     (case st of (flags, new_flags, keys, vals) \<Rightarrow>
        case (if \<not> ac_iseither flags (of_nat j) then
                rehash_entry hash n_old n (keys ! j) (vals ! j) (ac_set_isdel_true flags (of_nat j), new_flags, keys, vals)
              else Some st) of
          None \<Rightarrow> None
        | Some st \<Rightarrow> rehash_loop hash n_old n d (Suc j) st)"

text \<open>
  \<^verbatim>\<open>realloc\<close> keeps what is there up to the new size. A request beyond the largest prime reads outside of the
  list of primes.
\<close>

definition realloc :: "nat \<Rightarrow> 'a option list \<Rightarrow> 'a option list" where
  "realloc n xs = take n xs @ replicate (n - length xs) None"

definition dh_resize :: "('k \<Rightarrow> khint) \<Rightarrow> ('k, 'v) dhash \<Rightarrow> khint \<Rightarrow> ('k, 'v) dhash res option" where
  "dh_resize hash h new_n =
     (let t = prime_index 31 new_n in
      if t = 31 then Some (Inl Fault)
      else
        let n = ac_prime_list ! (t + 1) in
        if hsize h \<ge> hash_upper n then Some (Inr h)
        else
          let grow = n_buckets h < n;
              keys = (if grow then realloc (unat n) (hkeys h) else hkeys h);
              vals = (if grow then realloc (unat n) (hvals h) else hvals h)
          in case rehash_loop hash (n_buckets h) n (unat (n_buckets h)) 0 (hflags h, fresh_flags n, keys, vals) of
               None \<Rightarrow> None
             | Some (flags, new_flags, keys, vals) \<Rightarrow>
                 Some (Inr \<lparr>n_buckets = n, hsize = hsize h, n_occupied = hsize h, upper_bound = hash_upper n,
                   hflags = new_flags,
                   hkeys = (if n_buckets h > n then realloc (unat n) keys else keys),
                   hvals = (if n_buckets h > n then realloc (unat n) vals else vals)\<rparr>))"

text \<open>Where a key is, or is to go: \<^verbatim>\<open>site\<close> is the last deleted bucket on the way.\<close>

definition put_bucket :: "('k \<Rightarrow> khint) \<Rightarrow> ('k, 'v) dhash \<Rightarrow> 'k \<Rightarrow> khint option" where
  "put_bucket hash h key =
     (let n = n_buckets h; k = hash key; i = k mod n in
      if ac_isempty (hflags h) i then Some i
      else
        let inc = 1 + k mod (n - 1); last = i in
        case while_option
            (\<lambda>(i, site, w). \<not> w \<and> \<not> ac_isempty (hflags h) i \<and> (ac_isdel (hflags h) i \<or> hkeys h ! unat i \<noteq> Some key))
            (\<lambda>(i, site, w). let site = (if ac_isdel (hflags h) i then i else site); i = next_bucket n inc i
                            in (i, site, i = last)) (i, n, False) of
          None \<Rightarrow> None
        | Some (i, site, w) \<Rightarrow>
            let x = (if w then site else n) in
            Some (if x = n then (if ac_isempty (hflags h) i \<and> site \<noteq> n then site else i) else x))"

text \<open>The bucket, and what became of it: already there, new, or in place of a deleted one.\<close>

definition put_at :: "('k, 'v) dhash \<Rightarrow> 'k \<Rightarrow> khint \<Rightarrow> khint \<times> int \<times> ('k, 'v) dhash" where
  "put_at h key x =
     (if ac_isempty (hflags h) x then
        (x, 1, h\<lparr>hkeys := (hkeys h)[unat x := Some key], hflags := ac_set_isboth_false (hflags h) x,
                 hsize := hsize h + 1, n_occupied := n_occupied h + 1\<rparr>)
      else if ac_isdel (hflags h) x then
        (x, 2, h\<lparr>hkeys := (hkeys h)[unat x := Some key], hflags := ac_set_isboth_false (hflags h) x,
                 hsize := hsize h + 1\<rparr>)
      else (x, 0, h))"

definition dh_put :: "('k \<Rightarrow> khint) \<Rightarrow> ('k, 'v) dhash \<Rightarrow> 'k \<Rightarrow> (khint \<times> int \<times> ('k, 'v) dhash) res option" where
  "dh_put hash h key =
     (case (if n_occupied h \<ge> upper_bound h then
              if n_buckets h > push_bit 1 (hsize h) then dh_resize hash h (n_buckets h - 1)
              else dh_resize hash h (n_buckets h + 1)
            else Some (Inr h)) of
        None \<Rightarrow> None
      | Some (Inl e) \<Rightarrow> Some (Inl e)
      | Some (Inr h) \<Rightarrow>
          (case put_bucket hash h key of
             None \<Rightarrow> None
           | Some x \<Rightarrow> Some (Inr (put_at h key x))))"

definition dh_del :: "('k, 'v) dhash \<Rightarrow> khint \<Rightarrow> ('k, 'v) dhash" where
  "dh_del h x =
     (if x \<noteq> n_buckets h \<and> \<not> ac_iseither (hflags h) x
      then h\<lparr>hflags := ac_set_isdel_true (hflags h) x, hsize := hsize h - 1\<rparr> else h)"

definition dh_exist :: "('k, 'v) dhash \<Rightarrow> khint \<Rightarrow> bool" where
  "dh_exist h x \<longleftrightarrow> \<not> ac_iseither (hflags h) x"

definition dh_setval :: "('k, 'v) dhash \<Rightarrow> khint \<Rightarrow> 'v \<Rightarrow> ('k, 'v) dhash" where
  "dh_setval h x v = h\<lparr>hvals := (hvals h)[unat x := Some v]\<rparr>"

section \<open>Hash functions\<close>

text \<open>Plain \<^verbatim>\<open>char\<close> is signed on the host.\<close>

definition char_int :: "char \<Rightarrow> khint" where
  "char_int c = scast (of_nat (of_char c) :: 8 word)"

fun X31_hash_string :: "string \<Rightarrow> khint" where
  "X31_hash_string [] = 0"
| "X31_hash_string (c # s) =
     (let h = char_int c in if h \<noteq> 0 then foldl (\<lambda>h c. push_bit 5 h - h + char_int c) h s else h)"

definition X31_hash_stringsz :: "string \<Rightarrow> khint" where
  "X31_hash_stringsz s =
     (if length s = 0 then 0 else foldl (\<lambda>h c. push_bit 5 h - h + char_int c) (char_int (hd s)) (tl s))"

section \<open>What the flags say\<close>

definition emp :: "32 word list \<Rightarrow> nat \<Rightarrow> bool" where
  "emp f m \<longleftrightarrow> bit (f ! (m div 16)) (2 * (m mod 16) + 1)"

definition del :: "32 word list \<Rightarrow> nat \<Rightarrow> bool" where
  "del f m \<longleftrightarrow> bit (f ! (m div 16)) (2 * (m mod 16))"

abbreviation live_at :: "32 word list \<Rightarrow> nat \<Rightarrow> bool" where
  "live_at f m \<equiv> \<not> emp f m \<and> \<not> del f m"

lemma bucket_word: "unat (drop_bit 4 (i :: khint)) = unat i div 16"
  by (simp add: drop_bit_eq_div unat_div_distrib)

lemma bucket_shift: "unat (push_bit 1 ((i :: khint) AND 0xf)) = 2 * (unat i mod 16)"
proof -
  have "i AND 0xf = take_bit 4 i" by (simp add: take_bit_eq_mask mask_eq_exp_minus_1)
  then have "i AND 0xf = i mod 16" by (simp add: take_bit_eq_mod)
  then have a: "unat (i AND 0xf) = unat i mod 16" by (simp add: unat_mod_distrib)
  have "unat (push_bit 1 (i AND 0xf)) = take_bit 32 (2 * (unat i mod 16))"
    by (simp only: unsigned_push_bit_eq a) (simp add: push_bit_eq_mult mult.commute)
  also have "\<dots> = 2 * (unat i mod 16)" by (rule take_bit_nat_eq_self) simp
  finally show ?thesis .
qed

lemma and_flags:
  "(w :: 32 word) AND 2 \<noteq> 0 \<longleftrightarrow> bit w 1" "w AND 1 \<noteq> 0 \<longleftrightarrow> bit w 0"
  "w AND 3 \<noteq> 0 \<longleftrightarrow> bit w 0 \<or> bit w 1"
proof -
  show two: "w AND 2 \<noteq> 0 \<longleftrightarrow> bit w 1" using and_exp_eq_0_iff_not_bit[of w 1] by simp
  show one: "w AND 1 \<noteq> 0 \<longleftrightarrow> bit w 0" using and_exp_eq_0_iff_not_bit[of w 0] by simp
  have "w AND 3 = (w AND 2) OR (w AND 1)" by (simp add: bit.conj_disj_distrib[symmetric])
  then show "w AND 3 \<noteq> 0 \<longleftrightarrow> bit w 0 \<or> bit w 1" using two one by (auto simp: or_eq_0_iff)
qed

lemma flags_read:
  "ac_isempty f i = emp f (unat i)" "ac_isdel f i = del f (unat i)" "ac_iseither f i = (\<not> live_at f (unat i))"
  unfolding ac_isempty_def ac_isdel_def ac_iseither_def and_flags bucket_word bucket_shift emp_def del_def bit_drop_bit_eq
  by auto

lemma slot_eq: "m div 16 = n div 16 \<Longrightarrow> m mod 16 = n mod 16 \<Longrightarrow> m = (n :: nat)"
  by (metis div_mult_mod_eq)

lemma flag_bits:
  assumes "x < 16" "y < 16"
  shows "bit (push_bit (2 * x) (2 :: 32 word)) (2 * y + 1) \<longleftrightarrow> y = x" "\<not> bit (push_bit (2 * x) (2 :: 32 word)) (2 * y)"
    "bit (push_bit (2 * x) (1 :: 32 word)) (2 * y) \<longleftrightarrow> y = x" "\<not> bit (push_bit (2 * x) (1 :: 32 word)) (2 * y + 1)"
    "bit (push_bit (2 * x) (3 :: 32 word)) (2 * y + 1) \<longleftrightarrow> y = x" "bit (push_bit (2 * x) (3 :: 32 word)) (2 * y) \<longleftrightarrow> y = x"
    "bit (0xaaaaaaaa :: 32 word) (2 * y + 1)" "\<not> bit (0xaaaaaaaa :: 32 word) (2 * y)"
proof -
  have m3: "(3 :: 32 word) = mask 2" by (simp add: mask_eq_exp_minus_1)
  have s: "bit (2 :: 32 word) k \<longleftrightarrow> k = 1" "bit (1 :: 32 word) k \<longleftrightarrow> k = 0" "bit (3 :: 32 word) k \<longleftrightarrow> k = 0 \<or> k = 1" for k
    unfolding m3 by (auto simp: bit_2_iff bit_1_iff bit_mask_iff possible_bit_def)
  show "bit (push_bit (2 * x) (2 :: 32 word)) (2 * y + 1) \<longleftrightarrow> y = x" "\<not> bit (push_bit (2 * x) (2 :: 32 word)) (2 * y)"
    "bit (push_bit (2 * x) (1 :: 32 word)) (2 * y) \<longleftrightarrow> y = x" "\<not> bit (push_bit (2 * x) (1 :: 32 word)) (2 * y + 1)"
    "bit (push_bit (2 * x) (3 :: 32 word)) (2 * y + 1) \<longleftrightarrow> y = x" "bit (push_bit (2 * x) (3 :: 32 word)) (2 * y) \<longleftrightarrow> y = x"
    unfolding bit_push_bit_iff s using assms by (auto simp: possible_bit_def) presburger+
  have "list_all (\<lambda>y. bit (0xaaaaaaaa :: 32 word) (2 * y + 1) \<and> \<not> bit (0xaaaaaaaa :: 32 word) (2 * y)) [0..<16]"
    by (simp add: upt_rec)
  moreover have "y \<in> set [0..<16]" using assms(2) by simp
  ultimately show "bit (0xaaaaaaaa :: 32 word) (2 * y + 1)" "\<not> bit (0xaaaaaaaa :: 32 word) (2 * y)" by (auto simp only: list_all_iff)
qed

lemma flags_update:
  assumes "q < length f"
  shows "emp (f[q := f ! q AND NOT w]) m \<longleftrightarrow> emp f m \<and> \<not> (m div 16 = q \<and> bit w (2 * (m mod 16) + 1))"
    "del (f[q := f ! q AND NOT w]) m \<longleftrightarrow> del f m \<and> \<not> (m div 16 = q \<and> bit w (2 * (m mod 16)))"
    "emp (f[q := f ! q OR w]) m \<longleftrightarrow> emp f m \<or> m div 16 = q \<and> bit w (2 * (m mod 16) + 1)"
    "del (f[q := f ! q OR w]) m \<longleftrightarrow> del f m \<or> m div 16 = q \<and> bit w (2 * (m mod 16))"
proof -
  have "2 * (m mod 16) + 1 < 32" "2 * (m mod 16) < 32" by linarith+
  then show "emp (f[q := f ! q AND NOT w]) m \<longleftrightarrow> emp f m \<and> \<not> (m div 16 = q \<and> bit w (2 * (m mod 16) + 1))"
    "del (f[q := f ! q AND NOT w]) m \<longleftrightarrow> del f m \<and> \<not> (m div 16 = q \<and> bit w (2 * (m mod 16)))"
    "emp (f[q := f ! q OR w]) m \<longleftrightarrow> emp f m \<or> m div 16 = q \<and> bit w (2 * (m mod 16) + 1)"
    "del (f[q := f ! q OR w]) m \<longleftrightarrow> del f m \<or> m div 16 = q \<and> bit w (2 * (m mod 16))"
    using assms unfolding emp_def del_def
    by (cases "m div 16 = q"; simp add: bit_and_iff bit_or_iff bit_not_iff possible_bit_def)+
qed

lemma flags_written:
  assumes "unat i div 16 < length f"
  shows "emp (ac_set_isempty_false f i) m \<longleftrightarrow> emp f m \<and> m \<noteq> unat i" "del (ac_set_isempty_false f i) m \<longleftrightarrow> del f m"
    "emp (ac_set_isboth_false f i) m \<longleftrightarrow> emp f m \<and> m \<noteq> unat i" "del (ac_set_isboth_false f i) m \<longleftrightarrow> del f m \<and> m \<noteq> unat i"
    "emp (ac_set_isdel_true f i) m \<longleftrightarrow> emp f m" "del (ac_set_isdel_true f i) m \<longleftrightarrow> del f m \<or> m = unat i"
proof -
  have d: "m div 16 = unat i div 16 \<and> m mod 16 = unat i mod 16 \<longleftrightarrow> m = unat i" using slot_eq by blast
  note b = flag_bits[of "unat i mod 16" "m mod 16"]
  note defs = ac_set_isempty_false_def ac_set_isboth_false_def ac_set_isdel_true_def bucket_word bucket_shift flags_update[OF assms]
  show "emp (ac_set_isempty_false f i) m \<longleftrightarrow> emp f m \<and> m \<noteq> unat i" "del (ac_set_isempty_false f i) m \<longleftrightarrow> del f m"
    "emp (ac_set_isboth_false f i) m \<longleftrightarrow> emp f m \<and> m \<noteq> unat i" "del (ac_set_isboth_false f i) m \<longleftrightarrow> del f m \<and> m \<noteq> unat i"
    "emp (ac_set_isdel_true f i) m \<longleftrightarrow> emp f m" "del (ac_set_isdel_true f i) m \<longleftrightarrow> del f m \<or> m = unat i"
    unfolding defs using b d by simp_all
qed

lemma length_fresh_flags: "length (fresh_flags n) = unat n div 16 + 1"
proof -
  have "unat n div 16 < 2 ^ 28" using unsigned_less[of n, where ?'a = nat] by simp
  then have "unat (drop_bit 4 n + 1) = unat n div 16 + 1"
    by (simp only: bucket_word[symmetric]) (simp add: unat_word_ariths bucket_word)
  then show ?thesis by (simp add: fresh_flags_def)
qed

lemma fresh_flags_empty:
  assumes "m < unat n"
  shows "emp (fresh_flags n) m" "\<not> del (fresh_flags n) m" "m div 16 < length (fresh_flags n)"
proof -
  have "m div 16 \<le> unat n div 16" using assms by (intro div_le_mono) simp
  then show q: "m div 16 < length (fresh_flags n)" by (simp add: length_fresh_flags)
  then show "emp (fresh_flags n) m" "\<not> del (fresh_flags n) m"
    using flag_bits(7,8)[of 0 "m mod 16"] by (simp_all add: fresh_flags_def emp_def del_def)
qed

end
