(* ===== verification/Hash_Probe.thy ===== *)
theory Hash_Probe
  imports Hash
begin

text \<open>
  Double hashing: for the table sizes of the list of primes, the probe sequence of a key visits every bucket
  once before it comes back, and the word arithmetic of the code computes it without wrapping around.
\<close>

section \<open>Probing\<close>

text \<open>The buckets of a key in the order they are probed, and the sizes where this order visits all of them.\<close>

definition pos :: "nat \<Rightarrow> nat \<Rightarrow> nat \<Rightarrow> nat" where
  "pos n k p = (k mod n + p * (1 + k mod (n - 1))) mod n"

definition full_cycle :: "nat \<Rightarrow> bool" where
  "full_cycle n \<longleftrightarrow> 2 < n \<and> (\<forall>c. 0 < c \<and> c < n \<longrightarrow> coprime c n)"

lemma pos_less: "0 < n \<Longrightarrow> pos n k p < n" by (simp add: pos_def)

lemma pos_Suc: "pos n k (Suc p) = (pos n k p + (1 + k mod (n - 1))) mod n"
  unfolding pos_def mult_Suc mod_add_left_eq by (simp add: ac_simps)

lemma step_bounds: "full_cycle n \<Longrightarrow> 0 < 1 + k mod (n - 1) \<and> 1 + k mod (n - 1) < n"
  using mod_less_divisor[of "n - 1" k] by (auto simp: full_cycle_def simp del: mod_less_divisor)

lemma pos_inj:
  assumes "full_cycle n" and "p \<le> q" "q < n" and "pos n k p = pos n k q"
  shows "p = q"
proof -
  let ?c = "1 + k mod (n - 1)"
  have co: "coprime ?c n" using step_bounds[OF assms(1), of k] assms(1) by (simp add: full_cycle_def)
  have "(k mod n + q * ?c) mod n = (k mod n + p * ?c) mod n" using assms(4) by (simp add: pos_def)
  then have "n dvd (k mod n + q * ?c) - (k mod n + p * ?c)" by (rule mod_eq_dvd_iff_nat[THEN iffD1, rotated]) (use mult_le_mono1[OF assms(2), of ?c] in linarith)
  then have "n dvd (q - p) * ?c" by (simp only: diff_mult_distrib add_diff_cancel_left)
  then have "n dvd q - p" using co by (metis coprime_commute coprime_dvd_mult_left_iff)
  then show ?thesis using assms(2,3) by (metis diff_diff_cancel diff_is_0_eq' dvd_imp_le le_neq_implies_less less_imp_diff_less linorder_not_less zero_less_diff)
qed

lemma pos_surj:
  assumes "full_cycle n" and "i < n"
  shows "\<exists>p<n. pos n k p = i"
proof -
  have "inj_on (pos n k) {..<n}"
    by (rule inj_onI) (metis assms(1) lessThan_iff linorder_le_cases pos_inj)
  moreover have "pos n k ` {..<n} \<subseteq> {..<n}" using assms(2) by (auto intro: pos_less)
  ultimately have "pos n k ` {..<n} = {..<n}" by (simp add: endo_inj_surj)
  then show ?thesis using assms(2) by (metis imageE lessThan_iff)
qed

lemma pos_period: "pos n k n = pos n k 0"
  unfolding pos_def by (metis mod_mult_self2 mult_zero_left add_0_right mult.commute)

lemma full_cycle_by_trial:
  assumes "2 < n" and "\<forall>d. 2 \<le> d \<and> d < b \<longrightarrow> \<not> d dvd n" and "n < b * b"
  shows "full_cycle n"
  unfolding full_cycle_def
proof (intro conjI allI impI)
  fix c assume c: "0 < c \<and> c < n"
  show "coprime c n"
  proof (rule ccontr)
    assume "\<not> coprime c n"
    define g where "g = gcd c n"
    have g: "g dvd n" "g \<noteq> 1" "g < n" using \<open>\<not> coprime c n\<close> c le_less_trans[OF gcd_le1_nat[of c n]]
      by (auto simp: g_def coprime_iff_gcd_eq_1)
    then obtain e where e: "n = g * e" by (auto elim: dvdE)
    have "2 \<le> g" using g assms(1) by (cases g) auto
    moreover have "e \<noteq> 0" "e \<noteq> 1" using e g assms(1) by auto
    then have "2 \<le> e" by simp
    moreover have "g < b \<or> e < b" using e assms(3) by (metis mult_le_mono not_less)
    ultimately show False using assms(2) e by (metis dvd_triv_left dvd_triv_right)
  qed
qed (rule assms(1))

lemma trial:
  assumes "list_all (\<lambda>d. n mod d \<noteq> 0) [2..<b]" shows "\<forall>d. 2 \<le> d \<and> d < b \<longrightarrow> \<not> d dvd (n :: nat)"
  using assms by (auto simp: list_all_iff dvd_eq_mod_eq_0)

text \<open>The sizes up to \<open>98317\<close>, for seventy-five thousand entries.\<close>

lemma prime_sizes:
  "full_cycle 3"
  "full_cycle 11"
  "full_cycle 23"
  "full_cycle 53"
  "full_cycle 97"
  "full_cycle 193"
  "full_cycle 389"
  "full_cycle 769"
  "full_cycle 1543"
  "full_cycle 3079"
  "full_cycle 6151"
  "full_cycle 12289"
  "full_cycle 24593"
  "full_cycle 49157"
  "full_cycle 98317"
  subgoal by (rule full_cycle_by_trial[OF _ trial, of _ 2]; simp)
  subgoal by (rule full_cycle_by_trial[OF _ trial, of _ 4]; simp)
  subgoal by (rule full_cycle_by_trial[OF _ trial, of _ 5]; simp)
  subgoal by (rule full_cycle_by_trial[OF _ trial, of _ 8]; simp)
  subgoal by (rule full_cycle_by_trial[OF _ trial, of _ 10]; simp)
  subgoal by (rule full_cycle_by_trial[OF _ trial, of _ 14]; simp)
  subgoal by (rule full_cycle_by_trial[OF _ trial, of _ 20]; simp)
  subgoal by (rule full_cycle_by_trial[OF _ trial, of _ 28]; simp)
  subgoal by (rule full_cycle_by_trial[OF _ trial, of _ 40]; simp)
  subgoal by (rule full_cycle_by_trial[OF _ trial, of _ 56]; simp)
  subgoal by (rule full_cycle_by_trial[OF _ trial, of _ 79]; simp)
  subgoal by (rule full_cycle_by_trial[OF _ trial, of _ 111]; simp)
  subgoal by (rule full_cycle_by_trial[OF _ trial, of _ 157]; simp)
  subgoal by (rule full_cycle_by_trial[OF _ trial, of _ 222]; simp)
  subgoal by (rule full_cycle_by_trial[OF _ trial, of _ 314]; simp)
  done

lemma next_bucket_mod:
  fixes n :: khint
  assumes "unat n < 2 ^ 31" and "unat i < unat n" and "unat inc < unat n"
  shows "unat (next_bucket n inc i) = (unat i + unat inc) mod unat n"
proof -
  have "unat (i + inc) = unat i + unat inc" using assms by (subst unat_add_lem[THEN iffD1]) (simp_all add: unat_plus_if' )
  moreover have "(unat i + unat inc) mod unat n = (if unat i + unat inc < unat n then unat i + unat inc else unat i + unat inc - unat n)"
    using assms by (simp add: mod_if)
  ultimately show ?thesis using assms by (auto simp: next_bucket_def word_le_nat_alt unat_sub word_less_nat_alt)
qed

lemma start_step:
  fixes n k :: khint
  assumes "full_cycle (unat n)"
  shows "unat (k mod n) = pos (unat n) (unat k) 0" and "unat (1 + k mod (n - 1)) = 1 + unat k mod (unat n - 1)"
proof -
  show "unat (k mod n) = pos (unat n) (unat k) 0" by (simp add: pos_def unat_mod_distrib)
  have n: "2 < unat n" using assms by (simp add: full_cycle_def)
  then have "unat (n - 1) = unat n - 1" by (subst unat_sub) (auto simp: word_le_nat_alt)
  then have "unat (k mod (n - 1)) = unat k mod (unat n - 1)" by (simp add: unat_mod_distrib)
  moreover have "1 + unat k mod (unat n - 1) < unat n" using step_bounds[OF assms] by blast
  ultimately show "unat (1 + k mod (n - 1)) = 1 + unat k mod (unat n - 1)"
    using unsigned_less[of n, where ?'a = nat] by (subst unat_word_ariths) simp
qed

definition probe_at :: "khint \<Rightarrow> khint \<Rightarrow> nat \<Rightarrow> khint" where
  "probe_at n k m = (next_bucket n (1 + k mod (n - 1)) ^^ m) (k mod n)"

lemma probe_at_simps: "probe_at n k 0 = k mod n" "probe_at n k (Suc m) = next_bucket n (1 + k mod (n - 1)) (probe_at n k m)"
  by (simp_all add: probe_at_def)

lemma probe_at_pos:
  assumes "full_cycle (unat n)" and "unat n < 2 ^ 31"
  shows "unat (probe_at n k m) = pos (unat n) (unat k) m"
proof (induction m)
  case 0
  show ?case by (simp only: probe_at_simps start_step(1)[OF assms(1)])
next
  case (Suc m)
  have "unat (probe_at n k m) < unat n" "unat (1 + k mod (n - 1)) < unat n"
    using Suc assms(1) step_bounds[OF assms(1), of "unat k"] pos_less by (simp_all add: start_step full_cycle_def)
  from next_bucket_mod[OF assms(2) this] Suc show ?case
    by (simp only: probe_at_simps start_step(2)[OF assms(1)] pos_Suc)
qed

lemma probe_less: "full_cycle (unat n) \<Longrightarrow> unat n < 2 ^ 31 \<Longrightarrow> probe_at n k m < n"
  by (simp add: word_less_nat_alt probe_at_pos pos_less full_cycle_def)

lemma probe_back:
  assumes "full_cycle (unat n)" and "unat n < 2 ^ 31" and "m \<le> unat n"
  shows "probe_at n k m = probe_at n k 0 \<longleftrightarrow> m = 0 \<or> m = unat n"
proof -
  have "probe_at n k m = probe_at n k 0 \<longleftrightarrow> pos (unat n) (unat k) m = pos (unat n) (unat k) 0"
    by (metis assms(1,2) probe_at_pos word_unat_eq_iff)
  also have "\<dots> \<longleftrightarrow> m = 0 \<or> m = unat n"
    using pos_inj[OF assms(1), of 0 m "unat k"] pos_period[of "unat n" "unat k"] assms(3) by (cases "m = unat n") auto
  finally show ?thesis .
qed

lemma while_steps:
  assumes "\<And>j. j < m \<Longrightarrow> b ((c ^^ j) s)" and "\<not> b ((c ^^ m) s)"
  shows "while_option b c s = Some ((c ^^ m) s)"
proof -
  have "(LEAST k. \<not> b ((c ^^ k) s)) = m" by (rule Least_equality) (use assms in \<open>auto simp: not_less[symmetric]\<close>)
  then show ?thesis using assms(2) by (auto simp: while_option_def)
qed

end
