(* ===== verification/Hash_Map.thy ===== *)
theory Hash_Map
  imports Hash_Probe
begin

text \<open>
  The invariant of a hash table, the map it stands for, and what lookup, insertion and deletion do to them.
\<close>

section \<open>The invariant\<close>

text \<open>
  Every key sits on its own probe sequence with no empty bucket in front of it, no key sits there twice, and the
  counters count.
\<close>

definition placed :: "('k \<Rightarrow> khint) \<Rightarrow> nat \<Rightarrow> 32 word list \<Rightarrow> 'k option list \<Rightarrow> bool" where
  "placed hash n f keys \<longleftrightarrow> (\<forall>i<n. live_at f i \<longrightarrow> (\<exists>key p. keys ! i = Some key \<and> p < n \<and> pos n (unat (hash key)) p = i
     \<and> (\<forall>q<p. \<not> emp f (pos n (unat (hash key)) q))))"

abbreviation live_set :: "nat \<Rightarrow> 32 word list \<Rightarrow> nat set" where
  "live_set n f \<equiv> {i. i < n \<and> live_at f i}"

definition table_sizes :: "khint set" where
  "table_sizes = {3, 11, 23, 53, 97, 193, 389, 769, 1543, 3079, 6151, 12289, 24593, 49157, 98317}"

definition table :: "('k \<Rightarrow> khint) \<Rightarrow> ('k, 'v) dhash \<Rightarrow> bool" where
  "table hash h \<longleftrightarrow> (let n = unat (n_buckets h); f = hflags h in
     n_buckets h \<in> table_sizes \<and> length f = n div 16 + 1 \<and> length (hkeys h) = n \<and> length (hvals h) = n
     \<and> upper_bound h = hash_upper (n_buckets h) \<and> n_occupied h \<le> upper_bound h
     \<and> unat (hsize h) = card (live_set n f) \<and> unat (n_occupied h) = card {i. i < n \<and> \<not> emp f i}
     \<and> placed hash n f (hkeys h) \<and> inj_on (\<lambda>i. hkeys h ! i) (live_set n f))"

definition hash_inv :: "('k \<Rightarrow> khint) \<Rightarrow> ('k, 'v) dhash \<Rightarrow> bool" where
  "hash_inv hash h \<longleftrightarrow> h = dh_zero \<or> table hash h"

lemma table_size_facts:
  assumes "n \<in> table_sizes"
  shows "full_cycle (unat n)" "unat n < 2 ^ 31" "unat (hash_upper n) < unat n" "0 < unat (hash_upper n)" "3 \<le> unat n"
  using assms prime_sizes by (auto simp: table_sizes_def hash_upper_def)

lemma tableD:
  assumes "table hash h"
  shows "full_cycle (unat (n_buckets h))" "unat (n_buckets h) < 2 ^ 31" "length (hkeys h) = unat (n_buckets h)"
    "length (hvals h) = unat (n_buckets h)" "n_buckets h \<in> table_sizes"
    "placed hash (unat (n_buckets h)) (hflags h) (hkeys h)" "inj_on (\<lambda>i. hkeys h ! i) (live_set (unat (n_buckets h)) (hflags h))"
    "\<And>i. i < unat (n_buckets h) \<Longrightarrow> i div 16 < length (hflags h)"
    "unat (hsize h) = card (live_set (unat (n_buckets h)) (hflags h))"
    "unat (n_occupied h) = card {i. i < unat (n_buckets h) \<and> \<not> emp (hflags h) i}"
    "upper_bound h = hash_upper (n_buckets h)" "n_occupied h \<le> upper_bound h"
  using assms table_size_facts[of "n_buckets h"] by (auto simp: table_def Let_def le_imp_less_Suc div_le_mono)

section \<open>Walking over the buckets of a key\<close>

definition stops :: "('k \<Rightarrow> khint) \<Rightarrow> ('k, 'v) dhash \<Rightarrow> 'k \<Rightarrow> nat \<Rightarrow> bool" where
  "stops hash h key p \<longleftrightarrow> (let i = pos (unat (n_buckets h)) (unat (hash key)) p in
     emp (hflags h) i \<or> \<not> del (hflags h) i \<and> hkeys h ! i = Some key)"

lemma first_stop:
  assumes "\<exists>p<n. stops hash h key p"
  shows "\<exists>m<n. stops hash h key m \<and> (\<forall>j<m. \<not> stops hash h key j)"
proof -
  from assms obtain p where p: "p < n" "stops hash h key p" by blast
  then obtain m where m: "stops hash h key m" "\<forall>j<m. \<not> stops hash h key j"
    using exists_least_iff[of "stops hash h key"] by blast
  have "\<not> p < m" using m(2) p(2) by blast
  then have "m < n" using p(1) by linarith
  then show ?thesis using m by blast
qed

lemma present_stops:
  assumes "table hash h" and "i < unat (n_buckets h)" "live_at (hflags h) i" "hkeys h ! i = Some key"
  shows "\<exists>p < unat (n_buckets h). stops hash h key p \<and> i = pos (unat (n_buckets h)) (unat (hash key)) p
     \<and> (\<forall>j<p. \<not> stops hash h key j)"
proof -
  let ?n = "unat (n_buckets h)" and ?f = "hflags h"
  from tableD(6)[OF assms(1)] assms(2-4) obtain p where
    p: "p < ?n" "pos ?n (unat (hash key)) p = i" "\<forall>q<p. \<not> emp ?f (pos ?n (unat (hash key)) q)"
    by (auto simp: placed_def)
  have "\<not> stops hash h key j" if "j < p" for j
  proof
    assume s: "stops hash h key j"
    let ?j = "pos ?n (unat (hash key)) j"
    have "live_at ?f ?j \<and> hkeys h ! ?j = Some key" using s p(3) that by (auto simp: stops_def Let_def)
    moreover have "?j < ?n" using p(1) by (auto intro: pos_less)
    ultimately have "?j = i" using inj_onD[OF tableD(7)[OF assms(1)], of ?j i] assms(2-4) by simp
    then show False using pos_inj[OF tableD(1)[OF assms(1)], of j p "unat (hash key)"] p(1,2) that by auto
  qed
  moreover have "stops hash h key p" using p(2) assms(3,4) by (simp add: stops_def)
  ultimately show ?thesis using p(1,2) by blast
qed

text \<open>The first stop is the bucket of the key, or the key is not there.\<close>

lemma stop_at_empty:
  assumes "table hash h" and "\<And>j. j < m \<Longrightarrow> \<not> stops hash h key j" and "emp (hflags h) (pos (unat (n_buckets h)) (unat (hash key)) m)"
    and "i < unat (n_buckets h)" "live_at (hflags h) i"
  shows "hkeys h ! i \<noteq> Some key"
proof
  assume "hkeys h ! i = Some key"
  from present_stops[OF assms(1,4,5) this] obtain p where p: "stops hash h key p" "i = pos (unat (n_buckets h)) (unat (hash key)) p"
    "\<forall>j<p. \<not> stops hash h key j" by blast
  have "stops hash h key m" using assms(3) by (simp add: stops_def)
  then have "p = m" using p(1,3) assms(2) by (meson linorder_neqE_nat)
  then show False using p(2) assms(3,5) by simp
qed

abbreviation walk_on :: "('k, 'v) dhash \<Rightarrow> 'k \<Rightarrow> khint \<times> bool \<Rightarrow> bool" where
  "walk_on h key \<equiv> (\<lambda>(i, w). \<not> w \<and> \<not> ac_isempty (hflags h) i \<and> (ac_isdel (hflags h) i \<or> hkeys h ! unat i \<noteq> Some key))"

abbreviation walk_step :: "khint \<Rightarrow> khint \<Rightarrow> khint \<times> bool \<Rightarrow> khint \<times> bool" where
  "walk_step n k \<equiv> (\<lambda>(i, w). let i = next_bucket n (1 + k mod (n - 1)) i in (i, i = k mod n))"

lemma walk_states:
  assumes "full_cycle (unat n)" "unat n < 2 ^ 31" and "m \<le> unat n"
  shows "(walk_step n k ^^ m) (k mod n, False) = (probe_at n k m, m = unat n)"
  using assms(3)
proof (induction m)
  case 0
  then show ?case using assms(1) by (simp add: probe_at_simps full_cycle_def)
next
  case (Suc m)
  then show ?case using probe_back[OF assms(1,2), of "Suc m" k]
    by (simp add: Let_def probe_at_simps(2)[symmetric]) (simp add: probe_at_simps(1))
qed

lemma walk_result:
  assumes "table hash h" and "m \<le> unat (n_buckets h)" and "\<And>j. j < m \<Longrightarrow> \<not> stops hash h key j"
    and "m = unat (n_buckets h) \<or> stops hash h key m"
  shows "while_option (walk_on h key) (walk_step (n_buckets h) (hash key)) (hash key mod n_buckets h, False)
     = Some (probe_at (n_buckets h) (hash key) m, m = unat (n_buckets h))"
proof -
  let ?n = "n_buckets h" and ?k = "hash key"
  note w = walk_states[OF tableD(1,2)[OF assms(1)], of _ ?k]
  note at = probe_at_pos[OF tableD(1,2)[OF assms(1)], of ?k]
  have "while_option (walk_on h key) (walk_step ?n ?k) (?k mod ?n, False) = Some ((walk_step ?n ?k ^^ m) (?k mod ?n, False))"
  proof (rule while_steps)
    fix j assume "j < m"
    with assms(2,3) show "walk_on h key ((walk_step ?n ?k ^^ j) (?k mod ?n, False))"
      by (simp only: w less_imp_le order.strict_trans2) (auto simp: flags_read at stops_def Let_def)
  next
    show "\<not> walk_on h key ((walk_step ?n ?k ^^ m) (?k mod ?n, False))"
      using assms(4) by (simp only: w[OF assms(2)]) (auto simp: flags_read at stops_def Let_def)
  qed
  then show ?thesis by (simp only: w[OF assms(2)])
qed

lemma dh_get_eq:
  assumes "table hash h"
  shows "dh_get hash h key = (case while_option (walk_on h key) (walk_step (n_buckets h) (hash key)) (hash key mod n_buckets h, False) of
      None \<Rightarrow> None
    | Some (i, w) \<Rightarrow> Some (if w then n_buckets h else if \<not> live_at (hflags h) (unat i) then n_buckets h else i))"
proof -
  have "n_buckets h \<noteq> 0" using table_size_facts(5)[OF tableD(5)[OF assms]] by auto
  then show ?thesis by (simp only: dh_get_def Let_def flags_read(3) if_True not_False_eq_True not_not)
qed

lemma dh_get_found:
  assumes "table hash h" and "i < unat (n_buckets h)" "live_at (hflags h) i" "hkeys h ! i = Some key"
  shows "dh_get hash h key = Some (of_nat i)"
proof -
  from present_stops[OF assms] obtain p where p: "p < unat (n_buckets h)" "stops hash h key p"
    "i = pos (unat (n_buckets h)) (unat (hash key)) p" "\<forall>j<p. \<not> stops hash h key j" by blast
  have at: "unat (probe_at (n_buckets h) (hash key) p) = i" unfolding p(3) by (rule probe_at_pos[OF tableD(1,2)[OF assms(1)]])
  have "dh_get hash h key = Some (probe_at (n_buckets h) (hash key) p)"
    unfolding dh_get_eq[OF assms(1)]
    by (subst walk_result[OF assms(1), of p]) (use p at assms(3) in auto)
  then show ?thesis by (simp flip: at)
qed

lemma dh_get_absent:
  assumes "table hash h" and "\<And>i. i < unat (n_buckets h) \<Longrightarrow> live_at (hflags h) i \<Longrightarrow> hkeys h ! i \<noteq> Some key"
  shows "dh_get hash h key = Some (n_buckets h)"
proof (cases "\<exists>p < unat (n_buckets h). stops hash h key p")
  case True
  then obtain m where m: "m < unat (n_buckets h)" "stops hash h key m" "\<And>j. j < m \<Longrightarrow> \<not> stops hash h key j"
    using first_stop[OF True] by blast
  have at: "unat (probe_at (n_buckets h) (hash key) m) = pos (unat (n_buckets h)) (unat (hash key)) m"
    by (rule probe_at_pos[OF tableD(1,2)[OF assms(1)]])
  have "\<not> live_at (hflags h) (pos (unat (n_buckets h)) (unat (hash key)) m)"
    using m(1,2) assms(2)[OF pos_less, of "unat (hash key)" m] by (auto simp: stops_def Let_def)
  then show ?thesis unfolding dh_get_eq[OF assms(1)]
    by (subst walk_result[OF assms(1), of m]) (use m at in auto)
next
  case False
  then show ?thesis unfolding dh_get_eq[OF assms(1)]
    by (subst walk_result[OF assms(1), of "unat (n_buckets h)"]) auto
qed

abbreviation put_on :: "('k, 'v) dhash \<Rightarrow> 'k \<Rightarrow> khint \<times> khint \<times> bool \<Rightarrow> bool" where
  "put_on h key \<equiv> (\<lambda>(i, site, w). \<not> w \<and> \<not> ac_isempty (hflags h) i \<and> (ac_isdel (hflags h) i \<or> hkeys h ! unat i \<noteq> Some key))"

abbreviation put_step :: "32 word list \<Rightarrow> khint \<Rightarrow> khint \<Rightarrow> khint \<times> khint \<times> bool \<Rightarrow> khint \<times> khint \<times> bool" where
  "put_step f n k \<equiv> (\<lambda>(i, site, w). let site = (if ac_isdel f i then i else site); i = next_bucket n (1 + k mod (n - 1)) i
                                        in (i, site, i = k mod n))"

primrec site_at :: "32 word list \<Rightarrow> khint \<Rightarrow> khint \<Rightarrow> nat \<Rightarrow> khint" where
  "site_at f n k 0 = n"
| "site_at f n k (Suc m) = (if ac_isdel f (probe_at n k m) then probe_at n k m else site_at f n k m)"

lemma site_at_deleted:
  "site_at f n k m = n \<or> (\<exists>q<m. site_at f n k m = probe_at n k q \<and> del f (unat (probe_at n k q)))"
  by (induction m) (auto simp: flags_read less_Suc_eq)

lemma put_states:
  assumes "full_cycle (unat n)" "unat n < 2 ^ 31" and "m \<le> unat n"
  shows "(put_step f n k ^^ m) (k mod n, n, False) = (probe_at n k m, site_at f n k m, m = unat n)"
  using assms(3)
proof (induction m)
  case 0
  then show ?case using assms(1) by (simp add: probe_at_simps full_cycle_def)
next
  case (Suc m)
  then show ?case using probe_back[OF assms(1,2), of "Suc m" k]
    by (simp add: Let_def probe_at_simps(2)[symmetric]) (simp add: probe_at_simps(1))
qed

text \<open>
  The bucket for a key: that of the key if it is there, and otherwise one without an entry, on the probe sequence
  of the key in front of every empty bucket.
\<close>

definition bucket_for :: "('k \<Rightarrow> khint) \<Rightarrow> ('k, 'v) dhash \<Rightarrow> 'k \<Rightarrow> nat \<Rightarrow> bool" where
  "bucket_for hash h key x \<longleftrightarrow> (let n = unat (n_buckets h); f = hflags h; k = unat (hash key) in x < n
     \<and> (live_at f x \<and> hkeys h ! x = Some key
        \<or> \<not> live_at f x \<and> (\<forall>i<n. live_at f i \<longrightarrow> hkeys h ! i \<noteq> Some key)
          \<and> (\<exists>p<n. pos n k p = x \<and> (\<forall>q<p. \<not> emp f (pos n k q)))))"

lemma stop_bucket:
  assumes "table hash h" and "m < unat (n_buckets h)" "stops hash h key m" "\<And>j. j < m \<Longrightarrow> \<not> stops hash h key j"
    and "x = probe_at (n_buckets h) (hash key) m
       \<or> emp (hflags h) (pos (unat (n_buckets h)) (unat (hash key)) m) \<and> q < m \<and> x = probe_at (n_buckets h) (hash key) q
         \<and> del (hflags h) (unat (probe_at (n_buckets h) (hash key) q))"
  shows "bucket_for hash h key (unat x)"
proof -
  let ?n = "unat (n_buckets h)" and ?f = "hflags h" and ?k = "unat (hash key)"
  have at: "unat (probe_at (n_buckets h) (hash key) j) = pos ?n ?k j" for j
    by (rule probe_at_pos[OF tableD(1,2)[OF assms(1)]])
  have ne: "\<not> emp ?f (pos ?n ?k j)" if "j < m" for j using assms(4)[OF that] by (auto simp: stops_def Let_def)
  have lt: "pos ?n ?k j < ?n" for j using assms(2) by (intro pos_less) simp
  show ?thesis
  proof (cases "emp ?f (pos ?n ?k m)")
    case True
    note ab = stop_at_empty[OF assms(1,4) True]
    from assms(5) True have "\<exists>p\<le>m. x = probe_at (n_buckets h) (hash key) p \<and> \<not> live_at ?f (unat x)"
      by (metis at less_imp_le order_refl)
    then obtain p where "p \<le> m" "x = probe_at (n_buckets h) (hash key) p" "\<not> live_at ?f (unat x)" by blast
    then show ?thesis using ab ne lt assms(2)
      by (auto simp: bucket_for_def Let_def at intro!: exI[of _ p])
  next
    case False
    with assms(3,5) have "live_at ?f (unat x)" "hkeys h ! unat x = Some key" "unat x = pos ?n ?k m"
      by (auto simp: stops_def Let_def at)
    then show ?thesis using lt by (auto simp: bucket_for_def Let_def)
  qed
qed

lemma put_bucket_ok:
  assumes "table hash h" and "card {i. i < unat (n_buckets h) \<and> \<not> emp (hflags h) i} < unat (n_buckets h)"
  shows "\<exists>x. put_bucket hash h key = Some x \<and> bucket_for hash h key (unat x)"
proof -
  let ?n = "n_buckets h" and ?f = "hflags h" and ?k = "hash key"
  have at: "unat (probe_at ?n ?k j) = pos (unat ?n) (unat ?k) j" for j
    by (rule probe_at_pos[OF tableD(1,2)[OF assms(1)]])
  have "\<exists>i<unat ?n. emp ?f i"
  proof (rule ccontr)
    assume "\<not> ?thesis"
    then have "{i. i < unat ?n \<and> \<not> emp ?f i} = {..<unat ?n}" by auto
    then show False using assms(2) by simp
  qed
  then obtain p where p: "p < unat ?n" "stops hash h key p"
    using pos_surj[OF tableD(1)[OF assms(1)], of _ "unat ?k"] by (metis stops_def)
  then obtain m where m: "m < unat ?n" "stops hash h key m" "\<And>j. j < m \<Longrightarrow> \<not> stops hash h key j"
    using first_stop[of "unat ?n" hash h key] by blast
  note w = put_states[OF tableD(1,2)[OF assms(1)], of _ ?f ?k]
  have "while_option (put_on h key) (put_step ?f ?n ?k) (?k mod ?n, ?n, False) = Some ((put_step ?f ?n ?k ^^ m) (?k mod ?n, ?n, False))"
  proof (rule while_steps)
    fix j assume "j < m"
    with m(1,3) show "put_on h key ((put_step ?f ?n ?k ^^ j) (?k mod ?n, ?n, False))"
      by (simp only: w less_imp_le order.strict_trans) (auto simp: flags_read at stops_def Let_def)
  next
    show "\<not> put_on h key ((put_step ?f ?n ?k ^^ m) (?k mod ?n, ?n, False))"
      using m(2) by (simp only: w[OF less_imp_le[OF m(1)]]) (auto simp: flags_read at stops_def Let_def)
  qed
  then have loop: "while_option (put_on h key) (put_step ?f ?n ?k) (?k mod ?n, ?n, False) = Some (probe_at ?n ?k m, site_at ?f ?n ?k m, False)"
    using m(1) by (simp only: w[OF less_imp_le[OF m(1)]]) simp
  have ne: "probe_at ?n ?k q \<noteq> ?n" for q using probe_less[OF tableD(1,2)[OF assms(1)], of ?k q] by simp
  show ?thesis
  proof (cases "ac_isempty ?f (?k mod ?n)")
    case True
    then have "put_bucket hash h key = Some (probe_at ?n ?k 0)" by (simp add: put_bucket_def Let_def probe_at_simps)
    moreover have "stops hash h key 0" using True by (simp add: stops_def flags_read at[of 0, symmetric] probe_at_simps)
    then have "bucket_for hash h key (unat (probe_at ?n ?k 0))"
      using stop_bucket[OF assms(1), of 0 key] p(1) by auto
    ultimately show ?thesis by blast
  next
    case False
    let ?x = "if emp ?f (unat (probe_at ?n ?k m)) \<and> site_at ?f ?n ?k m \<noteq> ?n then site_at ?f ?n ?k m else probe_at ?n ?k m"
    have "put_bucket hash h key = Some ?x"
      unfolding put_bucket_def Let_def loop[unfolded Let_def]
      by (simp only: False[unfolded flags_read(1)] if_False option.case prod.case flags_read(1) if_True simp_thms)
    moreover have "bucket_for hash h key (unat ?x)"
      using site_at_deleted[of ?f ?n ?k m] stop_bucket[OF assms(1) m, where x = ?x] by (auto simp: at) blast
    ultimately show ?thesis by blast
  qed
qed

section \<open>The map\<close>

text \<open>The entries of a table in the order of the buckets; a value that was not written yet is \<open>None\<close>.\<close>

definition hash_entries :: "('k, 'v) dhash \<Rightarrow> ('k \<times> 'v option) list" where
  "hash_entries h = map (\<lambda>i. (the (hkeys h ! i), hvals h ! i)) (filter (live_at (hflags h)) [0..<unat (n_buckets h)])"

definition hash_map :: "('k, 'v) dhash \<Rightarrow> 'k \<rightharpoonup> 'v option" where
  "hash_map h = map_of (hash_entries h)"

lemma hash_map_zero [simp]: "hash_map dh_zero = Map.empty"
  by (simp add: hash_map_def hash_entries_def dh_zero_def)

lemma live_key: "table hash h \<Longrightarrow> i < unat (n_buckets h) \<Longrightarrow> live_at (hflags h) i \<Longrightarrow> \<exists>key. hkeys h ! i = Some key"
  by (drule tableD(6)) (auto simp: placed_def)

lemma hash_map_iff:
  assumes "table hash h"
  shows "hash_map h key = Some v \<longleftrightarrow>
    (\<exists>i < unat (n_buckets h). live_at (hflags h) i \<and> hkeys h ! i = Some key \<and> hvals h ! i = v)"
proof -
  let ?is = "filter (live_at (hflags h)) [0..<unat (n_buckets h)]"
  have s: "set ?is = live_set (unat (n_buckets h)) (hflags h)" by auto
  have "inj_on (\<lambda>i. the (hkeys h ! i)) (set ?is)"
  proof (rule inj_onI)
    fix i j assume "i \<in> set ?is" "j \<in> set ?is" "the (hkeys h ! i) = the (hkeys h ! j)"
    then have ij: "i \<in> live_set (unat (n_buckets h)) (hflags h)" "j \<in> live_set (unat (n_buckets h)) (hflags h)" unfolding s by blast+
    then obtain a b where "hkeys h ! i = Some a" "hkeys h ! j = Some b" using live_key[OF assms] by blast
    then show "i = j" using inj_onD[OF tableD(7)[OF assms] _ ij] \<open>the (hkeys h ! i) = the (hkeys h ! j)\<close> by simp
  qed
  then have "distinct (map fst (hash_entries h))" by (simp add: hash_entries_def distinct_map comp_def)
  then have "hash_map h key = Some v \<longleftrightarrow> (key, v) \<in> set (hash_entries h)" by (simp add: hash_map_def)
  also have "\<dots> \<longleftrightarrow> (\<exists>i < unat (n_buckets h). live_at (hflags h) i \<and> hkeys h ! i = Some key \<and> hvals h ! i = v)"
    using live_key[OF assms] by (force simp: hash_entries_def)
  finally show ?thesis .
qed

lemma hash_map_None:
  assumes "table hash h"
  shows "hash_map h key = None \<longleftrightarrow> (\<forall>i < unat (n_buckets h). live_at (hflags h) i \<longrightarrow> hkeys h ! i \<noteq> Some key)"
  using hash_map_iff[OF assms, of key] by (cases "hash_map h key") auto

text \<open>A key is looked up by its bucket; if it is not there the result is the end of the table.\<close>

lemma dh_get_map:
  assumes "hash_inv hash h"
  shows "\<exists>i. dh_get hash h key = Some i
     \<and> (if hash_map h key = None then i = n_buckets h
        else unat i < unat (n_buckets h) \<and> dh_exist h i \<and> hkeys h ! unat i = Some key \<and> hash_map h key = Some (hvals h ! unat i))"
proof (cases "h = dh_zero")
  case True
  then show ?thesis by (simp add: dh_get_def) (simp add: dh_zero_def)
next
  case False
  with assms have t: "table hash h" by (simp add: hash_inv_def)
  show ?thesis
  proof (cases "hash_map h key")
    case None
    then show ?thesis using dh_get_absent[OF t, of key] by (auto simp: hash_map_None[OF t])
  next
    case (Some v)
    then obtain i where i: "i < unat (n_buckets h)" "live_at (hflags h) i" "hkeys h ! i = Some key" "hvals h ! i = v"
      by (auto simp: hash_map_iff[OF t])
    have "unat (of_nat i :: khint) = i" using i(1) unsigned_less[of "n_buckets h", where ?'a = nat]
      by (simp add: unat_of_nat take_bit_nat_eq_self)
    then show ?thesis using dh_get_found[OF t i(1-3)] i Some by (simp add: dh_exist_def flags_read)
  qed
qed

section \<open>Insertion and deletion\<close>

lemma word_inc: fixes w u :: khint assumes "w < u" shows "unat (w + 1) = unat w + 1"
  using assms unsigned_less[of u, where ?'a = nat] by (subst unat_word_ariths) (simp add: word_less_nat_alt)

lemma card_live_insert:
  assumes "x < n" "\<not> P x" shows "card {i. i < n \<and> (P i \<or> i = x)} = Suc (card {i. i < (n::nat) \<and> P i})"
proof -
  have "{i. i < n \<and> (P i \<or> i = x)} = insert x {i. i < n \<and> P i}" using assms by auto
  then show ?thesis using assms by simp
qed

lemma placed_put:
  assumes "placed hash n f keys" and "x div 16 < length f" "x = unat w" "length keys = n" "x < n"
    and "\<exists>p<n. pos n (unat (hash key)) p = x \<and> (\<forall>q<p. \<not> emp f (pos n (unat (hash key)) q))"
  shows "placed hash n (ac_set_isboth_false f w) (keys[x := Some key])"
  unfolding placed_def
proof (intro allI impI)
  fix i assume i: "i < n" "live_at (ac_set_isboth_false f w) i"
  note fl = flags_written(3,4)[OF assms(2)[unfolded assms(3)]]
  show "\<exists>key' p. keys[x := Some key] ! i = Some key' \<and> p < n \<and> pos n (unat (hash key')) p = i
     \<and> (\<forall>q<p. \<not> emp (ac_set_isboth_false f w) (pos n (unat (hash key')) q))"
  proof (cases "i = x")
    case True
    then show ?thesis using assms(4-6) by (auto simp: fl)
  next
    case False
    then have "live_at f i" using i(2) assms(3) by (auto simp: fl)
    with assms(1) i(1) False show ?thesis by (force simp: placed_def fl)
  qed
qed

lemma put_at_ok:
  assumes "table hash h" and "n_occupied h < upper_bound h" and "bucket_for hash h key (unat x)"
    and "put_at h key x = (y, added, h')"
  shows "table hash h' \<and> y = x \<and> n_buckets h' = n_buckets h \<and> unat x < unat (n_buckets h')
     \<and> dh_exist h' x \<and> hkeys h' ! unat x = Some key \<and> hvals h' = hvals h
     \<and> (added = 0 \<longleftrightarrow> hash_map h key \<noteq> None) \<and> hash_map h' = (hash_map h)(key \<mapsto> hvals h ! unat x)
     \<and> unat (hsize h') = unat (hsize h) + (if added = 0 then 0 else 1)"
proof (cases "live_at (hflags h) (unat x)")
  case True
  have b: "unat x < unat (n_buckets h)" "hkeys h ! unat x = Some key" using assms(3) True by (auto simp: bucket_for_def Let_def)
  then have "hash_map h key = Some (hvals h ! unat x)" using True by (auto simp: hash_map_iff[OF assms(1)])
  then show ?thesis using True assms(1,4) b by (auto simp: put_at_def flags_read dh_exist_def fun_upd_idem)
next
  case False
  let ?n = "unat (n_buckets h)" and ?f = "hflags h" and ?g = "ac_set_isboth_false (hflags h) x"
  have b: "unat x < ?n" "\<forall>i<?n. live_at ?f i \<longrightarrow> hkeys h ! i \<noteq> Some key"
    "\<exists>p<?n. pos ?n (unat (hash key)) p = unat x \<and> (\<forall>q<p. \<not> emp ?f (pos ?n (unat (hash key)) q))"
    using assms(3) False by (auto simp: bucket_for_def Let_def)
  note T = tableD[OF assms(1)]
  note fl = flags_written(3,4)[OF T(8)[OF b(1)]]
  have ls: "live_at ?g i \<longleftrightarrow> live_at ?f i \<or> i = unat x" for i using False by (auto simp: fl)
  have oc: "unat (n_occupied h + 1) = unat (n_occupied h) + 1" by (rule word_inc[OF assms(2)])
  have "live_set ?n ?f \<subseteq> {i. i < ?n \<and> \<not> emp ?f i}" by auto
  then have "unat (hsize h) \<le> unat (n_occupied h)" unfolding T(9,10) by (intro card_mono) auto
  then have "hsize h < upper_bound h" using assms(2) by (simp add: word_less_nat_alt)
  then have sz: "unat (hsize h + 1) = unat (hsize h) + 1" by (rule word_inc)
  let ?k = "(hkeys h)[unat x := Some key]"
  have cl: "card (live_set ?n ?g) = Suc (card (live_set ?n ?f))"
    unfolding ls using card_live_insert[OF b(1), of "live_at ?f"] False by simp
  have ce: "card {i. i < ?n \<and> \<not> emp ?g i} = card {i. i < ?n \<and> \<not> emp ?f i} + (if emp ?f (unat x) then 1 else 0)"
    using card_live_insert[OF b(1), of "\<lambda>i. \<not> emp ?f i"] by (auto simp: fl intro!: arg_cong[of _ _ card])
  have le: "length ?g = length ?f" by (simp add: ac_set_isboth_false_def)
  have pl: "placed hash ?n ?g ?k" by (rule placed_put[OF T(6) T(8)[OF b(1)] refl T(3) b(1,3)])
  have inj: "inj_on (\<lambda>i. ?k ! i) (live_set ?n ?g)"
  proof (rule inj_onI)
    fix i j assume ij: "i \<in> live_set ?n ?g" "j \<in> live_set ?n ?g" "?k ! i = ?k ! j"
    then show "i = j" using b(1,2) inj_onD[OF T(7), of i j] T(3) by (cases "i = unat x"; cases "j = unat x") (auto simp: ls)
  qed
  have occ: "n_occupied h + 1 \<le> upper_bound h" using assms(2) oc by (simp add: word_le_nat_alt word_less_nat_alt)
  have h': "y = x" "h' = h\<lparr>hkeys := ?k, hflags := ?g, hsize := hsize h + 1,
      n_occupied := n_occupied h + (if emp ?f (unat x) then 1 else 0)\<rparr>" "added \<noteq> 0"
    using assms(4) False by (auto simp: put_at_def flags_read split: if_splits)
  have t: "table hash h'" unfolding table_def Let_def h'(2)
    using T(3-5,11,12) occ le cl ce pl inj sz oc assms(1) T(9,10) by (simp add: table_def Let_def)
  have flds: "hkeys h' = ?k" "hflags h' = ?g" "hvals h' = hvals h" "n_buckets h' = n_buckets h" by (simp_all add: h'(2))
  have "hash_map h' = (hash_map h)(key \<mapsto> hvals h ! unat x)"
  proof (rule ext)
    fix k
    show "hash_map h' k = ((hash_map h)(key \<mapsto> hvals h ! unat x)) k"
    proof (cases "k = key")
      case True
      have "hash_map h' key = Some (hvals h ! unat x)" unfolding hash_map_iff[OF t] flds ls
        using b(1) T(3) by (intro exI[of _ "unat x"]) simp
      with True show ?thesis by simp
    next
      case kk: False
      have "hash_map h' k = Some w \<longleftrightarrow> hash_map h k = Some w" for w
        unfolding hash_map_iff[OF t] hash_map_iff[OF assms(1)] flds ls
        using kk False b(1) T(3) by (metis nth_list_update_eq nth_list_update_neq option.inject)
      with kk show ?thesis by (metis fun_upd_apply not_Some_eq)
    qed
  qed
  note t this
  moreover have "dh_exist h' x" using ls[of "unat x"] by (simp add: dh_exist_def flags_read h')
  moreover have "hash_map h key = None" using b(2) by (simp add: hash_map_None[OF assms(1)])
  ultimately show ?thesis using h' b(1) T(3) sz by simp
qed

lemma dh_setval_ok:
  assumes "table hash h" and "unat x < unat (n_buckets h)" "dh_exist h x" "hkeys h ! unat x = Some key"
  shows "table hash (dh_setval h x v) \<and> hash_map (dh_setval h x v) = (hash_map h)(key \<mapsto> Some v)"
proof -
  let ?h = "dh_setval h x v"
  have t: "table hash ?h" using assms(1) by (auto simp: table_def Let_def dh_setval_def)
  have flds: "hkeys ?h = hkeys h" "hflags ?h = hflags h" "n_buckets ?h = n_buckets h" "hvals ?h = (hvals h)[unat x := Some v]"
    by (simp_all add: dh_setval_def)
  have l: "live_at (hflags h) (unat x)" using assms(3) by (simp add: dh_exist_def flags_read)
  have "hash_map ?h k = ((hash_map h)(key \<mapsto> Some v)) k" for k
  proof (cases "k = key")
    case True
    have "hash_map ?h key = Some (Some v)" unfolding hash_map_iff[OF t] flds
      using assms(2,4) l tableD(4)[OF assms(1)] by (intro exI[of _ "unat x"]) simp
    with True show ?thesis by simp
  next
    case False
    have "hash_map ?h k = Some w \<longleftrightarrow> hash_map h k = Some w" for w
      unfolding hash_map_iff[OF t] hash_map_iff[OF assms(1)] flds
      using assms(4) False by (metis nth_list_update_neq option.inject)
    with False show ?thesis by (metis fun_upd_apply not_Some_eq)
  qed
  with t show ?thesis by blast
qed

lemma dh_del_ok:
  assumes "table hash h" and "unat x < unat (n_buckets h)" "dh_exist h x" "hkeys h ! unat x = Some key"
  shows "table hash (dh_del h x) \<and> hash_map (dh_del h x) = (hash_map h)(key := None)
     \<and> unat (hsize h) = unat (hsize (dh_del h x)) + 1"
proof -
  let ?h = "dh_del h x" and ?n = "unat (n_buckets h)" and ?f = "hflags h" and ?g = "ac_set_isdel_true (hflags h) x"
  note T = tableD[OF assms(1)]
  note fl = flags_written(5,6)[OF T(8)[OF assms(2)]]
  have l: "live_at ?f (unat x)" using assms(3) by (simp add: dh_exist_def flags_read)
  have "x \<noteq> n_buckets h" using assms(2) by auto
  then have h: "?h = h\<lparr>hflags := ?g, hsize := hsize h - 1\<rparr>" using l by (simp add: dh_del_def flags_read)
  have ls: "live_at ?g i \<longleftrightarrow> live_at ?f i \<and> i \<noteq> unat x" for i by (auto simp: fl)
  have "live_set ?n ?f = insert (unat x) (live_set ?n ?g)" using assms(2) l by (auto simp: ls fl)
  then have c: "card (live_set ?n ?f) = Suc (card (live_set ?n ?g))" by (simp add: fl)
  then have s: "unat (hsize h) = Suc (card (live_set ?n ?g))" using T(9) by simp
  then have s1: "unat (hsize h - 1) = card (live_set ?n ?g)" by (subst unat_sub) (auto simp: word_le_nat_alt)
  have pl: "placed hash ?n ?g (hkeys h)" using T(6) unfolding placed_def fl by blast
  have inj: "inj_on (\<lambda>i. hkeys h ! i) (live_set ?n ?g)" using T(7) by (rule inj_on_subset) (auto simp: ls)
  have "length ?g = length ?f" by (simp add: ac_set_isdel_true_def)
  moreover have "length ?f = ?n div 16 + 1" using assms(1) by (simp add: table_def Let_def)
  ultimately have t: "table hash ?h" using T(3-5,10-12) s1 pl inj by (simp add: table_def Let_def h fl(1))
  have flds: "hkeys ?h = hkeys h" "hflags ?h = ?g" "n_buckets ?h = n_buckets h" "hvals ?h = hvals h" by (simp_all add: h)
  have u: "i = unat x" if "i < ?n" "live_at ?f i" "hkeys h ! i = Some key" for i
    using inj_onD[OF T(7), of i "unat x"] that assms l by simp
  have "hash_map ?h k = ((hash_map h)(key := None)) k" for k
  proof (cases "((hash_map h)(key := None)) k")
    case None
    then show ?thesis using u by (auto simp: hash_map_None[OF t] hash_map_None[OF assms(1)] flds ls split: if_splits)
  next
    case (Some w)
    then show ?thesis using assms(4)
      by (auto simp: hash_map_iff[OF t] hash_map_iff[OF assms(1)] flds ls split: if_splits)
  qed
  with t s s1 show ?thesis by (auto simp: h)
qed

lemma dh_clear_ok:
  assumes "hash_inv hash h"
  shows "hash_inv hash (dh_clear h) \<and> hash_map (dh_clear h) = Map.empty"
proof (cases "h = dh_zero")
  case True
  then show ?thesis by (simp add: dh_clear_def hash_inv_def) (simp add: dh_zero_def)
next
  case False
  with assms have t: "table hash h" by (simp add: hash_inv_def)
  let ?n = "unat (n_buckets h)" and ?h = "dh_clear h"
  have h: "?h = h\<lparr>hflags := fresh_flags (n_buckets h), hsize := 0, n_occupied := 0\<rparr>"
    using tableD(8)[OF t, of 0] table_size_facts(5)[OF tableD(5)[OF t]] by (simp add: dh_clear_def)
  have e: "emp (fresh_flags (n_buckets h)) i" if "i < ?n" for i using fresh_flags_empty[OF that] by simp
  then have n: "live_set ?n (fresh_flags (n_buckets h)) = {}" "{i. i < ?n \<and> \<not> emp (fresh_flags (n_buckets h)) i} = {}" by auto
  have "table hash ?h" using tableD(3-5,11)[OF t] n e
    by (auto simp: table_def Let_def h placed_def length_fresh_flags) (simp only: n(1) inj_on_empty)
  then show ?thesis using e by (auto simp: hash_inv_def hash_map_None h intro!: ext)
qed

end
