(* ===== verification/Hash_Resize.thy ===== *)
theory Hash_Resize
  imports Hash_Map
begin

text \<open>
  The in-place rehashing of \<^verbatim>\<open>dh_resize\<close>, and the hash table as an implementation of a map.
\<close>

section \<open>Resizing\<close>

text \<open>
  While a table is rehashed in place, its arrays hold the entries that still wait in their old bucket and those that
  are in their new one; the entry in between is in hand.
\<close>

abbreviation used_set :: "nat \<Rightarrow> 32 word list \<Rightarrow> nat set" where
  "used_set n f \<equiv> {i. i < n \<and> \<not> emp f i}"

definition rehash_inv ::
    "('k \<Rightarrow> khint) \<Rightarrow> nat \<Rightarrow> nat \<Rightarrow> ('k option \<times> 'v option) set \<Rightarrow> ('k option \<times> 'v option) set \<Rightarrow> ('k, 'v) rehash \<Rightarrow> bool" where
  "rehash_inv hash N n E hand st \<longleftrightarrow> (case st of (f, g, keys, vals) \<Rightarrow>
     let I = live_set N f \<union> used_set n g in
     N \<le> n \<and> length keys = n \<and> length vals = n \<and> length f * 16 \<ge> N \<and> length g = n div 16 + 1
     \<and> live_set N f \<inter> used_set n g = {} \<and> (\<forall>i<n. \<not> del g i) \<and> inj_on (\<lambda>i. keys ! i) I
     \<and> (\<lambda>i. (keys ! i, vals ! i)) ` I \<union> hand = E \<and> fst ` hand \<inter> (\<lambda>i. keys ! i) ` I = {}
     \<and> (\<forall>i\<in>live_set N f. keys ! i \<noteq> None) \<and> None \<notin> fst ` hand \<and> placed hash n g keys)"

lemma free_bucket_ok:
  assumes "n \<in> table_sizes" and "card (used_set (unat n) g) < unat n"
  shows "\<exists>p<unat n. free_bucket n g k = Some (probe_at n k p) \<and> emp g (pos (unat n) (unat k) p)
     \<and> (\<forall>q<p. \<not> emp g (pos (unat n) (unat k) q))"
proof -
  note F = table_size_facts[OF assms(1)]
  have at: "unat (probe_at n k j) = pos (unat n) (unat k) j" for j by (rule probe_at_pos[OF F(1,2)])
  have "\<exists>i<unat n. emp g i"
  proof (rule ccontr)
    assume "\<not> ?thesis"
    then have "used_set (unat n) g = {..<unat n}" by auto
    then show False using assms(2) by simp
  qed
  then obtain p where "p < unat n" "emp g (pos (unat n) (unat k) p)" using pos_surj[OF F(1), of _ "unat k"] by metis
  then obtain m where m: "m < unat n" "emp g (pos (unat n) (unat k) m)" "\<forall>q<m. \<not> emp g (pos (unat n) (unat k) q)"
    using exists_least_iff[of "\<lambda>p. p < unat n \<and> emp g (pos (unat n) (unat k) p)"] by (metis less_trans)
  have "free_bucket n g k = Some ((next_bucket n (1 + k mod (n - 1)) ^^ m) (k mod n))"
    unfolding free_bucket_def
    by (rule while_steps) (use m(2,3) in \<open>simp_all add: flags_read probe_at_def[symmetric] at\<close>)
  then show ?thesis using m by (auto simp: probe_at_def)
qed

lemma placed_new:
  assumes "placed hash n g keys" and "unat w div 16 < length g" "x = unat w" "length keys = n" "x < n" "emp g x" "\<forall>i<n. \<not> del g i"
    and "p < n" "pos n (unat (hash key)) p = x" "\<forall>q<p. \<not> emp g (pos n (unat (hash key)) q)"
  shows "placed hash n (ac_set_isempty_false g w) (keys[x := Some key])"
  unfolding placed_def
proof (intro allI impI)
  fix i assume i: "i < n" "live_at (ac_set_isempty_false g w) i"
  note fl = flags_written(1,2)[OF assms(2)]
  show "\<exists>key' p. keys[x := Some key] ! i = Some key' \<and> p < n \<and> pos n (unat (hash key')) p = i
     \<and> (\<forall>q<p. \<not> emp (ac_set_isempty_false g w) (pos n (unat (hash key')) q))"
  proof (cases "i = x")
    case True
    then show ?thesis using assms(4,5,8-10) by (intro exI[of _ key] exI[of _ p]) (simp add: fl)
  next
    case False
    then have "live_at g i" using i assms(3) by (simp add: fl)
    with assms(1) i(1) obtain k' p' where "keys ! i = Some k'" "p' < n" "pos n (unat (hash k')) p' = i"
      "\<forall>q<p'. \<not> emp g (pos n (unat (hash k')) q)" unfolding placed_def by blast
    then show ?thesis using False by (intro exI[of _ k'] exI[of _ p']) (simp add: fl)
  qed
qed

text \<open>One entry goes from the hand to its bucket; what was there, if it still waited, is in hand then.\<close>

lemma rehash_place:
  assumes "rehash_inv hash N n E {(Some key, val)} (f, g, keys, vals)" and "x = unat w" "x < n" "emp g x"
    and "p < n" "pos n (unat (hash key)) p = x" "\<forall>q<p. \<not> emp g (pos n (unat (hash key)) q)"
  shows "x < N \<and> live_at f x \<Longrightarrow> rehash_inv hash N n E {(keys ! x, vals ! x)}
       (ac_set_isdel_true f w, ac_set_isempty_false g w, keys[x := Some key], vals[x := val])" (is "?live \<Longrightarrow> ?swap")
    and "\<not> (x < N \<and> live_at f x) \<Longrightarrow> rehash_inv hash N n E {} (f, ac_set_isempty_false g w, keys[x := Some key], vals[x := val])"
proof -
  have lg: "unat w div 16 < length g" and lk: "length keys = n" "length vals = n"
    using assms(1,2,3) by (auto simp: rehash_inv_def Let_def le_imp_less_Suc div_le_mono)
  have I: "live_set N f \<inter> used_set n g = {}" "inj_on (\<lambda>i. keys ! i) (live_set N f \<union> used_set n g)"
    "(\<lambda>i. (keys ! i, vals ! i)) ` (live_set N f \<union> used_set n g) \<union> {(Some key, val)} = E"
    "Some key \<notin> (\<lambda>i. keys ! i) ` (live_set N f \<union> used_set n g)" "\<forall>i\<in>live_set N f. keys ! i \<noteq> None" "\<forall>i<n. \<not> del g i"
    "placed hash n g keys" "N \<le> n" "length f * 16 \<ge> N" "length g = n div 16 + 1"
    using assms(1) by (auto simp: rehash_inv_def Let_def)
  note fg = flags_written(1,2)[OF lg]
  have pl: "placed hash n (ac_set_isempty_false g w) (keys[x := Some key])"
    by (rule placed_new[OF I(7) lg assms(2) lk(1) assms(3,4) I(6) assms(5-7)])
  have us: "used_set n (ac_set_isempty_false g w) = insert x (used_set n g)" using assms(2,3) by (auto simp: fg)
  have len: "length (ac_set_isempty_false g w) = length g" "length (ac_set_isdel_true f w) = length f"
    by (simp_all add: ac_set_isempty_false_def ac_set_isdel_true_def)
  have img: "(\<lambda>i. (keys[x := Some key] ! i, vals[x := val] ! i)) ` insert x A = insert (Some key, val) ((\<lambda>i. (keys ! i, vals ! i)) ` (A - {x}))" for A
  proof -
    have "(\<lambda>i. (keys[x := Some key] ! i, vals[x := val] ! i)) ` (A - {x}) = (\<lambda>i. (keys ! i, vals ! i)) ` (A - {x})"
      by (rule image_cong) auto
    note c = this
    have "(\<lambda>i. (keys[x := Some key] ! i, vals[x := val] ! i)) ` insert x A
        = insert (keys[x := Some key] ! x, vals[x := val] ! x) ((\<lambda>i. (keys[x := Some key] ! i, vals[x := val] ! i)) ` (A - {x}))"
      by blast
    then show ?thesis unfolding c using lk assms(3) by simp
  qed
  have kimg: "(\<lambda>i. keys[x := Some key] ! i) ` insert x A = insert (Some key) ((\<lambda>i. keys ! i) ` (A - {x}))" for A
    using arg_cong[OF img[of A], of "image fst"] by (simp add: image_image)
  have nk: "keys ! i \<noteq> Some key" if "i \<in> live_set N f \<union> used_set n g" for i
    using imageI[OF that, of "\<lambda>i. keys ! i"] I(4) by (intro notI) (simp only:)
  have inj: "inj_on (\<lambda>i. keys[x := Some key] ! i) (insert x (live_set N f \<union> used_set n g))"
  proof (rule inj_onI)
    fix i j assume ij: "i \<in> insert x (live_set N f \<union> used_set n g)" "j \<in> insert x (live_set N f \<union> used_set n g)"
      "keys[x := Some key] ! i = keys[x := Some key] ! j"
    have xl: "keys[x := Some key] ! x = Some key" using lk(1) assms(3) by simp
    consider "i = x" "j = x" | "i = x" "j \<noteq> x" | "i \<noteq> x" "j = x" | "i \<noteq> x" "j \<noteq> x" by blast
    then show "i = j"
    proof cases
      case 2
      with ij nk[of j] xl show ?thesis by simp
    next
      case 3
      with ij nk[of i] xl show ?thesis by simp
    next
      case 4
      with ij inj_onD[OF I(2), of i j] show ?thesis by simp
    qed simp
  qed
  {
    assume l: ?live
    then have lf: "unat w div 16 < length f" using I(9) assms(2) by (auto simp: less_mult_imp_div_less)
    note ff = flags_written(5,6)[OF lf]
    let ?f = "ac_set_isdel_true f w"
    have ls: "live_set N ?f = live_set N f - {x}" using assms(2) by (auto simp: ff)
    have eq: "live_set N ?f \<union> insert x (used_set n g) = insert x (live_set N f \<union> used_set n g)" using l by (auto simp: ls)
    let ?I = "live_set N f \<union> used_set n g"
    have xi: "x \<in> ?I" using l by simp
    have e: "(\<lambda>i. (keys[x := Some key] ! i, vals[x := val] ! i)) ` insert x ?I \<union> {(keys ! x, vals ! x)} = E"
      unfolding img I(3)[symmetric] using xi by auto
    have k: "fst ` {(keys ! x, vals ! x)} \<inter> (\<lambda>i. keys[x := Some key] ! i) ` insert x ?I = {}"
      unfolding kimg using I(4) xi inj_onD[OF I(2) _ xi] by (auto simp: image_iff)
    have d: "live_set N ?f \<inter> insert x (used_set n g) = {}" using I(1) by (auto simp: ls)
    have w: "\<forall>i\<in>live_set N ?f. keys[x := Some key] ! i \<noteq> None" using I(5) by (auto simp: ls)
    have nn: "None \<notin> fst ` {(keys ! x, vals ! x)}" using bspec[OF I(5), of x] l by auto
    show ?swap unfolding rehash_inv_def Let_def prod.case us eq
      using I(6,8-10) lk pl inj e k d w nn by (simp add: len fg)
  }
  {
    assume l: "\<not> ?live"
    let ?I = "live_set N f \<union> used_set n g"
    have xi: "x \<notin> ?I" using l assms(4) by auto
    have eq: "live_set N f \<union> insert x (used_set n g) = insert x ?I" by blast
    have e: "(\<lambda>i. (keys[x := Some key] ! i, vals[x := val] ! i)) ` insert x ?I \<union> {} = E"
      unfolding img I(3)[symmetric] using xi by auto
    have d: "live_set N f \<inter> insert x (used_set n g) = {}" using I(1) l by auto
    have w: "\<forall>i\<in>live_set N f. keys[x := Some key] ! i \<noteq> None" 
    proof
      fix i assume i: "i \<in> live_set N f"
      then have "i \<noteq> x" using xi by (intro notI) (simp only: Un_iff simp_thms)
      then show "keys[x := Some key] ! i \<noteq> None" using bspec[OF I(5) i] by simp
    qed
    show "rehash_inv hash N n E {} (f, ac_set_isempty_false g w, keys[x := Some key], vals[x := val])"
      unfolding rehash_inv_def Let_def prod.case us eq
      using I(6,8-10) lk pl inj e d w by (simp add: len fg)
  }
qed

lemma rehash_card:
  assumes "rehash_inv hash N n E {(key, val)} (f, g, keys, vals)" and "card E < n"
  shows "card (used_set n g) < n"
proof -
  have fin: "finite (live_set N f \<union> used_set n g)" by simp
  have "inj_on (\<lambda>i. (keys ! i, vals ! i)) (live_set N f \<union> used_set n g)"
    using assms(1) by (auto simp: rehash_inv_def Let_def inj_on_def)
  then have "card (used_set n g) \<le> card ((\<lambda>i. (keys ! i, vals ! i)) ` (live_set N f \<union> used_set n g))"
    by (subst card_image) (auto intro: card_mono)
  also have "\<dots> \<le> card E" using assms(1) fin by (intro card_mono) (auto simp: rehash_inv_def Let_def)
  finally show ?thesis using assms(2) by simp
qed

lemma rehash_entry_ok:
  assumes "n \<in> table_sizes" "card E < unat n" and "rehash_inv hash (unat N) (unat n) E {(key, val)} (f, g, keys, vals)"
  shows "\<exists>f' g' keys' vals'. rehash_entry hash N n key val (f, g, keys, vals) = Some (f', g', keys', vals')
     \<and> rehash_inv hash (unat N) (unat n) E {} (f', g', keys', vals') \<and> live_set (unat N) f' \<subseteq> live_set (unat N) f"
  using assms(3)
proof (induction "card (live_set (unat N) f)" arbitrary: key val f g keys vals rule: less_induct)
  case less
  note F = table_size_facts[OF assms(1)]
  from less.prems obtain ky where ky: "key = Some ky" by (cases key) (auto simp: rehash_inv_def Let_def)
  from free_bucket_ok[OF assms(1) rehash_card[OF less.prems assms(2)], of "hash ky"] obtain p where
    p: "p < unat n" "free_bucket n g (hash ky) = Some (probe_at n (hash ky) p)" "emp g (pos (unat n) (unat (hash ky)) p)"
    "\<forall>q<p. \<not> emp g (pos (unat n) (unat (hash ky)) q)" by blast
  let ?w = "probe_at n (hash ky) p" and ?g = "ac_set_isempty_false g (probe_at n (hash ky) p)"
  have at: "pos (unat n) (unat (hash ky)) p = unat ?w" by (rule probe_at_pos[OF F(1,2), symmetric])
  have lt: "unat ?w < unat n" using F(5) unfolding at[symmetric] by (intro pos_less) simp
  note place = rehash_place[OF less.prems[unfolded ky] refl lt p(3)[unfolded at] p(1) at p(4)]
  show ?case
  proof (cases "?w < N \<and> live_at f (unat ?w)")
    case True
    then have l: "unat ?w < unat N \<and> live_at f (unat ?w)" by (simp add: word_less_nat_alt)
    let ?f = "ac_set_isdel_true f ?w"
    have "length f * 16 \<ge> unat N" using less.prems by (auto simp: rehash_inv_def Let_def)
    then have lf: "unat ?w div 16 < length f" using l by (simp add: less_mult_imp_div_less)
    have sub: "live_set (unat N) ?f = live_set (unat N) f - {unat ?w}" by (auto simp: flags_written(5,6)[OF lf])
    have "card (live_set (unat N) ?f) < card (live_set (unat N) f)"
      unfolding sub by (rule card_Diff1_less) (use l in simp_all)
    from less.hyps[OF this place(1)[OF l]] obtain f' g' keys' vals' where
      r: "rehash_entry hash N n (keys ! unat ?w) (vals ! unat ?w) (?f, ?g, keys[unat ?w := Some ky], vals[unat ?w := val])
         = Some (f', g', keys', vals')" "rehash_inv hash (unat N) (unat n) E {} (f', g', keys', vals')"
      "live_set (unat N) f' \<subseteq> live_set (unat N) ?f" by blast
    have "rehash_entry hash N n key val (f, g, keys, vals) = Some (f', g', keys', vals')"
      using True r(1) by (subst rehash_entry.simps) (simp add: p(2) ky Let_def flags_read)
    moreover have "live_set (unat N) f' \<subseteq> live_set (unat N) f" using r(3) unfolding sub by blast
    ultimately show ?thesis using r(2) by blast
  next
    case False
    then have "\<not> (unat ?w < unat N \<and> live_at f (unat ?w))" by (simp add: word_less_nat_alt)
    note r = place(2)[OF this]
    have "rehash_entry hash N n key val (f, g, keys, vals) = Some (f, ?g, keys[unat ?w := Some ky], vals[unat ?w := val])"
      using False by (subst rehash_entry.simps) (auto simp: p(2) ky Let_def flags_read)
    with r show ?thesis by blast
  qed
qed

text \<open>Taking an entry out of its old bucket.\<close>

lemma rehash_take:
  assumes "rehash_inv hash N n E {} (f, g, keys, vals)" and "j = unat w" "j < N" "live_at f j"
  shows "rehash_inv hash N n E {(keys ! j, vals ! j)} (ac_set_isdel_true f w, g, keys, vals)"
    and "live_set N (ac_set_isdel_true f w) = live_set N f - {j}"
proof -
  have I: "live_set N f \<inter> used_set n g = {}" "inj_on (\<lambda>i. keys ! i) (live_set N f \<union> used_set n g)"
    "(\<lambda>i. (keys ! i, vals ! i)) ` (live_set N f \<union> used_set n g) = E" "\<forall>i\<in>live_set N f. keys ! i \<noteq> None"
    "\<forall>i<n. \<not> del g i" "placed hash n g keys" "N \<le> n" "length f * 16 \<ge> N" "length g = n div 16 + 1" "length keys = n" "length vals = n"
    using assms(1) by (auto simp: rehash_inv_def Let_def)
  have lf: "unat w div 16 < length f" using I(8) assms(2,3) by (simp add: less_mult_imp_div_less)
  show ls: "live_set N (ac_set_isdel_true f w) = live_set N f - {j}" using assms(2) by (auto simp: flags_written(5,6)[OF lf])
  let ?I = "live_set N f \<union> used_set n g"
  have jl: "j \<in> live_set N f" "j \<notin> used_set n g" using assms(3,4) I(1) by auto
  have eq: "(live_set N f - {j}) \<union> used_set n g = ?I - {j}" using jl by blast
  have "(\<lambda>i. (keys ! i, vals ! i)) ` (?I - {j}) \<union> {(keys ! j, vals ! j)} = E" using jl(1) unfolding I(3)[symmetric] by blast
  moreover have "inj_on (\<lambda>i. keys ! i) (?I - {j})" by (rule inj_on_subset[OF I(2)]) blast
  moreover have "fst ` {(keys ! j, vals ! j)} \<inter> (\<lambda>i. keys ! i) ` (?I - {j}) = {}"
    using inj_onD[OF I(2), of j] jl(1) by fastforce
  moreover have "None \<notin> fst ` {(keys ! j, vals ! j)}" using bspec[OF I(4) jl(1)] by auto
  moreover have "(live_set N f - {j}) \<inter> used_set n g = {}" "\<forall>i\<in>live_set N f - {j}. keys ! i \<noteq> None" using I(1,4) by blast+
  moreover have "length (ac_set_isdel_true f w) = length f" by (simp add: ac_set_isdel_true_def)
  ultimately show "rehash_inv hash N n E {(keys ! j, vals ! j)} (ac_set_isdel_true f w, g, keys, vals)"
    unfolding rehash_inv_def Let_def prod.case ls unfolding eq using I(5-11) by (simp only: simp_thms)
qed

lemma rehash_loop_ok:
  assumes "n \<in> table_sizes" "card E < unat n"
  shows "rehash_inv hash (unat N) (unat n) E {} (f, g, keys, vals) \<Longrightarrow> j + d = unat N \<Longrightarrow> (\<forall>i\<in>live_set (unat N) f. j \<le> i) \<Longrightarrow>
    \<exists>f' g' keys' vals'. rehash_loop hash N n d j (f, g, keys, vals) = Some (f', g', keys', vals')
      \<and> rehash_inv hash (unat N) (unat n) E {} (f', g', keys', vals') \<and> live_set (unat N) f' = {}"
proof (induction d arbitrary: j f g keys vals)
  case 0
  then have "live_set (unat N) f = {}" by auto
  with 0 show ?case by simp
next
  case (Suc d)
  have "j < 2 ^ 32" using Suc.prems(2) unsigned_less[of N, where ?'a = nat] by simp
  then have j: "unat (of_nat j :: khint) = j" by (simp add: unat_of_nat take_bit_nat_eq_self)
  have jN: "j < unat N" using Suc.prems(2) by simp
  show ?case
  proof (cases "live_at f j")
    case True
    note t = rehash_take[OF Suc.prems(1) j[symmetric] jN True]
    from rehash_entry_ok[OF assms t(1)] obtain f1 g1 k1 v1 where
      e: "rehash_entry hash N n (keys ! j) (vals ! j) (ac_set_isdel_true f (of_nat j), g, keys, vals) = Some (f1, g1, k1, v1)"
      "rehash_inv hash (unat N) (unat n) E {} (f1, g1, k1, v1)" "live_set (unat N) f1 \<subseteq> live_set (unat N) f - {j}"
      unfolding t(2) by blast
    have "\<forall>i\<in>live_set (unat N) f1. Suc j \<le> i" 
    proof
      fix i assume "i \<in> live_set (unat N) f1"
      then have "i \<in> live_set (unat N) f" "i \<noteq> j" using e(3) by blast+
      then show "Suc j \<le> i" using bspec[OF Suc.prems(3), of i] by simp
    qed
    from Suc.IH[OF e(2) _ this] Suc.prems(2) True e(1) show ?thesis by (simp add: flags_read j)
  next
    case False
    have "\<forall>i\<in>live_set (unat N) f. Suc j \<le> i" 
    proof
      fix i assume i: "i \<in> live_set (unat N) f"
      then have "i \<noteq> j" using False by auto
      then show "Suc j \<le> i" using bspec[OF Suc.prems(3) i] by simp
    qed
    from Suc.IH[OF Suc.prems(1) _ this] Suc.prems(2) False show ?thesis by (auto simp: flags_read j)
  qed
qed

text \<open>What \<^verbatim>\<open>dh_resize\<close> does to a table, or to one that was never used, when the new size is large enough.\<close>

lemma rehash_table:
  assumes "rehash_inv hash N (unat n) E {} (f, g, keys, vals)" and "live_set N f = {}" and "n \<in> table_sizes"
    and "unat s = card E" "s < hash_upper n"
    and h: "h = \<lparr>n_buckets = n, hsize = s, n_occupied = s, upper_bound = hash_upper n, hflags = g, hkeys = keys, hvals = vals\<rparr>"
  shows "table hash h" and "hash_map h k = Some v \<longleftrightarrow> (Some k, v) \<in> E"
proof -
  have I: "inj_on (\<lambda>i. keys ! i) (used_set (unat n) g)" "(\<lambda>i. (keys ! i, vals ! i)) ` used_set (unat n) g = E"
    "\<forall>i<unat n. \<not> del g i" "placed hash (unat n) g keys" "length g = unat n div 16 + 1" "length keys = unat n" "length vals = unat n"
    using assms(1) unfolding rehash_inv_def Let_def prod.case assms(2) by simp_all
  have eq: "live_set (unat n) g = used_set (unat n) g" using I(3) by auto
  have "inj_on (\<lambda>i. (keys ! i, vals ! i)) (used_set (unat n) g)" using I(1) by (simp add: inj_on_def)
  then have "card (used_set (unat n) g) = unat s" unfolding assms(4) I(2)[symmetric] by (simp add: card_image)
  then show t: "table hash h" unfolding table_def Let_def h dhash.simps eq using I(1,4-7) assms(3,5) by simp
  show "hash_map h k = Some v \<longleftrightarrow> (Some k, v) \<in> E"
    unfolding hash_map_iff[OF t] I(2)[symmetric] using I(3) by (auto simp: image_iff h)
qed

lemma rehash_start:
  assumes "table hash h" and "unat (n_buckets h) \<le> unat n"
  shows "rehash_inv hash (unat (n_buckets h)) (unat n) ((\<lambda>i. (hkeys h ! i, hvals h ! i)) ` live_set (unat (n_buckets h)) (hflags h)) {}
     (hflags h, fresh_flags n, (if n_buckets h < n then realloc (unat n) (hkeys h) else hkeys h),
        (if n_buckets h < n then realloc (unat n) (hvals h) else hvals h))"
proof -
  let ?N = "unat (n_buckets h)"
  note T = tableD[OF assms(1)]
  let ?k = "if n_buckets h < n then realloc (unat n) (hkeys h) else hkeys h"
  let ?v = "if n_buckets h < n then realloc (unat n) (hvals h) else hvals h"
  have u: "used_set (unat n) (fresh_flags n) = {}" using fresh_flags_empty(1) by auto
  have l: "length ?k = unat n" "length ?v = unat n" using T(3,4) assms(2) by (auto simp: realloc_def word_less_nat_alt)
  have nth: "?k ! i = hkeys h ! i" "?v ! i = hvals h ! i" if "i < ?N" for i
    using that T(3,4) assms(2) by (auto simp: realloc_def nth_append)
  have img: "(\<lambda>i. (?k ! i, ?v ! i)) ` live_set ?N (hflags h) = (\<lambda>i. (hkeys h ! i, hvals h ! i)) ` live_set ?N (hflags h)"
    by (rule image_cong) (simp_all only: nth mem_Collect_eq)
  have inj: "inj_on (\<lambda>i. ?k ! i) (live_set ?N (hflags h))" using T(7) by (rule inj_on_cong[THEN iffD1, rotated]) (simp only: nth mem_Collect_eq)
  have none: "\<forall>i\<in>live_set ?N (hflags h). ?k ! i \<noteq> None" using live_key[OF assms(1)] nth(1) by fastforce
  have pl: "placed hash (unat n) (fresh_flags n) ?k" using fresh_flags_empty(1) by (simp add: placed_def)
  have "length (hflags h) = ?N div 16 + 1" using assms(1) by (simp add: table_def Let_def)
  then have "?N \<le> length (hflags h) * 16" by simp
  then show ?thesis unfolding rehash_inv_def Let_def prod.case u Un_empty_right
    using l img inj none pl assms(2) fresh_flags_empty(2) by (simp add: length_fresh_flags)
qed

lemma table_sizes_list: "table_sizes = set (take 15 (drop 1 ac_prime_list))"
  by (simp add: table_sizes_def ac_prime_list_def)

lemma size_same: "n \<in> table_sizes \<Longrightarrow> prime_index 31 (n - 1) \<noteq> 31 \<and> ac_prime_list ! (prime_index 31 (n - 1) + 1) = n"
proof -
  have "\<forall>n\<in>set (take 15 (drop 1 ac_prime_list)). prime_index 31 (n - 1) \<noteq> 31 \<and> ac_prime_list ! (prime_index 31 (n - 1) + 1) = n"
    by code_simp
  then show "n \<in> table_sizes \<Longrightarrow> ?thesis" unfolding table_sizes_list by blast
qed

lemma size_next:
  assumes "n \<in> table_sizes" "n < 98317"
  shows "prime_index 31 (n + 1) \<noteq> 31" "ac_prime_list ! (prime_index 31 (n + 1) + 1) \<in> table_sizes"
    "n < ac_prime_list ! (prime_index 31 (n + 1) + 1)" "hash_upper n < hash_upper (ac_prime_list ! (prime_index 31 (n + 1) + 1))"
proof -
  let ?m = "ac_prime_list ! (prime_index 31 (n + 1) + 1)"
  have "\<forall>n\<in>set (take 15 (drop 1 ac_prime_list)). n < 98317 \<longrightarrow> prime_index 31 (n + 1) \<noteq> 31
     \<and> ac_prime_list ! (prime_index 31 (n + 1) + 1) \<in> set (take 15 (drop 1 ac_prime_list))
     \<and> n + 2 \<le> ac_prime_list ! (prime_index 31 (n + 1) + 1)" by code_simp
  with assms have f: "prime_index 31 (n + 1) \<noteq> 31" "?m \<in> table_sizes" "n + 2 \<le> ?m" unfolding table_sizes_list by blast+
  then show "prime_index 31 (n + 1) \<noteq> 31" "?m \<in> table_sizes" by simp_all
  have l: "unat n < 98317" using assms(2) by (simp add: word_less_nat_alt)
  have "unat (n + 2) = unat n + 2" using l by (subst unat_word_ariths) simp
  then have u: "unat n + 2 \<le> unat ?m" using f(3) by (simp add: word_le_nat_alt)
  then show "n < ?m" by (simp add: word_less_nat_alt)
  have up: "unat (hash_upper k) = (77 * unat k + 50) div 100" if "k \<in> table_sizes" for k
    using that by (auto simp: table_sizes_def hash_upper_def)
  have "(77 * unat n + 50) div 100 < (77 * unat ?m + 50) div 100" using u by linarith
  then show "hash_upper n < hash_upper ?m" using up[OF assms(1)] up[OF f(2)] by (simp add: word_less_nat_alt)
qed

lemma size_zero: "prime_index 31 1 = 0" "ac_prime_list ! 1 = 3"
  by code_simp+

text \<open>A resize that finds a size large enough keeps the map and throws the deleted buckets out.\<close>

lemma dh_resize_ok:
  assumes "table hash h" and "prime_index 31 m \<noteq> 31" and "n = ac_prime_list ! (prime_index 31 m + 1)"
    and "n \<in> table_sizes" "n_buckets h \<le> n" "hsize h < hash_upper n"
  shows "\<exists>h'. dh_resize hash h m = Some (Inr h') \<and> table hash h' \<and> n_occupied h' < upper_bound h' \<and> hash_map h' = hash_map h
     \<and> hsize h' = hsize h"
proof -
  let ?E = "(\<lambda>i. (hkeys h ! i, hvals h ! i)) ` live_set (unat (n_buckets h)) (hflags h)"
  note F = table_size_facts[OF assms(4)]
  have inj: "inj_on (\<lambda>i. (hkeys h ! i, hvals h ! i)) (live_set (unat (n_buckets h)) (hflags h))"
    using tableD(7)[OF assms(1)] by (simp add: inj_on_def)
  then have c: "unat (hsize h) = card ?E" using tableD(9)[OF assms(1)] by (simp add: card_image)
  then have ce: "card ?E < unat n" using assms(6) F(3) by (simp add: word_less_nat_alt)
  have le: "unat (n_buckets h) \<le> unat n" using assms(5) by (simp add: word_le_nat_alt)
  from rehash_loop_ok[OF assms(4) ce rehash_start[OF assms(1) le], of 0 "unat (n_buckets h)"] obtain f' g' k' v' where
    r: "rehash_loop hash (n_buckets h) n (unat (n_buckets h)) 0 (hflags h, fresh_flags n,
        (if n_buckets h < n then realloc (unat n) (hkeys h) else hkeys h),
        (if n_buckets h < n then realloc (unat n) (hvals h) else hvals h)) = Some (f', g', k', v')"
    "rehash_inv hash (unat (n_buckets h)) (unat n) ?E {} (f', g', k', v')" "live_set (unat (n_buckets h)) f' = {}" by auto
  let ?h = "\<lparr>n_buckets = n, hsize = hsize h, n_occupied = hsize h, upper_bound = hash_upper n, hflags = g', hkeys = k', hvals = v'\<rparr>"
  note t = rehash_table[OF r(2,3) assms(4) c assms(6) refl]
  have "hash_map ?h k = Some v \<longleftrightarrow> hash_map h k = Some v" for k v
    unfolding t(2) hash_map_iff[OF assms(1)] by (auto simp: image_iff)
  then have "hash_map ?h k = hash_map h k" for k by (metis not_None_eq)
  then have "hash_map ?h = hash_map h" by blast
  moreover have "dh_resize hash h m = Some (Inr ?h)"
    unfolding dh_resize_def Let_def assms(3)[symmetric] r(1) using assms(2,5,6) by auto
  ultimately show ?thesis using t(1) assms(6) by auto
qed

text \<open>The first resize, of a table that was never used.\<close>

lemma dh_resize_zero:
  fixes hash :: "'k \<Rightarrow> khint"
  shows "\<exists>h' :: ('k, 'v) dhash. dh_resize hash dh_zero 1 = Some (Inr h') \<and> table hash h' \<and> n_occupied h' < upper_bound h' \<and> hash_map h' = Map.empty
     \<and> hsize h' = 0"
proof -
  have s: "(3 :: khint) \<in> table_sizes" by (simp add: table_sizes_def)
  have up: "hash_upper 3 = 2" by (simp add: hash_upper_def)
  let ?h = "\<lparr>n_buckets = 3, hsize = 0, n_occupied = 0, upper_bound = 2, hflags = fresh_flags 3,
      hkeys = replicate 3 None, hvals = replicate 3 None\<rparr> :: ('k, 'v) dhash"
  have "dh_resize hash dh_zero 1 = Some (Inr ?h)"
    by (simp add: dh_resize_def Let_def size_zero dh_zero_def up realloc_def size_zero(2)[unfolded One_nat_def])
  moreover have e: "emp (fresh_flags 3) i" if "i < 3" for i using fresh_flags_empty(1)[of i 3] that by simp
  have n: "live_set 3 (fresh_flags 3) = {}" "used_set 3 (fresh_flags 3) = {}" using e by auto
  have t: "table hash ?h" unfolding table_def Let_def dhash.simps
    using s n e up by (auto simp: length_fresh_flags placed_def) (simp only: n(1) inj_on_empty)
  moreover have "hash_map ?h k = None" for k using e by (simp add: hash_map_None[OF t])
  then have "hash_map ?h = Map.empty" by blast
  ultimately show ?thesis by (intro exI[of _ ?h]) simp
qed

lemma make_room:
  assumes "hash_inv hash h" and "unat (hsize h) < 2 ^ 15"
  shows "\<exists>h'. (if n_occupied h \<ge> upper_bound h then
              if n_buckets h > push_bit 1 (hsize h) then dh_resize hash h (n_buckets h - 1)
              else dh_resize hash h (n_buckets h + 1)
            else Some (Inr h)) = Some (Inr h') \<and> table hash h' \<and> n_occupied h' < upper_bound h' \<and> hash_map h' = hash_map h
     \<and> hsize h' = hsize h" (is "\<exists>h'. ?r = _ \<and> _")
proof (cases "h = dh_zero")
  case True
  have "n_occupied h = 0" "upper_bound h = 0" "n_buckets h = 0" "hsize h = 0" using True by (simp_all add: dh_zero_def)
  then show ?thesis using dh_resize_zero[of hash] True by auto
next
  case False
  with assms(1) have t: "table hash h" by (simp add: hash_inv_def)
  note T = tableD[OF t]
  have "live_set (unat (n_buckets h)) (hflags h) \<subseteq> used_set (unat (n_buckets h)) (hflags h)" by auto
  then have "unat (hsize h) \<le> unat (n_occupied h)" unfolding T(9,10) by (intro card_mono) auto
  then have so: "hsize h \<le> hash_upper (n_buckets h)" using T(11,12) by (simp add: word_le_nat_alt)
  have dbl: "unat (push_bit 1 (hsize h)) = 2 * unat (hsize h)"
    using assms(2) by (simp add: push_bit_eq_mult unat_word_ariths)
  consider "n_occupied h < upper_bound h" | "upper_bound h \<le> n_occupied h" "n_buckets h > push_bit 1 (hsize h)"
    | "upper_bound h \<le> n_occupied h" "n_buckets h \<le> push_bit 1 (hsize h)" by fastforce
  then show ?thesis
  proof cases
    case 1
    then show ?thesis using t by auto
  next
    case 2
    have "2 * unat (hsize h) < unat (n_buckets h)" using 2(2) dbl by (simp add: word_less_nat_alt)
    moreover have "unat (hash_upper (n_buckets h)) = (77 * unat (n_buckets h) + 50) div 100"
      using T(5) by (auto simp: table_sizes_def hash_upper_def)
    ultimately have "hsize h < hash_upper (n_buckets h)" unfolding word_less_nat_alt by linarith
    from dh_resize_ok[OF t _ _ T(5) _ this, of "n_buckets h - 1"] size_same[OF T(5)] 2 show ?thesis by auto
  next
    case 3
    have "unat (n_buckets h) < 2 ^ 16" using 3(2) dbl assms(2) by (simp add: word_le_nat_alt)
    then have "n_buckets h < 98317" by (simp add: word_less_nat_alt)
    note N = size_next[OF T(5) this]
    from dh_resize_ok[OF t N(1) refl N(2) less_imp_le[OF N(3)]] so N(4) 3 show ?thesis by auto
  qed
qed

text \<open>Insertion: the bucket of the key, with the value it has or, for a new key, still has to get.\<close>

lemma dh_put_ok:
  assumes "hash_inv hash h" and "unat (hsize h) < 2 ^ 15"
  shows "\<exists>x added h'. dh_put hash h key = Some (Inr (x, added, h')) \<and> table hash h' \<and> unat x < unat (n_buckets h')
     \<and> dh_exist h' x \<and> hkeys h' ! unat x = Some key \<and> (added = 0 \<longleftrightarrow> hash_map h key \<noteq> None)
     \<and> hash_map h' = (hash_map h)(key \<mapsto> hvals h' ! unat x) \<and> unat (hsize h') = unat (hsize h) + (if added = 0 then 0 else 1)
     \<and> (added = 0 \<longrightarrow> hash_map h' = hash_map h)"
proof -
  from make_room[OF assms] obtain h1 where
    r: "(if n_occupied h \<ge> upper_bound h then
              if n_buckets h > push_bit 1 (hsize h) then dh_resize hash h (n_buckets h - 1)
              else dh_resize hash h (n_buckets h + 1)
            else Some (Inr h)) = Some (Inr h1)" "table hash h1" "n_occupied h1 < upper_bound h1" "hash_map h1 = hash_map h"
    "hsize h1 = hsize h" by blast
  note T = tableD[OF r(2)]
  have "card (used_set (unat (n_buckets h1)) (hflags h1)) < unat (n_buckets h1)"
    using r(3) T(10,11) table_size_facts(3)[OF T(5)] by (simp add: word_less_nat_alt)
  from put_bucket_ok[OF r(2) this, of key] obtain x where
    x: "put_bucket hash h1 key = Some x" "bucket_for hash h1 key (unat x)" by blast
  obtain y added h' where p: "put_at h1 key x = (y, added, h')" by (metis prod_cases3)
  note P = put_at_ok[OF r(2,3) x(2) p]
  have "added = 0 \<longrightarrow> h' = h1" using p by (auto simp: put_at_def split: if_splits)
  moreover have "dh_put hash h key = Some (Inr (x, added, h'))" using r(1) x(1) p P by (simp add: dh_put_def)
  ultimately show ?thesis using P r(4,5) by (intro exI[of _ x] exI[of _ added] exI[of _ h']) auto
qed

section \<open>The table as a map\<close>

text \<open>
  How the library uses a table: a key is looked up with \<^verbatim>\<open>dh_get\<close> and compared with \<^verbatim>\<open>dh_end\<close>, a value is stored
  with \<^verbatim>\<open>dh_put\<close> and \<^verbatim>\<open>dh_val\<close>, and a key is removed with \<^verbatim>\<open>dh_get\<close> and \<^verbatim>\<open>dh_del\<close>.
\<close>

definition dh_lookup :: "('k \<Rightarrow> khint) \<Rightarrow> ('k, 'v) dhash \<Rightarrow> 'k \<Rightarrow> 'v option option" where
  "dh_lookup hash h key =
     (case dh_get hash h key of
        None \<Rightarrow> None
      | Some i \<Rightarrow> Some (if i = n_buckets h then None else hvals h ! unat i))"

definition dh_store :: "('k \<Rightarrow> khint) \<Rightarrow> ('k, 'v) dhash \<Rightarrow> 'k \<Rightarrow> 'v \<Rightarrow> ('k, 'v) dhash res option" where
  "dh_store hash h key v =
     (case dh_put hash h key of
        None \<Rightarrow> None
      | Some (Inl e) \<Rightarrow> Some (Inl e)
      | Some (Inr (x, added, h)) \<Rightarrow> Some (Inr (dh_setval h x v)))"

definition dh_remove :: "('k \<Rightarrow> khint) \<Rightarrow> ('k, 'v) dhash \<Rightarrow> 'k \<Rightarrow> ('k, 'v) dhash res option" where
  "dh_remove hash h key =
     (case dh_get hash h key of
        None \<Rightarrow> None
      | Some i \<Rightarrow> Some (Inr (if i \<noteq> n_buckets h then dh_del h i else h)))"

text \<open>A sequence of operations, on a table and on a map.\<close>

datatype ('k, 'v) table_op = Store 'k 'v | Remove 'k | Clear

fun run_ops ::
    "('s \<Rightarrow> 'k \<Rightarrow> 'v \<Rightarrow> 's res option) \<Rightarrow> ('s \<Rightarrow> 'k \<Rightarrow> 's res option) \<Rightarrow> ('s \<Rightarrow> 's) \<Rightarrow> 's \<Rightarrow> ('k, 'v) table_op list \<Rightarrow> 's res option" where
  "run_ops store rem clr s [] = Some (Inr s)"
| "run_ops store rem clr s (x # xs) =
     (case (case x of Store k v \<Rightarrow> store s k v | Remove k \<Rightarrow> rem s k | Clear \<Rightarrow> Some (Inr (clr s))) of
        None \<Rightarrow> None
      | Some (Inl e) \<Rightarrow> Some (Inl e)
      | Some (Inr s) \<Rightarrow> run_ops store rem clr s xs)"

fun map_op :: "('k, 'v) table_op \<Rightarrow> ('k \<rightharpoonup> 'v) \<Rightarrow> 'k \<rightharpoonup> 'v" where
  "map_op (Store k v) m = m(k \<mapsto> v)"
| "map_op (Remove k) m = m(k := None)"
| "map_op Clear m = Map.empty"

text \<open>The interface of a map that is kept in a store with room for a number of entries.\<close>

locale map_store =
  fixes store :: "'s \<Rightarrow> 'k \<Rightarrow> 'v \<Rightarrow> 's res option" and rem :: "'s \<Rightarrow> 'k \<Rightarrow> 's res option" and clr :: "'s \<Rightarrow> 's"
    and look :: "'s \<Rightarrow> 'k \<Rightarrow> 'v option option" and count :: "'s \<Rightarrow> nat" and new :: 's
    and ok :: "'s \<Rightarrow> bool" and contents :: "'s \<Rightarrow> 'k \<rightharpoonup> 'v" and room :: nat
  assumes new_ok: "ok new" "contents new = Map.empty"
    and store_ok: "ok s \<Longrightarrow> count s < room \<Longrightarrow>
      \<exists>s'. store s k v = Some (Inr s') \<and> ok s' \<and> contents s' = (contents s)(k \<mapsto> v)"
    and rem_ok: "ok s \<Longrightarrow> \<exists>s'. rem s k = Some (Inr s') \<and> ok s' \<and> contents s' = (contents s)(k := None)"
    and clr_ok: "ok s \<Longrightarrow> ok (clr s)" "ok s \<Longrightarrow> contents (clr s) = Map.empty"
    and look_ok: "ok s \<Longrightarrow> look s k = Some (contents s k)"
    and count_ok: "ok s \<Longrightarrow> count s = card (dom (contents s)) \<and> finite (dom (contents s))"
begin

lemma run_ops_ok:
  assumes "ok s" and "count s + length xs \<le> room"
  shows "\<exists>s'. run_ops store rem clr s xs = Some (Inr s') \<and> ok s' \<and> contents s' = fold map_op xs (contents s)"
  using assms
proof (induction xs arbitrary: s)
  case (Cons x xs)
  have "\<exists>s1. (case x of Store k v \<Rightarrow> store s k v | Remove k \<Rightarrow> rem s k | Clear \<Rightarrow> Some (Inr (clr s))) = Some (Inr s1)
      \<and> ok s1 \<and> contents s1 = map_op x (contents s) \<and> count s1 \<le> Suc (count s)"
  proof (cases x)
    case (Store k v)
    with store_ok[OF Cons.prems(1), of k v] Cons.prems(2) obtain s1 where
      s1: "store s k v = Some (Inr s1)" "ok s1" "contents s1 = (contents s)(k \<mapsto> v)" by auto
    moreover have "count s1 \<le> Suc (count s)"
      using count_ok[OF s1(2)] count_ok[OF Cons.prems(1)] by (auto simp: s1(3) card_insert_if)
    ultimately show ?thesis by (simp add: Store)
  next
    case (Remove k)
    with rem_ok[OF Cons.prems(1), of k] obtain s1 where
      s1: "rem s k = Some (Inr s1)" "ok s1" "contents s1 = (contents s)(k := None)" by auto
    moreover have "count s1 \<le> Suc (count s)"
      using count_ok[OF s1(2)] count_ok[OF Cons.prems(1)] by (auto simp: s1(3) card_Diff_singleton_if)
    ultimately show ?thesis by (simp add: Remove)
  next
    case Clear
    with clr_ok[OF Cons.prems(1)] count_ok[of "clr s"] show ?thesis by simp
  qed
  then obtain s1 where s1: "(case x of Store k v \<Rightarrow> store s k v | Remove k \<Rightarrow> rem s k | Clear \<Rightarrow> Some (Inr (clr s))) = Some (Inr s1)"
    "ok s1" "contents s1 = map_op x (contents s)" "count s1 \<le> Suc (count s)" by blast
  with Cons.IH[of s1] Cons.prems(2) show ?case by simp
qed simp

lemma run_new:
  assumes "length xs \<le> room"
  shows "\<exists>s. run_ops store rem clr new xs = Some (Inr s) \<and> (\<forall>k. look s k = Some (fold map_op xs Map.empty k))
     \<and> count s = card (dom (fold map_op xs Map.empty))"
proof -
  have "count new = 0" using count_ok[OF new_ok(1)] new_ok(2) by simp
  with run_ops_ok[OF new_ok(1), of xs] assms obtain s where
    "run_ops store rem clr new xs = Some (Inr s)" "ok s" "contents s = fold map_op xs Map.empty" by (auto simp: new_ok(2))
  with look_ok count_ok show ?thesis by auto
qed

end

text \<open>A table in which every entry has its value.\<close>

definition stored :: "('k \<Rightarrow> khint) \<Rightarrow> ('k, 'v) dhash \<Rightarrow> bool" where
  "stored hash h \<longleftrightarrow> hash_inv hash h \<and> (\<forall>k. hash_map h k \<noteq> Some None)"

definition hash_contents :: "('k, 'v) dhash \<Rightarrow> 'k \<rightharpoonup> 'v" where
  "hash_contents h k = (case hash_map h k of Some v \<Rightarrow> v | None \<Rightarrow> None)"

lemma stored_dom: "stored hash h \<Longrightarrow> dom (hash_contents h) = dom (hash_map h)"
  by (auto simp: stored_def hash_contents_def dom_def split: option.splits) (metis not_None_eq)

lemma hash_count:
  assumes "hash_inv hash h"
  shows "unat (hsize h) = card (dom (hash_map h)) \<and> finite (dom (hash_map h))"
proof (cases "h = dh_zero")
  case True
  then show ?thesis by simp (simp add: dh_zero_def)
next
  case False
  with assms have t: "table hash h" by (simp add: hash_inv_def)
  let ?L = "live_set (unat (n_buckets h)) (hflags h)"
  have "Some ` dom (hash_map h) = (\<lambda>i. hkeys h ! i) ` ?L"
    using live_key[OF t] hash_map_iff[OF t] by (fastforce simp: image_iff dom_def)
  then have "card (dom (hash_map h)) = card ?L" "finite (Some ` dom (hash_map h))"
    using card_image[OF tableD(7)[OF t]] card_image[of Some "dom (hash_map h)"] by simp_all
  then show ?thesis using tableD(9)[OF t] by (simp add: finite_image_iff)
qed

interpretation dh: map_store "dh_store hash" "dh_remove hash" dh_clear "dh_lookup hash" "\<lambda>h. unat (hsize h)" dh_zero
  "stored hash" hash_contents "2 ^ 15" for hash :: "'k \<Rightarrow> khint"
proof
  show "stored hash (dh_zero :: ('k, 'v) dhash)" "hash_contents (dh_zero :: ('k, 'v) dhash) = Map.empty"
    by (auto simp: stored_def hash_inv_def hash_contents_def)
next
  fix s :: "('k, 'v) dhash" and k v
  assume s: "stored hash s" "unat (hsize s) < 2 ^ 15"
  then have i: "hash_inv hash s" by (simp add: stored_def)
  from dh_put_ok[OF i s(2), of k] obtain x added h where
    p: "dh_put hash s k = Some (Inr (x, added, h))" "table hash h" "unat x < unat (n_buckets h)" "dh_exist h x"
    "hkeys h ! unat x = Some k" "hash_map h = (hash_map s)(k \<mapsto> hvals h ! unat x)" by blast
  from dh_setval_ok[OF p(2-5), of v] s(1)
  show "\<exists>s'. dh_store hash s k v = Some (Inr s') \<and> stored hash s' \<and> hash_contents s' = (hash_contents s)(k \<mapsto> v)"
    by (auto simp: dh_store_def p(1,6) stored_def hash_inv_def hash_contents_def)
next
  fix s :: "('k, 'v) dhash" and k
  assume s: "stored hash s"
  then have i: "hash_inv hash s" by (simp add: stored_def)
  from dh_get_map[OF i, of k] obtain x where
    g: "dh_get hash s k = Some x" "if hash_map s k = None then x = n_buckets s
        else unat x < unat (n_buckets s) \<and> dh_exist s x \<and> hkeys s ! unat x = Some k \<and> hash_map s k = Some (hvals s ! unat x)" by blast
  show "dh_lookup hash s k = Some (hash_contents s k)"
    using g by (auto simp: dh_lookup_def hash_contents_def split: if_splits)
  show "\<exists>s'. dh_remove hash s k = Some (Inr s') \<and> stored hash s' \<and> hash_contents s' = (hash_contents s)(k := None)"
  proof (cases "hash_map s k = None")
    case True
    then show ?thesis using g s by (auto simp: dh_remove_def hash_contents_def fun_upd_idem)
  next
    case False
    then have "table hash s" using i by (auto simp: hash_inv_def)
    from dh_del_ok[OF this, of x k] g False s show ?thesis
      by (auto simp: dh_remove_def stored_def hash_inv_def hash_contents_def)
  qed
next
  fix s :: "('k, 'v) dhash"
  assume s: "stored hash s"
  then show "stored hash (dh_clear s)" "hash_contents (dh_clear s) = Map.empty"
    using dh_clear_ok[of hash s] by (auto simp: stored_def hash_contents_def)
  show "unat (hsize s) = card (dom (hash_contents s)) \<and> finite (dom (hash_contents s))"
    using hash_count[of hash s] s stored_dom[OF s] by (simp add: stored_def)
qed

text \<open>C11: The hash table is a map, for every hash function: any sequence of fewer than \<open>2\<^sup>1\<^sup>5\<close> stores, removals and
  clears, with the resizes and the in-place rehashing they bring, ends (no probe runs forever) and leaves a
  table in which every lookup gives what the same operations make of the empty map, and whose size is the number of keys.\<close>

theorem hash_table_is_map:
  assumes "length xs < 2 ^ 15"
  shows "\<exists>h. run_ops (dh_store hash) (dh_remove hash) dh_clear dh_zero xs = Some (Inr h)
     \<and> (\<forall>k. dh_lookup hash h k = Some (fold map_op xs Map.empty k)) \<and> unat (hsize h) = card (dom (fold map_op xs Map.empty))"
  using dh.run_new[of xs hash] assms by simp

theorem hash_table_is_map_witness:
  "\<exists>h. run_ops (dh_store X31_hash_stringsz) (dh_remove X31_hash_stringsz) dh_clear dh_zero
       [Store ''a.b'' (1 :: nat), Store ''c'' 2, Store ''a.b'' 3, Store ''d'' 4, Remove ''c''] = Some (Inr h)
     \<and> dh_lookup X31_hash_stringsz h ''a.b'' = Some (Some 3) \<and> dh_lookup X31_hash_stringsz h ''c'' = Some None"
  using hash_table_is_map[of "[Store ''a.b'' (1 :: nat), Store ''c'' 2, Store ''a.b'' 3, Store ''d'' 4, Remove ''c'']" X31_hash_stringsz]
  by auto

text \<open>The two string hashes agree.\<close>

lemma char_int_zero: "char_int c = 0 \<longleftrightarrow> c = NUL"
proof
  assume "char_int c = 0"
  then have "of_int (sint (of_nat (of_char c) :: 8 word)) = (0 :: 32 word)" by (simp add: char_int_def)
  then have "2 ^ 32 dvd sint (of_nat (of_char c) :: 8 word)" by (simp only: word_of_int_eq_0_iff len_of_numeral_defs) simp
  moreover have "\<bar>sint (of_nat (of_char c) :: 8 word)\<bar> < 2 ^ 32"
    using sint_ge[of "of_nat (of_char c) :: 8 word"] sint_lt[of "of_nat (of_char c) :: 8 word"] by simp
  ultimately have "sint (of_nat (of_char c) :: 8 word) = 0" using zdvd_not_zless[of "\<bar>sint (of_nat (of_char c) :: 8 word)\<bar>" "2 ^ 32"] by (auto simp: zero_less_abs_iff)
  then have "(of_nat (of_char c) :: 8 word) = 0" by (simp add: signed_eq_0_iff)
  then have "256 dvd (of_char c :: nat)" by (simp add: word_of_nat_eq_0_iff)
  moreover have "(of_char c :: nat) < 256" by (rule nat_of_char_less_256)
  ultimately have "(of_char c :: nat) = 0" by (metis nat_dvd_not_less neq0_conv)
  then have "c = char_of (0 :: nat)" by (metis char_of_char)
  then show "c = NUL" by (simp add: char_of_def)
qed (simp add: char_int_def)

lemma X31_agree: "NUL \<notin> set s \<Longrightarrow> X31_hash_string s = X31_hash_stringsz s"
  by (cases s) (auto simp: X31_hash_stringsz_def char_int_zero Let_def)

end
