(* ===== verification/Misc.thy ===== *)
theory Misc
  imports Prelude "HOL-Library.Sublist"
begin

text \<open>
  The name checks, the signature walker and the object path helpers of
  \<^verbatim>\<open>adbus/misc.c\<close>: \<open>adbusI_alignment\<close>, \<open>adbusI_isValidObjectPath\<close> and its
  siblings, \<open>adbus_nextarg\<close>, \<open>adbusI_relativePath\<close> and \<open>adbusI_parentPath\<close>.

  Pointers into a string are positions (\<open>int\<close>, because \<^verbatim>\<open>dot\<close> starts one before the
  string); a signature pointer is the rest of the signature, \<open>[]\<close> at its NUL.
\<close>

section \<open>Alignment of a field\<close>

definition sRequiredAlignment :: "char \<Rightarrow> nat" where
  "sRequiredAlignment c =
     (if c \<in> set ''(dtx{'' then 8
      else if c \<in> set ''abiosu'' then 4
      else if c \<in> set ''nq'' then 2
      else if c \<in> set ''gvy'' then 1
      else 0)"

text \<open>
  The table is indexed by a signed \<^verbatim>\<open>char\<close> in the assert, so a byte above 127 reads before
  the table.
\<close>

definition adbusI_alignment :: "char \<Rightarrow> nat res" where
  "adbusI_alignment ch =
     (if ord_of ch > 127 then Inl Fault
      else bindr (assertr (sRequiredAlignment ch > 0)) (\<lambda>_.
        Inr (sRequiredAlignment (char_of (ord_of ch AND 0x7F)))))"

section \<open>Names\<close>

definition word_char :: "char \<Rightarrow> bool" where
  "word_char c \<longleftrightarrow> is_alpha c \<or> is_digit c \<or> c = CHR ''_''"

text \<open>
  The scanning loop of the three checks on separated names. \<open>dot\<close> is the position of the last
  separator, \<open>cur\<close> the position being looked at. \<open>None\<close> is the \<^verbatim>\<open>return 0\<close> in the
  loop, \<open>Some dot\<close> the last separator when the loop ends.
\<close>

fun scan_name :: "char \<Rightarrow> (char \<Rightarrow> bool) \<Rightarrow> int \<Rightarrow> int \<Rightarrow> string \<Rightarrow> int option" where
  "scan_name sep ok dot cur [] = Some dot"
| "scan_name sep ok dot cur (c # rest) =
     (if c = sep then
        if cur - dot = 1 then None else scan_name sep ok cur (cur + 1) rest
      else if ok c then scan_name sep ok dot (cur + 1) rest
      else None)"

definition adbusI_isValidObjectPath :: "string option \<Rightarrow> bool" where
  "adbusI_isValidObjectPath str =
     (case str of None \<Rightarrow> False | Some [] \<Rightarrow> False
      | Some (c # rest) \<Rightarrow>
          if c \<noteq> CHR ''/'' then False
          else if length (c # rest) > 1 \<and> last (c # rest) = CHR ''/'' then False
          else scan_name CHR ''/'' word_char 0 1 rest \<noteq> None)"

definition adbusI_isValidInterfaceName :: "string option \<Rightarrow> bool" where
  "adbusI_isValidInterfaceName str =
     (case str of None \<Rightarrow> False | Some [] \<Rightarrow> False
      | Some (c # rest) \<Rightarrow>
          if length (c # rest) > 255 then False
          else if \<not> (is_alpha c \<or> c = CHR ''_'') then False
          else (case scan_name CHR ''.'' word_char (-1) 1 rest of
                  None \<Rightarrow> False | Some dot \<Rightarrow> dot \<noteq> -1))"

definition adbusI_isValidBusName :: "string option \<Rightarrow> bool" where
  "adbusI_isValidBusName str =
     (case str of None \<Rightarrow> False | Some [] \<Rightarrow> False
      | Some (c # rest) \<Rightarrow>
          if length (c # rest) > 255 then False
          else if \<not> (c = CHR '':'' \<or> is_alpha c \<or> c = CHR ''_'' \<or> c = CHR ''-'') then False
          else (case scan_name CHR ''.'' (\<lambda>c. word_char c \<or> c = CHR ''-'')
                      (if c = CHR '':'' then 0 else -1) 1 rest of
                  None \<Rightarrow> False | Some dot \<Rightarrow> dot \<noteq> -1))"

definition adbusI_isValidMemberName :: "string option \<Rightarrow> bool" where
  "adbusI_isValidMemberName str =
     (case str of None \<Rightarrow> False | Some [] \<Rightarrow> False
      | Some (c # rest) \<Rightarrow>
          if length (c # rest) > 255 then False
          else if \<not> (is_alpha c \<or> c = CHR ''_'') then False
          else list_all word_char rest)"

definition adbusI_hasNullByte :: "string \<Rightarrow> bool" where
  "adbusI_hasNullByte str \<longleftrightarrow> NUL \<in> set str"

section \<open>Signatures\<close>

text \<open>The type codes \<^verbatim>\<open>adbus_nextarg\<close> steps over in one.\<close>

definition basic_codes :: "char set" where
  "basic_codes = set ''bynqiuxtdsogv''"

function adbus_nextarg :: "string \<Rightarrow> string option"
  and nextarg_struct :: "string \<Rightarrow> string option" where
  "adbus_nextarg [] = None"
| "adbus_nextarg (c # sig) =
     (if c \<in> basic_codes then Some sig
      else if c = CHR ''a'' then adbus_nextarg sig
      else if c = CHR ''('' then nextarg_struct sig
      else if c = CHR ''{'' then
        (case adbus_nextarg sig of None \<Rightarrow> None
         | Some val \<Rightarrow>
            (case adbus_nextarg val of None \<Rightarrow> None
             | Some [] \<Rightarrow> None
             | Some (e # end) \<Rightarrow> if e \<noteq> CHR ''}'' then None else Some end))
      else None)"
| "nextarg_struct [] = None"
| "nextarg_struct (c # sig) =
     (if c = CHR '')'' then Some sig
      else case adbus_nextarg (c # sig) of None \<Rightarrow> None | Some sig' \<Rightarrow> nextarg_struct sig')"
  by pat_completeness auto

lemma nextarg_shrinks:
  "adbus_nextarg_nextarg_struct_dom (Inl s) \<Longrightarrow> adbus_nextarg s = Some r \<Longrightarrow> length r < length s"
  "adbus_nextarg_nextarg_struct_dom (Inr s) \<Longrightarrow> nextarg_struct s = Some r \<Longrightarrow> length r < length s"
proof (induction s and s arbitrary: r and r rule: adbus_nextarg_nextarg_struct.pinduct)
  case (2 c sig)
  then show ?case
    by (fastforce simp: adbus_nextarg.psimps split: if_splits option.splits list.splits)
next
  case (4 c sig)
  then show ?case
    by (fastforce simp: nextarg_struct.psimps split: if_splits option.splits)
qed (simp_all add: adbus_nextarg.psimps nextarg_struct.psimps)

termination adbus_nextarg
  by (relation "measure (\<lambda>x. case x of Inl s \<Rightarrow> 2 * length s | Inr s \<Rightarrow> 2 * length s + 1)")
    (auto dest: nextarg_shrinks)

section \<open>Object paths\<close>

text \<open>
  The optional size arguments: a negative size means up to the NUL. \<open>p\<close> is the block of
  characters the pointer points to.
\<close>

definition sized :: "string \<Rightarrow> int \<Rightarrow> string" where
  "sized p sz = (if sz < 0 then takeWhile (\<lambda>c. c \<noteq> NUL) p else take (nat sz) p)"

text \<open>\<open>remove_slashes\<close> is the loop that removes repeated slashes, at position \<open>i\<close>.\<close>

function remove_slashes :: "nat \<Rightarrow> string \<Rightarrow> string" where
  "remove_slashes i out =
     (if i < length out
      then remove_slashes (i + 1)
             (if out ! i = CHR ''/'' \<and> out ! (i - 1) = CHR ''/''
              then take i out @ drop (i + 1) out else out)
      else out)"
  by pat_completeness auto
termination
  by (relation "measure (\<lambda>(i, out). length out - i)") auto

declare remove_slashes.simps [simp del]

definition with_slash :: "string \<Rightarrow> string" where
  "with_slash p = (if p \<noteq> [] \<and> hd p \<noteq> CHR ''/'' then CHR ''/'' # p else p)"

definition adbusI_relativePath :: "string \<Rightarrow> int \<Rightarrow> string \<Rightarrow> int \<Rightarrow> string" where
  "adbusI_relativePath path1 size1 path2 size2 =
     (let out = with_slash (sized path1 size1) @ with_slash (sized path2 size2);
          out = remove_slashes 1 out
      in if length out > 1 \<and> last out = CHR ''/'' then butlast out else out)"

text \<open>The search for the last separator, walking \<open>size\<close> down.\<close>

fun parent_size :: "string \<Rightarrow> nat \<Rightarrow> nat" where
  "parent_size path 0 = 0"
| "parent_size path (Suc n) = (if path ! n \<noteq> CHR ''/'' then parent_size path n else Suc n)"

definition adbusI_parentPath :: "string \<Rightarrow> string option res" where
  "adbusI_parentPath path =
     bindr (assertr (adbusI_relativePath path (int (length path)) [] 0 = path)) (\<lambda>_.
       let sz = parent_size path (length path - 1)
       in Inr (if sz = 0 then None
               else if sz = 1 then Some (take sz path)
               else Some (take (sz - 1) path)))"

section \<open>What the name checks accept\<close>

lemma scan_name_accepts:
  "dot < cur \<Longrightarrow>
   scan_name sep ok dot cur rest \<noteq> None \<longleftrightarrow>
     list_all (\<lambda>c. c = sep \<or> ok c) rest
     \<and> \<not> sublist [sep, sep] ((if cur - dot = 1 then [sep] else []) @ rest)"
proof (induction sep ok dot cur rest rule: scan_name.induct)
  case (1 sep ok dot cur)
  then show ?case by (auto simp: sublist_Cons_right)
next
  case (2 sep ok dot cur c rest)
  then show ?case by (auto simp: sublist_Cons_right)
qed

lemma scan_name_dot:
  "dot < cur \<Longrightarrow> scan_name sep ok dot cur rest = Some d \<Longrightarrow>
   dot \<le> d \<and> (d = dot \<longleftrightarrow> sep \<notin> set rest)"
proof (induction sep ok dot cur rest rule: scan_name.induct)
  case (1 sep ok dot cur)
  then show ?case by simp
next
  case (2 sep ok dot cur c rest)
  then show ?case by (force split: if_splits)
qed

lemma scan_name_seen:
  "dot < cur \<Longrightarrow>
   (case scan_name sep ok dot cur rest of None \<Rightarrow> False | Some d \<Rightarrow> d \<noteq> dot) \<longleftrightarrow>
     scan_name sep ok dot cur rest \<noteq> None \<and> sep \<in> set rest"
  by (auto split: option.splits dest: scan_name_dot)

text \<open>Object paths by their components.\<close>

definition component :: "string \<Rightarrow> bool" where
  "component c \<longleftrightarrow> c \<noteq> [] \<and> list_all word_char c"

definition path_of :: "string list \<Rightarrow> string" where
  "path_of cs = concat (map ((#) CHR ''/'') cs)"

lemma not_word_char [simp]:
  "\<not> word_char CHR ''/''" "\<not> word_char CHR ''.''" "\<not> word_char CHR ''-''" "\<not> word_char NUL"
  by (simp_all add: word_char_def is_alpha_def is_digit_def in_range_def ord_of_def)

lemma component_no_slash: "component c \<Longrightarrow> CHR ''/'' \<notin> set c"
  by (auto simp: component_def list_all_iff)

lemma path_of_simps [simp]:
  "path_of [] = []" "path_of (c # cs) = CHR ''/'' # c @ path_of cs"
  "path_of (cs @ ds) = path_of cs @ path_of ds" "path_of cs = [] \<longleftrightarrow> cs = []"
  by (auto simp: path_of_def concat_eq_Nil_conv)

definition path_chars :: "string \<Rightarrow> bool" where
  "path_chars p \<longleftrightarrow> list_all (\<lambda>c. c = CHR ''/'' \<or> word_char c) p \<and> \<not> sublist ''//'' p"

lemma path_chars_Cons:
  "path_chars (CHR ''/'' # q) \<longleftrightarrow> path_chars q \<and> (q = [] \<or> hd q \<noteq> CHR ''/'')"
  by (cases q) (auto simp: path_chars_def sublist_Cons_right)

lemma path_chars_component:
  "list_all word_char c \<Longrightarrow> path_chars (c @ q) \<longleftrightarrow> path_chars q"
proof (induction c)
  case (Cons a c)
  then have "a \<noteq> CHR ''/''" by (auto simp: not_word_char)
  with Cons show ?case by (auto simp: path_chars_def sublist_Cons_right)
qed simp

lemma path_chars_path_of:
  "list_all component cs \<Longrightarrow> path_chars (path_of cs)"
proof (induction cs)
  case Nil
  then show ?case by (simp add: path_chars_def)
next
  case (Cons c cs)
  then have c: "list_all word_char c" "c \<noteq> []" "hd c \<noteq> CHR ''/''"
    by (auto simp: component_def list_all_iff hd_in_set) (metis hd_in_set not_word_char(1))
  with Cons show ?case by (simp add: path_chars_Cons path_chars_component)
qed

lemma last_path_of:
  "list_all component cs \<Longrightarrow> cs \<noteq> [] \<Longrightarrow> last (path_of cs) \<noteq> CHR ''/''"
proof (induction cs rule: rev_induct)
  case (snoc c cs)
  then have "c \<noteq> []" "last c \<in> set c" "CHR ''/'' \<notin> set c"
    by (auto simp: component_def component_no_slash)
  moreover from this(1) have "last (path_of (cs @ [c])) = last c" by simp
  ultimately show ?case by metis
qed simp

lemma path_chars_split:
  "path_chars (CHR ''/'' # q) \<Longrightarrow> q \<noteq> [] \<Longrightarrow> last q \<noteq> CHR ''/'' \<Longrightarrow>
   \<exists>cs. cs \<noteq> [] \<and> list_all component cs \<and> CHR ''/'' # q = path_of cs"
proof (induction "length q" arbitrary: q rule: less_induct)
  case less
  let ?c = "takeWhile (\<lambda>x. x \<noteq> CHR ''/'') q" and ?r = "dropWhile (\<lambda>x. x \<noteq> CHR ''/'') q"
  have q: "q = ?c @ ?r" by simp
  have hd: "hd q \<noteq> CHR ''/''" and pc: "path_chars q"
    using less.prems by (auto simp: path_chars_Cons)
  have ne: "?c \<noteq> []" using hd less.prems(2) by (cases q) auto
  have wc: "list_all word_char ?c"
    using pc by (auto simp: path_chars_def list_all_iff dest!: set_takeWhileD)
  have comp: "component ?c" using ne wc by (simp add: component_def)
  show ?case
  proof (cases ?r)
    case Nil
    then have "CHR ''/'' # q = path_of [?c]" using q by (metis append_Nil2 path_of_simps(1,2))
    with comp show ?thesis by (intro exI[of _ "[?c]"]) simp
  next
    case (Cons x q')
    then have x: "x = CHR ''/''" by (metis (full_types) dropWhile_eq_Cons_conv)
    have pc': "path_chars (CHR ''/'' # q')"
      using pc q Cons x path_chars_component[OF wc] by metis
    have len: "length q' < length q"
      using q Cons by (metis length_append length_Cons less_add_Suc2 add_Suc_right)
    have lst: "last q = last (x # q')" using q Cons by (metis last_append list.distinct(1))
    have ne': "q' \<noteq> []" and l': "last q' \<noteq> CHR ''/''"
      using less.prems(3) lst x by (auto split: if_splits)
    from less.hyps[OF len pc' ne' l'] obtain cs where
      cs: "list_all component cs" "CHR ''/'' # q' = path_of cs" by auto
    have "CHR ''/'' # q = path_of (?c # cs)"
      using q Cons x cs(2) by (metis path_of_simps(2))
    with comp cs(1) show ?thesis by (intro exI[of _ "?c # cs"]) simp
  qed
qed

lemma valid_path_chars:
  "adbusI_isValidObjectPath (Some p) \<longleftrightarrow>
     p = ''/'' \<or> (\<exists>q. p = CHR ''/'' # q \<and> q \<noteq> [] \<and> path_chars p \<and> last p \<noteq> CHR ''/'')"
  using scan_name_accepts[of 0 1 "CHR ''/''" word_char "tl p"]
  by (auto simp: adbusI_isValidObjectPath_def path_chars_def split: list.splits if_splits)

lemma valid_path_components:
  "adbusI_isValidObjectPath (Some p) \<longleftrightarrow>
     p = ''/'' \<or> (\<exists>cs. cs \<noteq> [] \<and> list_all component cs \<and> p = path_of cs)"
proof -
  have "\<exists>q. p = CHR ''/'' # q \<and> q \<noteq> [] \<and> path_chars p \<and> last p \<noteq> CHR ''/''"
    if "cs \<noteq> []" "list_all component cs" "p = path_of cs" for cs
    using that path_chars_path_of[OF that(2)] last_path_of[OF that(2,1)]
    by (cases cs) (auto simp: component_def)
  then show ?thesis
    unfolding valid_path_chars using path_chars_split by (metis last_ConsR)
qed

text \<open>C35: \<open>adbusI_isValidObjectPath\<close> accepts exactly the root path and the paths made of one or
  more components, each a slash and a non-empty word over letters, digits and underscore.\<close>

theorem isValidObjectPath_iff:
  "adbusI_isValidObjectPath (Some p) \<longleftrightarrow>
     p = ''/'' \<or> (\<exists>cs. cs \<noteq> [] \<and> list_all component cs \<and> p = path_of cs)"
  by (rule valid_path_components)

text \<open>\<open>adbusI_isValidInterfaceName\<close> accepts exactly the strings of 1 to 255 characters over
  letters, digits, underscore and dot that start with a letter or underscore, hold a dot and
  have no two dots in a row. (A trailing dot is accepted.)\<close>

theorem isValidInterfaceName_iff:
  "adbusI_isValidInterfaceName (Some p) \<longleftrightarrow>
     p \<noteq> [] \<and> length p \<le> 255 \<and> (is_alpha (hd p) \<or> hd p = CHR ''_'')
     \<and> list_all (\<lambda>c. c = CHR ''.'' \<or> word_char c) p
     \<and> \<not> sublist ''..'' p \<and> CHR ''.'' \<in> set p"
proof (cases p)
  case Nil
  then show ?thesis by (simp add: adbusI_isValidInterfaceName_def)
next
  case (Cons c rest)
  have dot: "\<not> (is_alpha CHR ''.'' \<or> CHR ''.'' = CHR ''_'')"
    by (simp add: is_alpha_def in_range_def ord_of_def)
  have wc: "is_alpha c \<or> c = CHR ''_'' \<Longrightarrow> word_char c" by (auto simp: word_char_def)
  have "(case scan_name CHR ''.'' word_char (-1) 1 rest of None \<Rightarrow> False | Some d \<Rightarrow> d \<noteq> -1) \<longleftrightarrow>
      list_all (\<lambda>c. c = CHR ''.'' \<or> word_char c) rest \<and> \<not> sublist ''..'' rest \<and> CHR ''.'' \<in> set rest"
    using scan_name_seen[of "-1" 1 "CHR ''.''" word_char rest]
      scan_name_accepts[of "-1" 1 "CHR ''.''" word_char rest] by simp
  then show ?thesis using Cons dot wc
    by (auto simp: adbusI_isValidInterfaceName_def sublist_Cons_right)
qed

text \<open>\<open>adbusI_isValidBusName\<close> accepts exactly the strings of 1 to 255 characters over letters,
  digits, underscore, minus and dot, with no two dots in a row, that either start with a colon
  (a unique name; no dot directly after the colon, and none required) or start with a letter,
  underscore or minus and hold a dot.\<close>

theorem isValidBusName_iff:
  "adbusI_isValidBusName (Some p) \<longleftrightarrow>
     p \<noteq> [] \<and> length p \<le> 255
     \<and> list_all (\<lambda>c. c = CHR ''.'' \<or> word_char c \<or> c = CHR ''-'') (tl p)
     \<and> \<not> sublist ''..'' p
     \<and> (if hd p = CHR '':'' then \<not> prefix '':.'' p
        else (is_alpha (hd p) \<or> hd p = CHR ''_'' \<or> hd p = CHR ''-'') \<and> CHR ''.'' \<in> set p)"
proof (cases p)
  case Nil
  then show ?thesis by (simp add: adbusI_isValidBusName_def)
next
  case (Cons c rest)
  let ?ok = "\<lambda>c. word_char c \<or> c = CHR ''-''"
  have dot: "\<not> is_alpha CHR ''.''" by (simp add: is_alpha_def in_range_def ord_of_def)
  have "scan_name CHR ''.'' ?ok 0 1 rest \<noteq> None \<longleftrightarrow>
      list_all (\<lambda>c. c = CHR ''.'' \<or> ?ok c) rest \<and> \<not> sublist ''..'' (CHR ''.'' # rest)"
    using scan_name_accepts[of 0 1 "CHR ''.''" ?ok rest] by simp
  moreover have "(case scan_name CHR ''.'' ?ok 0 1 rest of None \<Rightarrow> False | Some d \<Rightarrow> d \<noteq> -1)
      \<longleftrightarrow> scan_name CHR ''.'' ?ok 0 1 rest \<noteq> None"
    using scan_name_dot[of 0 1 "CHR ''.''" ?ok rest] by (auto split: option.splits)
  moreover have "(case scan_name CHR ''.'' ?ok (-1) 1 rest of None \<Rightarrow> False | Some d \<Rightarrow> d \<noteq> -1) \<longleftrightarrow>
      list_all (\<lambda>c. c = CHR ''.'' \<or> ?ok c) rest \<and> \<not> sublist ''..'' rest \<and> CHR ''.'' \<in> set rest"
    using scan_name_seen[of "-1" 1 "CHR ''.''" ?ok rest]
      scan_name_accepts[of "-1" 1 "CHR ''.''" ?ok rest] by simp
  ultimately show ?thesis using Cons dot
    by (auto simp: adbusI_isValidBusName_def sublist_Cons_right)
qed

lemma isValidMemberName_iff:
  "adbusI_isValidMemberName (Some p) \<longleftrightarrow>
     p \<noteq> [] \<and> length p \<le> 255 \<and> \<not> is_digit (hd p) \<and> list_all word_char p"
proof (cases p)
  case (Cons c rest)
  have "is_alpha c \<or> c = CHR ''_'' \<longleftrightarrow> word_char c \<and> \<not> is_digit c"
    by (auto simp: word_char_def is_alpha_def is_digit_def in_range_def ord_of_def)
  with Cons show ?thesis by (auto simp: adbusI_isValidMemberName_def)
qed (simp add: adbusI_isValidMemberName_def)

section \<open>Signatures and the types they spell\<close>

datatype dtype = Basic char | Arr dtype | Struct "dtype list" | DictEntry dtype dtype

fun sig_of :: "dtype \<Rightarrow> string" where
  "sig_of (Basic c) = [c]"
| "sig_of (Arr t) = CHR ''a'' # sig_of t"
| "sig_of (Struct ts) = CHR ''('' # concat (map sig_of ts) @ '')''"
| "sig_of (DictEntry k v) = CHR ''{'' # sig_of k @ sig_of v @ ''}''"

fun wf_dtype :: "dtype \<Rightarrow> bool" where
  "wf_dtype (Basic c) = (c \<in> basic_codes)"
| "wf_dtype (Arr t) = wf_dtype t"
| "wf_dtype (Struct ts) = list_all wf_dtype ts"
| "wf_dtype (DictEntry k v) = (wf_dtype k \<and> wf_dtype v)"

lemma sig_of_Cons: "wf_dtype t \<Longrightarrow> \<exists>c cs. sig_of t = c # cs \<and> c \<noteq> CHR '')''"
  by (cases t) (auto simp: basic_codes_def)

lemma nextarg_struct_sigs:
  "(\<And>t r. t \<in> set ts \<Longrightarrow> adbus_nextarg (sig_of t @ r) = Some r) \<Longrightarrow> list_all wf_dtype ts \<Longrightarrow>
   nextarg_struct (concat (map sig_of ts) @ CHR '')'' # r) = Some r"
proof (induction ts)
  case (Cons t ts)
  from Cons.prems(2) obtain c cs where c: "sig_of t = c # cs" "c \<noteq> CHR '')''"
    using sig_of_Cons[of t] by fastforce
  then show ?case
    using Cons.prems(1)[of t "concat (map sig_of ts) @ CHR '')'' # r"] Cons by simp
qed simp

lemma nextarg_sig_of:
  "wf_dtype t \<Longrightarrow> adbus_nextarg (sig_of t @ r) = Some r"
proof (induction t arbitrary: r)
  case (Struct ts)
  then show ?case
    using nextarg_struct_sigs[of ts r] by (simp add: basic_codes_def list_all_iff)
qed (simp_all add: basic_codes_def)

lemma nextarg_sound:
  "adbus_nextarg s = Some r \<Longrightarrow> \<exists>t. wf_dtype t \<and> s = sig_of t @ r"
  "nextarg_struct s = Some r \<Longrightarrow>
     \<exists>ts. list_all wf_dtype ts \<and> s = concat (map sig_of ts) @ CHR '')'' # r"
proof (induction s and s arbitrary: r and r rule: adbus_nextarg_nextarg_struct.induct)
  case (2 c sig)
  consider "c \<in> basic_codes" | "c = CHR ''a''" "c \<notin> basic_codes"
    | "c = CHR ''(''" "c \<notin> basic_codes" | "c = CHR ''{''" "c \<notin> basic_codes"
    using "2.prems" by (auto split: if_splits)
  then show ?case
  proof cases
    case 1
    with "2.prems" show ?thesis by (intro exI[of _ "Basic c"]) simp
  next
    case 2
    with "2.prems" "2.IH"(1) obtain t where "wf_dtype t" "sig = sig_of t @ r" by auto
    with 2 show ?thesis by (intro exI[of _ "Arr t"]) simp
  next
    case 3
    with "2.prems" "2.IH"(2) obtain ts
      where "list_all wf_dtype ts" "sig = concat (map sig_of ts) @ CHR '')'' # r" by auto
    with 3 show ?thesis by (intro exI[of _ "Struct ts"]) simp
  next
    case 4
    with "2.prems" obtain val where val: "adbus_nextarg sig = Some val"
      "adbus_nextarg val = Some (CHR ''}'' # r)"
      by (auto split: option.splits list.splits if_splits)
    with 4 "2.IH"(3) obtain k where k: "wf_dtype k" "sig = sig_of k @ val" by auto
    from 4 val "2.IH"(4) obtain v where v: "wf_dtype v" "val = sig_of v @ CHR ''}'' # r" by auto
    from 4 k v show ?thesis by (intro exI[of _ "DictEntry k v"]) simp
  qed
next
  case (4 c sig)
  show ?case
  proof (cases "c = CHR '')''")
    case True
    with "4.prems" show ?thesis by (intro exI[of _ "[]"]) simp
  next
    case False
    with "4.prems" obtain s' where s': "adbus_nextarg (c # sig) = Some s'" "nextarg_struct s' = Some r"
      by (auto split: option.splits)
    from "4.IH"(1)[OF False s'(1)] obtain t where t: "wf_dtype t" "c # sig = sig_of t @ s'" by blast
    from "4.IH"(2)[OF False s'(1) s'(2)] obtain ts
      where ts: "list_all wf_dtype ts" "s' = concat (map sig_of ts) @ CHR '')'' # r" by blast
    from t ts show ?thesis by (intro exI[of _ "t # ts"]) simp
  qed
qed simp_all

text \<open>C36: \<open>adbus_nextarg\<close> steps over exactly one complete type: it returns the rest \<open>r\<close> of a
  signature if and only if the signature is the spelling of a type followed by \<open>r\<close>, and NULL
  otherwise.\<close>

theorem nextarg_iff:
  "adbus_nextarg s = Some r \<longleftrightarrow> (\<exists>t. wf_dtype t \<and> s = sig_of t @ r)"
  using nextarg_sound(1) nextarg_sig_of by blast

section \<open>Joining paths and taking the parent\<close>

lemma remove_slashes_id: "\<not> sublist ''//'' out \<Longrightarrow> 0 < i \<Longrightarrow> remove_slashes i out = out"
proof (induction i out rule: remove_slashes.induct)
  case (1 i out)
  show ?case
  proof (cases "i < length out")
    case True
    have "\<not> (out ! i = CHR ''/'' \<and> out ! (i - 1) = CHR ''/'')"
    proof
      assume eq: "out ! i = CHR ''/'' \<and> out ! (i - 1) = CHR ''/''"
      obtain j where j: "i = Suc j" using "1.prems"(2) by (cases i) auto
      with True have "drop (i - 1) out = out ! (i - 1) # out ! i # drop (i + 1) out"
        by (metis Cons_nth_drop_Suc Suc_eq_plus1 Suc_lessD diff_Suc_1)
      with eq have "drop (i - 1) out = ''//'' @ drop (i + 1) out" by simp
      then have "out = take (i - 1) out @ ''//'' @ drop (i + 1) out"
        by (metis append_take_drop_id)
      then have "sublist ''//'' out" unfolding sublist_def by blast
      with "1.prems"(1) show False by contradiction
    qed
    with "1" True show ?thesis by (subst remove_slashes.simps) auto
  next
    case False
    then show ?thesis by (subst remove_slashes.simps) simp
  qed
qed

lemma remove_slashes_double:
  assumes "\<not> sublist ''//'' (CHR ''/'' # q)"
  shows "remove_slashes 1 (CHR ''/'' # CHR ''/'' # q) = CHR ''/'' # q"
  using assms by (subst remove_slashes.simps) (simp add: remove_slashes_id)

lemma valid_pathE:
  assumes "adbusI_isValidObjectPath (Some p)"
  obtains "p = ''/''" | cs where "p = path_of cs" "cs \<noteq> []" "list_all component cs"
  using assms valid_path_components by blast

lemma valid_path_cases:
  assumes "adbusI_isValidObjectPath (Some p)"
  obtains "p = ''/''" | q where "p = CHR ''/'' # q" "q \<noteq> []" "path_chars p" "last p \<noteq> CHR ''/''"
proof -
  from assms have "p = ''/'' \<or> (\<exists>q. p = CHR ''/'' # q \<and> q \<noteq> [] \<and> path_chars p
      \<and> last p \<noteq> CHR ''/'')"
    by (rule valid_path_chars[THEN iffD1])
  then show thesis using that by (elim disjE exE conjE) assumption+
qed

lemma path_chars_root: "path_chars ''/''"
  by (simp add: path_chars_def sublist_Cons_right)

lemma valid_path_facts:
  assumes "adbusI_isValidObjectPath (Some p)"
  shows "\<exists>q. p = CHR ''/'' # q" "\<not> sublist ''//'' p" "NUL \<notin> set p"
    "p \<noteq> ''/'' \<Longrightarrow> last p \<noteq> CHR ''/''"
proof -
  have pc: "path_chars p" using assms by (rule valid_path_cases) (simp_all add: path_chars_root)
  then show "\<not> sublist ''//'' p" by (simp add: path_chars_def)
  have "list_all (\<lambda>c. c = CHR ''/'' \<or> word_char c) p" using pc by (simp add: path_chars_def)
  then show "NUL \<notin> set p" by (rule list_all_notin) simp
  show "\<exists>q. p = CHR ''/'' # q" using assms by (rule valid_path_cases) simp_all
  show "p \<noteq> ''/'' \<Longrightarrow> last p \<noteq> CHR ''/''" using assms by (rule valid_path_cases) simp_all
qed

lemma sized_full: "NUL \<notin> set p \<Longrightarrow> sized p (-1) = p"
  by (auto simp: sized_def takeWhile_eq_all_conv)

lemma relativePath_parts:
  "sized q1 n1 = p1 \<Longrightarrow> sized q2 n2 = p2 \<Longrightarrow>
   adbusI_relativePath q1 n1 q2 n2 = adbusI_relativePath p1 (int (length p1)) p2 (int (length p2))"
  by (simp add: adbusI_relativePath_def sized_def)

lemma relativePath_single:
  assumes "adbusI_isValidObjectPath (Some p)"
  shows "adbusI_relativePath p (int (length p)) [] 0 = p"
  using valid_path_facts[OF assms]
  by (auto simp: adbusI_relativePath_def with_slash_def sized_def remove_slashes_id Let_def)

lemma no_double_join:
  "\<not> sublist ''//'' p \<Longrightarrow> \<not> sublist ''//'' q \<Longrightarrow> (p = [] \<or> last p \<noteq> CHR ''/'') \<Longrightarrow>
   \<not> sublist ''//'' (p @ q)"
proof (induction p)
  case (Cons a p)
  then show ?case by (cases p) (auto simp: sublist_Cons_right split: if_splits)
qed simp

lemma relativePath_join_aux:
  assumes v1: "adbusI_isValidObjectPath (Some p1)" and v2: "adbusI_isValidObjectPath (Some p2)"
  shows "adbusI_relativePath p1 (int (length p1)) p2 (int (length p2))
       = (if p1 = ''/'' then p2 else if p2 = ''/'' then p1 else p1 @ p2)"
proof -
  note f1 = valid_path_facts[OF v1] and f2 = valid_path_facts[OF v2]
  obtain r1 r2 where r: "p1 = CHR ''/'' # r1" "p2 = CHR ''/'' # r2" using f1(1) f2(1) by auto
  have ws: "with_slash p1 = p1" "with_slash p2 = p2" by (simp_all add: r with_slash_def)
  show ?thesis
  proof (cases "p1 = ''/''")
    case True
    have "remove_slashes 1 (p1 @ p2) = p2"
      using True f2(2) r(2) remove_slashes_double by simp
    with True ws f2(4) show ?thesis
      by (cases "p2 = ''/''") (auto simp: adbusI_relativePath_def sized_def Let_def)
  next
    case False
    have "\<not> sublist ''//'' (p1 @ p2)" using no_double_join[OF f1(2) f2(2)] f1(4) False by simp
    then have "remove_slashes 1 (p1 @ p2) = p1 @ p2" by (simp add: remove_slashes_id)
    with False ws f2(4) r show ?thesis
      by (auto simp: adbusI_relativePath_def sized_def Let_def)
  qed
qed

lemma parent_size_last:
  "CHR ''/'' \<notin> set ys \<Longrightarrow>
   parent_size (xs @ CHR ''/'' # ys @ zs) (length xs + 1 + length ys) = length xs + 1"
proof (induction ys arbitrary: zs rule: rev_induct)
  case (snoc y ys)
  then show ?case using snoc.IH[of "y # zs"] by (auto simp: nth_append)
qed (simp add: nth_append)

lemma parentPath_path_of:
  assumes cs: "list_all component cs" and c: "component c"
  shows "adbusI_parentPath (path_of (cs @ [c])) = Inr (Some (if cs = [] then ''/'' else path_of cs))"
proof -
  let ?p = "path_of (cs @ [c])"
  have v: "adbusI_isValidObjectPath (Some ?p)"
    unfolding valid_path_components using cs c by (intro disjI2 exI[of _ "cs @ [c]"]) simp
  have p: "?p = path_of cs @ CHR ''/'' # butlast c @ [last c]"
    using c by (simp add: component_def)
  have ns: "CHR ''/'' \<notin> set (butlast c)"
    using component_no_slash[OF c] by (meson in_set_butlastD)
  have len: "length ?p - 1 = length (path_of cs) + 1 + length (butlast c)"
    using c by (cases c) (simp_all add: component_def)
  have "parent_size ?p (length ?p - 1) = length (path_of cs) + 1"
    unfolding len by (subst p) (rule parent_size_last[OF ns])
  then show ?thesis using relativePath_single[OF v]
    by (simp add: adbusI_parentPath_def Let_def)
qed

text \<open>For two valid object paths \<open>adbusI_relativePath\<close> joins them with exactly one slash at the
  seam: the root path disappears, and the result is a valid object path again.\<close>

theorem relativePath_join:
  assumes "adbusI_isValidObjectPath (Some p1)" and "adbusI_isValidObjectPath (Some p2)"
  shows "adbusI_relativePath p1 (-1) p2 (-1)
           = (if p1 = ''/'' then p2 else if p2 = ''/'' then p1 else p1 @ p2)
       \<and> adbusI_isValidObjectPath (Some (adbusI_relativePath p1 (-1) p2 (-1)))"
proof -
  have eq: "adbusI_relativePath p1 (-1) p2 (-1)
      = (if p1 = ''/'' then p2 else if p2 = ''/'' then p1 else p1 @ p2)"
    using relativePath_parts[OF sized_full sized_full] valid_path_facts(3) assms
      relativePath_join_aux[OF assms] by metis
  have "adbusI_isValidObjectPath (Some (p1 @ p2))" if "p1 \<noteq> ''/''" "p2 \<noteq> ''/''"
  proof -
    from that assms obtain cs ds where "p1 = path_of cs" "p2 = path_of ds" "cs \<noteq> []"
      "list_all component cs" "list_all component ds" by (metis valid_pathE)
    then show ?thesis unfolding valid_path_components
      by (intro disjI2 exI[of _ "cs @ ds"]) simp
  qed
  with eq assms show ?thesis by simp
qed

theorem relativePath_join_witness:
  "adbusI_isValidObjectPath (Some ''/org/x'') \<and> adbusI_isValidObjectPath (Some ''/y'')
   \<and> adbusI_relativePath ''/org/x'' (-1) ''/y'' (-1) = ''/org/x/y''"
proof -
  have v: "adbusI_isValidObjectPath (Some ''/org/x'')" "adbusI_isValidObjectPath (Some ''/y'')"
    by code_simp+
  from relativePath_join[OF v] v show ?thesis by simp
qed

text \<open>\<open>adbusI_parentPath\<close> on a valid object path: the root has no parent; any other path has a
  valid parent, and the path is the join of that parent and one last component.\<close>

theorem parentPath_valid:
  assumes "adbusI_isValidObjectPath (Some p)"
  shows "if p = ''/'' then adbusI_parentPath p = Inr None
         else \<exists>q c. adbusI_parentPath p = Inr (Some q) \<and> component c
                \<and> adbusI_isValidObjectPath (Some q)
                \<and> adbusI_relativePath q (-1) (CHR ''/'' # c) (-1) = p"
proof (cases "p = ''/''")
  case True
  then show ?thesis using relativePath_single[OF assms]
    by (simp add: adbusI_parentPath_def Let_def)
next
  case False
  with assms obtain cs where cs: "p = path_of cs" "cs \<noteq> []" "list_all component cs"
    using valid_pathE by blast
  then obtain ds c where d: "p = path_of (ds @ [c])" "list_all component ds" "component c"
    by (cases cs rule: rev_cases) auto
  let ?q = "if ds = [] then ''/'' else path_of ds"
  have q: "adbusI_isValidObjectPath (Some ?q)"
    using d(2) unfolding valid_path_components by auto
  have c: "adbusI_isValidObjectPath (Some (CHR ''/'' # c))"
    using d(3) unfolding valid_path_components by (intro disjI2 exI[of _ "[c]"]) simp
  have "path_of ds = ''/'' \<Longrightarrow> ds = []"
    using d(2) by (cases ds) (auto simp: component_def)
  moreover have "CHR ''/'' # c \<noteq> ''/''" using d(3) by (simp add: component_def)
  ultimately have "adbusI_relativePath ?q (-1) (CHR ''/'' # c) (-1) = p"
    using d(1) relativePath_join_aux[OF q c] relativePath_parts[OF sized_full sized_full]
      valid_path_facts(3)[OF q] valid_path_facts(3)[OF c] by auto
  with False q d(3) parentPath_path_of[OF d(2,3)] d(1) show ?thesis by auto
qed

theorem parentPath_valid_witness:
  "adbusI_isValidObjectPath (Some ''/org/x'')
   \<and> (\<exists>q c. adbusI_parentPath ''/org/x'' = Inr (Some q) \<and> component c
         \<and> adbusI_relativePath q (-1) (CHR ''/'' # c) (-1) = ''/org/x'')"
proof -
  have v: "adbusI_isValidObjectPath (Some ''/org/x'')" by code_simp
  from parentPath_valid[OF v] v show ?thesis by auto
qed

end
