(* ===== verification/Buffer.thy ===== *)
theory Buffer
  imports Misc
begin

text \<open>
  \<^verbatim>\<open>adbus_Buffer\<close> of \<^verbatim>\<open>adbus/rbuffer.c\<close>: a byte vector with the signature of the data being
  serialised. The vector is described by its contents (\<^verbatim>\<open>Vector.thy\<close> shows that
  \<^verbatim>\<open>d_Vector(char)\<close> implements them), the signature is the 256 character array, and \<open>sigp\<close>
  is a pointer: a position in that array, a position in a string of the caller (inside a
  variant), or NULL.

  A C string handed to an operation is the list of its characters; a NUL follows it in memory.
  Every serialising operation checks and advances the tracked signature with the
  \<^verbatim>\<open>SIG\<close> macro, whose assert is \<open>Inl Abort\<close> here.
\<close>

datatype sigptr = InSig nat | Outside string | Null

record adbus_Buffer =
  buf_b :: "char list"
  buf_sig :: "char list"
  buf_sigp :: sigptr

definition adbus_buf_new :: adbus_Buffer where
  "adbus_buf_new = \<lparr>buf_b = [], buf_sig = replicate 256 NUL, buf_sigp = InSig 0\<rparr>"

definition adbus_buf_size :: "adbus_Buffer \<Rightarrow> nat" where
  "adbus_buf_size buf = length (buf_b buf)"

definition adbus_buf_release :: "adbus_Buffer \<Rightarrow> char list \<times> adbus_Buffer" where
  "adbus_buf_release buf = (buf_b buf, buf\<lparr>buf_b := [], buf_sig := (buf_sig buf)[0 := NUL], buf_sigp := InSig 0\<rparr>)"

definition adbus_buf_reset :: "adbus_Buffer \<Rightarrow> adbus_Buffer" where
  "adbus_buf_reset buf = buf\<lparr>buf_b := [], buf_sig := (buf_sig buf)[0 := NUL], buf_sigp := InSig 0\<rparr>"

definition adbus_buf_sig :: "adbus_Buffer \<Rightarrow> string" where
  "adbus_buf_sig buf = takeWhile (\<lambda>c. c \<noteq> NUL) (buf_sig buf)"

text \<open>The string at a signature pointer; NULL has none.\<close>

definition sigp_str :: "adbus_Buffer \<Rightarrow> sigptr \<Rightarrow> string option" where
  "sigp_str buf p = (case p of
       InSig n \<Rightarrow> Some (takeWhile (\<lambda>c. c \<noteq> NUL) (drop n (buf_sig buf)))
     | Outside s \<Rightarrow> Some s | Null \<Rightarrow> None)"

definition adbus_buf_signext :: "adbus_Buffer \<Rightarrow> string res" where
  "adbus_buf_signext buf =
     (case sigp_str buf (buf_sigp buf) of None \<Rightarrow> Inl Fault | Some s \<Rightarrow> Inr s)"

text \<open>
  \<^verbatim>\<open>memcpy\<close> of \<open>n + 1\<close> characters of the C string \<open>s\<close> over the array at \<open>off\<close>; the
  character after the first \<open>n\<close> is copied too, whatever it is.
\<close>

definition copy_sig :: "adbus_Buffer \<Rightarrow> nat \<Rightarrow> string \<Rightarrow> nat \<Rightarrow> adbus_Buffer res" where
  "copy_sig buf off s n =
     (if n + 1 > length s + 1 then Inl Fault
      else Inr (buf\<lparr>buf_sig := overwrite (buf_sig buf) off (take (n + 1) (s @ [NUL]))\<rparr>))"

definition arg_size :: "string \<Rightarrow> int \<Rightarrow> nat" where
  "arg_size s sz = (if sz < 0 then c_strlen s else nat sz)"

definition adbus_buf_setsig :: "adbus_Buffer \<Rightarrow> string \<Rightarrow> int \<Rightarrow> adbus_Buffer res" where
  "adbus_buf_setsig buf s sz =
     (let n = arg_size s sz
      in if n + 1 > 256 then Inl Abort else copy_sig buf 0 s n)"

definition adbus_buf_appendsig :: "adbus_Buffer \<Rightarrow> string \<Rightarrow> int \<Rightarrow> adbus_Buffer res" where
  "adbus_buf_appendsig buf s sz =
     (let n = arg_size s sz; existing = c_strlen (buf_sig buf)
      in if existing + n + 1 > 256 then Inl Abort else copy_sig buf existing s n)"

definition adbus_buf_remove :: "adbus_Buffer \<Rightarrow> nat \<Rightarrow> nat \<Rightarrow> adbus_Buffer res" where
  "adbus_buf_remove buf off num =
     bindr (assertr (off + num \<le> length (buf_b buf))) (\<lambda>_.
       Inr (buf\<lparr>buf_b := take off (buf_b buf) @ drop (off + num) (buf_b buf)\<rparr>))"

definition adbus_buf_append :: "adbus_Buffer \<Rightarrow> char list \<Rightarrow> adbus_Buffer" where
  "adbus_buf_append buf xs = buf\<lparr>buf_b := buf_b buf @ xs\<rparr>"

text \<open>The length of the first line with its newline, NULL when there is no complete line.\<close>

definition adbus_buf_line :: "adbus_Buffer \<Rightarrow> nat option" where
  "adbus_buf_line buf =
     (let pre = takeWhile (\<lambda>c. c \<noteq> CHR 0x0A) (buf_b buf)
      in if length pre = length (buf_b buf) then None else Some (length pre + 1))"

text \<open>
  \<^verbatim>\<open>recvbuf\<close> makes room (filled with question marks by the vector), the caller writes the
  received bytes at the start of it, \<^verbatim>\<open>recvd\<close> gives the rest back. The length handed
  to \<^verbatim>\<open>dv_pop\<close> is unsigned: more bytes than asked for wraps around and trips its assert.
\<close>

definition adbus_buf_recvbuf :: "adbus_Buffer \<Rightarrow> nat \<Rightarrow> adbus_Buffer \<times> nat" where
  "adbus_buf_recvbuf buf len = (buf\<lparr>buf_b := buf_b buf @ replicate len CHR ''?''\<rparr>, length (buf_b buf))"

definition adbus_buf_recvd :: "adbus_Buffer \<Rightarrow> nat \<Rightarrow> int \<Rightarrow> adbus_Buffer res" where
  "adbus_buf_recvd buf len recvd =
     (let rx = (if recvd > 0 then nat recvd else 0)
      in bindr (assertr (rx \<le> len \<and> len - rx \<le> length (buf_b buf))) (\<lambda>_.
           Inr (buf\<lparr>buf_b := take (length (buf_b buf) - (len - rx)) (buf_b buf)\<rparr>)))"

definition Align :: "adbus_Buffer \<Rightarrow> nat \<Rightarrow> adbus_Buffer" where
  "Align buf alignment =
     buf\<lparr>buf_b := buf_b buf @ replicate (align (length (buf_b buf)) alignment - length (buf_b buf)) NUL\<rparr>"

definition adbus_buf_align :: "adbus_Buffer \<Rightarrow> nat \<Rightarrow> adbus_Buffer" where
  "adbus_buf_align buf alignment = Align buf alignment"

definition AlignField :: "adbus_Buffer \<Rightarrow> char \<Rightarrow> adbus_Buffer res" where
  "AlignField buf field =
     (if field \<in> set ''ygv'' then Inr buf
      else if field \<in> set ''nq'' then Inr (Align buf 2)
      else if field \<in> set ''biusoa'' then Inr (Align buf 4)
      else if field \<in> set ''xtd({'' then Inr (Align buf 8)
      else Inl Abort)"

definition AlignValue :: "nat \<Rightarrow> char \<Rightarrow> nat res" where
  "AlignValue val field =
     (if field \<in> set ''ygv'' then Inr val
      else if field \<in> set ''nq'' then Inr (align val 2)
      else if field \<in> set ''biusoa'' then Inr (align val 4)
      else if field \<in> set ''xtd({'' then Inr (align val 8)
      else Inl Abort)"

definition adbus_buf_alignfield :: "adbus_Buffer \<Rightarrow> char \<Rightarrow> adbus_Buffer res" where
  "adbus_buf_alignfield buf field = AlignField buf field"

definition Append8 :: "adbus_Buffer \<Rightarrow> 8 word \<Rightarrow> adbus_Buffer" where
  "Append8 buf v = adbus_buf_append buf (le_bytes 1 (unat v))"

definition Append16 :: "adbus_Buffer \<Rightarrow> 16 word \<Rightarrow> adbus_Buffer" where
  "Append16 buf v = adbus_buf_append (Align buf 2) (le_bytes 2 (unat v))"

definition Append32 :: "adbus_Buffer \<Rightarrow> 32 word \<Rightarrow> adbus_Buffer" where
  "Append32 buf v = adbus_buf_append (Align buf 4) (le_bytes 4 (unat v))"

definition Append64 :: "adbus_Buffer \<Rightarrow> 64 word \<Rightarrow> adbus_Buffer" where
  "Append64 buf v = adbus_buf_append (Align buf 8) (le_bytes 8 (unat v))"

section \<open>Serialising\<close>

definition sigp_next :: "sigptr \<Rightarrow> sigptr" where
  "sigp_next p = (case p of InSig n \<Rightarrow> InSig (Suc n) | Outside s \<Rightarrow> Outside (tl s) | Null \<Rightarrow> Null)"

definition sigp_char :: "adbus_Buffer \<Rightarrow> char res" where
  "sigp_char buf = (case sigp_str buf (buf_sigp buf) of
       None \<Rightarrow> Inl Fault | Some [] \<Rightarrow> Inr NUL | Some (c # _) \<Rightarrow> Inr c)"

definition SIG :: "adbus_Buffer \<Rightarrow> char \<Rightarrow> adbus_Buffer res" where
  "SIG buf s = bindr (sigp_char buf) (\<lambda>c. bindr (assertr (c = s)) (\<lambda>_.
     Inr (buf\<lparr>buf_sigp := sigp_next (buf_sigp buf)\<rparr>)))"

definition adbus_buf_end :: "adbus_Buffer \<Rightarrow> unit res" where
  "adbus_buf_end buf = bindr (sigp_char buf) (\<lambda>c. assertr (c = NUL))"

definition adbus_buf_bool :: "adbus_Buffer \<Rightarrow> 32 word \<Rightarrow> adbus_Buffer res" where
  "adbus_buf_bool buf v =
     bindr (SIG buf CHR ''b'') (\<lambda>buf. Inr (Append32 buf (if v \<noteq> 0 then 1 else 0)))"

definition adbus_buf_u8 :: "adbus_Buffer \<Rightarrow> 8 word \<Rightarrow> adbus_Buffer res" where
  "adbus_buf_u8 buf v = bindr (SIG buf CHR ''y'') (\<lambda>buf. Inr (Append8 buf v))"

definition adbus_buf_i16 :: "adbus_Buffer \<Rightarrow> 16 word \<Rightarrow> adbus_Buffer res" where
  "adbus_buf_i16 buf v = bindr (SIG buf CHR ''n'') (\<lambda>buf. Inr (Append16 buf v))"

definition adbus_buf_u16 :: "adbus_Buffer \<Rightarrow> 16 word \<Rightarrow> adbus_Buffer res" where
  "adbus_buf_u16 buf v = bindr (SIG buf CHR ''q'') (\<lambda>buf. Inr (Append16 buf v))"

definition adbus_buf_i32 :: "adbus_Buffer \<Rightarrow> 32 word \<Rightarrow> adbus_Buffer res" where
  "adbus_buf_i32 buf v = bindr (SIG buf CHR ''i'') (\<lambda>buf. Inr (Append32 buf v))"

definition adbus_buf_u32 :: "adbus_Buffer \<Rightarrow> 32 word \<Rightarrow> adbus_Buffer res" where
  "adbus_buf_u32 buf v = bindr (SIG buf CHR ''u'') (\<lambda>buf. Inr (Append32 buf v))"

definition adbus_buf_i64 :: "adbus_Buffer \<Rightarrow> 64 word \<Rightarrow> adbus_Buffer res" where
  "adbus_buf_i64 buf v = bindr (SIG buf CHR ''x'') (\<lambda>buf. Inr (Append64 buf v))"

definition adbus_buf_u64 :: "adbus_Buffer \<Rightarrow> 64 word \<Rightarrow> adbus_Buffer res" where
  "adbus_buf_u64 buf v = bindr (SIG buf CHR ''t'') (\<lambda>buf. Inr (Append64 buf v))"

definition adbus_buf_double :: "adbus_Buffer \<Rightarrow> 64 word \<Rightarrow> adbus_Buffer res" where
  "adbus_buf_double buf v = bindr (SIG buf CHR ''d'') (\<lambda>buf. Inr (Append64 buf v))"

text \<open>The characters and the terminator that follow the size of a string.\<close>

definition append_str :: "adbus_Buffer \<Rightarrow> string \<Rightarrow> nat \<Rightarrow> adbus_Buffer res" where
  "append_str buf str n =
     (if n > length str + 1 then Inl Fault
      else Inr (adbus_buf_append buf (take n (str @ [NUL]) @ [NUL])))"

definition adbus_buf_string :: "adbus_Buffer \<Rightarrow> string \<Rightarrow> int \<Rightarrow> adbus_Buffer res" where
  "adbus_buf_string buf str sz =
     bindr (SIG buf CHR ''s'') (\<lambda>buf. let n = arg_size str sz in
       bindr (assertr (n \<le> 2 ^ 32 - 1)) (\<lambda>_. append_str (Append32 buf (of_nat n)) str n))"

definition adbus_buf_objectpath :: "adbus_Buffer \<Rightarrow> string \<Rightarrow> int \<Rightarrow> adbus_Buffer res" where
  "adbus_buf_objectpath buf str sz =
     bindr (SIG buf CHR ''o'') (\<lambda>buf. let n = arg_size str sz in
       bindr (assertr (n \<le> 2 ^ 32 - 1)) (\<lambda>_. append_str (Append32 buf (of_nat n)) str n))"

definition adbus_buf_signature :: "adbus_Buffer \<Rightarrow> string \<Rightarrow> int \<Rightarrow> adbus_Buffer res" where
  "adbus_buf_signature buf str sz =
     bindr (SIG buf CHR ''g'') (\<lambda>buf. let n = arg_size str sz in
       bindr (assertr (n < 255)) (\<lambda>_. append_str (Append8 buf (of_nat n)) str n))"

text \<open>\<^verbatim>\<open>adbus_BufVariant\<close> is the one pointer \<^verbatim>\<open>oldsig\<close>.\<close>

definition adbus_buf_beginvariant ::
    "adbus_Buffer \<Rightarrow> string \<Rightarrow> int \<Rightarrow> (adbus_Buffer \<times> sigptr) res" where
  "adbus_buf_beginvariant buf s sz =
     bindr (SIG buf CHR ''v'') (\<lambda>buf. let n = arg_size s sz in
       bindr (assertr (n < 255)) (\<lambda>_.
       bindr (append_str (Append8 buf (of_nat n)) s n) (\<lambda>buf.
         Inr (buf\<lparr>buf_sigp := Outside s\<rparr>, buf_sigp buf))))"

definition adbus_buf_endvariant :: "adbus_Buffer \<Rightarrow> sigptr \<Rightarrow> adbus_Buffer" where
  "adbus_buf_endvariant buf oldsig = buf\<lparr>buf_sigp := oldsig\<rparr>"

record adbus_BufArray =
  ba_szindex :: nat
  ba_dataindex :: nat
  ba_sigbegin :: sigptr
  ba_sigend :: sigptr

text \<open>\<^verbatim>\<open>adbus_nextarg\<close> on a pointer: the pointer moved behind one complete type.\<close>

definition sigp_nextarg :: "adbus_Buffer \<Rightarrow> sigptr \<Rightarrow> sigptr" where
  "sigp_nextarg buf p = (case sigp_str buf p of None \<Rightarrow> Null | Some s \<Rightarrow>
     (case adbus_nextarg s of None \<Rightarrow> Null | Some r \<Rightarrow>
        (case p of InSig n \<Rightarrow> InSig (n + (length s - length r)) | _ \<Rightarrow> Outside r)))"

definition adbus_buf_beginarray :: "adbus_Buffer \<Rightarrow> (adbus_Buffer \<times> adbus_BufArray) res" where
  "adbus_buf_beginarray buf =
     bindr (SIG buf CHR ''a'') (\<lambda>buf. let buf = Append32 buf 0; szi = length (buf_b buf) - 4 in
       bindr (sigp_char buf) (\<lambda>c.
       bindr (adbus_buf_alignfield buf c) (\<lambda>buf.
         Inr (buf, \<lparr>ba_szindex = szi, ba_dataindex = length (buf_b buf), ba_sigbegin = buf_sigp buf,
                    ba_sigend = sigp_nextarg buf (buf_sigp buf)\<rparr>))))"

definition adbus_buf_arrayentry :: "adbus_Buffer \<Rightarrow> adbus_BufArray \<Rightarrow> adbus_Buffer" where
  "adbus_buf_arrayentry buf a = buf\<lparr>buf_sigp := ba_sigbegin a\<rparr>"

definition adbus_buf_checkarrayentry :: "adbus_Buffer \<Rightarrow> adbus_BufArray \<Rightarrow> adbus_Buffer" where
  "adbus_buf_checkarrayentry buf a =
     (if buf_sigp buf = ba_sigend a then buf\<lparr>buf_sigp := ba_sigbegin a\<rparr> else buf)"

definition adbus_buf_endarray :: "adbus_Buffer \<Rightarrow> adbus_BufArray \<Rightarrow> adbus_Buffer res" where
  "adbus_buf_endarray buf a =
     (if ba_szindex a + 4 > length (buf_b buf) then Inl Fault
      else Inr (buf\<lparr>buf_b := overwrite (buf_b buf) (ba_szindex a)
                           (le_bytes 4 (unat (of_nat (length (buf_b buf)) - of_nat (ba_dataindex a) :: 32 word))),
                    buf_sigp := ba_sigend a\<rparr>))"

definition adbus_buf_begindictentry :: "adbus_Buffer \<Rightarrow> adbus_Buffer res" where
  "adbus_buf_begindictentry buf = bindr (SIG buf CHR ''{'') (\<lambda>buf. Inr (Align buf 8))"

definition adbus_buf_enddictentry :: "adbus_Buffer \<Rightarrow> adbus_Buffer res" where
  "adbus_buf_enddictentry buf = SIG buf CHR ''{''"

definition adbus_buf_beginstruct :: "adbus_Buffer \<Rightarrow> adbus_Buffer res" where
  "adbus_buf_beginstruct buf = bindr (SIG buf CHR ''('') (\<lambda>buf. Inr (Align buf 8))"

definition adbus_buf_endstruct :: "adbus_Buffer \<Rightarrow> adbus_Buffer res" where
  "adbus_buf_endstruct buf = SIG buf CHR '')''"

section \<open>Alignment: the switch and the table\<close>

text \<open>
  The alignment of a field is written three times in the library: as the table behind
  \<open>adbusI_alignment\<close> and as the switches of \<open>AlignField\<close> and \<open>AlignValue\<close> (and once
  more in the iterator). They agree.
\<close>

lemma Align_1: "Align buf (Suc 0) = buf"
  by (simp add: Align_def)

lemma AlignField_table:
  "AlignField buf c = (if sRequiredAlignment c = 0 then Inl Abort
     else Inr (Align buf (sRequiredAlignment c)))"
  unfolding AlignField_def sRequiredAlignment_def by simp (auto simp: Align_1)

lemma AlignValue_table:
  "AlignValue v c = (if sRequiredAlignment c = 0 then Inl Abort
     else Inr (align v (sRequiredAlignment c)))"
  unfolding AlignValue_def sRequiredAlignment_def by simp

lemma sRequiredAlignment_cases: "sRequiredAlignment c \<in> {0, 1, 2, 4, 8}"
  by (simp add: sRequiredAlignment_def)

section \<open>Lines\<close>

text \<open>A line the buffer reports ends with the first newline of the contents.\<close>

lemma buf_line_split:
  assumes "adbus_buf_line buf = Some len"
  shows "\<exists>pre rest. buf_b buf = pre @ [CHR 0x0A] @ rest \<and> CHR 0x0A \<notin> set pre \<and> len = length pre + 1"
proof -
  let ?pre = "takeWhile (\<lambda>c. c \<noteq> CHR 0x0A) (buf_b buf)"
  have len: "len = length ?pre + 1" and lt: "length ?pre \<noteq> length (buf_b buf)"
    using assms by (auto simp: adbus_buf_line_def Let_def split: if_splits)
  from lt have "dropWhile (\<lambda>c. c \<noteq> CHR 0x0A) (buf_b buf) \<noteq> []"
    by (metis append.right_neutral takeWhile_dropWhile_id)
  then obtain rest where "dropWhile (\<lambda>c. c \<noteq> CHR 0x0A) (buf_b buf) = CHR 0x0A # rest"
    using hd_dropWhile[of "\<lambda>c. c \<noteq> CHR 0x0A" "buf_b buf"]
    by (cases "dropWhile (\<lambda>c. c \<noteq> CHR 0x0A) (buf_b buf)") auto
  then have "buf_b buf = ?pre @ [CHR 0x0A] @ rest"
    by (metis append_Cons append_Nil takeWhile_dropWhile_id)
  moreover have "CHR 0x0A \<notin> set ?pre" using set_takeWhileD by fastforce
  ultimately show ?thesis using len by blast
qed

lemma buf_line_remove:
  assumes "adbus_buf_line buf = Some len"
  shows "adbus_buf_remove buf 0 len = Inr (buf\<lparr>buf_b := drop len (buf_b buf)\<rparr>)"
    "0 < len \<and> len \<le> length (buf_b buf)"
  using buf_line_split[OF assms] by (auto simp: adbus_buf_remove_def)

end
