(* ===== verification/Iterator.thy ===== *)
theory Iterator
  imports Buffer
begin

text \<open>
  \<^verbatim>\<open>adbus_Iterator\<close> (\<^verbatim>\<open>include/c/adbus-iterator.h\<close>, \<^verbatim>\<open>adbus/riterator.c\<close>): reading
  serialised data.

  \<open>mem\<close> is the block of memory the data lives in; it starts at an address that is a multiple
  of eight, as the documentation of the iterator requires, and a data pointer is an offset into
  it. The pull operations hand out pointers, so they return offsets; following such a
  pointer is \<open>rd8\<close>, \<open>rd32\<close> and so on, which is a \<open>Fault\<close> outside of \<open>mem\<close>. The
  signature pointer is the rest of a NUL terminated signature, or NULL (\<open>None\<close>).
\<close>

record adbus_Iterator =
  it_data :: nat
  it_size :: nat
  it_sig :: "string option"

type_synonym mem = "char list"

definition rd :: "nat \<Rightarrow> mem \<Rightarrow> nat \<Rightarrow> nat res" where
  "rd n mem off = (if off + n \<le> length mem then Inr (le_val (take n (drop off mem))) else Inl Fault)"

definition rd8 :: "mem \<Rightarrow> nat \<Rightarrow> 8 word res" where
  "rd8 mem off = bindr (rd 1 mem off) (\<lambda>n. Inr (of_nat n))"

definition rd16 :: "mem \<Rightarrow> nat \<Rightarrow> 16 word res" where
  "rd16 mem off = bindr (rd 2 mem off) (\<lambda>n. Inr (of_nat n))"

definition rd32 :: "mem \<Rightarrow> nat \<Rightarrow> 32 word res" where
  "rd32 mem off = bindr (rd 4 mem off) (\<lambda>n. Inr (of_nat n))"

definition rd64 :: "mem \<Rightarrow> nat \<Rightarrow> 64 word res" where
  "rd64 mem off = bindr (rd 8 mem off) (\<lambda>n. Inr (of_nat n))"

section \<open>Alignment and signature tracking\<close>

definition adbus_iter_align :: "adbus_Iterator \<Rightarrow> nat \<Rightarrow> adbus_Iterator res" where
  "adbus_iter_align i alignment =
     (let diff = align (it_data i) alignment - it_data i
      in if it_size i < diff then Inl Failed
         else Inr (i\<lparr>it_data := it_data i + diff, it_size := it_size i - diff\<rparr>))"

definition adbus_iter_alignfield :: "adbus_Iterator \<Rightarrow> char \<Rightarrow> adbus_Iterator res" where
  "adbus_iter_alignfield i field =
     (if field \<in> set ''ygv'' then Inr i
      else if field \<in> set ''nq'' then adbus_iter_align i 2
      else if field \<in> set ''biusoa'' then adbus_iter_align i 4
      else if field \<in> set ''xtd({'' then adbus_iter_align i 8
      else Inl Abort)"

definition it_sig_char :: "adbus_Iterator \<Rightarrow> char res" where
  "it_sig_char i = (case it_sig i of None \<Rightarrow> Inl Fault | Some [] \<Rightarrow> Inr NUL | Some (c # _) \<Rightarrow> Inr c)"

definition adbusI_iter_sig :: "adbus_Iterator \<Rightarrow> char \<Rightarrow> adbus_Iterator res" where
  "adbusI_iter_sig i field =
     bindr (it_sig_char i) (\<lambda>c. if c \<noteq> field then Inl Abort
       else Inr (i\<lparr>it_sig := map_option tl (it_sig i)\<rparr>))"

section \<open>Basic types\<close>

definition take_bytes :: "nat \<Rightarrow> adbus_Iterator \<Rightarrow> (nat \<times> adbus_Iterator) res" where
  "take_bytes n i =
     (if it_size i < n then Inl Failed
      else Inr (it_data i, i\<lparr>it_data := it_data i + n, it_size := it_size i - n\<rparr>))"

definition adbusI_iter_get8 :: "adbus_Iterator \<Rightarrow> (nat \<times> adbus_Iterator) res" where
  "adbusI_iter_get8 i = take_bytes 1 i"

definition adbusI_iter_get16 :: "adbus_Iterator \<Rightarrow> (nat \<times> adbus_Iterator) res" where
  "adbusI_iter_get16 i = bindr (adbus_iter_align i 2) (take_bytes 2)"

definition adbusI_iter_get32 :: "adbus_Iterator \<Rightarrow> (nat \<times> adbus_Iterator) res" where
  "adbusI_iter_get32 i = bindr (adbus_iter_align i 4) (take_bytes 4)"

definition adbusI_iter_get64 :: "adbus_Iterator \<Rightarrow> (nat \<times> adbus_Iterator) res" where
  "adbusI_iter_get64 i = bindr (adbus_iter_align i 8) (take_bytes 8)"

definition adbus_iter_bool :: "adbus_Iterator \<Rightarrow> (nat \<times> adbus_Iterator) res" where
  "adbus_iter_bool i = bindr (adbusI_iter_sig i CHR ''b'') adbusI_iter_get32"

definition adbus_iter_u8 :: "adbus_Iterator \<Rightarrow> (nat \<times> adbus_Iterator) res" where
  "adbus_iter_u8 i = bindr (adbusI_iter_sig i CHR ''y'') adbusI_iter_get8"

definition adbus_iter_i16 :: "adbus_Iterator \<Rightarrow> (nat \<times> adbus_Iterator) res" where
  "adbus_iter_i16 i = bindr (adbusI_iter_sig i CHR ''n'') adbusI_iter_get16"

definition adbus_iter_u16 :: "adbus_Iterator \<Rightarrow> (nat \<times> adbus_Iterator) res" where
  "adbus_iter_u16 i = bindr (adbusI_iter_sig i CHR ''q'') adbusI_iter_get16"

definition adbus_iter_i32 :: "adbus_Iterator \<Rightarrow> (nat \<times> adbus_Iterator) res" where
  "adbus_iter_i32 i = bindr (adbusI_iter_sig i CHR ''i'') adbusI_iter_get32"

definition adbus_iter_u32 :: "adbus_Iterator \<Rightarrow> (nat \<times> adbus_Iterator) res" where
  "adbus_iter_u32 i = bindr (adbusI_iter_sig i CHR ''u'') adbusI_iter_get32"

definition adbus_iter_i64 :: "adbus_Iterator \<Rightarrow> (nat \<times> adbus_Iterator) res" where
  "adbus_iter_i64 i = bindr (adbusI_iter_sig i CHR ''x'') adbusI_iter_get64"

definition adbus_iter_u64 :: "adbus_Iterator \<Rightarrow> (nat \<times> adbus_Iterator) res" where
  "adbus_iter_u64 i = bindr (adbusI_iter_sig i CHR ''t'') adbusI_iter_get64"

definition adbus_iter_double :: "adbus_Iterator \<Rightarrow> (nat \<times> adbus_Iterator) res" where
  "adbus_iter_double i = bindr (adbusI_iter_sig i CHR ''d'') adbusI_iter_get64"

section \<open>Strings\<close>

text \<open>
  \<^verbatim>\<open>memchr\<close> reads up to the first NUL of the \<open>strsz + 1\<close> bytes; it leaves \<open>mem\<close> when it
  reaches the end of \<open>mem\<close> before.
\<close>

definition adbusI_iter_getstring ::
    "mem \<Rightarrow> adbus_Iterator \<Rightarrow> nat \<Rightarrow> (string \<times> adbus_Iterator) res" where
  "adbusI_iter_getstring mem i strsz =
     (if it_size i < strsz + 1 then Inl Failed
      else let region = take (strsz + 1) (drop (it_data i) mem);
               pre = takeWhile (\<lambda>c. c \<noteq> NUL) region
           in if length pre = length region \<and> length region < strsz + 1 then Inl Fault
              else if length pre \<noteq> strsz then Inl Failed
              else Inr (pre, i\<lparr>it_data := it_data i + (strsz + 1),
                                it_size := it_size i - (strsz + 1)\<rparr>))"

definition get_sized_string ::
    "mem \<Rightarrow> adbus_Iterator \<Rightarrow> (string \<times> adbus_Iterator) res" where
  "get_sized_string mem i =
     bindr (adbusI_iter_get32 i) (\<lambda>(len, i).
     bindr (rd32 mem len) (\<lambda>n. adbusI_iter_getstring mem i (unat n)))"

definition adbus_iter_string :: "mem \<Rightarrow> adbus_Iterator \<Rightarrow> (string \<times> adbus_Iterator) res" where
  "adbus_iter_string mem i = bindr (adbusI_iter_sig i CHR ''s'') (get_sized_string mem)"

definition adbus_iter_objectpath :: "mem \<Rightarrow> adbus_Iterator \<Rightarrow> (string \<times> adbus_Iterator) res" where
  "adbus_iter_objectpath mem i = bindr (adbusI_iter_sig i CHR ''o'') (get_sized_string mem)"

definition adbus_iter_signature :: "mem \<Rightarrow> adbus_Iterator \<Rightarrow> (string \<times> adbus_Iterator) res" where
  "adbus_iter_signature mem i =
     bindr (adbusI_iter_sig i CHR ''g'') (\<lambda>i.
     bindr (adbusI_iter_get8 i) (\<lambda>(len, i).
     bindr (rd8 mem len) (\<lambda>n. adbusI_iter_getstring mem i (unat n))))"

section \<open>Scopes\<close>

record adbus_IterArray =
  ia_sig :: string
  ia_sigsz :: nat
  ia_data :: nat
  ia_size :: nat

definition ADBUS_MAXIMUM_ARRAY_LENGTH :: nat where
  "ADBUS_MAXIMUM_ARRAY_LENGTH = 67108864"

definition adbus_iter_beginarray ::
    "mem \<Rightarrow> adbus_Iterator \<Rightarrow> (adbus_Iterator \<times> adbus_IterArray) res" where
  "adbus_iter_beginarray mem i =
     bindr (adbusI_iter_sig i CHR ''a'') (\<lambda>i.
     bindr (adbusI_iter_get32 i) (\<lambda>(len, i).
     bindr (rd32 mem len) (\<lambda>n.
     bindr (checkr (unat n \<le> ADBUS_MAXIMUM_ARRAY_LENGTH)) (\<lambda>_.
     bindr (it_sig_char i) (\<lambda>c.
     bindr (adbus_iter_alignfield i c) (\<lambda>i.
       let s = the (it_sig i)
       in case adbus_nextarg s of None \<Rightarrow> Inl Failed
          | Some send \<Rightarrow>
              Inr (i, \<lparr>ia_sig = s, ia_sigsz = length s - length send,
                       ia_data = it_data i, ia_size = unat n\<rparr>)))))))"

definition adbus_iter_inarray :: "adbus_Iterator \<Rightarrow> adbus_IterArray \<Rightarrow> bool \<times> adbus_Iterator" where
  "adbus_iter_inarray i a =
     (if it_data i < ia_data a + ia_size a then (True, i\<lparr>it_sig := Some (ia_sig a)\<rparr>) else (False, i))"

definition adbus_iter_endarray :: "adbus_Iterator \<Rightarrow> adbus_IterArray \<Rightarrow> adbus_Iterator" where
  "adbus_iter_endarray i a =
     i\<lparr>it_data := ia_data a + ia_size a, it_sig := Some (drop (ia_sigsz a) (ia_sig a))\<rparr>"

definition adbus_iter_begindictentry :: "adbus_Iterator \<Rightarrow> adbus_Iterator res" where
  "adbus_iter_begindictentry i =
     bindr (adbusI_iter_sig i CHR ''{'') (\<lambda>i. adbus_iter_align i 8)"

definition adbus_iter_enddictentry :: "adbus_Iterator \<Rightarrow> adbus_Iterator res" where
  "adbus_iter_enddictentry i = adbusI_iter_sig i CHR ''}''"

definition adbus_iter_beginstruct :: "adbus_Iterator \<Rightarrow> adbus_Iterator res" where
  "adbus_iter_beginstruct i =
     bindr (adbusI_iter_sig i CHR ''('') (\<lambda>i. adbus_iter_align i 8)"

definition adbus_iter_endstruct :: "adbus_Iterator \<Rightarrow> adbus_Iterator res" where
  "adbus_iter_endstruct i = adbusI_iter_sig i CHR '')''"

record adbus_IterVariant =
  iv_origsig :: "string option"
  iv_sig :: string
  iv_data :: nat
  iv_size :: nat

definition adbus_iter_beginvariant ::
    "mem \<Rightarrow> adbus_Iterator \<Rightarrow> (adbus_Iterator \<times> adbus_IterVariant) res" where
  "adbus_iter_beginvariant mem i =
     bindr (adbusI_iter_sig i CHR ''v'') (\<lambda>i.
     bindr (adbusI_iter_get8 i) (\<lambda>(len, i).
     bindr (rd8 mem len) (\<lambda>n.
     bindr (adbusI_iter_getstring mem i (unat n)) (\<lambda>(vsig, i).
     bindr (adbus_iter_alignfield i (case vsig of [] \<Rightarrow> NUL | c # _ \<Rightarrow> c)) (\<lambda>i.
       Inr (i\<lparr>it_sig := Some vsig\<rparr>,
            \<lparr>iv_origsig = it_sig i, iv_sig = vsig, iv_data = it_data i, iv_size = 0\<rparr>))))))"

definition adbus_iter_endvariant ::
    "adbus_Iterator \<Rightarrow> adbus_IterVariant \<Rightarrow> (adbus_Iterator \<times> adbus_IterVariant) res" where
  "adbus_iter_endvariant i v =
     bindr (it_sig_char i) (\<lambda>c. if c \<noteq> NUL then Inl Failed
       else Inr (i\<lparr>it_sig := iv_origsig v\<rparr>, v\<lparr>iv_size := it_data i - iv_data v\<rparr>))"

section \<open>Skipping one value\<close>

text \<open>
  \<open>adbus_iter_value\<close> and, for the loop over the members of a struct, \<open>iter_struct\<close>. The
  recursion ends because a variant takes its signature from the data (which shrinks) and
  everything else takes it from the rest of the signature.
\<close>

function adbus_iter_value :: "mem \<Rightarrow> adbus_Iterator \<Rightarrow> adbus_Iterator res"
  and iter_struct :: "mem \<Rightarrow> adbus_Iterator \<Rightarrow> adbus_Iterator res" where
  "adbus_iter_value mem i =
     bindr (it_sig_char i) (\<lambda>c.
       if c = CHR ''b'' then map_sum id snd (adbus_iter_bool i)
       else if c = CHR ''y'' then map_sum id snd (adbus_iter_u8 i)
       else if c = CHR ''n'' then map_sum id snd (adbus_iter_i16 i)
       else if c = CHR ''q'' then map_sum id snd (adbus_iter_u16 i)
       else if c = CHR ''i'' then map_sum id snd (adbus_iter_i32 i)
       else if c = CHR ''u'' then map_sum id snd (adbus_iter_u32 i)
       else if c = CHR ''x'' then map_sum id snd (adbus_iter_i64 i)
       else if c = CHR ''t'' then map_sum id snd (adbus_iter_u64 i)
       else if c = CHR ''d'' then map_sum id snd (adbus_iter_double i)
       else if c = CHR ''s'' then map_sum id snd (adbus_iter_string mem i)
       else if c = CHR ''o'' then map_sum id snd (adbus_iter_objectpath mem i)
       else if c = CHR ''g'' then map_sum id snd (adbus_iter_signature mem i)
       else if c = CHR ''v'' then
         bindr (adbus_iter_beginvariant mem i) (\<lambda>(i, v).
         bindr (adbus_iter_value mem i) (\<lambda>i.
           map_sum id fst (adbus_iter_endvariant i v)))
       else if c = CHR ''a'' then
         bindr (adbus_iter_beginarray mem i) (\<lambda>(i, a). Inr (adbus_iter_endarray i a))
       else if c = CHR ''('' then
         bindr (adbus_iter_beginstruct i) (\<lambda>i. iter_struct mem i)
       else if c = CHR ''{'' then
         bindr (adbus_iter_begindictentry i) (\<lambda>i.
         bindr (adbus_iter_value mem i) (\<lambda>i.
         bindr (adbus_iter_value mem i) (\<lambda>i.
           adbus_iter_enddictentry i)))
       else Inl Abort)"
| "iter_struct mem i =
     bindr (it_sig_char i) (\<lambda>c.
       if c \<noteq> CHR '')'' then bindr (adbus_iter_value mem i) (\<lambda>i. iter_struct mem i)
       else adbus_iter_endstruct i)"
  by pat_completeness auto

definition sig_len :: "adbus_Iterator \<Rightarrow> nat" where
  "sig_len i = (case it_sig i of None \<Rightarrow> 0 | Some s \<Rightarrow> length s)"

text \<open>What a successful operation does to the size left and to the signature.\<close>

lemma align_sizes:
  "adbus_iter_align i n = Inr j \<Longrightarrow> it_size j \<le> it_size i \<and> it_sig j = it_sig i \<and> it_data i \<le> it_data j"
  by (auto simp: adbus_iter_align_def Let_def split: if_splits)

lemma iter_align_1: "adbus_iter_align i (Suc 0) = Inr i"
  by (simp add: adbus_iter_align_def)

lemma alignfield_table:
  "adbus_iter_alignfield i c = (if sRequiredAlignment c = 0 then Inl Abort
     else adbus_iter_align i (sRequiredAlignment c))"
  unfolding adbus_iter_alignfield_def sRequiredAlignment_def by simp (auto simp: iter_align_1)

lemma alignfield_sizes:
  "adbus_iter_alignfield i c = Inr j \<Longrightarrow> it_size j \<le> it_size i \<and> it_sig j = it_sig i \<and> it_data i \<le> it_data j"
  by (auto simp: alignfield_table dest: align_sizes split: if_splits)

lemma iter_sig_sizes:
  "adbusI_iter_sig i c = Inr j \<Longrightarrow> c \<noteq> NUL \<Longrightarrow>
   it_size j = it_size i \<and> it_data j = it_data i
     \<and> (\<exists>s. it_sig i = Some (c # s) \<and> it_sig j = Some s)"
proof (cases "it_sig i")
  case (Some s)
  assume "adbusI_iter_sig i c = Inr j" "c \<noteq> NUL"
  with Some show ?thesis
    by (cases s) (simp_all add: adbusI_iter_sig_def it_sig_char_def split: if_splits, auto)
qed (simp add: adbusI_iter_sig_def it_sig_char_def)

lemma take_bytes_sizes:
  "take_bytes n i = Inr (p, j) \<Longrightarrow> it_size j \<le> it_size i \<and> it_sig j = it_sig i
     \<and> (0 < n \<longrightarrow> it_size j < it_size i) \<and> it_data i \<le> it_data j"
  by (auto simp: take_bytes_def split: if_splits)

lemma getstring_sizes:
  "adbusI_iter_getstring mem i n = Inr (s, j) \<Longrightarrow> it_size j < it_size i \<and> it_sig j = it_sig i \<and> it_data i \<le> it_data j"
  by (auto simp: adbusI_iter_getstring_def Let_def split: if_splits)

lemma get_sizes:
  "adbusI_iter_get8 i = Inr (p, j) \<Longrightarrow> it_size j < it_size i \<and> it_sig j = it_sig i \<and> it_data i \<le> it_data j"
  "adbusI_iter_get16 i = Inr (p, j) \<Longrightarrow> it_size j < it_size i \<and> it_sig j = it_sig i \<and> it_data i \<le> it_data j"
  "adbusI_iter_get32 i = Inr (p, j) \<Longrightarrow> it_size j < it_size i \<and> it_sig j = it_sig i \<and> it_data i \<le> it_data j"
  "adbusI_iter_get64 i = Inr (p, j) \<Longrightarrow> it_size j < it_size i \<and> it_sig j = it_sig i \<and> it_data i \<le> it_data j"
  by (fastforce simp: adbusI_iter_get8_def adbusI_iter_get16_def adbusI_iter_get32_def
      adbusI_iter_get64_def res_convs dest: align_sizes take_bytes_sizes)+

lemma get_sized_string_sizes:
  "get_sized_string mem i = Inr (s, j) \<Longrightarrow> it_size j < it_size i \<and> it_sig j = it_sig i \<and> it_data i \<le> it_data j"
  by (fastforce simp: get_sized_string_def res_convs dest: get_sizes getstring_sizes)

definition steps_over :: "adbus_Iterator \<Rightarrow> adbus_Iterator \<Rightarrow> bool" where
  "steps_over i j \<longleftrightarrow> it_size j \<le> it_size i \<and> sig_len j < sig_len i \<and> it_data i \<le> it_data j"

lemma basic_steps:
  "adbus_iter_bool i = Inr (p, j) \<Longrightarrow> steps_over i j"
  "adbus_iter_u8 i = Inr (p, j) \<Longrightarrow> steps_over i j"
  "adbus_iter_i16 i = Inr (p, j) \<Longrightarrow> steps_over i j"
  "adbus_iter_u16 i = Inr (p, j) \<Longrightarrow> steps_over i j"
  "adbus_iter_i32 i = Inr (p, j) \<Longrightarrow> steps_over i j"
  "adbus_iter_u32 i = Inr (p, j) \<Longrightarrow> steps_over i j"
  "adbus_iter_i64 i = Inr (p, j) \<Longrightarrow> steps_over i j"
  "adbus_iter_u64 i = Inr (p, j) \<Longrightarrow> steps_over i j"
  "adbus_iter_double i = Inr (p, j) \<Longrightarrow> steps_over i j"
  by (fastforce simp: adbus_iter_bool_def adbus_iter_u8_def adbus_iter_i16_def adbus_iter_u16_def
      adbus_iter_i32_def adbus_iter_u32_def adbus_iter_i64_def adbus_iter_u64_def adbus_iter_double_def
      res_convs steps_over_def sig_len_def dest: iter_sig_sizes get_sizes)+

lemma string_steps:
  "adbus_iter_string mem i = Inr (s, j) \<Longrightarrow> steps_over i j"
  "adbus_iter_objectpath mem i = Inr (s, j) \<Longrightarrow> steps_over i j"
  "adbus_iter_signature mem i = Inr (s, j) \<Longrightarrow> steps_over i j"
  by (fastforce simp: adbus_iter_string_def adbus_iter_objectpath_def adbus_iter_signature_def
      res_convs steps_over_def sig_len_def
      dest: iter_sig_sizes get_sized_string_sizes get_sizes getstring_sizes)+

lemma beginvariant_sizes:
  "adbus_iter_beginvariant mem i = Inr (j, v) \<Longrightarrow>
   it_size j < it_size i \<and> it_data i \<le> it_data j \<and> (\<exists>s. it_sig i = Some (CHR ''v'' # s) \<and> iv_origsig v = Some s)"
  by (fastforce simp: adbus_iter_beginvariant_def res_convs
      dest: iter_sig_sizes get_sizes getstring_sizes alignfield_sizes)

lemma endvariant_sizes:
  "adbus_iter_endvariant i v = Inr (j, w) \<Longrightarrow> it_size j = it_size i \<and> it_sig j = iv_origsig v \<and> it_data j = it_data i"
  by (auto simp: adbus_iter_endvariant_def res_convs split: if_splits)

lemma array_steps:
  assumes "adbus_iter_beginarray mem i = Inr (j, a)"
  shows "steps_over i (adbus_iter_endarray j a)"
proof -
  from assms obtain i1 i2 p n c s send where
    s: "adbusI_iter_sig i CHR ''a'' = Inr i1" "adbusI_iter_get32 i1 = Inr (p, i2)"
       "adbus_iter_alignfield i2 c = Inr j" "s = the (it_sig j)"
       "adbus_nextarg s = Some send" "ia_sig a = s" "ia_sigsz a = length s - length send"
       "ia_data a = it_data j"
    by (auto simp: adbus_iter_beginarray_def res_convs Let_def split: option.splits)
  from iter_sig_sizes[OF s(1)] get_sizes(3)[OF s(2)] alignfield_sizes[OF s(3)] s(4,6,8) show ?thesis
    by (auto simp: steps_over_def sig_len_def adbus_iter_endarray_def)
qed

lemma begin_sizes:
  "adbus_iter_beginstruct i = Inr j \<Longrightarrow> it_size j \<le> it_size i \<and> sig_len j < sig_len i \<and> it_data i \<le> it_data j"
  "adbus_iter_begindictentry i = Inr j \<Longrightarrow> it_size j \<le> it_size i \<and> sig_len j < sig_len i \<and> it_data i \<le> it_data j"
  by (fastforce simp: adbus_iter_beginstruct_def adbus_iter_begindictentry_def res_convs sig_len_def
      dest: iter_sig_sizes align_sizes)+

lemma end_sizes:
  "adbus_iter_endstruct i = Inr j \<Longrightarrow> it_size j \<le> it_size i \<and> sig_len j < sig_len i \<and> it_data i \<le> it_data j"
  "adbus_iter_enddictentry i = Inr j \<Longrightarrow> it_size j \<le> it_size i \<and> sig_len j < sig_len i \<and> it_data i \<le> it_data j"
  by (fastforce simp: adbus_iter_endstruct_def adbus_iter_enddictentry_def sig_len_def
      dest: iter_sig_sizes)+

lemmas step_dests = basic_steps string_steps array_steps begin_sizes end_sizes

lemma map_sum_Inr_conv: "map_sum id f m = Inr y \<longleftrightarrow> (\<exists>x. m = Inr x \<and> f x = y)"
  by (cases m) auto

lemma iter_value_steps:
  "adbus_iter_value_iter_struct_dom (Inl (mem, i)) \<Longrightarrow> adbus_iter_value mem i = Inr j \<Longrightarrow>
     steps_over i j"
  "adbus_iter_value_iter_struct_dom (Inr (mem, i)) \<Longrightarrow> iter_struct mem i = Inr j \<Longrightarrow>
     steps_over i j"
proof (induction mem i and mem i arbitrary: j and j rule: adbus_iter_value_iter_struct.pinduct)
  case (1 mem i)
  from "1.prems" obtain c where c: "it_sig_char i = Inr c"
    by (auto simp: adbus_iter_value.psimps[OF "1.hyps"] res_convs)
  note IH = "1.IH"[OF c]
  note eq = "1.prems"[unfolded adbus_iter_value.psimps[OF "1.hyps"] c bindr_simps]
  show ?case
  proof (cases "c \<in> set ''v({''")
    case False
    with eq show ?thesis
      by (auto simp: map_sum_Inr_conv bindr_Inr_conv split: if_splits dest: step_dests)
  next
    case True
    then consider "c = CHR ''v''" | "c = CHR ''(''" | "c = CHR ''{''" by auto
    then show ?thesis
    proof cases
      case 1
      with eq obtain k v l where k: "adbus_iter_beginvariant mem i = Inr (k, v)"
        "adbus_iter_value mem k = Inr l" "map_sum id fst (adbus_iter_endvariant l v) = Inr j"
        by (auto simp: bindr_Inr_conv)
      from IH(1)[OF _ _ _ _ _ _ _ _ _ _ _ _ 1 k(1) refl k(2)] 1 have "steps_over k l" by simp
      with beginvariant_sizes[OF k(1)] k(3) endvariant_sizes[of l v] show ?thesis
        by (fastforce simp: steps_over_def sig_len_def map_sum_Inr_conv)
    next
      case 2
      with eq obtain k where k: "adbus_iter_beginstruct i = Inr k" "iter_struct mem k = Inr j"
        by (auto simp: bindr_Inr_conv)
      from IH(2)[OF _ _ _ _ _ _ _ _ _ _ _ _ _ _ 2 k] 2 have "steps_over k j" by simp
      with begin_sizes(1)[OF k(1)] show ?thesis by (simp add: steps_over_def)
    next
      case 3
      with eq obtain k l m where k: "adbus_iter_begindictentry i = Inr k"
        "adbus_iter_value mem k = Inr l" "adbus_iter_value mem l = Inr m"
        "adbus_iter_enddictentry m = Inr j"
        by (auto simp: bindr_Inr_conv)
      from IH(3)[OF _ _ _ _ _ _ _ _ _ _ _ _ _ _ _ 3 k(1,2)] 3 have "steps_over k l" by simp
      moreover from IH(4)[OF _ _ _ _ _ _ _ _ _ _ _ _ _ _ _ 3 k(1,2,3)] 3 have "steps_over l m" by simp
      ultimately show ?thesis using begin_sizes(2)[OF k(1)] end_sizes(2)[OF k(4)]
        by (simp add: steps_over_def)
    qed
  qed
next
  case (2 mem i)
  from "2.prems" obtain c where c: "it_sig_char i = Inr c"
    by (auto simp: iter_struct.psimps[OF "2.hyps"] res_convs)
  note eq = "2.prems"[unfolded iter_struct.psimps[OF "2.hyps"] c bindr_simps]
  show ?case
  proof (cases "c = CHR '')''")
    case True
    with eq show ?thesis by (auto simp: steps_over_def dest: end_sizes)
  next
    case False
    with eq obtain k where k: "adbus_iter_value mem i = Inr k" "iter_struct mem k = Inr j"
      by (auto simp: bindr_Inr_conv)
    from "2.IH"(1)[OF c False k(1)] "2.IH"(2)[OF c False k] show ?thesis
      by (simp add: steps_over_def)
  qed
qed

lemma iter_value_total: "All adbus_iter_value_iter_struct_dom"
  by (relation "measures [\<lambda>x. case x of Inl (mem, i) \<Rightarrow> it_size i | Inr (mem, i) \<Rightarrow> it_size i,
       \<lambda>x. case x of Inl (mem, i) \<Rightarrow> 2 * sig_len i | Inr (mem, i) \<Rightarrow> 2 * sig_len i + 1]")
    (auto simp: steps_over_def dest!: begin_sizes beginvariant_sizes iter_value_steps)

termination adbus_iter_value
  by (rule iter_value_total)

lemma iter_value_step: "adbus_iter_value mem i = Inr j \<Longrightarrow> steps_over i j"
  using iter_value_steps(1) iter_value_total by blast

declare adbus_iter_value.simps [simp del] iter_struct.simps [simp del]

section \<open>Copying one value into a buffer\<close>

definition adbus_buf_appendvalue ::
    "mem \<Rightarrow> adbus_Buffer \<Rightarrow> adbus_Iterator \<Rightarrow> (adbus_Buffer \<times> adbus_Iterator) res" where
  "adbus_buf_appendvalue mem buf i =
     bindr (adbus_iter_value mem i) (\<lambda>j.
       case it_sig i of None \<Rightarrow> Inl Fault | Some sig \<Rightarrow>
         bindr (adbus_buf_appendsig buf sig (int (sig_len i) - int (sig_len j))) (\<lambda>buf.
           if it_data j > length mem then Inl Fault
           else Inr (adbus_buf_append buf (take (it_data j - it_data i) (drop (it_data i) mem)), j)))"

section \<open>Reading stays inside the data\<close>

text \<open>The memory the iterator may touch: the \<open>size\<close> bytes at \<open>data\<close>.\<close>

definition in_data :: "mem \<Rightarrow> adbus_Iterator \<Rightarrow> bool" where
  "in_data mem i \<longleftrightarrow> it_data i + it_size i \<le> length mem"

text \<open>A result that is no memory fault and leaves the iterator inside the data.\<close>

definition safe_res :: "mem \<Rightarrow> ('a \<times> adbus_Iterator) res \<Rightarrow> bool" where
  "safe_res mem m \<longleftrightarrow> (case m of Inl e \<Rightarrow> e \<noteq> Fault | Inr (x, j) \<Rightarrow> in_data mem j)"

lemma safe_bindr:
  assumes "\<And>e. m = Inl e \<Longrightarrow> e \<noteq> Fault" and "\<And>x. m = Inr x \<Longrightarrow> safe_res mem (f x)"
  shows "safe_res mem (bindr m f)"
  using assms by (cases m) (auto simp: safe_res_def)

lemma align_safe:
  "in_data mem i \<Longrightarrow> adbus_iter_align i n = Inr j \<Longrightarrow> in_data mem j"
  "adbus_iter_align i n = Inl e \<Longrightarrow> e \<noteq> Fault"
  by (auto simp: adbus_iter_align_def in_data_def Let_def split: if_splits)

lemma sig_safe:
  "in_data mem i \<Longrightarrow> adbusI_iter_sig i c = Inr j \<Longrightarrow> in_data mem j"
  "it_sig i \<noteq> None \<Longrightarrow> adbusI_iter_sig i c = Inl e \<Longrightarrow> e \<noteq> Fault"
  by (auto simp: adbusI_iter_sig_def it_sig_char_def in_data_def res_convs
      split: if_splits option.splits list.splits)

lemma take_bytes_safe: "in_data mem i \<Longrightarrow> safe_res mem (take_bytes n i)"
  by (auto simp: take_bytes_def safe_res_def in_data_def)

lemma get_safe:
  assumes "in_data mem i"
  shows "safe_res mem (adbusI_iter_get8 i)" "safe_res mem (adbusI_iter_get16 i)"
    "safe_res mem (adbusI_iter_get32 i)" "safe_res mem (adbusI_iter_get64 i)"
  unfolding adbusI_iter_get8_def adbusI_iter_get16_def adbusI_iter_get32_def adbusI_iter_get64_def
  using align_safe(1)[OF assms] align_safe(2)[of i] take_bytes_safe assms
  by (intro safe_bindr take_bytes_safe; blast)+

lemma get_in_data:
  "in_data mem i \<Longrightarrow> adbusI_iter_get8 i = Inr (p, j) \<Longrightarrow> p + 1 \<le> length mem \<and> in_data mem j"
  "in_data mem i \<Longrightarrow> adbusI_iter_get32 i = Inr (p, j) \<Longrightarrow> p + 4 \<le> length mem \<and> in_data mem j"
  by (auto simp: adbusI_iter_get8_def adbusI_iter_get32_def take_bytes_def adbus_iter_align_def
      in_data_def Let_def res_convs split: if_splits)

lemma getstring_safe: "in_data mem i \<Longrightarrow> safe_res mem (adbusI_iter_getstring mem i n)"
  by (auto simp: adbusI_iter_getstring_def safe_res_def in_data_def Let_def min_def split: if_splits)

lemma sized_string_safe: "in_data mem i \<Longrightarrow> safe_res mem (get_sized_string mem i)"
  unfolding get_sized_string_def
proof (rule safe_bindr)
  assume i: "in_data mem i"
  show "adbusI_iter_get32 i = Inl e \<Longrightarrow> e \<noteq> Fault" for e
    using get_safe(3)[OF i] by (auto simp: safe_res_def)
  fix x assume x: "adbusI_iter_get32 i = Inr x"
  obtain p j where "x = (p, j)" by (cases x)
  with get_in_data(2)[OF i] x show "safe_res mem (case x of (len, i) \<Rightarrow>
      bindr (rd32 mem len) (\<lambda>n. adbusI_iter_getstring mem i (unat n)))"
    by (auto simp: rd32_def rd_def intro!: getstring_safe)
qed

lemma signature_safe:
  assumes "in_data mem i"
  shows "safe_res mem (bindr (adbusI_iter_get8 i) (\<lambda>(len, i).
     bindr (rd8 mem len) (\<lambda>n. adbusI_iter_getstring mem i (unat n))))"
proof (rule safe_bindr)
  show "adbusI_iter_get8 i = Inl e \<Longrightarrow> e \<noteq> Fault" for e
    using get_safe(1)[OF assms] by (auto simp: safe_res_def)
  fix x assume x: "adbusI_iter_get8 i = Inr x"
  obtain p j where "x = (p, j)" by (cases x)
  with get_in_data(1)[OF assms] x show "safe_res mem (case x of (len, i) \<Rightarrow>
      bindr (rd8 mem len) (\<lambda>n. adbusI_iter_getstring mem i (unat n)))"
    by (auto simp: rd8_def rd_def intro!: getstring_safe)
qed

text \<open>C37: the pull operations for numbers and strings are memory safe on arbitrary data: given an iterator
  inside its block and a signature, each of them either returns with the iterator still inside the
  block or reports an error (bad length, missing terminator, embedded NUL) or a signature mismatch, and
  never reads outside of the block.\<close>

theorem iter_basic_safe:
  assumes "in_data mem i" and "it_sig i \<noteq> None"
  shows "safe_res mem (adbus_iter_u8 i) \<and> safe_res mem (adbus_iter_i16 i)
    \<and> safe_res mem (adbus_iter_u16 i) \<and> safe_res mem (adbus_iter_bool i)
    \<and> safe_res mem (adbus_iter_i32 i) \<and> safe_res mem (adbus_iter_u32 i)
    \<and> safe_res mem (adbus_iter_i64 i) \<and> safe_res mem (adbus_iter_u64 i)
    \<and> safe_res mem (adbus_iter_double i) \<and> safe_res mem (adbus_iter_string mem i)
    \<and> safe_res mem (adbus_iter_objectpath mem i) \<and> safe_res mem (adbus_iter_signature mem i)"
  unfolding adbus_iter_u8_def adbus_iter_i16_def adbus_iter_u16_def adbus_iter_bool_def
    adbus_iter_i32_def adbus_iter_u32_def adbus_iter_i64_def adbus_iter_u64_def adbus_iter_double_def
    adbus_iter_string_def adbus_iter_objectpath_def adbus_iter_signature_def
  using sig_safe(1)[OF assms(1)] sig_safe(2)[OF assms(2)]
  by (intro conjI safe_bindr get_safe sized_string_safe signature_safe)

theorem iter_basic_safe_witness:
  "safe_res ''zzz'' (adbus_iter_string ''zzz'' \<lparr>it_data = 0, it_size = 3, it_sig = Some ''s''\<rparr>)"
  using iter_basic_safe[of "''zzz''" "\<lparr>it_data = 0, it_size = 3, it_sig = Some ''s''\<rparr>"]
  by (simp add: in_data_def)

text \<open>Skipping an array is not memory safe: the length field of an array is only compared with the
  64 MiB limit, not with the size of the data, so a four byte block with a large length
  moves the iterator outside of the block.\<close>

theorem iter_value_array_escapes:
  "adbus_iter_value (le_bytes 4 100) \<lparr>it_data = 0, it_size = 4, it_sig = Some ''ay''\<rparr>
     = Inr \<lparr>it_data = 104, it_size = 0, it_sig = Some []\<rparr>"
  by (simp add: adbus_iter_value.simps it_sig_char_def adbus_iter_beginarray_def adbusI_iter_sig_def
      adbusI_iter_get32_def adbus_iter_align_def align_def take_bytes_def rd32_def rd_def
      ADBUS_MAXIMUM_ARRAY_LENGTH_def adbus_iter_alignfield_def basic_codes_def
      adbus_iter_endarray_def Let_def del: le_bytes.simps)

end
