(* ===== verification/Marshal.thy ===== *)
theory Marshal
  imports Iterator
begin

text \<open>
  Serialised values: what the buffer of \<^verbatim>\<open>rbuffer.c\<close> writes and what the iterator of
  \<^verbatim>\<open>adbus-iterator.h\<close> reads.

  \<open>dval\<close> are the values of the wire format with their type codes, \<open>enc\<close> is the reference
  encoding (the bytes of a value that starts at a given offset). \<open>put\<close> and \<open>getv\<close> are the
  clients of the two interfaces: they make the calls a program makes to write and to
  read one value. The theorems: \<open>put\<close> appends exactly the reference encoding and moves the
  tracked signature over exactly one type, \<open>getv\<close> reads it back, and \<open>adbus_iter_value\<close>
  skips exactly one encoded value.
\<close>

section \<open>Values and their encoding\<close>

datatype dval =
    VByte "8 word"
  | V16 char "16 word"
  | V32 char "32 word"
  | V64 char "64 word"
  | VStr char string
  | VSig string
  | VVariant dval
  | VArr string "dval list"
  | VStruct "dval list"
  | VDict dval dval

fun vsig :: "dval \<Rightarrow> string" where
  "vsig (VByte w) = ''y''"
| "vsig (V16 c w) = [c]"
| "vsig (V32 c w) = [c]"
| "vsig (V64 c w) = [c]"
| "vsig (VStr c s) = [c]"
| "vsig (VSig s) = ''g''"
| "vsig (VVariant v) = ''v''"
| "vsig (VArr s vs) = CHR ''a'' # s"
| "vsig (VStruct vs) = CHR ''('' # concat (map vsig vs) @ '')''"
| "vsig (VDict k v) = CHR ''{'' # vsig k @ vsig v @ ''}''"

text \<open>
  The values of the wire format: type codes of the right width, strings without embedded NUL, arrays
  of one element type, no empty structs.
\<close>

fun wf_dval :: "dval \<Rightarrow> bool" where
  "wf_dval (VByte w) = True"
| "wf_dval (V16 c w) = (c = CHR ''n'' \<or> c = CHR ''q'')"
| "wf_dval (V32 c w) = (c = CHR ''i'' \<or> c = CHR ''u'' \<or> (c = CHR ''b'' \<and> (w = 0 \<or> w = 1)))"
| "wf_dval (V64 c w) = (c = CHR ''x'' \<or> c = CHR ''t'' \<or> c = CHR ''d'')"
| "wf_dval (VStr c s) = ((c = CHR ''s'' \<or> c = CHR ''o'') \<and> NUL \<notin> set s \<and> length s < 2 ^ 32)"
| "wf_dval (VSig s) = (NUL \<notin> set s \<and> length s < 255)"
| "wf_dval (VVariant v) = (wf_dval v \<and> length (vsig v) < 255)"
| "wf_dval (VArr s vs) = (adbus_nextarg s = Some [] \<and> list_all (\<lambda>v. wf_dval v \<and> vsig v = s) vs)"
| "wf_dval (VStruct vs) = (vs \<noteq> [] \<and> list_all wf_dval vs)"
| "wf_dval (VDict k v) = (wf_dval k \<and> wf_dval v)"

fun dict_free :: "dval \<Rightarrow> bool" where
  "dict_free (VVariant v) = dict_free v"
| "dict_free (VArr s vs) = list_all dict_free vs"
| "dict_free (VStruct vs) = list_all dict_free vs"
| "dict_free (VDict k v) = False"
| "dict_free v = True"

definition pad :: "nat \<Rightarrow> nat \<Rightarrow> char list" where
  "pad off a = replicate (align off a - off) NUL"

definition sig_align :: "string \<Rightarrow> nat" where
  "sig_align s = (case s of [] \<Rightarrow> 0 | c # _ \<Rightarrow> sRequiredAlignment c)"

definition array_body :: "nat \<Rightarrow> string \<Rightarrow> nat" where
  "array_body off s = align (align off 4 + 4) (sig_align s)"

fun enc :: "nat \<Rightarrow> dval \<Rightarrow> char list"
  and encs :: "nat \<Rightarrow> dval list \<Rightarrow> char list" where
  "enc off (VByte w) = le_bytes 1 (unat w)"
| "enc off (V16 c w) = pad off 2 @ le_bytes 2 (unat w)"
| "enc off (V32 c w) = pad off 4 @ le_bytes 4 (unat w)"
| "enc off (V64 c w) = pad off 8 @ le_bytes 8 (unat w)"
| "enc off (VStr c s) = pad off 4 @ le_bytes 4 (length s) @ s @ [NUL]"
| "enc off (VSig s) = le_bytes 1 (length s) @ s @ [NUL]"
| "enc off (VVariant v) =
     le_bytes 1 (length (vsig v)) @ vsig v @ [NUL] @ enc (off + 2 + length (vsig v)) v"
| "enc off (VArr s vs) =
     (let body = encs (array_body off s) vs
      in pad off 4 @ le_bytes 4 (length body) @ pad (align off 4 + 4) (sig_align s) @ body)"
| "enc off (VStruct vs) = pad off 8 @ encs (align off 8) vs"
| "enc off (VDict k v) =
     (let b = enc (align off 8) k in pad off 8 @ b @ enc (align off 8 + length b) v)"
| "encs off [] = []"
| "encs off (v # vs) = (let b = enc off v in b @ encs (off + length b) vs)"

text \<open>Every array of the value stays within the limit of the iterator.\<close>

fun fits :: "nat \<Rightarrow> dval \<Rightarrow> bool"
  and fitss :: "nat \<Rightarrow> dval list \<Rightarrow> bool" where
  "fits off (VVariant v) = fits (off + 2 + length (vsig v)) v"
| "fits off (VArr s vs) =
     (length (encs (array_body off s) vs) \<le> ADBUS_MAXIMUM_ARRAY_LENGTH
      \<and> fitss (array_body off s) vs)"
| "fits off (VStruct vs) = fitss (align off 8) vs"
| "fits off (VDict k v) =
     (fits (align off 8) k \<and> fits (align off 8 + length (enc (align off 8) k)) v)"
| "fits off v = True"
| "fitss off [] = True"
| "fitss off (v # vs) = (fits off v \<and> fitss (off + length (enc off v)) vs)"

section \<open>Writing one value through the library\<close>

fun put :: "adbus_Buffer \<Rightarrow> dval \<Rightarrow> adbus_Buffer res"
  and puts :: "adbus_Buffer \<Rightarrow> dval list \<Rightarrow> adbus_Buffer res"
  and put_elems :: "adbus_BufArray \<Rightarrow> adbus_Buffer \<Rightarrow> dval list \<Rightarrow> adbus_Buffer res" where
  "put buf (VByte w) = adbus_buf_u8 buf w"
| "put buf (V16 c w) = (if c = CHR ''n'' then adbus_buf_i16 buf w else adbus_buf_u16 buf w)"
| "put buf (V32 c w) = (if c = CHR ''b'' then adbus_buf_bool buf w
     else if c = CHR ''i'' then adbus_buf_i32 buf w else adbus_buf_u32 buf w)"
| "put buf (V64 c w) = (if c = CHR ''x'' then adbus_buf_i64 buf w
     else if c = CHR ''t'' then adbus_buf_u64 buf w else adbus_buf_double buf w)"
| "put buf (VStr c s) =
     (if c = CHR ''s'' then adbus_buf_string buf s (-1) else adbus_buf_objectpath buf s (-1))"
| "put buf (VSig s) = adbus_buf_signature buf s (-1)"
| "put buf (VVariant v) =
     bindr (adbus_buf_beginvariant buf (vsig v) (-1)) (\<lambda>(buf, oldsig).
     bindr (put buf v) (\<lambda>buf. Inr (adbus_buf_endvariant buf oldsig)))"
| "put buf (VArr s vs) =
     bindr (adbus_buf_beginarray buf) (\<lambda>(buf, a).
     bindr (put_elems a buf vs) (\<lambda>buf. adbus_buf_endarray buf a))"
| "put buf (VStruct vs) =
     bindr (adbus_buf_beginstruct buf) (\<lambda>buf.
     bindr (puts buf vs) adbus_buf_endstruct)"
| "put buf (VDict k v) =
     bindr (adbus_buf_begindictentry buf) (\<lambda>buf.
     bindr (put buf k) (\<lambda>buf.
     bindr (put buf v) adbus_buf_enddictentry))"
| "puts buf [] = Inr buf"
| "puts buf (v # vs) = bindr (put buf v) (\<lambda>buf. puts buf vs)"
| "put_elems a buf [] = Inr buf"
| "put_elems a buf (v # vs) =
     bindr (put (adbus_buf_arrayentry buf a) v) (\<lambda>buf. put_elems a buf vs)"

section \<open>Signatures of values\<close>

lemma wf_vsig: "wf_dval v \<Longrightarrow> \<exists>t. wf_dtype t \<and> vsig v = sig_of t"
proof (induction v)
  case (VArr s vs)
  then have "adbus_nextarg s = Some []" by simp
  from nextarg_sound(1)[OF this] obtain t where "wf_dtype t" "s = sig_of t" by auto
  then show ?case by (intro exI[of _ "Arr t"]) simp
next
  case (VStruct vs)
  then have "\<forall>v\<in>set vs. \<exists>t. wf_dtype t \<and> vsig v = sig_of t" by (auto simp: list_all_iff)
  then obtain f where f: "\<forall>v\<in>set vs. wf_dtype (f v) \<and> vsig v = sig_of (f v)" by metis
  then have "map vsig vs = map (sig_of \<circ> f) vs" by simp
  then have "concat (map vsig vs) = concat (map (sig_of \<circ> f) vs)" by (rule arg_cong)
  with f show ?case by (intro exI[of _ "Struct (map f vs)"]) (simp add: list_all_iff)
next
  case (VDict k v)
  then obtain t u where "wf_dtype t" "vsig k = sig_of t" "wf_dtype u" "vsig v = sig_of u" by auto
  then show ?case by (intro exI[of _ "DictEntry t u"]) simp
next
  case (V16 c w) then show ?case by (intro exI[of _ "Basic c"]) (auto simp: basic_codes_def)
next
  case (V32 c w) then show ?case by (intro exI[of _ "Basic c"]) (auto simp: basic_codes_def)
next
  case (V64 c w) then show ?case by (intro exI[of _ "Basic c"]) (auto simp: basic_codes_def)
next
  case (VStr c w) then show ?case by (intro exI[of _ "Basic c"]) (auto simp: basic_codes_def)
qed (simp_all, (rule exI[of _ "Basic CHR ''y''"], simp add: basic_codes_def),
  (rule exI[of _ "Basic CHR ''g''"], simp add: basic_codes_def),
  (rule exI[of _ "Basic CHR ''v''"], simp add: basic_codes_def))

lemma nextarg_vsig: "wf_dval v \<Longrightarrow> adbus_nextarg (vsig v @ r) = Some r"
  using wf_vsig nextarg_sig_of by metis

lemma sig_of_no_nul: "wf_dtype t \<Longrightarrow> NUL \<notin> set (sig_of t)"
  by (induction t) (auto simp: basic_codes_def list_all_iff)

lemma vsig_no_nul: "wf_dval v \<Longrightarrow> NUL \<notin> set (vsig v)"
  using wf_vsig sig_of_no_nul by metis

lemma sig_of_align: "wf_dtype t \<Longrightarrow> 0 < sig_align (sig_of t @ r)"
  by (cases t) (auto simp: sig_align_def basic_codes_def sRequiredAlignment_def)

lemma vsig_align: "wf_dval v \<Longrightarrow> 0 < sig_align (vsig v @ r)"
  using wf_vsig sig_of_align by metis

lemma vsig_Cons: "wf_dval v \<Longrightarrow> \<exists>c cs. vsig v = c # cs \<and> c \<noteq> CHR '')'' \<and> c \<noteq> NUL"
  using wf_vsig[of v] sig_of_Cons vsig_no_nul[of v] by (metis list.set_intros(1))

section \<open>Writing: the buffer produces the reference encoding\<close>

definition sigp_adv :: "nat \<Rightarrow> sigptr \<Rightarrow> sigptr" where
  "sigp_adv k p = (case p of InSig n \<Rightarrow> InSig (n + k) | Outside s \<Rightarrow> Outside (drop k s) | Null \<Rightarrow> Null)"

definition emit :: "adbus_Buffer \<Rightarrow> char list \<Rightarrow> nat \<Rightarrow> adbus_Buffer" where
  "emit buf bs k = buf\<lparr>buf_b := buf_b buf @ bs, buf_sigp := sigp_adv k (buf_sigp buf)\<rparr>"

lemma sigp_adv_simps [simp]:
  "sigp_adv 0 p = p"
  "sigp_adv j (sigp_adv k p) = sigp_adv (k + j) p"
  by (simp_all add: sigp_adv_def add.commute split: sigptr.splits)

lemma sigp_next_adv: "sigp_next p = sigp_adv 1 p"
  by (simp add: sigp_next_def sigp_adv_def drop_Suc split: sigptr.splits)

lemma sigp_str_update [simp]:
  "sigp_str (buf\<lparr>buf_b := bs\<rparr>) p = sigp_str buf p"
  "sigp_str (buf\<lparr>buf_sigp := q\<rparr>) p = sigp_str buf p"
  by (simp_all add: sigp_str_def split: sigptr.splits)

lemma emit_simps [simp]:
  "buf_b (emit buf bs k) = buf_b buf @ bs"
  "buf_sigp (emit buf bs k) = sigp_adv k (buf_sigp buf)"
  "buf_sig (emit buf bs k) = buf_sig buf"
  "emit (emit buf as j) bs k = emit buf (as @ bs) (j + k)"
  "sigp_str (emit buf bs k) p = sigp_str buf p"
  by (simp_all add: emit_def sigp_str_def split: sigptr.splits)

lemma drop_takeWhile_append:
  "takeWhile P xs = ys @ zs \<Longrightarrow> takeWhile P (drop (length ys) xs) = zs"
proof (induction ys arbitrary: xs)
  case (Cons y ys)
  then show ?case by (cases xs) (auto split: if_splits)
qed simp

lemma sigp_str_adv:
  "sigp_str buf p = Some (s @ r) \<Longrightarrow> sigp_str buf (sigp_adv (length s) p) = Some r"
  using drop_takeWhile_append[of "\<lambda>c. c \<noteq> NUL" "drop (case p of InSig n \<Rightarrow> n | _ \<Rightarrow> 0) (buf_sig buf)" s r]
  by (cases p) (simp_all add: sigp_str_def sigp_adv_def add.commute)

lemma sigp_nextarg_adv:
  assumes "sigp_str buf p = Some (s @ r)" and "adbus_nextarg (s @ r) = Some r"
  shows "sigp_nextarg buf p = sigp_adv (length s) p"
  using assms by (cases p) (auto simp: sigp_nextarg_def sigp_str_def sigp_adv_def)

lemma sigp_char_Cons: "sigp_str buf (buf_sigp buf) = Some (c # r) \<Longrightarrow> sigp_char buf = Inr c"
  by (simp add: sigp_char_def)

lemma SIG_emit: "sigp_str buf (buf_sigp buf) = Some (c # r) \<Longrightarrow> SIG buf c = Inr (emit buf [] 1)"
  by (simp add: SIG_def sigp_char_Cons sigp_next_adv emit_def)

lemma Align_emit: "Align buf a = emit buf (pad (length (buf_b buf)) a) 0"
  by (simp add: Align_def emit_def pad_def)

lemma adbus_buf_append_emit: "adbus_buf_append buf bs = emit buf bs 0"
  by (simp add: adbus_buf_append_def emit_def)

lemmas append_emit = Append8_def Append16_def Append32_def Append64_def Align_emit
  adbus_buf_append_emit

lemma arg_size_strlen: "NUL \<notin> set s \<Longrightarrow> arg_size s (-1) = length s"
  by (simp add: arg_size_def c_strlen_no_nul)

lemma append_str_emit: "append_str buf s (length s) = Inr (emit buf (s @ [NUL]) 0)"
  by (simp add: append_str_def adbus_buf_append_emit)

lemma length_pad [simp]: "0 < a \<Longrightarrow> off + length (pad off a) = align off a"
  using align_ge[of a off] by (simp add: pad_def)

lemma sigp_nextarg_emit: "sigp_nextarg (emit buf bs k) p = sigp_nextarg buf p"
  by (simp add: sigp_nextarg_def)

definition put_ok :: "dval \<Rightarrow> bool" where
  "put_ok v \<longleftrightarrow> (\<forall>buf r. sigp_str buf (buf_sigp buf) = Some (vsig v @ r) \<longrightarrow>
     fits (length (buf_b buf)) v \<longrightarrow>
     put buf v = Inr (emit buf (enc (length (buf_b buf)) v) (length (vsig v))))"

lemma put_okD:
  "put_ok v \<Longrightarrow> sigp_str buf (buf_sigp buf) = Some (vsig v @ r) \<Longrightarrow> fits (length (buf_b buf)) v \<Longrightarrow>
   put buf v = Inr (emit buf (enc (length (buf_b buf)) v) (length (vsig v)))"
  by (auto simp: put_ok_def)

lemma put_ok_basic:
  "put_ok (VByte w)"
  "wf_dval (V16 c w2) \<Longrightarrow> put_ok (V16 c w2)"
  "wf_dval (V32 c w4) \<Longrightarrow> put_ok (V32 c w4)"
  "wf_dval (V64 c w8) \<Longrightarrow> put_ok (V64 c w8)"
  by (auto simp: put_ok_def SIG_emit adbus_buf_u8_def adbus_buf_i16_def adbus_buf_u16_def
      adbus_buf_bool_def adbus_buf_i32_def adbus_buf_u32_def adbus_buf_i64_def adbus_buf_u64_def
      adbus_buf_double_def append_emit)

lemma put_ok_string:
  "wf_dval (VStr c s) \<Longrightarrow> put_ok (VStr c s)"
  "wf_dval (VSig s) \<Longrightarrow> put_ok (VSig s)"
  by (auto simp: put_ok_def SIG_emit adbus_buf_string_def adbus_buf_objectpath_def
      adbus_buf_signature_def arg_size_strlen append_emit append_str_emit unat_of_nat Let_def
      take_bit_nat_eq_self)


lemma put_ok_variant:
  assumes "put_ok v" and "wf_dval (VVariant v)"
  shows "put_ok (VVariant v)"
  unfolding put_ok_def
proof (intro allI impI)
  fix buf r
  assume s: "sigp_str buf (buf_sigp buf) = Some (vsig (VVariant v) @ r)"
    and f: "fits (length (buf_b buf)) (VVariant v)"
  have wf: "NUL \<notin> set (vsig v)" "length (vsig v) < 255" using assms(2) vsig_no_nul by auto
  let ?h = "le_bytes 1 (length (vsig v)) @ vsig v @ [NUL]"
  let ?b = "(emit buf ?h 1)\<lparr>buf_sigp := Outside (vsig v)\<rparr>"
  have "adbus_buf_beginvariant buf (vsig v) (-1) = Inr (?b, sigp_adv 1 (buf_sigp buf))"
    using s wf by (simp add: adbus_buf_beginvariant_def SIG_emit arg_size_strlen append_emit
        append_str_emit Let_def unat_of_nat take_bit_nat_eq_self)
  moreover have "put ?b v = Inr (emit ?b (enc (length (buf_b ?b)) v) (length (vsig v)))"
    by (rule put_okD[OF assms(1), of _ "[]"]) (use f in \<open>simp_all add: sigp_str_def add.assoc\<close>)
  ultimately show "put buf (VVariant v) = Inr (emit buf (enc (length (buf_b buf)) (VVariant v))
      (length (vsig (VVariant v))))"
    by (simp add: adbus_buf_endvariant_def emit_def add.assoc)
qed

lemma puts_emit:
  assumes "\<And>v. v \<in> set vs \<Longrightarrow> put_ok v"
    and "sigp_str buf (buf_sigp buf) = Some (concat (map vsig vs) @ r)"
    and "fitss (length (buf_b buf)) vs"
  shows "puts buf vs = Inr (emit buf (encs (length (buf_b buf)) vs) (length (concat (map vsig vs))))"
  using assms
proof (induction vs arbitrary: buf)
  case (Cons v vs)
  let ?b = "emit buf (enc (length (buf_b buf)) v) (length (vsig v))"
  have s: "sigp_str buf (buf_sigp buf) = Some (vsig v @ concat (map vsig vs) @ r)"
    using Cons.prems(2) by simp
  have "put buf v = Inr ?b"
    by (rule put_okD[OF _ s]) (use Cons.prems in auto)
  moreover have "puts ?b vs = Inr (emit ?b (encs (length (buf_b ?b)) vs) (length (concat (map vsig vs))))"
    by (rule Cons.IH) (use Cons.prems sigp_str_adv[OF s] in auto)
  ultimately show ?case by (simp add: Let_def)
qed (simp add: emit_def)

lemma put_ok_struct:
  assumes "\<And>v. v \<in> set vs \<Longrightarrow> put_ok v"
  shows "put_ok (VStruct vs)"
  unfolding put_ok_def
proof (intro allI impI)
  fix buf r
  assume s: "sigp_str buf (buf_sigp buf) = Some (vsig (VStruct vs) @ r)"
    and f: "fits (length (buf_b buf)) (VStruct vs)"
  let ?cs = "concat (map vsig vs)"
  let ?b = "emit buf (pad (length (buf_b buf)) 8) 1"
  have s1: "sigp_str ?b (buf_sigp ?b) = Some (?cs @ CHR '')'' # r)"
    using sigp_str_adv[of buf "buf_sigp buf" "''(''" "?cs @ CHR '')'' # r"] s by simp
  have b: "puts ?b vs = Inr (emit ?b (encs (length (buf_b ?b)) vs) (length ?cs))"
    by (rule puts_emit[OF _ s1]) (use assms f in auto)
  have "sigp_str buf (sigp_adv (Suc (length ?cs)) (buf_sigp buf)) = Some (CHR '')'' # r)"
    using sigp_str_adv[OF s1] by simp
  with s b show "put buf (VStruct vs) = Inr (emit buf (enc (length (buf_b buf)) (VStruct vs))
      (length (vsig (VStruct vs))))"
    by (simp add: adbus_buf_beginstruct_def adbus_buf_endstruct_def SIG_emit Align_emit)
qed

lemma put_elems_emit:
  assumes "\<And>v. v \<in> set vs \<Longrightarrow> put_ok v \<and> vsig v = s"
    and "sigp_str buf (ba_sigbegin a) = Some (s @ r)"
    and "fitss (length (buf_b buf)) vs"
  shows "\<exists>p. put_elems a buf vs =
     Inr (buf\<lparr>buf_b := buf_b buf @ encs (length (buf_b buf)) vs, buf_sigp := p\<rparr>)"
  using assms
proof (induction vs arbitrary: buf)
  case (Cons v vs)
  let ?start = "buf\<lparr>buf_sigp := ba_sigbegin a\<rparr>"
  let ?b = "emit ?start (enc (length (buf_b buf)) v) (length (vsig v))"
  have "put ?start v = Inr (emit ?start (enc (length (buf_b ?start)) v) (length (vsig v)))"
    by (rule put_okD[where buf = ?start and r = r]) (use Cons.prems in auto)
  moreover have "\<exists>p. put_elems a ?b vs =
     Inr (?b\<lparr>buf_b := buf_b ?b @ encs (length (buf_b ?b)) vs, buf_sigp := p\<rparr>)"
    by (rule Cons.IH) (use Cons.prems in auto)
  ultimately show ?case by (auto simp: Let_def adbus_buf_arrayentry_def emit_def)
next
  case Nil
  show ?case by (rule exI[of _ "buf_sigp buf"]) simp
qed

lemma endarray_size:
  assumes "buf_b buf = pre @ old @ post @ body" and "length old = 4"
    and "ba_szindex a = length pre" and "ba_dataindex a = length pre + 4 + length post"
    and "length body < 2 ^ 32"
  shows "adbus_buf_endarray buf a =
    Inr (buf\<lparr>buf_b := pre @ le_bytes 4 (length body) @ post @ body, buf_sigp := ba_sigend a\<rparr>)"
proof -
  have "length (buf_b buf) = ba_dataindex a + length body" using assms(1,2,4) by simp
  then have "unat (of_nat (length (buf_b buf)) - of_nat (ba_dataindex a) :: 32 word) = length body"
    using assms(5) by (simp add: unat_of_nat take_bit_nat_eq_self)
  with assms show ?thesis by (simp add: adbus_buf_endarray_def overwrite_append)
qed

lemma put_ok_array:
  assumes "\<And>v. v \<in> set vs \<Longrightarrow> put_ok v" and "wf_dval (VArr s vs)"
  shows "put_ok (VArr s vs)"
  unfolding put_ok_def
proof (intro allI impI)
  fix buf r
  assume sg: "sigp_str buf (buf_sigp buf) = Some (vsig (VArr s vs) @ r)"
    and f: "fits (length (buf_b buf)) (VArr s vs)"
  let ?o = "length (buf_b buf)" and ?p = "sigp_adv 1 (buf_sigp buf)"
  let ?h = "pad ?o 4" and ?q = "pad (align ?o 4 + 4) (sig_align s)"
  let ?body = "encs (array_body ?o s) vs"
  let ?b = "emit buf (?h @ le_bytes 4 0 @ ?q) 1"
  let ?a = "\<lparr>ba_szindex = align ?o 4, ba_dataindex = array_body ?o s, ba_sigbegin = ?p,
             ba_sigend = sigp_adv (Suc (length s)) (buf_sigp buf)\<rparr>"
  from assms(2) nextarg_sound(1) obtain t where t: "wf_dtype t" "s = sig_of t" by fastforce
  have al: "0 < sig_align s" "adbus_nextarg (s @ r) = Some r"
    using sig_of_align[OF t(1), of "[]"] nextarg_sig_of[OF t(1)] t(2) by auto
  obtain c cs where c: "s = c # cs" using sig_of_Cons[OF t(1)] t(2) by auto
  have s1: "sigp_str buf ?p = Some (s @ r)" using sigp_str_adv[of buf _ "''a''"] sg by simp
  have len: "length (buf_b ?b) = array_body ?o s"
    using al(1) by (simp add: array_body_def add.assoc flip: length_pad)
  have nx: "sigp_nextarg buf ?p = sigp_adv (Suc (length s)) (buf_sigp buf)"
    using sigp_nextarg_adv[OF s1 al(2)] by simp
  have "adbus_buf_beginarray buf = Inr (?b, ?a)"
    using sg s1 al(1) c len nx
    by (simp add: adbus_buf_beginarray_def SIG_emit append_emit sigp_char_Cons sig_align_def
        adbus_buf_alignfield_def AlignField_table sigp_nextarg_emit array_body_def add.assoc
        flip: length_pad)
  moreover obtain p where "put_elems ?a ?b vs = Inr (?b\<lparr>buf_b := buf_b ?b @ ?body, buf_sigp := p\<rparr>)"
    using put_elems_emit[of vs s ?b ?a r] assms s1 f len by (auto simp: list_all_iff)
  moreover have "adbus_buf_endarray (?b\<lparr>buf_b := buf_b ?b @ ?body, buf_sigp := p\<rparr>) ?a
      = Inr (?b\<lparr>buf_b := (buf_b buf @ ?h) @ le_bytes 4 (length ?body) @ ?q @ ?body,
                buf_sigp := sigp_adv (Suc (length s)) (buf_sigp buf)\<rparr>)"
    by (rule trans[OF endarray_size[where pre = "buf_b buf @ ?h" and old = "le_bytes 4 0"
            and post = ?q and body = ?body]])
      (use f len in \<open>simp_all add: ADBUS_MAXIMUM_ARRAY_LENGTH_def flip: length_pad\<close>)
  ultimately show "put buf (VArr s vs) = Inr (emit buf (enc ?o (VArr s vs)) (length (vsig (VArr s vs))))"
    by (simp add: emit_def Let_def)
qed


lemma put_ok_all: "wf_dval v \<Longrightarrow> dict_free v \<Longrightarrow> put_ok v"
proof (induction v)
  case (VVariant v)
  then show ?case using put_ok_variant by simp
next
  case (VArr s vs)
  then show ?case by (intro put_ok_array) (auto simp: list_all_iff)
next
  case (VStruct vs)
  then show ?case by (intro put_ok_struct) (auto simp: list_all_iff)
qed (simp_all only: put_ok_basic put_ok_string, simp)

text \<open>Serialising a value of any type but a dict entry. When the tracked signature continues with the
  type of the value, the calls of the buffer interface all succeed, append exactly the
  reference encoding of the value at the current offset (alignment padding, array sizes written
  back by \<open>adbus_buf_endarray\<close>, nested variants with their own signature) and move the
  signature pointer over exactly that type; the signature itself does not change.\<close>

theorem put_encodes:
  assumes "wf_dval v" and "dict_free v" and "fits (length (buf_b buf)) v"
    and "sigp_str buf (buf_sigp buf) = Some (vsig v @ r)"
  shows "\<exists>buf'. put buf v = Inr buf' \<and> buf_b buf' = buf_b buf @ enc (length (buf_b buf)) v
    \<and> sigp_str buf' (buf_sigp buf') = Some r \<and> buf_sig buf' = buf_sig buf"
  using put_okD[OF put_ok_all[OF assms(1,2)] assms(4,3)] sigp_str_adv[OF assms(4)]
  by (intro exI[of _ "emit buf (enc (length (buf_b buf)) v) (length (vsig v))"]) simp

text \<open>
  A byte, then an array of structs of a byte and a variant: written after
  \<open>adbus_buf_setsig\<close>, with padding and a size that is only known at the end.
\<close>

definition sample :: dval where
  "sample = VStruct [VByte 7, VArr ''(yv)'' [VStruct [VByte 1, VVariant (V32 CHR ''u'' 77)],
                                             VStruct [VByte 2, VVariant (VStr CHR ''s'' ''hi'')]]]"

definition sample_buf :: adbus_Buffer where
  "sample_buf = \<lparr>buf_b = ''xyz'', buf_sig = ''(ya(yv))'' @ replicate 248 NUL, buf_sigp = InSig 0\<rparr>"

lemma sample_facts:
  "wf_dval sample" "dict_free sample" "fits (length (buf_b sample_buf)) sample"
  "sigp_str sample_buf (buf_sigp sample_buf) = Some (vsig sample @ [])"
  by (simp_all add: sample_def sample_buf_def sigp_str_def array_body_def sig_align_def align_def
      sRequiredAlignment_def basic_codes_def pad_def ADBUS_MAXIMUM_ARRAY_LENGTH_def takeWhile_replicate)

theorem put_encodes_witness:
  "\<exists>buf'. put sample_buf sample = Inr buf' \<and> buf_b buf' = ''xyz'' @ enc 3 sample"
  using put_encodes[OF sample_facts] by (auto simp: sample_buf_def numeral_eq_Suc)

text \<open>A dict entry cannot be serialised. \<open>adbus_buf_enddictentry\<close> checks for the opening brace, so at
  the closing brace that ends every dict entry its assert fails.\<close>

theorem enddictentry_aborts:
  assumes "sigp_str buf (buf_sigp buf) = Some (CHR ''}'' # r)"
  shows "adbus_buf_enddictentry buf = Inl Abort"
  using assms by (simp add: adbus_buf_enddictentry_def SIG_def sigp_char_Cons assertr_def)

theorem enddictentry_aborts_witness:
  "adbus_buf_enddictentry \<lparr>buf_b = [], buf_sig = ''a{yy}'' @ replicate 251 NUL, buf_sigp = InSig 4\<rparr>
     = Inl Abort"
  by (rule enddictentry_aborts[of _ "[]"]) (simp add: sigp_str_def takeWhile_replicate)

end
