(* ===== verification/Unmarshal.thy ===== *)
theory Unmarshal
  imports Marshal
begin

text \<open>
  Reading serialised values back through the iterator interface: \<open>getv\<close> makes the calls a client
  makes, driven by the signature. On the reference encoding of a value it returns that
  value and stops exactly behind it; \<open>adbus_iter_value\<close> skips exactly the same bytes. With
  \<^verbatim>\<open>Marshal.thy\<close> this gives the round trip from buffer to iterator.

  \<open>it_size\<close> is only bounded, not determined: \<open>adbus_iter_endarray\<close> moves the data pointer
  and leaves the size as it was.
\<close>

section \<open>Reading one value through the library\<close>

text \<open>Reading is driven by the signature; the fuel bounds the nesting and the loops.\<close>

fun getv :: "nat \<Rightarrow> mem \<Rightarrow> adbus_Iterator \<Rightarrow> (dval \<times> adbus_Iterator) res"
  and get_elems :: "nat \<Rightarrow> mem \<Rightarrow> adbus_IterArray \<Rightarrow> adbus_Iterator \<Rightarrow> (dval list \<times> adbus_Iterator) res"
  and get_members :: "nat \<Rightarrow> mem \<Rightarrow> adbus_Iterator \<Rightarrow> (dval list \<times> adbus_Iterator) res" where
  "getv 0 mem i = Inl Failed"
| "getv (Suc n) mem i =
     bindr (it_sig_char i) (\<lambda>c.
       if c = CHR ''y'' then
         bindr (adbus_iter_u8 i) (\<lambda>(p, i). bindr (rd8 mem p) (\<lambda>w. Inr (VByte w, i)))
       else if c = CHR ''n'' \<or> c = CHR ''q'' then
         bindr (if c = CHR ''n'' then adbus_iter_i16 i else adbus_iter_u16 i) (\<lambda>(p, i).
           bindr (rd16 mem p) (\<lambda>w. Inr (V16 c w, i)))
       else if c = CHR ''b'' \<or> c = CHR ''i'' \<or> c = CHR ''u'' then
         bindr (if c = CHR ''b'' then adbus_iter_bool i
                else if c = CHR ''i'' then adbus_iter_i32 i else adbus_iter_u32 i) (\<lambda>(p, i).
           bindr (rd32 mem p) (\<lambda>w. Inr (V32 c w, i)))
       else if c = CHR ''x'' \<or> c = CHR ''t'' \<or> c = CHR ''d'' then
         bindr (if c = CHR ''x'' then adbus_iter_i64 i
                else if c = CHR ''t'' then adbus_iter_u64 i else adbus_iter_double i) (\<lambda>(p, i).
           bindr (rd64 mem p) (\<lambda>w. Inr (V64 c w, i)))
       else if c = CHR ''s'' then
         bindr (adbus_iter_string mem i) (\<lambda>(s, i). Inr (VStr c s, i))
       else if c = CHR ''o'' then
         bindr (adbus_iter_objectpath mem i) (\<lambda>(s, i). Inr (VStr c s, i))
       else if c = CHR ''g'' then
         bindr (adbus_iter_signature mem i) (\<lambda>(s, i). Inr (VSig s, i))
       else if c = CHR ''v'' then
         bindr (adbus_iter_beginvariant mem i) (\<lambda>(i, v).
         bindr (getv n mem i) (\<lambda>(x, i).
         bindr (adbus_iter_endvariant i v) (\<lambda>(i, v). Inr (VVariant x, i))))
       else if c = CHR ''a'' then
         bindr (adbus_iter_beginarray mem i) (\<lambda>(i, a).
         bindr (get_elems n mem a i) (\<lambda>(xs, i).
           Inr (VArr (take (ia_sigsz a) (ia_sig a)) xs, adbus_iter_endarray i a)))
       else if c = CHR ''('' then
         bindr (adbus_iter_beginstruct i) (\<lambda>i.
         bindr (get_members n mem i) (\<lambda>(xs, i).
         bindr (adbus_iter_endstruct i) (\<lambda>i. Inr (VStruct xs, i))))
       else if c = CHR ''{'' then
         bindr (adbus_iter_begindictentry i) (\<lambda>i.
         bindr (getv n mem i) (\<lambda>(k, i).
         bindr (getv n mem i) (\<lambda>(v, i).
         bindr (adbus_iter_enddictentry i) (\<lambda>i. Inr (VDict k v, i)))))
       else Inl Abort)"
| "get_elems 0 mem a i = Inl Failed"
| "get_elems (Suc n) mem a i =
     (let (more, i) = adbus_iter_inarray i a
      in if \<not> more then Inr ([], i)
         else bindr (getv n mem i) (\<lambda>(x, i).
              bindr (get_elems n mem a i) (\<lambda>(xs, i). Inr (x # xs, i))))"
| "get_members 0 mem i = Inl Failed"
| "get_members (Suc n) mem i =
     bindr (it_sig_char i) (\<lambda>c.
       if c = CHR '')'' then Inr ([], i)
       else bindr (getv n mem i) (\<lambda>(x, i).
            bindr (get_members n mem i) (\<lambda>(xs, i). Inr (x # xs, i))))"

section \<open>Bytes at an offset\<close>

definition holds :: "mem \<Rightarrow> nat \<Rightarrow> char list \<Rightarrow> bool" where
  "holds mem off bs \<longleftrightarrow> off + length bs \<le> length mem \<and> take (length bs) (drop off mem) = bs"

lemma holds_append [simp]:
  "holds mem off (xs @ ys) \<longleftrightarrow> holds mem off xs \<and> holds mem (off + length xs) ys"
  by (auto simp: holds_def take_add add.commute append_eq_append_conv_if)

lemma holds_Cons:
  "holds mem off (c # ys) \<longleftrightarrow> holds mem off [c] \<and> holds mem (Suc off) ys"
  using holds_append[of mem off "[c]" ys] by simp

lemma rd_holds: "holds mem off bs \<Longrightarrow> n = length bs \<Longrightarrow> rd n mem off = Inr (le_val bs)"
  by (simp add: rd_def holds_def)

lemma rd_words:
  "holds mem off (le_bytes 1 (unat w1)) \<Longrightarrow> rd8 mem off = Inr w1"
  "holds mem off (le_bytes 2 (unat w2)) \<Longrightarrow> rd16 mem off = Inr w2"
  "holds mem off (le_bytes 4 (unat w4)) \<Longrightarrow> rd32 mem off = Inr w4"
  "holds mem off (le_bytes 8 (unat w8)) \<Longrightarrow> rd64 mem off = Inr w8"
  using unat_bounds(1)[of w1] unat_bounds(2)[of w2] unat_bounds(3)[of w4] unat_bounds(4)[of w8]
  by (simp_all add: rd8_def rd16_def rd32_def rd64_def rd_holds del: le_bytes.simps)

lemma rd_lens:
  "holds mem off (le_bytes 1 n) \<Longrightarrow> n < 256 \<Longrightarrow> rd8 mem off = Inr (of_nat n)"
  "holds mem off (le_bytes 4 m) \<Longrightarrow> m < 2 ^ 32 \<Longrightarrow> rd32 mem off = Inr (of_nat m)"
  by (simp_all add: rd8_def rd32_def rd_holds del: le_bytes.simps)

section \<open>The iterator moving forward\<close>

lemma length_pad_add [simp]: "0 < a \<Longrightarrow> off + (length (pad off a) + n) = align off a + n"
  by (simp flip: length_pad)

definition adv :: "adbus_Iterator \<Rightarrow> nat \<Rightarrow> adbus_Iterator" where
  "adv i k = i\<lparr>it_data := it_data i + k, it_size := it_size i - k\<rparr>"

lemma adv_simps [simp]:
  "it_data (adv i k) = it_data i + k"
  "it_size (adv i k) = it_size i - k"
  "it_sig (adv i k) = it_sig i"
  "adv (adv i j) k = adv i (j + k)"
  "adv (i\<lparr>it_sig := s\<rparr>) k = (adv i k)\<lparr>it_sig := s\<rparr>"
  "adv i 0 = i"
  by (simp_all add: adv_def)

lemma align_adv:
  "0 < a \<Longrightarrow> length (pad (it_data i) a) \<le> it_size i \<Longrightarrow>
   adbus_iter_align i a = Inr (adv i (length (pad (it_data i) a)))"
  by (auto simp: adbus_iter_align_def adv_def pad_def Let_def)

lemma take_bytes_adv: "n \<le> it_size i \<Longrightarrow> take_bytes n i = Inr (it_data i, adv i n)"
  by (simp add: take_bytes_def adv_def)

lemma iter_sig_tl:
  "it_sig i = Some (c # r) \<Longrightarrow> adbusI_iter_sig i c = Inr (i\<lparr>it_sig := Some r\<rparr>)"
  by (simp add: adbusI_iter_sig_def it_sig_char_def)

lemma get_adv:
  "1 \<le> it_size i \<Longrightarrow> adbusI_iter_get8 i = Inr (it_data i, adv i 1)"
  "length (pad (it_data i) 2) + 2 \<le> it_size i \<Longrightarrow>
     adbusI_iter_get16 i = Inr (align (it_data i) 2, adv i (length (pad (it_data i) 2) + 2))"
  "length (pad (it_data i) 4) + 4 \<le> it_size i \<Longrightarrow>
     adbusI_iter_get32 i = Inr (align (it_data i) 4, adv i (length (pad (it_data i) 4) + 4))"
  "length (pad (it_data i) 8) + 8 \<le> it_size i \<Longrightarrow>
     adbusI_iter_get64 i = Inr (align (it_data i) 8, adv i (length (pad (it_data i) 8) + 8))"
  by (simp_all add: adbusI_iter_get8_def adbusI_iter_get16_def adbusI_iter_get32_def
      adbusI_iter_get64_def align_adv take_bytes_adv)

lemma getstring_adv:
  assumes "holds mem (it_data i) (s @ [NUL])" and "NUL \<notin> set s" and "length s + 1 \<le> it_size i"
  shows "adbusI_iter_getstring mem i (length s) = Inr (s, adv i (length s + 1))"
proof -
  have "take (length s + 1) (drop (it_data i) mem) = s @ [NUL]"
    using assms(1) unfolding holds_def by simp
  moreover have "takeWhile (\<lambda>c. c \<noteq> NUL) (s @ [NUL]) = s"
    using assms(2) by (subst takeWhile_append2) auto
  ultimately show ?thesis using assms(3)
    by (simp add: adbusI_iter_getstring_def Let_def adv_def)
qed

section \<open>Reading back\<close>

definition reads :: "dval \<Rightarrow> adbus_Iterator \<Rightarrow> string \<Rightarrow> adbus_Iterator \<Rightarrow> bool" where
  "reads v i r j \<longleftrightarrow> it_data j = it_data i + length (enc (it_data i) v) \<and> it_sig j = Some r
     \<and> it_size i \<le> it_size j + length (enc (it_data i) v) \<and> it_size j \<le> it_size i"

definition at_value :: "mem \<Rightarrow> adbus_Iterator \<Rightarrow> dval \<Rightarrow> string \<Rightarrow> bool" where
  "at_value mem i v r \<longleftrightarrow> holds mem (it_data i) (enc (it_data i) v)
     \<and> length (enc (it_data i) v) \<le> it_size i \<and> it_sig i = Some (vsig v @ r) \<and> fits (it_data i) v"

definition get_ok :: "dval \<Rightarrow> bool" where
  "get_ok v \<longleftrightarrow> (\<forall>n mem i r. size v < n \<longrightarrow> at_value mem i v r \<longrightarrow>
     (\<exists>j. getv n mem i = Inr (v, j) \<and> reads v i r j))"

lemma get_okD:
  "get_ok v \<Longrightarrow> size v < n \<Longrightarrow> at_value mem i v r \<Longrightarrow>
   \<exists>j. getv n mem i = Inr (v, j) \<and> reads v i r j"
  by (simp add: get_ok_def)

lemma readsI: "j = (adv i (length (enc (it_data i) v)))\<lparr>it_sig := Some r\<rparr> \<Longrightarrow> reads v i r j"
  by (simp add: reads_def)

lemma get_okI:
  assumes "\<And>n mem i r. size v \<le> n \<Longrightarrow> at_value mem i v r \<Longrightarrow>
     getv (Suc n) mem i = Inr (v, (adv i (length (enc (it_data i) v)))\<lparr>it_sig := Some r\<rparr>)"
  shows "get_ok v"
  unfolding get_ok_def
proof (intro allI impI)
  fix n mem i r assume "size v < n" "at_value mem i v r"
  then show "\<exists>j. getv n mem i = Inr (v, j) \<and> reads v i r j"
    using assms[of "n - 1" mem i r] by (cases n) (auto intro: readsI)
qed

lemmas iter_basic_defs = adbus_iter_u8_def adbus_iter_i16_def adbus_iter_u16_def
  adbus_iter_bool_def adbus_iter_i32_def adbus_iter_u32_def adbus_iter_i64_def adbus_iter_u64_def
  adbus_iter_double_def adbus_iter_string_def adbus_iter_objectpath_def adbus_iter_signature_def

lemma it_sig_char_Cons: "it_sig i = Some (c # r) \<Longrightarrow> it_sig_char i = Inr c"
  by (simp add: it_sig_char_def)

lemmas get_unfold = it_sig_char_Cons iter_basic_defs iter_sig_tl get_adv

lemma get_ok_byte: "get_ok (VByte w)"
proof (rule get_okI)
  fix n mem i r assume "at_value mem i (VByte w) r"
  then have h: "holds mem (it_data i) (le_bytes 1 (unat w))" "1 \<le> it_size i"
    "it_sig i = Some (CHR ''y'' # r)"
    by (simp_all add: at_value_def del: le_bytes.simps)
  from h(2,3) rd_words(1)[OF h(1)]
  show "getv (Suc n) mem i = Inr (VByte w, (adv i (length (enc (it_data i) (VByte w))))\<lparr>it_sig := Some r\<rparr>)"
    by (simp add: get_unfold del: le_bytes.simps)
qed

lemma get_ok_16: "wf_dval (V16 c w) \<Longrightarrow> get_ok (V16 c w)"
proof (rule get_okI)
  fix n mem i r assume wf: "wf_dval (V16 c w)" and "at_value mem i (V16 c w) r"
  then have h: "holds mem (align (it_data i) 2) (le_bytes 2 (unat w))"
    "length (pad (it_data i) 2) + 2 \<le> it_size i" "it_sig i = Some (c # r)"
    by (simp_all add: at_value_def del: le_bytes.simps)
  from wf have "c = CHR ''n'' \<or> c = CHR ''q''" by simp
  with h(2,3) rd_words(2)[OF h(1)]
  show "getv (Suc n) mem i = Inr (V16 c w, (adv i (length (enc (it_data i) (V16 c w))))\<lparr>it_sig := Some r\<rparr>)"
    by (elim disjE) (simp_all add: get_unfold del: le_bytes.simps)
qed

lemma get_ok_32: "wf_dval (V32 c w) \<Longrightarrow> get_ok (V32 c w)"
proof (rule get_okI)
  fix n mem i r assume wf: "wf_dval (V32 c w)" and "at_value mem i (V32 c w) r"
  then have h: "holds mem (align (it_data i) 4) (le_bytes 4 (unat w))"
    "length (pad (it_data i) 4) + 4 \<le> it_size i" "it_sig i = Some (c # r)"
    by (simp_all add: at_value_def del: le_bytes.simps)
  from wf have "c = CHR ''i'' \<or> c = CHR ''u'' \<or> c = CHR ''b''" by auto
  with h(2,3) rd_words(3)[OF h(1)]
  show "getv (Suc n) mem i = Inr (V32 c w, (adv i (length (enc (it_data i) (V32 c w))))\<lparr>it_sig := Some r\<rparr>)"
    by (elim disjE) (simp_all add: get_unfold del: le_bytes.simps)
qed

lemma get_ok_64: "wf_dval (V64 c w) \<Longrightarrow> get_ok (V64 c w)"
proof (rule get_okI)
  fix n mem i r assume wf: "wf_dval (V64 c w)" and "at_value mem i (V64 c w) r"
  then have h: "holds mem (align (it_data i) 8) (le_bytes 8 (unat w))"
    "length (pad (it_data i) 8) + 8 \<le> it_size i" "it_sig i = Some (c # r)"
    by (simp_all add: at_value_def del: le_bytes.simps)
  from wf have "c = CHR ''x'' \<or> c = CHR ''t'' \<or> c = CHR ''d''" by simp
  with h(2,3) rd_words(4)[OF h(1)]
  show "getv (Suc n) mem i = Inr (V64 c w, (adv i (length (enc (it_data i) (V64 c w))))\<lparr>it_sig := Some r\<rparr>)"
    by (elim disjE) (simp_all add: get_unfold del: le_bytes.simps)
qed

lemma get_sized_string_adv:
  assumes "holds mem (it_data i) (enc (it_data i) (VStr c s))" and "wf_dval (VStr c s)"
    and "length (enc (it_data i) (VStr c s)) \<le> it_size i"
  shows "get_sized_string mem i = Inr (s, adv i (length (enc (it_data i) (VStr c s))))"
proof -
  let ?k = "length (pad (it_data i) 4) + 4"
  have l: "length s < 2 ^ 32" "NUL \<notin> set s" using assms(2) by auto
  have "holds mem (it_data (adv i ?k)) (s @ [NUL])"
    using assms(1) by (simp add: add.assoc)
  then have "adbusI_iter_getstring mem (adv i ?k) (length s) = Inr (s, adv (adv i ?k) (length s + 1))"
    using assms(3) l(2) by (intro getstring_adv) simp_all
  moreover have "rd32 mem (align (it_data i) 4) = Inr (of_nat (length s))"
    using assms(1) l(1) by (intro rd_lens(2)) (simp_all del: le_bytes.simps)
  moreover have "unat (of_nat (length s) :: 32 word) = length s"
    using l(1) by (simp add: unat_of_nat take_bit_nat_eq_self)
  moreover have "adbusI_iter_get32 i = Inr (align (it_data i) 4, adv i ?k)"
    using assms(3) by (intro get_adv) simp
  ultimately show ?thesis by (simp add: get_sized_string_def add_ac)
qed

lemma get_ok_string: "wf_dval (VStr c s) \<Longrightarrow> get_ok (VStr c s)"
proof (rule get_okI)
  fix n mem i r assume wf: "wf_dval (VStr c s)" and a: "at_value mem i (VStr c s) r"
  then have "get_sized_string mem (i\<lparr>it_sig := Some r\<rparr>)
      = Inr (s, (adv i (length (enc (it_data i) (VStr c s))))\<lparr>it_sig := Some r\<rparr>)"
    using get_sized_string_adv[of mem "i\<lparr>it_sig := Some r\<rparr>" c s]
    by (simp add: at_value_def del: enc.simps wf_dval.simps)
  moreover from wf have "c = CHR ''s'' \<or> c = CHR ''o''" by simp
  moreover from a have "it_sig i = Some (c # r)" by (simp add: at_value_def)
  ultimately
  show "getv (Suc n) mem i = Inr (VStr c s, (adv i (length (enc (it_data i) (VStr c s))))\<lparr>it_sig := Some r\<rparr>)"
    by (elim disjE) (simp_all add: get_unfold del: enc.simps)
qed

lemma sized_sig_adv:
  assumes "holds mem (it_data i) (le_bytes 1 (length s) @ s @ [NUL])" and "NUL \<notin> set s"
    and "length s < 255" and "length s + 2 \<le> it_size i"
  shows "adbusI_iter_get8 i = Inr (it_data i, adv i 1)"
    and "rd8 mem (it_data i) = Inr (of_nat (length s))"
    and "adbusI_iter_getstring mem (adv i 1) (unat (of_nat (length s) :: 8 word)) = Inr (s, adv i (length s + 2))"
proof -
  show "adbusI_iter_get8 i = Inr (it_data i, adv i 1)" using assms(4) by (intro get_adv) simp
  show "rd8 mem (it_data i) = Inr (of_nat (length s))"
    using assms(1,3) by (intro rd_lens(1)) (simp_all del: le_bytes.simps)
  have "adbusI_iter_getstring mem (adv i 1) (length s) = Inr (s, adv (adv i 1) (length s + 1))"
    using assms(1,2,4) by (intro getstring_adv) (simp_all del: le_bytes.simps)
  moreover have "unat (of_nat (length s) :: 8 word) = length s"
    using assms(3) by (simp add: unat_of_nat take_bit_nat_eq_self)
  ultimately show "adbusI_iter_getstring mem (adv i 1) (unat (of_nat (length s) :: 8 word))
      = Inr (s, adv i (length s + 2))" by simp
qed

lemma get_ok_sig: "wf_dval (VSig s) \<Longrightarrow> get_ok (VSig s)"
proof (rule get_okI)
  fix n mem i r assume wf: "wf_dval (VSig s)" and "at_value mem i (VSig s) r"
  then have h: "holds mem (it_data i) (le_bytes 1 (length s) @ s @ [NUL])" "length s + 2 \<le> it_size i"
    "it_sig i = Some (CHR ''g'' # r)"
    by (simp_all add: at_value_def del: le_bytes.simps)
  from wf have "NUL \<notin> set s" "length s < 255" by simp_all
  from sized_sig_adv[of mem "i\<lparr>it_sig := Some r\<rparr>", simplified, OF _ this] h
  show "getv (Suc n) mem i = Inr (VSig s, (adv i (length (enc (it_data i) (VSig s))))\<lparr>it_sig := Some r\<rparr>)"
    by (simp add: it_sig_char_Cons iter_basic_defs iter_sig_tl)
qed

lemma align_idem [simp]: "0 < a \<Longrightarrow> align (align off a) a = align off a"
  by (simp add: align_id dvd_align)

lemma pad_aligned [simp]: "0 < a \<Longrightarrow> pad (align off a) a = []"
  by (simp add: pad_def)

lemma pad_1 [simp]: "pad off (Suc 0) = []"
  by (simp add: pad_def)

lemma enc_aligned:
  "wf_dval v \<Longrightarrow> enc off v = pad off (sig_align (vsig v)) @ enc (align off (sig_align (vsig v))) v"
  "wf_dval v \<Longrightarrow> fits (align off (sig_align (vsig v))) v = fits off v"
  by (cases v; auto simp: sig_align_def sRequiredAlignment_def array_body_def Let_def)+

text \<open>The iterator at the start of the contents of a variant and of an array.\<close>

lemma beginvariant_at:
  assumes wf: "wf_dval (VVariant v)" and a: "at_value mem i (VVariant v) r"
  shows "\<exists>k w. adbus_iter_beginvariant mem i = Inr (k, w) \<and> iv_origsig w = Some r \<and> at_value mem k v []
    \<and> it_data k + it_size k = it_data i + it_size i \<and> it_size k \<le> it_size i
    \<and> it_data k + length (enc (it_data k) v) = it_data i + length (enc (it_data i) (VVariant v))"
proof -
  let ?s = "vsig v" and ?k = "length (vsig v) + 2"
  let ?a = "sig_align ?s" and ?o = "it_data i + ?k"
  let ?i1 = "(adv i ?k)\<lparr>it_sig := Some r\<rparr>"
  let ?i2 = "(adv i (?k + length (pad ?o ?a)))\<lparr>it_sig := Some ?s\<rparr>"
  from a have h: "holds mem (it_data i) (le_bytes 1 (length ?s) @ ?s @ [NUL])"
    "holds mem ?o (enc ?o v)" "?k + length (enc ?o v) \<le> it_size i"
    "it_sig i = Some (CHR ''v'' # r)" "fits ?o v"
    by (simp_all add: at_value_def holds_Cons[of _ _ NUL "enc _ v"] add_ac del: le_bytes.simps)
  have w: "wf_dval v" "NUL \<notin> set ?s" "length ?s < 255" "0 < ?a"
    using wf vsig_no_nul vsig_align[of v "[]"] by auto
  obtain c cs where c: "?s = c # cs" using vsig_Cons[OF w(1)] by auto
  have e: "enc ?o v = pad ?o ?a @ enc (align ?o ?a) v" by (rule enc_aligned[OF w(1)])
  have D: "it_data ?i2 = align ?o ?a" using length_pad[OF w(4), of ?o] by simp
  have "adbus_iter_alignfield ?i1 c = Inr (?i2\<lparr>it_sig := Some r\<rparr>)"
    using align_adv[OF w(4), of ?i1] w(4) c h(3) e by (simp add: alignfield_table sig_align_def)
  then have b: "adbus_iter_beginvariant mem i = Inr (?i2, \<lparr>iv_origsig = Some r, iv_sig = ?s,
      iv_data = it_data ?i2, iv_size = 0\<rparr>)"
    using sized_sig_adv[of mem "i\<lparr>it_sig := Some r\<rparr>", simplified, OF _ w(2,3)] h c
    by (simp add: adbus_iter_beginvariant_def iter_sig_tl)
  have "holds mem (align ?o ?a) (enc (align ?o ?a) v)"
    using h(2) unfolding e holds_append length_pad[OF w(4)] by simp
  moreover have "length (enc (align ?o ?a) v) \<le> it_size ?i2" using h(3) e by simp
  ultimately have v: "at_value mem ?i2 v []"
    unfolding at_value_def D using enc_aligned(2)[OF w(1), of ?o] h(5) by simp
  have "it_data ?i2 + length (enc (it_data ?i2) v) = it_data i + length (enc (it_data i) (VVariant v))"
    unfolding D using length_pad[OF w(4), of ?o] e by simp
  with b v h(3) e show ?thesis by auto
qed

lemma beginarray_at:
  assumes wf: "wf_dval (VArr s vs)" and a: "at_value mem i (VArr s vs) r"
  shows "\<exists>k a. adbus_iter_beginarray mem i = Inr (k, a) \<and> ia_sig a = s @ r \<and> ia_sigsz a = length s
    \<and> ia_data a = it_data k \<and> ia_size a = length (encs (it_data k) vs)
    \<and> it_data k + it_size k = it_data i + it_size i \<and> it_size k \<le> it_size i
    \<and> holds mem (it_data k) (encs (it_data k) vs) \<and> length (encs (it_data k) vs) \<le> it_size k
    \<and> fitss (it_data k) vs
    \<and> it_data k + length (encs (it_data k) vs) = it_data i + length (enc (it_data i) (VArr s vs))
    \<and> it_data k = array_body (it_data i) s"
proof -
  let ?o = "it_data i" and ?k = "length (pad (it_data i) 4) + 4"
  let ?q = "pad (align ?o 4 + 4) (sig_align s)" and ?d = "array_body ?o s"
  let ?body = "encs ?d vs" and ?i1 = "(adv i ?k)\<lparr>it_sig := Some (s @ r)\<rparr>"
  let ?i2 = "(adv i (?k + length ?q))\<lparr>it_sig := Some (s @ r)\<rparr>"
  from wf nextarg_sound(1) obtain t where t: "wf_dtype t" "s = sig_of t" by fastforce
  have w: "0 < sig_align s" "adbus_nextarg (s @ r) = Some r"
    using sig_of_align[OF t(1), of "[]"] nextarg_sig_of[OF t(1)] t(2) by auto
  obtain c cs where c: "s = c # cs" using sig_of_Cons[OF t(1)] t(2) by auto
  have D: "it_data ?i2 = ?d" "align ?o 4 + 4 + length ?q = ?d"
    using length_pad[OF w(1), of "align ?o 4 + 4"] by (simp_all add: array_body_def flip: add.assoc)
  from a have h: "holds mem (align ?o 4) (le_bytes 4 (length ?body))" "holds mem ?d ?body"
    "?k + length ?q + length ?body \<le> it_size i" "it_sig i = Some (CHR ''a'' # s @ r)"
    "length ?body \<le> ADBUS_MAXIMUM_ARRAY_LENGTH" "fitss ?d vs"
    by (simp_all add: at_value_def Let_def D(2)[symmetric] add.assoc del: le_bytes.simps)
  have "adbus_iter_alignfield ?i1 c = Inr ?i2"
    using align_adv[OF w(1), of ?i1] w(1) c h(3) by (simp add: alignfield_table sig_align_def)
  moreover have "rd32 mem (align ?o 4) = Inr (of_nat (length ?body))"
    using h(1,5) by (intro rd_lens(2)) (simp_all add: ADBUS_MAXIMUM_ARRAY_LENGTH_def)
  moreover have "unat (of_nat (length ?body) :: 32 word) = length ?body"
    using h(5) by (simp add: unat_of_nat take_bit_nat_eq_self ADBUS_MAXIMUM_ARRAY_LENGTH_def)
  moreover have "adbusI_iter_get32 (i\<lparr>it_sig := Some (s @ r)\<rparr>) = Inr (align ?o 4, ?i1)"
    using get_adv(3)[of "i\<lparr>it_sig := Some (s @ r)\<rparr>"] h(3) by simp
  ultimately have b: "adbus_iter_beginarray mem i = Inr (?i2, \<lparr>ia_sig = s @ r, ia_sigsz = length s,
      ia_data = it_data ?i2, ia_size = length ?body\<rparr>)"
    using h(4,5) w(2) c
    by (simp add: adbus_iter_beginarray_def iter_sig_tl it_sig_char_Cons Let_def
        del: adbus_nextarg.simps)
  define k where "k = ?i2"
  have k: "it_data k = ?d" "it_size k = it_size i - (?k + length ?q)" "?d = it_data i + (?k + length ?q)"
    unfolding k_def D(1) by (simp_all add: D(1)[symmetric])
  have "?d + length ?body = it_data i + length (enc (it_data i) (VArr s vs))"
    using k(3) by (simp add: Let_def)
  with b[folded k_def] h k show ?thesis
    by (intro exI[of _ k] exI[of _ "\<lparr>ia_sig = s @ r, ia_sigsz = length s, ia_data = it_data k,
      ia_size = length ?body\<rparr>"]) (simp del: enc.simps)
qed

lemma get_ok_variant:
  assumes IH: "get_ok v" and wf: "wf_dval (VVariant v)"
  shows "get_ok (VVariant v)"
  unfolding get_ok_def
proof (intro allI impI)
  fix n mem i r assume n: "size (VVariant v) < n" and a: "at_value mem i (VVariant v) r"
  then obtain m where m: "n = Suc m" "size v < m" by (cases n) auto
  from beginvariant_at[OF wf a] obtain k w where
    k: "adbus_iter_beginvariant mem i = Inr (k, w)" "iv_origsig w = Some r" "at_value mem k v []"
    "it_data k + it_size k = it_data i + it_size i" "it_size k \<le> it_size i"
    "it_data k + length (enc (it_data k) v) = it_data i + length (enc (it_data i) (VVariant v))"
    by auto
  from get_okD[OF IH m(2) k(3)] obtain j where j: "getv m mem k = Inr (v, j)" "reads v k [] j" by auto
  from a have "it_sig_char i = Inr CHR ''v''" by (simp add: at_value_def it_sig_char_def)
  then have "getv n mem i = Inr (VVariant v, j\<lparr>it_sig := Some r\<rparr>)"
    using k(1,2) j m(1) by (simp add: adbus_iter_endvariant_def reads_def it_sig_char_def)
  moreover have "reads (VVariant v) i r (j\<lparr>it_sig := Some r\<rparr>)"
    using j(2) k(4-6) by (simp add: reads_def del: enc.simps)
  ultimately show "\<exists>j. getv n mem i = Inr (VVariant v, j) \<and> reads (VVariant v) i r j" by blast
qed

lemma le_bytes_Nil: "le_bytes k n = [] \<longleftrightarrow> k = 0"
  by (cases k) simp_all

lemma enc_nonempty: "wf_dval v \<Longrightarrow> enc off v \<noteq> []"
proof (induction v arbitrary: off)
  case (VStruct vs)
  then show ?case by (cases vs) (simp_all add: Let_def)
qed (simp_all add: Let_def le_bytes_Nil del: le_bytes.simps)

lemma get_members_ok:
  assumes "\<And>v. v \<in> set vs \<Longrightarrow> get_ok v \<and> wf_dval v" and "size_list size vs < n"
    and "holds mem (it_data i) (encs (it_data i) vs)" "length (encs (it_data i) vs) \<le> it_size i"
    and "it_sig i = Some (concat (map vsig vs) @ CHR '')'' # r)" "fitss (it_data i) vs"
  shows "\<exists>j. get_members n mem i = Inr (vs, j) \<and> it_data j = it_data i + length (encs (it_data i) vs)
    \<and> it_sig j = Some (CHR '')'' # r) \<and> it_size i \<le> it_size j + length (encs (it_data i) vs)
    \<and> it_size j \<le> it_size i"
  using assms
proof (induction vs arbitrary: n i)
  case Nil
  then show ?case by (cases n) (simp_all add: it_sig_char_Cons)
next
  case (Cons v vs)
  let ?e = "enc (it_data i) v"
  obtain m where m: "n = Suc m" using Cons.prems(2) by (cases n) auto
  obtain c cs where c: "vsig v = c # cs" "c \<noteq> CHR '')''"
    using vsig_Cons[of v] Cons.prems(1)[of v] by auto
  have "at_value mem i v (concat (map vsig vs) @ CHR '')'' # r)"
    using Cons.prems by (simp add: at_value_def Let_def)
  from get_okD[OF _ _ this, of m] Cons.prems(1)[of v] Cons.prems(2) m obtain j where
    j: "getv m mem i = Inr (v, j)" "reads v i (concat (map vsig vs) @ CHR '')'' # r) j" by auto
  then have d: "it_data j = it_data i + length ?e" by (simp add: reads_def)
  obtain k where "get_members m mem j = Inr (vs, k)"
    "it_data k = it_data j + length (encs (it_data j) vs)" "it_sig k = Some (CHR '')'' # r)"
    "it_size j \<le> it_size k + length (encs (it_data j) vs)" "it_size k \<le> it_size j"
    using Cons.IH[of m j] Cons.prems j(2) m by (auto simp: reads_def Let_def)
  with j d m c Cons.prems(5) show ?case
    by (auto simp: it_sig_char_Cons reads_def Let_def)
qed

lemma get_elems_ok:
  assumes "\<And>v. v \<in> set vs \<Longrightarrow> get_ok v \<and> wf_dval v \<and> vsig v = s" and "size_list size vs < n"
    and "holds mem (it_data i) (encs (it_data i) vs)" "length (encs (it_data i) vs) \<le> it_size i"
    and "ia_sig a = s @ r" "fitss (it_data i) vs"
    and "ia_data a + ia_size a = it_data i + length (encs (it_data i) vs)"
  shows "\<exists>j. get_elems n mem a i = Inr (vs, j) \<and> it_data j = it_data i + length (encs (it_data i) vs)
    \<and> it_size i \<le> it_size j + length (encs (it_data i) vs) \<and> it_size j \<le> it_size i"
  using assms
proof (induction vs arbitrary: n i)
  case Nil
  then show ?case by (cases n) (simp_all add: adbus_iter_inarray_def)
next
  case (Cons v vs)
  let ?e = "enc (it_data i) v" and ?i = "i\<lparr>it_sig := Some (s @ r)\<rparr>"
  obtain m where m: "n = Suc m" using Cons.prems(2) by (cases n) auto
  have "?e \<noteq> []" using Cons.prems(1)[of v] enc_nonempty by simp
  then have inarr: "adbus_iter_inarray i a = (True, ?i)"
    using Cons.prems(5,7) by (simp add: adbus_iter_inarray_def Let_def)
  have "at_value mem ?i v r"
    using Cons.prems by (simp add: at_value_def Let_def)
  from get_okD[OF _ _ this, of m] Cons.prems(1)[of v] Cons.prems(2) m obtain j where
    j: "getv m mem ?i = Inr (v, j)" "reads v ?i r j" by auto
  then have d: "it_data j = it_data i + length ?e" by (simp add: reads_def)
  obtain k where "get_elems m mem a j = Inr (vs, k)"
    "it_data k = it_data j + length (encs (it_data j) vs)"
    "it_size j \<le> it_size k + length (encs (it_data j) vs)" "it_size k \<le> it_size j"
    using Cons.IH[of m j] Cons.prems j(2) m by (auto simp: reads_def Let_def)
  with j d m inarr show ?case by (auto simp: reads_def Let_def)
qed

lemma get_ok_array:
  assumes IH: "\<And>v. v \<in> set vs \<Longrightarrow> get_ok v" and wf: "wf_dval (VArr s vs)"
  shows "get_ok (VArr s vs)"
  unfolding get_ok_def
proof (intro allI impI)
  fix n mem i r assume n: "size (VArr s vs) < n" and a: "at_value mem i (VArr s vs) r"
  then obtain m where m: "n = Suc m" "size_list size vs < m" by (cases n) auto
  from beginarray_at[OF wf a] obtain k x where
    k: "adbus_iter_beginarray mem i = Inr (k, x)" "ia_sig x = s @ r" "ia_sigsz x = length s"
    "ia_data x = it_data k" "ia_size x = length (encs (it_data k) vs)"
    "it_data k + it_size k = it_data i + it_size i" "it_size k \<le> it_size i"
    "holds mem (it_data k) (encs (it_data k) vs)" "length (encs (it_data k) vs) \<le> it_size k"
    "fitss (it_data k) vs"
    "it_data k + length (encs (it_data k) vs) = it_data i + length (enc (it_data i) (VArr s vs))"
    by auto
  obtain j where j: "get_elems m mem x k = Inr (vs, j)"
    "it_size k \<le> it_size j + length (encs (it_data k) vs)" "it_size j \<le> it_size k"
    using get_elems_ok[of vs s m mem k x r] IH wf m(2) k by (auto simp: list_all_iff)
  from a have "it_sig_char i = Inr CHR ''a''" by (simp add: at_value_def it_sig_char_def)
  then have "getv n mem i = Inr (VArr s vs, adbus_iter_endarray j x)"
    using k(1-3) j(1) m(1) by simp
  moreover have "reads (VArr s vs) i r (adbus_iter_endarray j x)"
    using j(2,3) k by (simp add: reads_def adbus_iter_endarray_def del: enc.simps)
  ultimately show "\<exists>j. getv n mem i = Inr (VArr s vs, j) \<and> reads (VArr s vs) i r j" by blast
qed

text \<open>Structs and dict entries start at a multiple of eight.\<close>

lemma begin_at:
  assumes "it_sig i = Some (c # r)" and "c \<noteq> NUL" and "length (pad (it_data i) 8) \<le> it_size i"
  shows "bindr (adbusI_iter_sig i c) (\<lambda>i. adbus_iter_align i 8)
    = Inr ((adv i (length (pad (it_data i) 8)))\<lparr>it_sig := Some r\<rparr>)"
  using assms align_adv[of 8 "i\<lparr>it_sig := Some r\<rparr>"] by (simp add: iter_sig_tl)

lemma get_ok_struct:
  assumes IH: "\<And>v. v \<in> set vs \<Longrightarrow> get_ok v" and wf: "wf_dval (VStruct vs)"
  shows "get_ok (VStruct vs)"
  unfolding get_ok_def
proof (intro allI impI)
  fix n mem i r assume n: "size (VStruct vs) < n" and a: "at_value mem i (VStruct vs) r"
  then obtain m where m: "n = Suc m" "size_list size vs < m" by (cases n) auto
  let ?o = "align (it_data i) 8"
  let ?i1 = "(adv i (length (pad (it_data i) 8)))\<lparr>it_sig := Some (concat (map vsig vs) @ CHR '')'' # r)\<rparr>"
  from a have h: "holds mem ?o (encs ?o vs)" "length (pad (it_data i) 8) + length (encs ?o vs) \<le> it_size i"
    "it_sig i = Some (CHR ''('' # concat (map vsig vs) @ CHR '')'' # r)" "fitss ?o vs"
    by (simp_all add: at_value_def)
  have b: "adbus_iter_beginstruct i = Inr ?i1"
    using begin_at[OF h(3)] h(2) by (simp add: adbus_iter_beginstruct_def)
  have "length (encs ?o vs) \<le> it_size ?i1" using h(2) by simp
  then obtain j where j: "get_members m mem ?i1 = Inr (vs, j)" "it_data j = ?o + length (encs ?o vs)"
    "it_sig j = Some (CHR '')'' # r)" "it_size ?i1 \<le> it_size j + length (encs ?o vs)"
    "it_size j \<le> it_size ?i1"
    using get_members_ok[of vs m mem ?i1 r] IH wf m(2) h by (auto simp: list_all_iff)
  have "getv n mem i = Inr (VStruct vs, j\<lparr>it_sig := Some r\<rparr>)"
    using h(3) b j(1,3) m(1) by (simp add: it_sig_char_Cons adbus_iter_endstruct_def iter_sig_tl)
  moreover have "reads (VStruct vs) i r (j\<lparr>it_sig := Some r\<rparr>)"
    using j h(2) by (auto simp: reads_def)
  ultimately show "\<exists>j. getv n mem i = Inr (VStruct vs, j) \<and> reads (VStruct vs) i r j" by blast
qed

lemma get_ok_dict:
  assumes IH: "get_ok k" "get_ok v" and wf: "wf_dval (VDict k v)"
  shows "get_ok (VDict k v)"
  unfolding get_ok_def
proof (intro allI impI)
  fix n mem i r assume n: "size (VDict k v) < n" and a: "at_value mem i (VDict k v) r"
  then obtain m where m: "n = Suc m" "size k < m" "size v < m" by (cases n) auto
  let ?o = "align (it_data i) 8"
  let ?i1 = "(adv i (length (pad (it_data i) 8)))\<lparr>it_sig := Some (vsig k @ vsig v @ CHR ''}'' # r)\<rparr>"
  let ?p = "?o + length (enc ?o k)"
  from a have h: "holds mem ?o (enc ?o k)" "holds mem ?p (enc ?p v)"
    "length (pad (it_data i) 8) + length (enc ?o k) + length (enc ?p v) \<le> it_size i"
    "it_sig i = Some (CHR ''{'' # vsig k @ vsig v @ CHR ''}'' # r)" "fits ?o k" "fits ?p v"
    by (simp_all add: at_value_def Let_def)
  have b: "adbus_iter_begindictentry i = Inr ?i1"
    using begin_at[OF h(4)] h(3) by (simp add: adbus_iter_begindictentry_def)
  have "at_value mem ?i1 k (vsig v @ CHR ''}'' # r)" using h by (simp add: at_value_def)
  from get_okD[OF IH(1) m(2) this] obtain x where
    x: "getv m mem ?i1 = Inr (k, x)" "reads k ?i1 (vsig v @ CHR ''}'' # r) x" by auto
  have "at_value mem x v (CHR ''}'' # r)" using x(2) h by (auto simp: at_value_def reads_def)
  from get_okD[OF IH(2) m(3) this] obtain y where
    y: "getv m mem x = Inr (v, y)" "reads v x (CHR ''}'' # r) y" by auto
  have "getv n mem i = Inr (VDict k v, y\<lparr>it_sig := Some r\<rparr>)"
    using h(4) b x(1) y m(1)
    by (simp add: it_sig_char_Cons adbus_iter_enddictentry_def iter_sig_tl reads_def)
  moreover have "reads (VDict k v) i r (y\<lparr>it_sig := Some r\<rparr>)"
    using x(2) y(2) h(3) by (auto simp: reads_def Let_def)
  ultimately show "\<exists>j. getv n mem i = Inr (VDict k v, j) \<and> reads (VDict k v) i r j" by blast
qed

lemma get_ok_all: "wf_dval v \<Longrightarrow> get_ok v"
proof (induction v)
  case (VVariant v) then show ?case using get_ok_variant by simp
next
  case (VArr s vs) then show ?case by (intro get_ok_array) (auto simp: list_all_iff)
next
  case (VStruct vs) then show ?case by (intro get_ok_struct) (auto simp: list_all_iff)
next
  case (VDict k v) then show ?case by (intro get_ok_dict) auto
qed (simp_all only: get_ok_byte get_ok_16 get_ok_32 get_ok_64 get_ok_string get_ok_sig)

section \<open>Skipping\<close>

definition skip_ok :: "dval \<Rightarrow> bool" where
  "skip_ok v \<longleftrightarrow> (\<forall>mem i r. at_value mem i v r \<longrightarrow>
     (\<exists>j. adbus_iter_value mem i = Inr j \<and> reads v i r j))"

lemma skip_okD:
  "skip_ok v \<Longrightarrow> at_value mem i v r \<Longrightarrow> \<exists>j. adbus_iter_value mem i = Inr j \<and> reads v i r j"
  by (simp add: skip_ok_def)

fun is_container :: "dval \<Rightarrow> bool" where
  "is_container (VVariant v) = True"
| "is_container (VArr s vs) = True"
| "is_container (VStruct vs) = True"
| "is_container (VDict k v) = True"
| "is_container v = False"

lemma getv_skips:
  assumes "getv (Suc n) mem i = Inr (v, j)" and "\<not> is_container v"
  shows "adbus_iter_value mem i = Inr j"
proof -
  from assms(1) obtain c where c: "it_sig_char i = Inr c" by (auto simp: bindr_Inr_conv)
  with assms have "c \<in> set ''bynqiuxtdsog''"
    by (auto simp: bindr_Inr_conv split: if_splits)
  with assms c show ?thesis
    unfolding adbus_iter_value.simps[of mem i]
    by (auto simp: bindr_Inr_conv map_sum_Inr_conv split: if_splits)
qed

lemma skip_ok_basic: "get_ok v \<Longrightarrow> \<not> is_container v \<Longrightarrow> skip_ok v"
  unfolding skip_ok_def
proof (intro allI impI)
  fix mem i r assume v: "get_ok v" "\<not> is_container v" and "at_value mem i v r"
  from get_okD[OF v(1) lessI this(3)] getv_skips[OF _ v(2)]
  show "\<exists>j. adbus_iter_value mem i = Inr j \<and> reads v i r j" by blast
qed

lemma skip_ok_variant:
  assumes IH: "skip_ok v" and wf: "wf_dval (VVariant v)"
  shows "skip_ok (VVariant v)"
  unfolding skip_ok_def
proof (intro allI impI)
  fix mem i r assume a: "at_value mem i (VVariant v) r"
  from beginvariant_at[OF wf a] obtain k w where
    k: "adbus_iter_beginvariant mem i = Inr (k, w)" "iv_origsig w = Some r" "at_value mem k v []"
    "it_data k + it_size k = it_data i + it_size i" "it_size k \<le> it_size i"
    "it_data k + length (enc (it_data k) v) = it_data i + length (enc (it_data i) (VVariant v))"
    by auto
  from skip_okD[OF IH k(3)] obtain j where j: "adbus_iter_value mem k = Inr j" "reads v k [] j"
    by blast
  from a have "it_sig_char i = Inr CHR ''v''" by (simp add: at_value_def it_sig_char_def)
  then have "adbus_iter_value mem i = Inr (j\<lparr>it_sig := Some r\<rparr>)"
    using k(1,2) j unfolding adbus_iter_value.simps[of mem i]
    by (simp add: adbus_iter_endvariant_def reads_def it_sig_char_def)
  moreover have "reads (VVariant v) i r (j\<lparr>it_sig := Some r\<rparr>)"
    using j(2) k(4-6) by (simp add: reads_def del: enc.simps)
  ultimately show "\<exists>j. adbus_iter_value mem i = Inr j \<and> reads (VVariant v) i r j" by blast
qed

lemma skip_ok_array:
  assumes wf: "wf_dval (VArr s vs)"
  shows "skip_ok (VArr s vs)"
  unfolding skip_ok_def
proof (intro allI impI)
  fix mem i r assume a: "at_value mem i (VArr s vs) r"
  from beginarray_at[OF wf a] obtain k x where
    k: "adbus_iter_beginarray mem i = Inr (k, x)" "ia_sig x = s @ r" "ia_sigsz x = length s"
    "ia_data x = it_data k" "ia_size x = length (encs (it_data k) vs)"
    "it_data k + it_size k = it_data i + it_size i" "it_size k \<le> it_size i"
    "it_data k + length (encs (it_data k) vs) = it_data i + length (enc (it_data i) (VArr s vs))"
    by auto
  from a have "it_sig_char i = Inr CHR ''a''" by (simp add: at_value_def it_sig_char_def)
  then have "adbus_iter_value mem i = Inr (adbus_iter_endarray k x)"
    using k(1) unfolding adbus_iter_value.simps[of mem i] by simp
  moreover have "reads (VArr s vs) i r (adbus_iter_endarray k x)"
    using k by (simp add: reads_def adbus_iter_endarray_def del: enc.simps)
  ultimately show "\<exists>j. adbus_iter_value mem i = Inr j \<and> reads (VArr s vs) i r j" by blast
qed

lemma iter_struct_ok:
  assumes "\<And>v. v \<in> set vs \<Longrightarrow> skip_ok v \<and> wf_dval v"
    and "holds mem (it_data i) (encs (it_data i) vs)" "length (encs (it_data i) vs) \<le> it_size i"
    and "it_sig i = Some (concat (map vsig vs) @ CHR '')'' # r)" "fitss (it_data i) vs"
  shows "\<exists>j. iter_struct mem i = Inr j \<and> it_data j = it_data i + length (encs (it_data i) vs)
    \<and> it_sig j = Some r \<and> it_size i \<le> it_size j + length (encs (it_data i) vs)
    \<and> it_size j \<le> it_size i"
  using assms
proof (induction vs arbitrary: i)
  case Nil
  then show ?case by (simp add: iter_struct.simps[of mem i] it_sig_char_Cons adbus_iter_endstruct_def iter_sig_tl)
next
  case (Cons v vs)
  obtain c cs where c: "vsig v = c # cs" "c \<noteq> CHR '')''"
    using vsig_Cons[of v] Cons.prems(1)[of v] by auto
  have "at_value mem i v (concat (map vsig vs) @ CHR '')'' # r)"
    using Cons.prems by (simp add: at_value_def Let_def)
  from skip_okD[OF _ this] Cons.prems(1)[of v] obtain j where
    j: "adbus_iter_value mem i = Inr j" "reads v i (concat (map vsig vs) @ CHR '')'' # r) j"
    by auto
  then have d: "it_data j = it_data i + length (enc (it_data i) v)" by (simp add: reads_def)
  obtain k where "iter_struct mem j = Inr k"
    "it_data k = it_data j + length (encs (it_data j) vs)" "it_sig k = Some r"
    "it_size j \<le> it_size k + length (encs (it_data j) vs)" "it_size k \<le> it_size j"
    using Cons.IH[of j] Cons.prems j(2) by (auto simp: reads_def Let_def)
  with j d c Cons.prems(4) show ?case
    unfolding iter_struct.simps[of mem i] by (auto simp: it_sig_char_Cons reads_def Let_def)
qed

lemma skip_ok_struct:
  assumes IH: "\<And>v. v \<in> set vs \<Longrightarrow> skip_ok v" and wf: "wf_dval (VStruct vs)"
  shows "skip_ok (VStruct vs)"
  unfolding skip_ok_def
proof (intro allI impI)
  fix mem i r assume a: "at_value mem i (VStruct vs) r"
  let ?o = "align (it_data i) 8"
  let ?i1 = "(adv i (length (pad (it_data i) 8)))\<lparr>it_sig := Some (concat (map vsig vs) @ CHR '')'' # r)\<rparr>"
  from a have h: "holds mem ?o (encs ?o vs)" "length (pad (it_data i) 8) + length (encs ?o vs) \<le> it_size i"
    "it_sig i = Some (CHR ''('' # concat (map vsig vs) @ CHR '')'' # r)" "fitss ?o vs"
    by (simp_all add: at_value_def)
  have b: "adbus_iter_beginstruct i = Inr ?i1"
    using begin_at[OF h(3)] h(2) by (simp add: adbus_iter_beginstruct_def)
  have "length (encs ?o vs) \<le> it_size ?i1" using h(2) by simp
  then obtain j where j: "iter_struct mem ?i1 = Inr j" "it_data j = ?o + length (encs ?o vs)"
    "it_sig j = Some r" "it_size ?i1 \<le> it_size j + length (encs ?o vs)" "it_size j \<le> it_size ?i1"
    using iter_struct_ok[of vs mem ?i1 r] IH wf h by (auto simp: list_all_iff)
  have "adbus_iter_value mem i = Inr j"
    using h(3) b j(1) unfolding adbus_iter_value.simps[of mem i] by (simp add: it_sig_char_Cons)
  moreover have "reads (VStruct vs) i r j" using j h(2) by (auto simp: reads_def)
  ultimately show "\<exists>j. adbus_iter_value mem i = Inr j \<and> reads (VStruct vs) i r j" by blast
qed

lemma skip_ok_dict:
  assumes IH: "skip_ok k" "skip_ok v" and wf: "wf_dval (VDict k v)"
  shows "skip_ok (VDict k v)"
  unfolding skip_ok_def
proof (intro allI impI)
  fix mem i r assume a: "at_value mem i (VDict k v) r"
  let ?o = "align (it_data i) 8"
  let ?i1 = "(adv i (length (pad (it_data i) 8)))\<lparr>it_sig := Some (vsig k @ vsig v @ CHR ''}'' # r)\<rparr>"
  let ?p = "?o + length (enc ?o k)"
  from a have h: "holds mem ?o (enc ?o k)" "holds mem ?p (enc ?p v)"
    "length (pad (it_data i) 8) + length (enc ?o k) + length (enc ?p v) \<le> it_size i"
    "it_sig i = Some (CHR ''{'' # vsig k @ vsig v @ CHR ''}'' # r)" "fits ?o k" "fits ?p v"
    by (simp_all add: at_value_def Let_def)
  have b: "adbus_iter_begindictentry i = Inr ?i1"
    using begin_at[OF h(4)] h(3) by (simp add: adbus_iter_begindictentry_def)
  have "at_value mem ?i1 k (vsig v @ CHR ''}'' # r)" using h by (simp add: at_value_def)
  from skip_okD[OF IH(1) this] obtain x where
    x: "adbus_iter_value mem ?i1 = Inr x" "reads k ?i1 (vsig v @ CHR ''}'' # r) x" by blast
  have "at_value mem x v (CHR ''}'' # r)" using x(2) h by (auto simp: at_value_def reads_def)
  from skip_okD[OF IH(2) this] obtain y
    where y: "adbus_iter_value mem x = Inr y" "reads v x (CHR ''}'' # r) y" by blast
  have "adbus_iter_value mem i = Inr (y\<lparr>it_sig := Some r\<rparr>)"
    using h(4) b x(1) y unfolding adbus_iter_value.simps[of mem i]
    by (simp add: it_sig_char_Cons adbus_iter_enddictentry_def iter_sig_tl reads_def)
  moreover have "reads (VDict k v) i r (y\<lparr>it_sig := Some r\<rparr>)"
    using x(2) y(2) h(3) by (auto simp: reads_def Let_def)
  ultimately show "\<exists>j. adbus_iter_value mem i = Inr j \<and> reads (VDict k v) i r j" by blast
qed

lemma skip_ok_all: "wf_dval v \<Longrightarrow> skip_ok v"
proof (induction v)
  case (VVariant v) then show ?case using skip_ok_variant by simp
next
  case (VArr s vs) then show ?case by (intro skip_ok_array)
next
  case (VStruct vs) then show ?case by (intro skip_ok_struct) (auto simp: list_all_iff)
next
  case (VDict k v) then show ?case by (intro skip_ok_dict) auto
qed (rule skip_ok_basic; simp_all only: get_ok_all is_container.simps not_False_eq_True)+

section \<open>Round trips\<close>

text \<open>Reading a value back. An iterator that stands at the reference encoding of a value (of any
  type, dict entries included), with the signature of that type, reads exactly that value: every call
  of the iterator interface succeeds, the data pointer ends directly behind the encoding and the
  signature pointer behind the type. The fuel of the reader only has to exceed the size of
  the value.\<close>

theorem getv_decodes:
  assumes "wf_dval v" and "fits (it_data i) v" and "size v < n"
    and "holds mem (it_data i) (enc (it_data i) v)"
    and "length (enc (it_data i) v) \<le> it_size i" and "it_sig i = Some (vsig v @ r)"
  shows "\<exists>j. getv n mem i = Inr (v, j) \<and> it_data j = it_data i + length (enc (it_data i) v)
    \<and> it_sig j = Some r"
  using get_okD[OF get_ok_all[OF assms(1)] assms(3), of mem i r] assms
  by (auto simp: at_value_def reads_def)

definition sample_dict :: dval where
  "sample_dict = VArr ''{sv}'' [VDict (VStr CHR ''s'' ''k'') (VVariant (VArr ''y'' [VByte 1, VByte 2]))]"

lemma sample_dict_facts:
  "wf_dval sample_dict" "fits 0 sample_dict" "size sample_dict < 9"
  "holds (enc 0 sample_dict) 0 (enc 0 sample_dict)"
  by (simp_all add: sample_dict_def array_body_def sig_align_def align_def sRequiredAlignment_def
      basic_codes_def pad_def ADBUS_MAXIMUM_ARRAY_LENGTH_def holds_def)

theorem getv_decodes_witness:
  "\<exists>j. getv 9 (enc 0 sample_dict)
         \<lparr>it_data = 0, it_size = length (enc 0 sample_dict), it_sig = Some (vsig sample_dict @ ''u'')\<rparr>
       = Inr (sample_dict, j) \<and> it_sig j = Some ''u''"
  using getv_decodes[of sample_dict "\<lparr>it_data = 0, it_size = length (enc 0 sample_dict),
      it_sig = Some (vsig sample_dict @ ''u'')\<rparr>" 9 "enc 0 sample_dict" "''u''"] sample_dict_facts
  by auto

text \<open>\<open>adbus_iter_value\<close> skips exactly one value: standing at the encoding of a value of any type it
  succeeds, moves the data pointer to the byte behind the encoding and the signature
  pointer behind the type.\<close>

theorem iter_value_skips:
  assumes "wf_dval v" and "fits (it_data i) v"
    and "holds mem (it_data i) (enc (it_data i) v)"
    and "length (enc (it_data i) v) \<le> it_size i" and "it_sig i = Some (vsig v @ r)"
  shows "\<exists>j. adbus_iter_value mem i = Inr j \<and> it_data j = it_data i + length (enc (it_data i) v)
    \<and> it_sig j = Some r"
  using skip_okD[OF skip_ok_all[OF assms(1)], of mem i r] assms
  by (auto simp: at_value_def reads_def)

theorem iter_value_skips_witness:
  "\<exists>j. adbus_iter_value (enc 0 sample_dict)
         \<lparr>it_data = 0, it_size = length (enc 0 sample_dict), it_sig = Some (vsig sample_dict @ ''u'')\<rparr>
       = Inr j \<and> it_data j = length (enc 0 sample_dict) \<and> it_sig j = Some ''u''"
  using iter_value_skips[of sample_dict "\<lparr>it_data = 0, it_size = length (enc 0 sample_dict),
      it_sig = Some (vsig sample_dict @ ''u'')\<rparr>" "enc 0 sample_dict" "''u''"] sample_dict_facts
  by auto



end
