(* ===== verification/Message.thy ===== *)
theory Message
  imports Unmarshal
begin

text \<open>
  Building messages: \<^verbatim>\<open>adbus/message.c\<close> and the message structure of \<^verbatim>\<open>adbus.h\<close>.

  A message holds its bytes (\<open>msg_data\<close>, a block at an address that is a multiple of eight) and the
  header fields. A string field is the C string or NULL (\<open>None\<close>); its size field is the length of the
  string, except for the signature, whose size is a field of its own because the
  parser does not fill it in. \<^verbatim>\<open>argdata\<close> is an offset into \<open>msg_data\<close> and the reply serial is the
  value behind the pointer. Enumerations are kept as numbers, as the
  code casts freely between them and header bytes.

  The strings of the factory are described by their contents (the \<^verbatim>\<open>d_String\<close> operations of
  \<^verbatim>\<open>Vector.thy\<close>).
\<close>

section \<open>Constants and the message structure\<close>

abbreviation (input) ADBUS_MSG_INVALID :: nat where "ADBUS_MSG_INVALID \<equiv> 0"
abbreviation (input) ADBUS_MSG_METHOD :: nat where "ADBUS_MSG_METHOD \<equiv> 1"
abbreviation (input) ADBUS_MSG_RETURN :: nat where "ADBUS_MSG_RETURN \<equiv> 2"
abbreviation (input) ADBUS_MSG_ERROR :: nat where "ADBUS_MSG_ERROR \<equiv> 3"
abbreviation (input) ADBUS_MSG_SIGNAL :: nat where "ADBUS_MSG_SIGNAL \<equiv> 4"

abbreviation (input) HEADER_INVALID :: "8 word" where "HEADER_INVALID \<equiv> 0"
abbreviation (input) HEADER_OBJECT_PATH :: "8 word" where "HEADER_OBJECT_PATH \<equiv> 1"
abbreviation (input) HEADER_INTERFACE :: "8 word" where "HEADER_INTERFACE \<equiv> 2"
abbreviation (input) HEADER_MEMBER :: "8 word" where "HEADER_MEMBER \<equiv> 3"
abbreviation (input) HEADER_ERROR_NAME :: "8 word" where "HEADER_ERROR_NAME \<equiv> 4"
abbreviation (input) HEADER_REPLY_SERIAL :: "8 word" where "HEADER_REPLY_SERIAL \<equiv> 5"
abbreviation (input) HEADER_DESTINATION :: "8 word" where "HEADER_DESTINATION \<equiv> 6"
abbreviation (input) HEADER_SENDER :: "8 word" where "HEADER_SENDER \<equiv> 7"
abbreviation (input) HEADER_SIGNATURE :: "8 word" where "HEADER_SIGNATURE \<equiv> 8"

definition adbusI_nativeEndianness :: char where
  "adbusI_nativeEndianness = CHR ''l''"

definition adbusI_majorProtocolVersion :: nat where
  "adbusI_majorProtocolVersion = 1"

record adbus_Message =
  msg_data :: "char list"
  msg_size :: nat
  msg_argdata :: nat
  msg_argsize :: nat
  msg_type :: nat
  msg_flags :: nat
  msg_serial :: "32 word"
  msg_signature :: "string option"
  msg_signatureSize :: nat
  msg_replySerial :: "32 word option"
  msg_path :: "string option"
  msg_interface :: "string option"
  msg_member :: "string option"
  msg_error :: "string option"
  msg_destination :: "string option"
  msg_sender :: "string option"
  msg_arguments :: "string option list option"

definition msg_zero :: adbus_Message where
  "msg_zero = \<lparr>msg_data = [], msg_size = 0, msg_argdata = 0, msg_argsize = 0,
     msg_type = ADBUS_MSG_INVALID, msg_flags = 0, msg_serial = 0, msg_signature = None,
     msg_signatureSize = 0, msg_replySerial = None, msg_path = None, msg_interface = None,
     msg_member = None, msg_error = None, msg_destination = None, msg_sender = None,
     msg_arguments = None\<rparr>"

section \<open>The message factory\<close>

record adbus_MsgFactory =
  mf_buf :: adbus_Buffer
  mf_argbuf :: adbus_Buffer
  mf_messageType :: nat
  mf_flags :: nat
  mf_serial :: int
  mf_argumentOffset :: nat
  mf_replySerial :: "32 word"
  mf_hasReplySerial :: bool
  mf_path :: string
  mf_interface :: string
  mf_member :: string
  mf_error :: string
  mf_destination :: string
  mf_sender :: string

definition adbus_msg_new :: adbus_MsgFactory where
  "adbus_msg_new = \<lparr>mf_buf = adbus_buf_new, mf_argbuf = adbus_buf_new,
     mf_messageType = ADBUS_MSG_INVALID, mf_flags = 0, mf_serial = -1, mf_argumentOffset = 0,
     mf_replySerial = 0, mf_hasReplySerial = False, mf_path = [], mf_interface = [],
     mf_member = [], mf_error = [], mf_destination = [], mf_sender = []\<rparr>"

definition adbus_msg_reset :: "adbus_MsgFactory \<Rightarrow> adbus_MsgFactory" where
  "adbus_msg_reset m = m\<lparr>mf_messageType := ADBUS_MSG_INVALID, mf_flags := 0, mf_serial := -1,
     mf_argumentOffset := 0, mf_replySerial := 0, mf_hasReplySerial := False,
     mf_buf := adbus_buf_reset (mf_buf m), mf_argbuf := adbus_buf_reset (mf_argbuf m),
     mf_interface := [], mf_member := [], mf_error := [], mf_destination := [], mf_sender := []\<rparr>"

text \<open>The getters: NULL for an empty field.\<close>

definition field_opt :: "string \<Rightarrow> string option" where
  "field_opt s = (if length s > 0 then Some s else None)"

definition adbus_msg_path :: "adbus_MsgFactory \<Rightarrow> string option" where
  "adbus_msg_path m = field_opt (mf_path m)"

definition adbus_msg_interface :: "adbus_MsgFactory \<Rightarrow> string option" where
  "adbus_msg_interface m = field_opt (mf_interface m)"

definition adbus_msg_sender :: "adbus_MsgFactory \<Rightarrow> string option" where
  "adbus_msg_sender m = field_opt (mf_sender m)"

definition adbus_msg_destination :: "adbus_MsgFactory \<Rightarrow> string option" where
  "adbus_msg_destination m = field_opt (mf_destination m)"

definition adbus_msg_member :: "adbus_MsgFactory \<Rightarrow> string option" where
  "adbus_msg_member m = field_opt (mf_member m)"

definition adbus_msg_error :: "adbus_MsgFactory \<Rightarrow> string option" where
  "adbus_msg_error m = field_opt (mf_error m)"

definition adbus_msg_type :: "adbus_MsgFactory \<Rightarrow> nat" where
  "adbus_msg_type m = mf_messageType m"

definition adbus_msg_flags :: "adbus_MsgFactory \<Rightarrow> nat" where
  "adbus_msg_flags m = mf_flags m"

definition adbus_msg_serial :: "adbus_MsgFactory \<Rightarrow> int" where
  "adbus_msg_serial m = mf_serial m"

definition adbus_msg_reply :: "adbus_MsgFactory \<Rightarrow> bool \<times> 32 word" where
  "adbus_msg_reply m = (mf_hasReplySerial m, mf_replySerial m)"

text \<open>The setters. The size of a string argument may be given or, negative, be left to \<^verbatim>\<open>strlen\<close>.\<close>

definition adbus_msg_settype :: "adbus_MsgFactory \<Rightarrow> nat \<Rightarrow> adbus_MsgFactory" where
  "adbus_msg_settype m type = m\<lparr>mf_messageType := type\<rparr>"

definition adbus_msg_setserial :: "adbus_MsgFactory \<Rightarrow> 32 word \<Rightarrow> adbus_MsgFactory" where
  "adbus_msg_setserial m serial = m\<lparr>mf_serial := uint serial\<rparr>"

definition adbus_msg_setflags :: "adbus_MsgFactory \<Rightarrow> nat \<Rightarrow> adbus_MsgFactory" where
  "adbus_msg_setflags m flags = m\<lparr>mf_flags := flags\<rparr>"

definition adbus_msg_setreply :: "adbus_MsgFactory \<Rightarrow> 32 word \<Rightarrow> adbus_MsgFactory" where
  "adbus_msg_setreply m reply = m\<lparr>mf_replySerial := reply, mf_hasReplySerial := True\<rparr>"

definition field_arg :: "string \<Rightarrow> int \<Rightarrow> string res" where
  "field_arg s sz = (let n = arg_size s sz in if length s < n then Inl Fault else Inr (take n s))"

definition adbus_msg_setpath :: "adbus_MsgFactory \<Rightarrow> string \<Rightarrow> int \<Rightarrow> adbus_MsgFactory res" where
  "adbus_msg_setpath m path sz = bindr (field_arg path sz) (\<lambda>s. Inr (m\<lparr>mf_path := s\<rparr>))"

definition adbus_msg_setinterface :: "adbus_MsgFactory \<Rightarrow> string \<Rightarrow> int \<Rightarrow> adbus_MsgFactory res" where
  "adbus_msg_setinterface m interface sz =
     bindr (field_arg interface sz) (\<lambda>s. Inr (m\<lparr>mf_interface := s\<rparr>))"

definition adbus_msg_setmember :: "adbus_MsgFactory \<Rightarrow> string \<Rightarrow> int \<Rightarrow> adbus_MsgFactory res" where
  "adbus_msg_setmember m member sz = bindr (field_arg member sz) (\<lambda>s. Inr (m\<lparr>mf_member := s\<rparr>))"

definition adbus_msg_seterror :: "adbus_MsgFactory \<Rightarrow> string \<Rightarrow> int \<Rightarrow> adbus_MsgFactory res" where
  "adbus_msg_seterror m error sz = bindr (field_arg error sz) (\<lambda>s. Inr (m\<lparr>mf_error := s\<rparr>))"

definition adbus_msg_setdestination :: "adbus_MsgFactory \<Rightarrow> string \<Rightarrow> int \<Rightarrow> adbus_MsgFactory res" where
  "adbus_msg_setdestination m destination sz =
     bindr (field_arg destination sz) (\<lambda>s. Inr (m\<lparr>mf_destination := s\<rparr>))"

definition adbus_msg_setsender :: "adbus_MsgFactory \<Rightarrow> string \<Rightarrow> int \<Rightarrow> adbus_MsgFactory res" where
  "adbus_msg_setsender m sender sz = bindr (field_arg sender sz) (\<lambda>s. Inr (m\<lparr>mf_sender := s\<rparr>))"

section \<open>Building a message\<close>

definition AppendString :: "adbus_BufArray \<Rightarrow> 8 word \<Rightarrow> string \<Rightarrow> adbus_Buffer \<Rightarrow> adbus_Buffer res" where
  "AppendString a code field buf =
     (if length field > 0 then
        bindr (adbus_buf_beginstruct (adbus_buf_arrayentry buf a)) (\<lambda>buf.
        bindr (adbus_buf_u8 buf code) (\<lambda>buf.
        bindr (adbus_buf_beginvariant buf ''s'' 1) (\<lambda>(buf, v).
        bindr (adbus_buf_string buf field (int (length field))) (\<lambda>buf.
          adbus_buf_endstruct (adbus_buf_endvariant buf v)))))
      else Inr buf)"

definition AppendSignature ::
    "adbus_BufArray \<Rightarrow> 8 word \<Rightarrow> string \<Rightarrow> adbus_Buffer \<Rightarrow> adbus_Buffer res" where
  "AppendSignature a code field buf =
     bindr (adbus_buf_beginstruct (adbus_buf_arrayentry buf a)) (\<lambda>buf.
     bindr (adbus_buf_u8 buf code) (\<lambda>buf.
     bindr (adbus_buf_beginvariant buf ''g'' 1) (\<lambda>(buf, v).
     bindr (adbus_buf_signature buf field (-1)) (\<lambda>buf.
       adbus_buf_endstruct (adbus_buf_endvariant buf v)))))"

definition AppendObjectPath ::
    "adbus_BufArray \<Rightarrow> 8 word \<Rightarrow> string \<Rightarrow> adbus_Buffer \<Rightarrow> adbus_Buffer res" where
  "AppendObjectPath a code field buf =
     (if length field > 0 then
        bindr (adbus_buf_beginstruct (adbus_buf_arrayentry buf a)) (\<lambda>buf.
        bindr (adbus_buf_u8 buf code) (\<lambda>buf.
        bindr (adbus_buf_beginvariant buf ''o'' 1) (\<lambda>(buf, v).
        bindr (adbus_buf_objectpath buf field (int (length field))) (\<lambda>buf.
          adbus_buf_endstruct (adbus_buf_endvariant buf v)))))
      else Inr buf)"

definition AppendUInt32 ::
    "adbus_BufArray \<Rightarrow> 8 word \<Rightarrow> 32 word \<Rightarrow> adbus_Buffer \<Rightarrow> adbus_Buffer res" where
  "AppendUInt32 a code field buf =
     bindr (adbus_buf_beginstruct (adbus_buf_arrayentry buf a)) (\<lambda>buf.
     bindr (adbus_buf_u8 buf code) (\<lambda>buf.
     bindr (adbus_buf_beginvariant buf ''u'' 1) (\<lambda>(buf, v).
     bindr (adbus_buf_u32 buf field) (\<lambda>buf.
       adbus_buf_endstruct (adbus_buf_endvariant buf v)))))"

text \<open>The required fields: the CHECKs at the start of \<^verbatim>\<open>adbus_msg_build\<close>.\<close>

definition build_check :: "adbus_MsgFactory \<Rightarrow> bool" where
  "build_check m \<longleftrightarrow> mf_serial m \<ge> 0 \<and>
     (if mf_messageType m = ADBUS_MSG_METHOD then length (mf_path m) > 0 \<and> length (mf_member m) > 0
      else if mf_messageType m = ADBUS_MSG_RETURN then mf_hasReplySerial m
      else if mf_messageType m = ADBUS_MSG_ERROR then length (mf_error m) > 0
      else if mf_messageType m = ADBUS_MSG_SIGNAL
        then length (mf_interface m) > 0 \<and> length (mf_member m) > 0
      else False)"

definition build_header :: "adbus_MsgFactory \<Rightarrow> char list" where
  "build_header m =
     [adbusI_nativeEndianness, char_of (mf_messageType m), char_of (mf_flags m),
      char_of adbusI_majorProtocolVersion]
     @ le_bytes 4 (adbus_buf_size (mf_argbuf m)) @ le_bytes 4 (nat (mf_serial m))"

text \<open>
  The message structure is filled from the factory; \<^verbatim>\<open>memset\<close> has cleared it before.
\<close>

definition build_message :: "adbus_MsgFactory \<Rightarrow> adbus_Message" where
  "build_message m =
     (let data = buf_b (mf_buf m); argsize = adbus_buf_size (mf_argbuf m)
      in \<lparr>msg_data = data, msg_size = length data, msg_argdata = length data - argsize,
          msg_argsize = argsize, msg_type = mf_messageType m, msg_flags = mf_flags m,
          msg_serial = of_int (mf_serial m),
          msg_signature = (if argsize > 0 then Some (adbus_buf_sig (mf_argbuf m)) else None),
          msg_signatureSize = (if argsize > 0 then length (adbus_buf_sig (mf_argbuf m)) else 0),
          msg_replySerial = (if mf_hasReplySerial m then Some (mf_replySerial m) else None),
          msg_path = field_opt (mf_path m), msg_interface = field_opt (mf_interface m),
          msg_member = field_opt (mf_member m), msg_error = field_opt (mf_error m),
          msg_destination = field_opt (mf_destination m), msg_sender = field_opt (mf_sender m),
          msg_arguments = None\<rparr>)"

definition adbus_msg_build :: "adbus_MsgFactory \<Rightarrow> (adbus_MsgFactory \<times> adbus_Message) res" where
  "adbus_msg_build m =
     (let buf = adbus_buf_reset (mf_buf m)
      in bindr (assertr (build_check m)) (\<lambda>_.
         bindr (adbus_buf_appendsig (adbus_buf_append buf (build_header m)) ''a(yv)'' 5) (\<lambda>buf.
         bindr (adbus_buf_beginarray buf) (\<lambda>(buf, a).
         bindr (AppendString a HEADER_INTERFACE (mf_interface m) buf) (\<lambda>buf.
         bindr (AppendString a HEADER_MEMBER (mf_member m) buf) (\<lambda>buf.
         bindr (AppendString a HEADER_ERROR_NAME (mf_error m) buf) (\<lambda>buf.
         bindr (AppendString a HEADER_DESTINATION (mf_destination m) buf) (\<lambda>buf.
         bindr (AppendString a HEADER_SENDER (mf_sender m) buf) (\<lambda>buf.
         bindr (AppendObjectPath a HEADER_OBJECT_PATH (mf_path m) buf) (\<lambda>buf.
         bindr (if mf_hasReplySerial m then AppendUInt32 a HEADER_REPLY_SERIAL (mf_replySerial m) buf
                else Inr buf) (\<lambda>buf.
         bindr (if adbus_buf_size (mf_argbuf m) > 0
                then AppendSignature a HEADER_SIGNATURE (adbus_buf_sig (mf_argbuf m)) buf
                else Inr buf) (\<lambda>buf.
         bindr (adbus_buf_endarray buf a) (\<lambda>buf.
         bindr (adbus_buf_end (mf_argbuf m)) (\<lambda>_.
           let buf = adbus_buf_align buf 8;
               buf = (if adbus_buf_size (mf_argbuf m) > 0
                      then adbus_buf_append buf (buf_b (mf_argbuf m)) else buf);
               m = m\<lparr>mf_buf := buf\<rparr>
           in Inr (m, build_message m)))))))))))))))"

section \<open>The header fields as a value\<close>

definition str_field :: "8 word \<Rightarrow> char \<Rightarrow> string \<Rightarrow> dval list" where
  "str_field code c s =
     (if s = [] then [] else [VStruct [VByte code, VVariant (VStr c s)]])"

definition hdr_fields :: "adbus_MsgFactory \<Rightarrow> dval list" where
  "hdr_fields m =
     str_field HEADER_INTERFACE CHR ''s'' (mf_interface m)
     @ str_field HEADER_MEMBER CHR ''s'' (mf_member m)
     @ str_field HEADER_ERROR_NAME CHR ''s'' (mf_error m)
     @ str_field HEADER_DESTINATION CHR ''s'' (mf_destination m)
     @ str_field HEADER_SENDER CHR ''s'' (mf_sender m)
     @ str_field HEADER_OBJECT_PATH CHR ''o'' (mf_path m)
     @ (if mf_hasReplySerial m
        then [VStruct [VByte HEADER_REPLY_SERIAL, VVariant (V32 CHR ''u'' (mf_replySerial m))]] else [])
     @ (if adbus_buf_size (mf_argbuf m) > 0
        then [VStruct [VByte HEADER_SIGNATURE, VVariant (VSig (adbus_buf_sig (mf_argbuf m)))]] else [])"

abbreviation hdr_array :: "adbus_MsgFactory \<Rightarrow> dval" where
  "hdr_array m \<equiv> VArr ''(yv)'' (hdr_fields m)"

definition wf_factory :: "adbus_MsgFactory \<Rightarrow> bool" where
  "wf_factory m \<longleftrightarrow> length (buf_sig (mf_buf m)) = 256
     \<and> list_all (\<lambda>s. NUL \<notin> set s \<and> length s < 2 ^ 32)
         [mf_interface m, mf_member m, mf_error m, mf_destination m, mf_sender m, mf_path m]
     \<and> length (adbus_buf_sig (mf_argbuf m)) < 255 \<and> fits 12 (hdr_array m)"

lemma put_elems_append:
  "put_elems a buf (xs @ ys) = bindr (put_elems a buf xs) (\<lambda>buf. put_elems a buf ys)"
  by (induction xs arbitrary: buf) (simp_all add: bindr_assoc)

lemma beginvariant_strlen: "NUL \<notin> set s \<Longrightarrow>
  adbus_buf_beginvariant buf s (int (length s)) = adbus_buf_beginvariant buf s (-1)"
  by (simp add: adbus_buf_beginvariant_def arg_size_def c_strlen_no_nul)

lemma string_strlen: "NUL \<notin> set s \<Longrightarrow>
  adbus_buf_string buf s (int (length s)) = adbus_buf_string buf s (-1)"
  "NUL \<notin> set s \<Longrightarrow>
  adbus_buf_objectpath buf s (int (length s)) = adbus_buf_objectpath buf s (-1)"
  by (simp_all add: adbus_buf_string_def adbus_buf_objectpath_def arg_size_def c_strlen_no_nul)

lemmas variant_code = beginvariant_strlen[of "[c]" for c, simplified]

lemma bindr_Inr_right: "bindr m Inr = m"
  by (cases m) simp_all

lemma Append_put:
  "NUL \<notin> set s \<Longrightarrow> AppendString a code s buf = put_elems a buf (str_field code CHR ''s'' s)"
  "NUL \<notin> set s \<Longrightarrow> AppendObjectPath a code s buf = put_elems a buf (str_field code CHR ''o'' s)"
  "AppendUInt32 a code w buf
     = put_elems a buf [VStruct [VByte code, VVariant (V32 CHR ''u'' w)]]"
  "AppendSignature a code g buf = put_elems a buf [VStruct [VByte code, VVariant (VSig g)]]"
  by (simp_all add: AppendString_def AppendObjectPath_def AppendUInt32_def AppendSignature_def
      str_field_def bindr_assoc variant_code string_strlen bindr_Inr_right case_prod_beta'
      del: One_nat_def)

lemma build_elems:
  assumes "wf_factory m"
  shows "put_elems a buf (hdr_fields m) =
         bindr (AppendString a HEADER_INTERFACE (mf_interface m) buf) (\<lambda>buf.
         bindr (AppendString a HEADER_MEMBER (mf_member m) buf) (\<lambda>buf.
         bindr (AppendString a HEADER_ERROR_NAME (mf_error m) buf) (\<lambda>buf.
         bindr (AppendString a HEADER_DESTINATION (mf_destination m) buf) (\<lambda>buf.
         bindr (AppendString a HEADER_SENDER (mf_sender m) buf) (\<lambda>buf.
         bindr (AppendObjectPath a HEADER_OBJECT_PATH (mf_path m) buf) (\<lambda>buf.
         bindr (if mf_hasReplySerial m then AppendUInt32 a HEADER_REPLY_SERIAL (mf_replySerial m) buf
                else Inr buf) (\<lambda>buf.
         if adbus_buf_size (mf_argbuf m) > 0
                then AppendSignature a HEADER_SIGNATURE (adbus_buf_sig (mf_argbuf m)) buf
                else Inr buf)))))))"
proof -
  have "NUL \<notin> set (mf_interface m)" "NUL \<notin> set (mf_member m)" "NUL \<notin> set (mf_error m)"
    "NUL \<notin> set (mf_destination m)" "NUL \<notin> set (mf_sender m)" "NUL \<notin> set (mf_path m)"
    using assms by (simp_all add: wf_factory_def)
  then show ?thesis
    by (simp only: Append_put hdr_fields_def put_elems_append not_False_eq_True)
       (simp only: if_distrib[of "put_elems a _"] put_elems.simps(1) cong: if_cong)
qed

lemma build_via_put:
  assumes "wf_factory m"
  shows "adbus_msg_build m =
     bindr (assertr (build_check m)) (\<lambda>_.
     bindr (adbus_buf_appendsig (adbus_buf_append (adbus_buf_reset (mf_buf m)) (build_header m)) ''a(yv)'' 5) (\<lambda>buf.
     bindr (put buf (hdr_array m)) (\<lambda>buf.
     bindr (adbus_buf_end (mf_argbuf m)) (\<lambda>_.
       let buf = adbus_buf_align buf 8;
           buf = (if adbus_buf_size (mf_argbuf m) > 0
                  then adbus_buf_append buf (buf_b (mf_argbuf m)) else buf);
           m = m\<lparr>mf_buf := buf\<rparr>
       in Inr (m, build_message m)))))"
  unfolding adbus_msg_build_def put.simps build_elems[OF assms] Let_def
  by (simp only: bindr_assoc case_prod_beta')

lemma length_build_header [simp]: "length (build_header m) = 12"
  by (simp add: build_header_def)

lemma takeWhile_no_nul: "NUL \<notin> set (takeWhile (\<lambda>c. c \<noteq> NUL) xs)"
  using set_takeWhileD by fastforce

definition hdr_entry :: "dval \<Rightarrow> bool" where
  "hdr_entry v \<longleftrightarrow> wf_dval v \<and> vsig v = ''(yv)'' \<and> dict_free v"

lemma hdr_entry_str:
  "NUL \<notin> set s \<and> length s < 2 ^ 32 \<Longrightarrow> c = CHR ''s'' \<or> c = CHR ''o'' \<Longrightarrow>
   list_all hdr_entry (str_field code c s)"
  by (elim disjE) (simp_all add: str_field_def hdr_entry_def)

lemma hdr_entries: "wf_factory m \<Longrightarrow> list_all hdr_entry (hdr_fields m)"
  by (simp add: wf_factory_def hdr_fields_def hdr_entry_str)
    (simp add: hdr_entry_def adbus_buf_sig_def takeWhile_no_nul)

lemma hdr_wf:
  assumes "wf_factory m"
  shows "wf_dval (hdr_array m)" "dict_free (hdr_array m)"
  using hdr_entries[OF assms] by (simp_all add: hdr_entry_def list_all_iff basic_codes_def)

lemma build_start:
  assumes "length (buf_sig buf) = 256"
  shows "\<exists>buf'. adbus_buf_appendsig (adbus_buf_append (adbus_buf_reset buf) hdr) ''a(yv)'' 5 = Inr buf'
    \<and> buf_b buf' = hdr \<and> sigp_str buf' (buf_sigp buf') = Some (''a(yv)'' @ []) \<and> length (buf_sig buf') = 256"
proof -
  obtain c cs where "buf_sig buf = c # cs" using assms by (cases "buf_sig buf") auto
  then show ?thesis using assms
    by (simp add: adbus_buf_appendsig_def adbus_buf_append_def adbus_buf_reset_def arg_size_def
        c_strlen_def copy_sig_def overwrite_def sigp_str_def)
qed

lemma build_props:
  assumes "wf_factory m" and "build_check m" and "adbus_buf_end (mf_argbuf m) = Inr ()"
  shows "\<exists>buf. adbus_msg_build m = Inr (m\<lparr>mf_buf := buf\<rparr>, build_message (m\<lparr>mf_buf := buf\<rparr>))
    \<and> buf_b buf = build_header m @ enc 12 (hdr_array m)
        @ pad (12 + length (enc 12 (hdr_array m))) 8 @ buf_b (mf_argbuf m)
    \<and> length (buf_sig buf) = 256"
proof -
  obtain buf where buf: "adbus_buf_appendsig (adbus_buf_append (adbus_buf_reset (mf_buf m)) (build_header m)) ''a(yv)'' 5 = Inr buf"
    "buf_b buf = build_header m" "sigp_str buf (buf_sigp buf) = Some (''a(yv)'' @ [])" "length (buf_sig buf) = 256"
    using build_start[of "mf_buf m" "build_header m"] assms(1) by (auto simp: wf_factory_def)
  have "put buf (hdr_array m) = Inr (emit buf (enc 12 (hdr_array m)) (length (vsig (hdr_array m))))"
    using put_okD[OF put_ok_all[OF hdr_wf[OF assms(1)]], of buf "[]"] buf assms(1)
    by (simp add: wf_factory_def del: put.simps enc.simps fits.simps)
  with buf(1,2,4) assms(2,3) show ?thesis
    unfolding build_via_put[OF assms(1)]
    by (auto simp: Let_def adbus_buf_align_def Align_emit adbus_buf_append_emit adbus_buf_size_def
        simp del: put.simps enc.simps)
qed

text \<open>\<open>adbus_msg_build\<close> on a factory with NUL free fields and the fields its message type needs:
  the message is the twelve byte header (byte order, type, flags, version, length of the arguments,
  serial), the encoding of the array of header fields, padding to a multiple of eight, and the
  arguments.\<close>

theorem msg_build_layout:
  assumes "wf_factory m" and "build_check m" and "adbus_buf_end (mf_argbuf m) = Inr ()"
  shows "\<exists>m' msg. adbus_msg_build m = Inr (m', msg)
    \<and> msg_data msg = build_header m @ enc 12 (hdr_array m)
        @ pad (12 + length (enc 12 (hdr_array m))) 8 @ buf_b (mf_argbuf m)
    \<and> msg_size msg = length (msg_data msg)
    \<and> drop (msg_argdata msg) (msg_data msg) = buf_b (mf_argbuf m)"
  using build_props[OF assms]
  by (auto simp: build_message_def Let_def adbus_buf_size_def simp del: enc.simps)

definition sample_call :: adbus_MsgFactory where
  "sample_call = adbus_msg_new\<lparr>mf_messageType := ADBUS_MSG_METHOD, mf_serial := 7,
     mf_path := ''/a'', mf_member := ''Ping'', mf_destination := ''x.y'',
     mf_argbuf := \<lparr>buf_b = le_bytes 4 5, buf_sig = ''u'' @ replicate 255 NUL, buf_sigp = InSig 1\<rparr>\<rparr>"

lemma sample_call_facts:
  "wf_factory sample_call" "build_check sample_call" "adbus_buf_end (mf_argbuf sample_call) = Inr ()"
  by (simp_all add: sample_call_def wf_factory_def build_check_def adbus_buf_end_def sigp_char_def
      sigp_str_def adbus_msg_new_def adbus_buf_new_def hdr_fields_def str_field_def adbus_buf_sig_def
      adbus_buf_size_def array_body_def sig_align_def align_def sRequiredAlignment_def pad_def
      ADBUS_MAXIMUM_ARRAY_LENGTH_def takeWhile_replicate)

theorem msg_build_layout_witness:
  "\<exists>m' msg. adbus_msg_build sample_call = Inr (m', msg)
     \<and> drop (msg_argdata msg) (msg_data msg) = le_bytes 4 5"
  using msg_build_layout[OF sample_call_facts] by (auto simp: sample_call_def)

text \<open>
  Resetting a factory for reuse leaves the object path of the last message in place, so a signal or
  reply built afterwards carries it.
\<close>

lemma msg_reset_keeps_path: "adbus_msg_path (adbus_msg_reset m) = adbus_msg_path m"
  by (simp add: adbus_msg_path_def adbus_msg_reset_def)

end
