(* ===== verification/Flip.thy ===== *)
theory Flip
  imports Unmarshal
begin

text \<open>
  Endian flipping of serialised data in place (\<^verbatim>\<open>adbus/riterator.c\<close>, \<open>Flip16\<close> to
  \<open>adbus_flip_data\<close>).

  Every step returns whether it succeeded together with the memory and the iterator it left
  behind, on failure too: \<open>FlipVariant\<close> ignores the failure of the value inside the variant
  and goes on with that state. Running into an assert or outside of the memory ends the
  whole computation (\<open>Inl\<close>). \<open>adbus_flip_value\<close> recurses through arrays whose loop is driven by the
  data, so it takes fuel; running out of fuel is the value \<open>None\<close>.
\<close>

section \<open>Swapping bytes\<close>

definition swap16 :: "16 word \<Rightarrow> 16 word" where
  "swap16 p = drop_bit 8 (p AND 0xFF00) OR push_bit 8 (p AND 0x00FF)"

definition swap32 :: "32 word \<Rightarrow> 32 word" where
  "swap32 p = drop_bit 24 (p AND 0xFF000000) OR drop_bit 8 (p AND 0x00FF0000)
     OR push_bit 8 (p AND 0x0000FF00) OR push_bit 24 (p AND 0x000000FF)"

definition swap64 :: "64 word \<Rightarrow> 64 word" where
  "swap64 p = drop_bit 56 (p AND 0xFF00000000000000) OR drop_bit 40 (p AND 0x00FF000000000000)
     OR drop_bit 24 (p AND 0x0000FF0000000000) OR drop_bit 8 (p AND 0x000000FF00000000)
     OR push_bit 8 (p AND 0x00000000FF000000) OR push_bit 16 (p AND 0x0000000000FF0000)
     OR push_bit 40 (p AND 0x000000000000FF00) OR push_bit 56 (p AND 0x00000000000000FF)"

section \<open>Steps that return their state on failure\<close>

type_synonym flip_res = "(bool \<times> mem \<times> adbus_Iterator) res"

definition andthen :: "flip_res \<Rightarrow> (mem \<Rightarrow> adbus_Iterator \<Rightarrow> flip_res) \<Rightarrow> flip_res" where
  "andthen m f = bindr m (\<lambda>(ok, mem, i). if ok then f mem i else Inr (False, mem, i))"

text \<open>An iterator operation that leaves the iterator alone when it returns an error.\<close>

definition step :: "mem \<Rightarrow> adbus_Iterator \<Rightarrow> adbus_Iterator res \<Rightarrow> flip_res" where
  "step mem i m = (case m of Inr j \<Rightarrow> Inr (True, mem, j)
     | Inl e \<Rightarrow> if e = Failed then Inr (False, mem, i) else Inl e)"

definition flip_at :: "nat \<Rightarrow> (mem \<Rightarrow> nat \<Rightarrow> char list res) \<Rightarrow> bool \<Rightarrow> mem \<Rightarrow> adbus_Iterator \<Rightarrow> flip_res" where
  "flip_at n swapped consume mem i =
     andthen (step mem i (adbus_iter_align i n)) (\<lambda>mem i.
       if it_size i < n then Inr (False, mem, i)
       else bindr (swapped mem (it_data i)) (\<lambda>bs.
         let mem = overwrite mem (it_data i) bs
         in Inr (True, mem, if consume then adv i n else i)))"

definition Flip16 :: "mem \<Rightarrow> adbus_Iterator \<Rightarrow> flip_res" where
  "Flip16 = flip_at 2 (\<lambda>mem p. bindr (rd16 mem p) (\<lambda>w. Inr (le_bytes 2 (unat (swap16 w))))) True"

definition Flip32 :: "bool \<Rightarrow> mem \<Rightarrow> adbus_Iterator \<Rightarrow> flip_res" where
  "Flip32 = flip_at 4 (\<lambda>mem p. bindr (rd32 mem p) (\<lambda>w. Inr (le_bytes 4 (unat (swap32 w)))))"

definition Flip64 :: "mem \<Rightarrow> adbus_Iterator \<Rightarrow> flip_res" where
  "Flip64 = flip_at 8 (\<lambda>mem p. bindr (rd64 mem p) (\<lambda>w. Inr (le_bytes 8 (unat (swap64 w))))) True"

text \<open>The iterator operations again, as sequences of steps that keep their partial progress.\<close>

definition s_sig :: "char \<Rightarrow> mem \<Rightarrow> adbus_Iterator \<Rightarrow> flip_res" where
  "s_sig c mem i = step mem i (adbusI_iter_sig i c)"

definition s_get8 :: "mem \<Rightarrow> adbus_Iterator \<Rightarrow> flip_res" where
  "s_get8 mem i = step mem i (map_sum id snd (take_bytes 1 i))"

definition s_string :: "char \<Rightarrow> mem \<Rightarrow> adbus_Iterator \<Rightarrow> flip_res" where
  "s_string c mem i =
     andthen (s_sig c mem i) (\<lambda>mem i.
     andthen (step mem i (adbus_iter_align i 4)) (\<lambda>mem i.
     andthen (step mem i (map_sum id snd (take_bytes 4 i))) (\<lambda>mem j.
       bindr (rd32 mem (it_data i)) (\<lambda>n.
         step mem j (map_sum id snd (adbusI_iter_getstring mem j (unat n)))))))"

text \<open>\<^verbatim>\<open>beginvariant\<close> and \<^verbatim>\<open>beginarray\<close>; the scope record exists only on success.\<close>

definition s_beginvariant ::
    "mem \<Rightarrow> adbus_Iterator \<Rightarrow> (bool \<times> mem \<times> adbus_Iterator \<times> adbus_IterVariant option) res" where
  "s_beginvariant mem i =
     bindr (andthen (s_sig CHR ''v'' mem i) s_get8) (\<lambda>(ok, mem, i).
       if \<not> ok then Inr (False, mem, i, None)
       else bindr (rd8 mem (it_data i - 1)) (\<lambda>n.
         case adbusI_iter_getstring mem i (unat n) of
           Inl e \<Rightarrow> if e = Failed then Inr (False, mem, i, None) else Inl e
         | Inr (s, i) \<Rightarrow>
             bindr (step mem i (adbus_iter_alignfield i (case s of [] \<Rightarrow> NUL | c # _ \<Rightarrow> c)))
               (\<lambda>(ok, mem, i).
                  if \<not> ok then Inr (False, mem, i, None)
                  else Inr (True, mem, i\<lparr>it_sig := Some s\<rparr>,
                    Some \<lparr>iv_origsig = it_sig i, iv_sig = s, iv_data = it_data i, iv_size = 0\<rparr>))))"

definition s_beginarray ::
    "mem \<Rightarrow> adbus_Iterator \<Rightarrow> (bool \<times> mem \<times> adbus_Iterator \<times> adbus_IterArray option) res" where
  "s_beginarray mem i =
     bindr (andthen (s_sig CHR ''a'' mem i) (\<lambda>mem i.
            andthen (step mem i (adbus_iter_align i 4)) (\<lambda>mem i.
              step mem i (map_sum id snd (take_bytes 4 i))))) (\<lambda>(ok, mem, i).
       if \<not> ok then Inr (False, mem, i, None)
       else bindr (rd32 mem (it_data i - 4)) (\<lambda>n.
         if unat n > ADBUS_MAXIMUM_ARRAY_LENGTH then Inr (False, mem, i, None)
         else bindr (it_sig_char i) (\<lambda>c.
           bindr (step mem i (adbus_iter_alignfield i c)) (\<lambda>(ok, mem, i).
             if \<not> ok then Inr (False, mem, i, None)
             else let s = the (it_sig i)
                  in case adbus_nextarg s of None \<Rightarrow> Inr (False, mem, i, None)
                     | Some send \<Rightarrow> Inr (True, mem, i,
                         Some \<lparr>ia_sig = s, ia_sigsz = length s - length send,
                               ia_data = it_data i, ia_size = unat n\<rparr>)))))"

definition s_begin8 :: "char \<Rightarrow> mem \<Rightarrow> adbus_Iterator \<Rightarrow> flip_res" where
  "s_begin8 c mem i = andthen (s_sig c mem i) (\<lambda>mem i. step mem i (adbus_iter_align i 8))"


definition s_u8 :: "mem \<Rightarrow> adbus_Iterator \<Rightarrow> flip_res" where
  "s_u8 mem i = andthen (s_sig CHR ''y'' mem i) s_get8"

definition s_signature :: "mem \<Rightarrow> adbus_Iterator \<Rightarrow> flip_res" where
  "s_signature mem i =
     andthen (s_sig CHR ''g'' mem i) (\<lambda>mem i.
     andthen (s_get8 mem i) (\<lambda>mem i.
       bindr (rd8 mem (it_data i - 1)) (\<lambda>n.
         step mem i (map_sum id snd (adbusI_iter_getstring mem i (unat n))))))"

section \<open>Flipping one value\<close>

definition chain ::
    "flip_res option \<Rightarrow> (mem \<Rightarrow> adbus_Iterator \<Rightarrow> flip_res option) \<Rightarrow> flip_res option" where
  "chain m f = (case m of None \<Rightarrow> None | Some (Inl e) \<Rightarrow> Some (Inl e)
     | Some (Inr (ok, mem, i)) \<Rightarrow> if ok then f mem i else Some (Inr (False, mem, i)))"

text \<open>
  \<open>FlipArray\<close> with its loop \<open>flip_elems\<close>, \<open>FlipVariant\<close>, and \<open>adbus_flip_value\<close> with
  the loop \<open>flip_members\<close> over a struct; the recursive calls of the first three are the argument
  \<open>fv\<close>. The switch of \<open>adbus_flip_value\<close> moves the signature forward before the
  operation that checks it.
\<close>

type_synonym flipper = "mem \<Rightarrow> adbus_Iterator \<Rightarrow> flip_res option"

primrec flip_members :: "nat \<Rightarrow> flipper \<Rightarrow> flipper" where
  "flip_members 0 fv mem i = None"
| "flip_members (Suc n) fv mem i =
     (case it_sig_char i of Inl e \<Rightarrow> Some (Inl e) | Inr c \<Rightarrow>
       if c \<noteq> NUL \<and> c \<noteq> CHR '')''
       then chain (fv mem i) (flip_members n fv)
       else Some (Inr (True, mem, i)))"

primrec flip_elems :: "nat \<Rightarrow> flipper \<Rightarrow> adbus_IterArray \<Rightarrow> flipper" where
  "flip_elems 0 fv a mem i = None"
| "flip_elems (Suc n) fv a mem i =
     (let (more, i) = adbus_iter_inarray i a
      in if more then chain (fv mem i) (flip_elems n fv a)
         else Some (Inr (True, mem, i)))"

definition FlipArray :: "nat \<Rightarrow> flipper \<Rightarrow> flipper" where
  "FlipArray n fv mem i =
     chain (Some (Flip32 False mem i)) (\<lambda>mem i.
       case s_beginarray mem i of Inl e \<Rightarrow> Some (Inl e)
       | Inr (ok, mem, i, a) \<Rightarrow>
           if \<not> ok then Some (Inr (False, mem, i))
           else chain (flip_elems n fv (the a) mem i)
                  (\<lambda>mem i. Some (Inr (True, mem, adbus_iter_endarray i (the a)))))"

definition FlipVariant :: "flipper \<Rightarrow> flipper" where
  "FlipVariant fv mem i =
     (case s_beginvariant mem i of Inl e \<Rightarrow> Some (Inl e)
      | Inr (ok, mem, i, v) \<Rightarrow>
          if \<not> ok then Some (Inr (False, mem, i))
          else (case fv mem i of None \<Rightarrow> None | Some (Inl e) \<Rightarrow> Some (Inl e)
                | Some (Inr (_, mem, i)) \<Rightarrow>
                    Some (step mem i (map_sum id fst (adbus_iter_endvariant i (the v))))))"

primrec adbus_flip_value :: "nat \<Rightarrow> flipper" where
  "adbus_flip_value 0 mem i = None"
| "adbus_flip_value (Suc n) mem i0 =
     (case it_sig_char i0 of Inl e \<Rightarrow> Some (Inl e) | Inr c \<Rightarrow>
       let i = i0\<lparr>it_sig := map_option tl (it_sig i0)\<rparr>
       in if c = CHR ''y'' then Some (s_u8 mem i)
          else if c = CHR ''n'' \<or> c = CHR ''q'' then Some (Flip16 mem i)
          else if c = CHR ''b'' \<or> c = CHR ''i'' \<or> c = CHR ''u'' then Some (Flip32 True mem i)
          else if c = CHR ''x'' \<or> c = CHR ''t'' then Some (Flip64 mem i)
          else if c = CHR ''s'' then Some (andthen (Flip32 False mem i) (s_string CHR ''s''))
          else if c = CHR ''o'' then Some (andthen (Flip32 False mem i) (s_string CHR ''o''))
          else if c = CHR ''g'' then Some (s_signature mem i)
          else if c = CHR ''v'' then FlipVariant (adbus_flip_value n) mem i
          else if c = CHR ''a'' then FlipArray n (adbus_flip_value n) mem i
          else if c = CHR ''('' then
            chain (chain (Some (s_begin8 CHR ''('' mem i)) (flip_members n (adbus_flip_value n)))
              (\<lambda>mem i. Some (s_sig CHR '')'' mem i))
          else if c = CHR ''{'' then
            chain (Some (s_begin8 CHR ''{'' mem i)) (\<lambda>mem i.
            chain (adbus_flip_value n mem i) (\<lambda>mem i.
            chain (adbus_flip_value n mem i) (\<lambda>mem i. Some (s_sig CHR ''}'' mem i))))
          else Some (Inl Abort))"

primrec adbus_flip_data :: "nat \<Rightarrow> mem \<Rightarrow> adbus_Iterator \<Rightarrow> (bool \<times> mem) res option" where
  "adbus_flip_data 0 mem i = None"
| "adbus_flip_data (Suc n) mem i =
     (if it_size i > 0 then
        (case adbus_flip_value n mem i of None \<Rightarrow> None | Some (Inl e) \<Rightarrow> Some (Inl e)
         | Some (Inr (ok, mem, i)) \<Rightarrow>
             if ok then adbus_flip_data n mem i else Some (Inr (False, mem)))
      else Some (Inr (True, mem)))"


section \<open>What flipping does\<close>

text \<open>
  The 64 bit swap is not its own inverse: the third byte is shifted by 16 instead of 24 and ends
  up in the wrong place.
\<close>

lemma swap64_wrong_byte: "swap64 0x10000 = 0x100000000" "swap64 (swap64 0x10000) \<noteq> 0x10000"
  by (simp_all add: swap64_def)

lemma step_Inr [simp]: "step mem i (Inr j) = Inr (True, mem, j)"
  by (simp add: step_def)

lemma andthen_simps [simp]:
  "andthen (Inr (True, mem, i)) f = f mem i"
  "andthen (Inr (False, mem, i)) f = Inr (False, mem, i)"
  "andthen (Inl e) f = Inl e"
  by (simp_all add: andthen_def)

lemma s_u8_adv:
  "it_sig i = Some (CHR ''y'' # r) \<Longrightarrow> 1 \<le> it_size i \<Longrightarrow>
   s_u8 mem i = Inr (True, mem, (adv i 1)\<lparr>it_sig := Some r\<rparr>)"
  by (simp add: s_u8_def s_sig_def s_get8_def iter_sig_tl take_bytes_adv)

lemma Flip32_adv:
  assumes "length (pad (it_data i) 4) + 4 \<le> it_size i" and "in_data mem i"
  shows "\<exists>mem'. length mem' = length mem \<and> Flip32 consume mem i
    = Inr (True, mem', adv i (length (pad (it_data i) 4) + (if consume then 4 else 0)))"
proof -
  have "align (it_data i) 4 + 4 \<le> length mem"
    using assms length_pad[of 4 "it_data i"] unfolding in_data_def by linarith
  with assms(1) show ?thesis
    by (simp add: Flip32_def flip_at_def align_adv rd32_def rd_def Let_def)
qed

text \<open>
  Flipping the fixed header with the signature the parser passes for it runs into an assert for
  every block of at least sixteen bytes: \<open>adbus_flip_value\<close> moves over a type code before it
  calls the operation that checks it, so two \<open>y\<close> codes are consumed per byte and the array is
  entered behind its \<open>a\<close>.
\<close>

lemma flip_header_aborts:
  assumes "16 \<le> sz" and "sz \<le> length mem" and "8 < n"
  shows "adbus_flip_data n mem \<lparr>it_data = 0, it_size = sz, it_sig = Some ''yyyyuua(yv)''\<rparr>
    = Some (Inl Abort)"
proof -
  define k where "k = n - 7"
  have n: "n = Suc (Suc (Suc (Suc (Suc (Suc (Suc k))))))"
    using assms(3) by (simp add: k_def)
  let ?i2 = "\<lparr>it_data = 2, it_size = sz - 2, it_sig = Some ''ua(yv)''\<rparr>"
  have p: "length (pad 2 4) = 2" "length (pad 8 4) = 0" "length (pad 12 4) = 0"
    by (simp_all add: pad_def align_def)
  have l: "6 \<le> sz - 2" "Suc (Suc (sz - 2)) \<le> length mem" "8 + (sz - 8) \<le> length mem" "12 + (sz - 12) \<le> length mem" "4 \<le> sz - 8"
    "4 \<le> sz - 12" using assms(1,2) by simp_all
  then obtain m1 where m1: "length m1 = length mem" "Flip32 True mem ?i2 = Inr (True, m1, adv ?i2 6)"
    using Flip32_adv[of ?i2 mem True] assms(1) p by (auto simp: in_data_def)
  let ?i3 = "\<lparr>it_data = 8, it_size = sz - 8, it_sig = Some ''a(yv)''\<rparr>"
  obtain m2 where m2: "length m2 = length mem" "Flip32 True m1 ?i3 = Inr (True, m2, adv ?i3 4)"
    using Flip32_adv[of ?i3 m1 True] assms(1) p l m1(1) by (auto simp: in_data_def)
  let ?i4 = "\<lparr>it_data = 12, it_size = sz - 12, it_sig = Some ''(yv)''\<rparr>"
  obtain m3 where m3: "Flip32 False m2 ?i4 = Inr (True, m3, ?i4)"
    using Flip32_adv[of ?i4 m2 False] assms(1) p l m2(1) by (auto simp: in_data_def)
  have "0 < sz" using assms(1) by linarith
  then show ?thesis
    using m1(2) m2(2) m3 assms(1)
    by (simp add: n it_sig_char_def s_u8_adv adv_def Let_def chain_def s_beginarray_def s_sig_def
        step_def adbusI_iter_sig_def FlipArray_def numeral_2_eq_2)
qed

end
