(* ===== verification/Parse.thy ===== *)
theory Parse
  imports Message Flip
begin

text \<open>
  Parsing messages: \<^verbatim>\<open>adbus/parse.c\<close>.

  \<open>adbus_parse\<close> takes the previous contents of the message structure (it returns success without
  touching it for unknown message types) and the block of data. A message in foreign byte order is
  flipped first, which takes the fuel of \<open>adbus_flip_data\<close>; the result is \<open>None\<close> only when
  that runs out. The reply serial is read when its header field is met; the code keeps the pointer.
\<close>

section \<open>Size of a message\<close>

definition Get32 :: "char \<Rightarrow> char list \<Rightarrow> 32 word" where
  "Get32 endianness p =
     (let b = (\<lambda>i. of_nat (of_char (p ! i)) :: 32 word)
      in if endianness = CHR ''l''
         then b 0 OR push_bit 8 (b 1) OR push_bit 16 (b 2) OR push_bit 24 (b 3)
         else b 3 OR push_bit 8 (b 2) OR push_bit 16 (b 1) OR push_bit 24 (b 0))"

definition sizeof_Header :: nat where "sizeof_Header = 12"

definition sizeof_ExtendedHeader :: nat where "sizeof_ExtendedHeader = 16"

definition adbus_parse_size :: "char list \<Rightarrow> nat \<Rightarrow> nat res" where
  "adbus_parse_size data sz =
     (if sz < sizeof_ExtendedHeader then Inr 0
      else if length data < sizeof_ExtendedHeader then Inl Fault
      else let e = data ! 0;
               hsize = sizeof_Header + unat (Get32 e (drop 12 data))
           in Inr (align hsize 8 + unat (Get32 e (drop 4 data))))"

section \<open>Header fields\<close>

text \<open>The signature of a header field's variant is exactly one type code.\<close>

definition sig_is :: "adbus_Iterator \<Rightarrow> char \<Rightarrow> bool" where
  "sig_is i c \<longleftrightarrow> it_sig i = Some [c]"

definition parse_string ::
    "mem \<Rightarrow> adbus_Iterator \<Rightarrow> (string \<Rightarrow> adbus_Message) \<Rightarrow> (adbus_Iterator \<times> adbus_Message) res" where
  "parse_string mem i upd =
     bindr (checkr (sig_is i CHR ''s'')) (\<lambda>_.
     bindr (adbus_iter_string mem i) (\<lambda>(s, i). Inr (i, upd s)))"

definition parse_switch ::
    "mem \<Rightarrow> 8 word \<Rightarrow> adbus_Iterator \<Rightarrow> adbus_Message \<Rightarrow> (adbus_Iterator \<times> adbus_Message) res" where
  "parse_switch mem code i m =
     (if code = HEADER_INVALID then Inl Failed
      else if code = HEADER_INTERFACE then parse_string mem i (\<lambda>s. m\<lparr>msg_interface := Some s\<rparr>)
      else if code = HEADER_MEMBER then parse_string mem i (\<lambda>s. m\<lparr>msg_member := Some s\<rparr>)
      else if code = HEADER_ERROR_NAME then parse_string mem i (\<lambda>s. m\<lparr>msg_error := Some s\<rparr>)
      else if code = HEADER_DESTINATION then parse_string mem i (\<lambda>s. m\<lparr>msg_destination := Some s\<rparr>)
      else if code = HEADER_SENDER then parse_string mem i (\<lambda>s. m\<lparr>msg_sender := Some s\<rparr>)
      else if code = HEADER_OBJECT_PATH then
        bindr (checkr (sig_is i CHR ''o'')) (\<lambda>_.
        bindr (adbus_iter_objectpath mem i) (\<lambda>(s, i). Inr (i, m\<lparr>msg_path := Some s\<rparr>)))
      else if code = HEADER_SIGNATURE then
        bindr (checkr (sig_is i CHR ''g'')) (\<lambda>_.
        bindr (adbus_iter_signature mem i) (\<lambda>(s, i). Inr (i, m\<lparr>msg_signature := Some s\<rparr>)))
      else if code = HEADER_REPLY_SERIAL then
        bindr (checkr (sig_is i CHR ''u'')) (\<lambda>_.
        bindr (adbus_iter_u32 i) (\<lambda>(p, i).
        bindr (rd32 mem p) (\<lambda>w. Inr (i, m\<lparr>msg_replySerial := Some w\<rparr>))))
      else bindr (adbus_iter_value mem i) (\<lambda>i. Inr (i, m)))"

definition parse_field ::
    "mem \<Rightarrow> adbus_Iterator \<Rightarrow> adbus_Message \<Rightarrow> (adbus_Iterator \<times> adbus_Message) res" where
  "parse_field mem i m =
     bindr (adbus_iter_beginstruct i) (\<lambda>i.
     bindr (adbus_iter_u8 i) (\<lambda>(p, i).
     bindr (adbus_iter_beginvariant mem i) (\<lambda>(i, v).
     bindr (rd8 mem p) (\<lambda>code.
     bindr (parse_switch mem code i m) (\<lambda>(i, m).
     bindr (adbus_iter_endvariant i v) (\<lambda>(i, v).
     bindr (adbus_iter_endstruct i) (\<lambda>i. Inr (i, m))))))))"

text \<open>The loop ends because every field takes at least the byte of its code.\<close>

lemma parse_string_steps: "parse_string mem i upd = Inr (j, m') \<Longrightarrow> steps_over i j"
  by (auto simp: parse_string_def res_convs dest: string_steps)

lemma parse_switch_steps:
  assumes "parse_switch mem code i m = Inr (j, m')" shows "steps_over i j"
proof -
  have "(\<exists>upd s. parse_string mem i upd = Inr (j, s)) \<or> (\<exists>p. adbus_iter_objectpath mem i = Inr (p, j))
      \<or> (\<exists>p. adbus_iter_signature mem i = Inr (p, j)) \<or> (\<exists>q. adbus_iter_u32 i = Inr (q, j))
      \<or> adbus_iter_value mem i = Inr j"
    using assms unfolding parse_switch_def
    by (auto simp: bindr_Inr_conv split: if_split_asm)
  then show ?thesis
    by (auto dest: parse_string_steps string_steps basic_steps iter_value_step)
qed

lemma parse_field_shrinks:
  assumes "parse_field mem i m = Inr (j, m')" shows "it_size j < it_size i"
proof -
  from assms obtain i1 p i2 i3 v c i4 m4 i5 v5 where
    s: "adbus_iter_beginstruct i = Inr i1" "adbus_iter_u8 i1 = Inr (p, i2)"
       "adbus_iter_beginvariant mem i2 = Inr (i3, v)" "parse_switch mem c i3 m = Inr (i4, m4)"
       "adbus_iter_endvariant i4 v = Inr (i5, v5)" "adbus_iter_endstruct i5 = Inr j"
    by (auto simp: parse_field_def bindr_Inr_conv)
  from begin_sizes(1)[OF s(1)] basic_steps(2)[OF s(2)] beginvariant_sizes[OF s(3)]
    parse_switch_steps[OF s(4)] endvariant_sizes[OF s(5)] end_sizes(1)[OF s(6)]
  show ?thesis by (simp add: steps_over_def)
qed

function parse_fields ::
    "mem \<Rightarrow> adbus_IterArray \<Rightarrow> adbus_Iterator \<Rightarrow> adbus_Message \<Rightarrow> (adbus_Iterator \<times> adbus_Message) res" where
  "parse_fields mem a i m =
     (let (more, i) = adbus_iter_inarray i a
      in if more then bindr (parse_field mem i m) (\<lambda>(i, m). parse_fields mem a i m)
         else Inr (i, m))"
  by pat_completeness auto

termination
  by (relation "measure (\<lambda>(mem, a, i, m). it_size i)")
    (auto simp: adbus_iter_inarray_def split: if_splits dest!: parse_field_shrinks)

declare parse_fields.simps [simp del]

section \<open>Parsing\<close>

definition required_fields :: "adbus_Message \<Rightarrow> bool" where
  "required_fields m \<longleftrightarrow>
     \<not> (msg_type m = ADBUS_MSG_METHOD \<and> (msg_path m = None \<or> msg_member m = None))
     \<and> \<not> (msg_type m = ADBUS_MSG_RETURN \<and> msg_replySerial m = None)
     \<and> \<not> (msg_type m = ADBUS_MSG_ERROR \<and> msg_error m = None)
     \<and> \<not> (msg_type m = ADBUS_MSG_SIGNAL \<and> (msg_interface m = None \<or> msg_member m = None))
     \<and> \<not> (msg_argsize m > 0 \<and> msg_signature m = None)"

text \<open>The fixed header, read after a possible flip; all of it is inside the data.\<close>

definition parse_header :: "mem \<Rightarrow> adbus_Message res" where
  "parse_header mem =
     bindr (rd32 mem 4) (\<lambda>len. bindr (rd32 mem 8) (\<lambda>serial. bindr (rd32 mem 12) (\<lambda>hfl.
       let msize = align (unat hfl + sizeof_ExtendedHeader) 8 + unat len
       in Inr (msg_zero\<lparr>msg_data := mem, msg_size := msize, msg_argsize := unat len,
            msg_argdata := msize - unat len, msg_type := of_char (mem ! 1),
            msg_flags := of_char (mem ! 2), msg_serial := serial\<rparr>))))"

definition parse_body :: "mem \<Rightarrow> nat \<Rightarrow> adbus_Message res" where
  "parse_body mem sz =
     bindr (parse_header mem) (\<lambda>m.
     bindr (adbus_iter_beginarray mem \<lparr>it_data = sizeof_Header, it_size = sz - sizeof_Header,
              it_sig = Some ''a(yv)''\<rparr>) (\<lambda>(i, a).
     bindr (parse_fields mem a i m) (\<lambda>(i, m).
     bindr (checkr (required_fields m)) (\<lambda>_. Inr m))))"

text \<open>
  Flipping the header and, at the end, the arguments; the arguments are a block of their own
  whose address is that of \<^verbatim>\<open>argdata\<close>.
\<close>

definition flip_args :: "nat \<Rightarrow> adbus_Message \<Rightarrow> adbus_Message res option" where
  "flip_args n m =
     (case msg_signature m of None \<Rightarrow> Some (Inr m) | Some sig \<Rightarrow>
       (case adbus_flip_data n (msg_data m)
           \<lparr>it_data = msg_argdata m, it_size = msg_argsize m, it_sig = Some sig\<rparr> of
          None \<Rightarrow> None | Some (Inl e) \<Rightarrow> Some (Inl e)
        | Some (Inr (ok, mem)) \<Rightarrow> Some (if ok then Inr (m\<lparr>msg_data := mem\<rparr>) else Inl Failed)))"

definition adbus_parse :: "nat \<Rightarrow> adbus_Message \<Rightarrow> mem \<Rightarrow> nat \<Rightarrow> adbus_Message res option" where
  "adbus_parse n m mem sz =
     (if \<not> sz > sizeof_ExtendedHeader then Some (Inl Abort)
      else if length mem < sz then Some (Inl Fault)
      else let native = (mem ! 0 = adbusI_nativeEndianness); type = of_char (mem ! 1) :: nat
           in if type = ADBUS_MSG_INVALID then Some (Inl Failed)
              else if type > ADBUS_MSG_SIGNAL then Some (Inr m)
              else if native then Some (parse_body mem sz)
              else (case adbus_flip_data n mem
                      \<lparr>it_data = 0, it_size = sz, it_sig = Some ''yyyyuua(yv)''\<rparr> of
                     None \<Rightarrow> None | Some (Inl e) \<Rightarrow> Some (Inl e)
                   | Some (Inr (ok, mem)) \<Rightarrow>
                       if \<not> ok then Some (Inl Failed)
                       else (case parse_body (mem[0 := adbusI_nativeEndianness]) sz of
                               Inl e \<Rightarrow> Some (Inl e) | Inr m \<Rightarrow> flip_args n m)))"

section \<open>Arguments\<close>

text \<open>
  The string arguments, for matching; every other argument is skipped and has no value. The loop
  ends with the signature.
\<close>

function parse_args :: "mem \<Rightarrow> adbus_Iterator \<Rightarrow> string option list res" where
  "parse_args mem i =
     bindr (it_sig_char i) (\<lambda>c.
       if c = NUL then Inr []
       else if c = CHR ''s'' then
         bindr (adbus_iter_string mem i) (\<lambda>(s, i).
         bindr (parse_args mem i) (\<lambda>vs. Inr (Some s # vs)))
       else
         bindr (adbus_iter_value mem i) (\<lambda>i.
         bindr (parse_args mem i) (\<lambda>vs. Inr (None # vs))))"
  by pat_completeness auto

termination
  by (relation "measure (\<lambda>(mem, i). sig_len i)")
    (auto simp: steps_over_def dest!: string_steps iter_value_step)

declare parse_args.simps [simp del]

definition adbus_parseargs :: "adbus_Message \<Rightarrow> adbus_Message res" where
  "adbus_parseargs m =
     (if msg_arguments m \<noteq> None then Inr m
      else bindr (assertr (msg_signature m \<noteq> None)) (\<lambda>_.
           bindr (parse_args (msg_data m) \<lparr>it_data = msg_argdata m, it_size = msg_argsize m,
                    it_sig = msg_signature m\<rparr>) (\<lambda>vs.
             Inr (m\<lparr>msg_arguments := Some vs\<rparr>))))"

text \<open>
  Freeing the arguments leaves the (now dangling) pointer in place and sets the size to zero.
\<close>

definition adbus_freeargs :: "adbus_Message \<Rightarrow> adbus_Message" where
  "adbus_freeargs m = m\<lparr>msg_arguments := map_option (\<lambda>_. []) (msg_arguments m)\<rparr>"

section \<open>Parsing what was built\<close>

definition field_ok :: "dval \<Rightarrow> (adbus_Message \<Rightarrow> adbus_Message) \<Rightarrow> bool" where
  "field_ok v eff \<longleftrightarrow> (\<forall>mem i r m. at_value mem i v r \<longrightarrow>
     (\<exists>j. parse_field mem i m = Inr (j, eff m) \<and> reads v i r j))"

text \<open>The values of header fields, read by their own operation.\<close>

lemma iter_read_string:
  assumes "wf_dval (VStr CHR ''s'' s)" and "at_value mem k (VStr CHR ''s'' s) r"
  shows "\<exists>j. adbus_iter_string mem k = Inr (s, j) \<and> reads (VStr CHR ''s'' s) k r j"
proof -
  from get_okD[OF get_ok_all[OF assms(1)] lessI assms(2)] obtain j
    where j: "getv (Suc (size (VStr CHR ''s'' s))) mem k = Inr (VStr CHR ''s'' s, j)"
      "reads (VStr CHR ''s'' s) k r j" by blast
  from assms(2) have "it_sig k = Some (CHR ''s'' # r)" by (simp add: at_value_def)
  with j(1) have "adbus_iter_string mem k = Inr (s, j)" by (auto simp: it_sig_char_Cons bindr_Inr_conv)
  with j(2) show ?thesis by blast
qed

lemma iter_read_path:
  assumes "wf_dval (VStr CHR ''o'' s)" and "at_value mem k (VStr CHR ''o'' s) r"
  shows "\<exists>j. adbus_iter_objectpath mem k = Inr (s, j) \<and> reads (VStr CHR ''o'' s) k r j"
proof -
  from get_okD[OF get_ok_all[OF assms(1)] lessI assms(2)] obtain j
    where j: "getv (Suc (size (VStr CHR ''o'' s))) mem k = Inr (VStr CHR ''o'' s, j)"
      "reads (VStr CHR ''o'' s) k r j" by blast
  from assms(2) have "it_sig k = Some (CHR ''o'' # r)" by (simp add: at_value_def)
  with j(1) have "adbus_iter_objectpath mem k = Inr (s, j)" by (auto simp: it_sig_char_Cons bindr_Inr_conv)
  with j(2) show ?thesis by blast
qed

lemma iter_read_signature:
  assumes "wf_dval (VSig s)" and "at_value mem k (VSig s) r"
  shows "\<exists>j. adbus_iter_signature mem k = Inr (s, j) \<and> reads (VSig s) k r j"
proof -
  from get_okD[OF get_ok_all[OF assms(1)] lessI assms(2)] obtain j
    where j: "getv (Suc (size (VSig s))) mem k = Inr (VSig s, j)" "reads (VSig s) k r j" by blast
  from assms(2) have "it_sig k = Some (CHR ''g'' # r)" by (simp add: at_value_def)
  with j(1) have "adbus_iter_signature mem k = Inr (s, j)" by (auto simp: it_sig_char_Cons bindr_Inr_conv)
  with j(2) show ?thesis by blast
qed

lemma iter_read_u32:
  assumes "at_value mem k (V32 CHR ''u'' w) r"
  shows "\<exists>p j. adbus_iter_u32 k = Inr (p, j) \<and> rd32 mem p = Inr w \<and> reads (V32 CHR ''u'' w) k r j"
proof -
  from get_okD[OF get_ok_all lessI assms] obtain j
    where j: "getv (Suc (size (V32 CHR ''u'' w))) mem k = Inr (V32 CHR ''u'' w, j)"
      "reads (V32 CHR ''u'' w) k r j" by auto
  from assms have "it_sig k = Some (CHR ''u'' # r)" by (simp add: at_value_def)
  with j(1) have "\<exists>p. adbus_iter_u32 k = Inr (p, j) \<and> rd32 mem p = Inr w"
    by (auto simp: it_sig_char_Cons bindr_Inr_conv)
  with j(2) show ?thesis by blast
qed

lemma iter_read_u8:
  assumes "at_value mem k (VByte w) r"
  shows "\<exists>p j. adbus_iter_u8 k = Inr (p, j) \<and> rd8 mem p = Inr w \<and> reads (VByte w) k r j"
proof -
  from get_okD[OF get_ok_all lessI assms] obtain j
    where j: "getv (Suc (size (VByte w))) mem k = Inr (VByte w, j)" "reads (VByte w) k r j" by auto
  from assms have "it_sig k = Some (CHR ''y'' # r)" by (simp add: at_value_def)
  with j(1) have "\<exists>p. adbus_iter_u8 k = Inr (p, j) \<and> rd8 mem p = Inr w"
    by (auto simp: it_sig_char_Cons bindr_Inr_conv)
  with j(2) show ?thesis by blast
qed

lemma pair_facts:
  "enc off (VStruct [VByte c, x]) = pad off 8 @ enc (align off 8) (VByte c) @ enc (align off 8 + 1) x"
  "fits off (VStruct [VByte c, x]) = fits (align off 8 + 1) x"
  "vsig (VStruct [VByte c, x]) = ''(y'' @ vsig x @ '')''"
  "length (enc off (VByte c)) = 1"
  by (simp_all add: Let_def)

text \<open>
  A header field up to its value, and how it ends once the value has been read.
\<close>

lemma field_at:
  assumes "wf_dval x" "length (vsig x) < 255" and a: "at_value mem i (VStruct [VByte code, VVariant x]) r"
  shows "\<exists>i1 p i2 k w. adbus_iter_beginstruct i = Inr i1 \<and> adbus_iter_u8 i1 = Inr (p, i2) \<and> rd8 mem p = Inr code
     \<and> adbus_iter_beginvariant mem i2 = Inr (k, w) \<and> at_value mem k x []
     \<and> (\<forall>j. reads x k [] j \<longrightarrow> (\<exists>w'. adbus_iter_endvariant j w = Inr (j\<lparr>it_sig := Some ('')'' @ r)\<rparr>, w'))
          \<and> adbus_iter_endstruct (j\<lparr>it_sig := Some ('')'' @ r)\<rparr>) = Inr (j\<lparr>it_sig := Some r\<rparr>)
          \<and> reads (VStruct [VByte code, VVariant x]) i r (j\<lparr>it_sig := Some r\<rparr>))"
proof -
  let ?v = "VStruct [VByte code, VVariant x]" and ?o = "align (it_data i) 8"
  let ?i1 = "(adv i (length (pad (it_data i) 8)))\<lparr>it_sig := Some (''yv)'' @ r)\<rparr>"
  from a have h: "holds mem ?o (enc ?o (VByte code))" "holds mem (?o + 1) (enc (?o + 1) (VVariant x))"
    "length (pad (it_data i) 8) + 1 + length (enc (?o + 1) (VVariant x)) \<le> it_size i"
    "it_sig i = Some (CHR ''('' # ''yv)'' @ r)" "fits (?o + 1) (VVariant x)"
    unfolding at_value_def pair_facts holds_append length_append length_pad[of 8, simplified]
    by simp_all
  have b: "adbus_iter_beginstruct i = Inr ?i1"
    using begin_at[OF h(4)] h(3) by (simp add: adbus_iter_beginstruct_def del: enc.simps)
  have "at_value mem ?i1 (VByte code) (''v)'' @ r)"
    using h by (simp add: at_value_def)
  from iter_read_u8[OF this] obtain p i2 where
    u: "adbus_iter_u8 ?i1 = Inr (p, i2)" "rd8 mem p = Inr code" "reads (VByte code) ?i1 (''v)'' @ r) i2"
    by blast
  have "at_value mem i2 (VVariant x) ('')'' @ r)"
    using u(3) h by (auto simp: at_value_def reads_def simp del: enc.simps(7) fits.simps(1))
  from beginvariant_at[OF _ this] assms(1,2) obtain k w where
    k: "adbus_iter_beginvariant mem i2 = Inr (k, w)" "iv_origsig w = Some ('')'' @ r)" "at_value mem k x []"
    "it_data k + it_size k = it_data i2 + it_size i2" "it_size k \<le> it_size i2"
    "it_data k + length (enc (it_data k) x) = it_data i2 + length (enc (it_data i2) (VVariant x))"
    by (auto simp del: enc.simps)
  have "(\<exists>w'. adbus_iter_endvariant j w = Inr (j\<lparr>it_sig := Some ('')'' @ r)\<rparr>, w'))
      \<and> adbus_iter_endstruct (j\<lparr>it_sig := Some ('')'' @ r)\<rparr>) = Inr (j\<lparr>it_sig := Some r\<rparr>)
      \<and> reads ?v i r (j\<lparr>it_sig := Some r\<rparr>)" if j: "reads x k [] j" for j
  proof (intro conjI)
    show "\<exists>w'. adbus_iter_endvariant j w = Inr (j\<lparr>it_sig := Some ('')'' @ r)\<rparr>, w')"
      "adbus_iter_endstruct (j\<lparr>it_sig := Some ('')'' @ r)\<rparr>) = Inr (j\<lparr>it_sig := Some r\<rparr>)"
      using j k(2) by (simp_all add: adbus_iter_endvariant_def it_sig_char_def reads_def adbus_iter_endstruct_def iter_sig_tl)
    show "reads ?v i r (j\<lparr>it_sig := Some r\<rparr>)"
      using j u(3) k(4-6) h(3) unfolding reads_def pair_facts length_append by (auto simp del: enc.simps)
  qed
  with b u(1,2) k(1,3) show ?thesis by blast
qed

lemma field_ok_intro:
  assumes wf: "wf_dval x" "length (vsig x) < 255"
    and sw: "\<And>mem k m. at_value mem k x [] \<Longrightarrow>
      \<exists>j. parse_switch mem code k m = Inr (j, eff m) \<and> reads x k [] j"
  shows "field_ok (VStruct [VByte code, VVariant x]) eff"
  unfolding field_ok_def
proof (intro allI impI)
  fix mem r m and i :: adbus_Iterator
  assume "at_value mem i (VStruct [VByte code, VVariant x]) r"
  from field_at[OF wf this] obtain i1 p i2 k w where
    f: "adbus_iter_beginstruct i = Inr i1" "adbus_iter_u8 i1 = Inr (p, i2)" "rd8 mem p = Inr code"
    "adbus_iter_beginvariant mem i2 = Inr (k, w)" "at_value mem k x []"
    and e: "\<forall>j. reads x k [] j \<longrightarrow> (\<exists>w'. adbus_iter_endvariant j w = Inr (j\<lparr>it_sig := Some ('')'' @ r)\<rparr>, w'))
          \<and> adbus_iter_endstruct (j\<lparr>it_sig := Some ('')'' @ r)\<rparr>) = Inr (j\<lparr>it_sig := Some r\<rparr>)
          \<and> reads (VStruct [VByte code, VVariant x]) i r (j\<lparr>it_sig := Some r\<rparr>)" by blast
  from sw[OF f(5)] obtain j where j: "parse_switch mem code k m = Inr (j, eff m)" "reads x k [] j" by blast
  with f e show "\<exists>j. parse_field mem i m = Inr (j, eff m) \<and> reads (VStruct [VByte code, VVariant x]) i r j"
    by (fastforce simp: parse_field_def)
qed

lemma at_sig_is: "at_value mem k v [] \<Longrightarrow> vsig v = [c] \<Longrightarrow> sig_is k c"
  by (simp add: at_value_def sig_is_def)

lemma string_field_ok:
  assumes "NUL \<notin> set s \<and> length s < 2 ^ 32"
    and "\<And>mem k m. parse_switch mem code k m = parse_string mem k (\<lambda>s. eff s m)"
  shows "list_all2 field_ok (str_field code CHR ''s'' s) (if s = [] then [] else [eff s])"
proof -
  have "field_ok (VStruct [VByte code, VVariant (VStr CHR ''s'' s)]) (eff s)"
    by (rule field_ok_intro)
      (use assms(1) at_sig_is iter_read_string in \<open>fastforce simp: assms(2) parse_string_def bindr_Inr_conv\<close>)+
  then show ?thesis by (simp add: str_field_def)
qed

lemma other_field_ok:
  "NUL \<notin> set s \<and> length s < 2 ^ 32 \<Longrightarrow> list_all2 field_ok (str_field HEADER_OBJECT_PATH CHR ''o'' s)
     (if s = [] then [] else [\<lambda>m. m\<lparr>msg_path := Some s\<rparr>])"
  "field_ok (VStruct [VByte HEADER_REPLY_SERIAL, VVariant (V32 CHR ''u'' w)])
     (\<lambda>m. m\<lparr>msg_replySerial := Some w\<rparr>)"
  "wf_dval (VSig g) \<Longrightarrow> field_ok (VStruct [VByte HEADER_SIGNATURE, VVariant (VSig g)])
     (\<lambda>m. m\<lparr>msg_signature := Some g\<rparr>)"
proof -
  show "field_ok (VStruct [VByte HEADER_REPLY_SERIAL, VVariant (V32 CHR ''u'' w)])
     (\<lambda>m. m\<lparr>msg_replySerial := Some w\<rparr>)"
    by (rule field_ok_intro)
      (use at_sig_is iter_read_u32 in \<open>fastforce simp: parse_switch_def bindr_Inr_conv\<close>)+
  show "wf_dval (VSig g) \<Longrightarrow> field_ok (VStruct [VByte HEADER_SIGNATURE, VVariant (VSig g)])
     (\<lambda>m. m\<lparr>msg_signature := Some g\<rparr>)"
    by (rule field_ok_intro)
      (use at_sig_is iter_read_signature in \<open>fastforce simp: parse_switch_def bindr_Inr_conv\<close>)+
  assume s: "NUL \<notin> set s \<and> length s < 2 ^ 32"
  have "field_ok (VStruct [VByte HEADER_OBJECT_PATH, VVariant (VStr CHR ''o'' s)])
     (\<lambda>m. m\<lparr>msg_path := Some s\<rparr>)"
    by (rule field_ok_intro)
      (use s at_sig_is iter_read_path in \<open>fastforce simp: parse_switch_def bindr_Inr_conv\<close>)+
  then show "list_all2 field_ok (str_field HEADER_OBJECT_PATH CHR ''o'' s)
     (if s = [] then [] else [\<lambda>m. m\<lparr>msg_path := Some s\<rparr>])" by (simp add: str_field_def)
qed

definition hdr_effs :: "adbus_MsgFactory \<Rightarrow> (adbus_Message \<Rightarrow> adbus_Message) list" where
  "hdr_effs m =
     (let opt = (\<lambda>s e. if s = [] then [] else [e s])
      in opt (mf_interface m) (\<lambda>s x. x\<lparr>msg_interface := Some s\<rparr>)
       @ opt (mf_member m) (\<lambda>s x. x\<lparr>msg_member := Some s\<rparr>)
       @ opt (mf_error m) (\<lambda>s x. x\<lparr>msg_error := Some s\<rparr>)
       @ opt (mf_destination m) (\<lambda>s x. x\<lparr>msg_destination := Some s\<rparr>)
       @ opt (mf_sender m) (\<lambda>s x. x\<lparr>msg_sender := Some s\<rparr>)
       @ opt (mf_path m) (\<lambda>s x. x\<lparr>msg_path := Some s\<rparr>)
       @ (if mf_hasReplySerial m then [\<lambda>x. x\<lparr>msg_replySerial := Some (mf_replySerial m)\<rparr>] else [])
       @ (if adbus_buf_size (mf_argbuf m) > 0
          then [\<lambda>x. x\<lparr>msg_signature := Some (adbus_buf_sig (mf_argbuf m))\<rparr>] else []))"

lemma hdr_fields_ok:
  assumes "wf_factory m" shows "list_all2 field_ok (hdr_fields m) (hdr_effs m)"
proof -
  have w: "wf_dval (VSig (adbus_buf_sig (mf_argbuf m)))"
    using assms by (simp add: wf_factory_def adbus_buf_sig_def takeWhile_no_nul)
  show ?thesis
    using assms unfolding hdr_fields_def hdr_effs_def Let_def wf_factory_def
    by (intro list_all2_appendI string_field_ok other_field_ok(1))
      (simp_all add: parse_switch_def other_field_ok(3)[OF w] other_field_ok(2))
qed

lemma parse_fields_list:
  assumes "list_all2 field_ok vs effs" and "\<And>v. v \<in> set vs \<Longrightarrow> wf_dval v \<and> vsig v = s"
    and "holds mem (it_data i) (encs (it_data i) vs)" "length (encs (it_data i) vs) \<le> it_size i"
    and "ia_sig a = s @ r" "fitss (it_data i) vs"
    and "ia_data a + ia_size a = it_data i + length (encs (it_data i) vs)"
  shows "\<exists>j. parse_fields mem a i m = Inr (j, fold (\<lambda>f x. f x) effs m)"
  using assms
proof (induction vs effs arbitrary: i m rule: list_all2_induct)
  case Nil
  then show ?case by (simp add: parse_fields.simps[of mem a i m] adbus_iter_inarray_def)
next
  case (Cons v vs eff effs)
  let ?e = "enc (it_data i) v" and ?i = "i\<lparr>it_sig := Some (s @ r)\<rparr>"
  have "?e \<noteq> []" using Cons.prems(1)[of v] enc_nonempty by simp
  then have inarr: "adbus_iter_inarray i a = (True, ?i)"
    using Cons.prems(4,6) by (simp add: adbus_iter_inarray_def Let_def)
  have "at_value mem ?i v r" using Cons.prems by (simp add: at_value_def Let_def)
  with Cons.hyps(1) obtain j where j: "parse_field mem ?i m = Inr (j, eff m)" "reads v ?i r j"
    unfolding field_ok_def by blast
  obtain k where "parse_fields mem a j (eff m) = Inr (k, fold (\<lambda>f x. f x) effs (eff m))"
    using Cons.IH[of j "eff m"] Cons.prems j(2) by (auto simp: reads_def Let_def)
  with inarr j(1) show ?case by (simp add: parse_fields.simps[of mem a i m] Let_def)
qed

lemma fold_opt:
  "fold (\<lambda>f x. f x) (if b then [] else [e]) y = (if b then y else e y)"
  "fold (\<lambda>f x. f x) (if b then [e] else []) y = (if b then e y else y)"
  by simp_all

text \<open>The message the parser makes of a message the factory has built.\<close>

definition parsed :: "adbus_MsgFactory \<Rightarrow> adbus_Message" where
  "parsed m = (build_message m)\<lparr>msg_signatureSize := 0\<rparr>"

lemma opt_update:
  "msg_interface x = None \<Longrightarrow> (if s = [] then x else x\<lparr>msg_interface := Some s\<rparr>) = x\<lparr>msg_interface := field_opt s\<rparr>"
  "msg_member x = None \<Longrightarrow> (if s = [] then x else x\<lparr>msg_member := Some s\<rparr>) = x\<lparr>msg_member := field_opt s\<rparr>"
  "msg_error x = None \<Longrightarrow> (if s = [] then x else x\<lparr>msg_error := Some s\<rparr>) = x\<lparr>msg_error := field_opt s\<rparr>"
  "msg_destination x = None \<Longrightarrow> (if s = [] then x else x\<lparr>msg_destination := Some s\<rparr>) = x\<lparr>msg_destination := field_opt s\<rparr>"
  "msg_sender x = None \<Longrightarrow> (if s = [] then x else x\<lparr>msg_sender := Some s\<rparr>) = x\<lparr>msg_sender := field_opt s\<rparr>"
  "msg_path x = None \<Longrightarrow> (if s = [] then x else x\<lparr>msg_path := Some s\<rparr>) = x\<lparr>msg_path := field_opt s\<rparr>"
  "msg_replySerial x = None \<Longrightarrow> (if b then x\<lparr>msg_replySerial := Some w\<rparr> else x)
     = x\<lparr>msg_replySerial := (if b then Some w else None)\<rparr>"
  "msg_signature x = None \<Longrightarrow> (if b then x\<lparr>msg_signature := Some s\<rparr> else x)
     = x\<lparr>msg_signature := (if b then Some s else None)\<rparr>"
  by (auto simp: field_opt_def)

definition hdr_msg :: "adbus_MsgFactory \<Rightarrow> adbus_Message" where
  "hdr_msg m = msg_zero\<lparr>msg_data := buf_b (mf_buf m), msg_size := length (buf_b (mf_buf m)),
     msg_argsize := adbus_buf_size (mf_argbuf m),
     msg_argdata := length (buf_b (mf_buf m)) - adbus_buf_size (mf_argbuf m),
     msg_type := mf_messageType m, msg_flags := mf_flags m, msg_serial := of_int (mf_serial m)\<rparr>"

lemma fold_hdr_effs: "fold (\<lambda>f x. f x) (hdr_effs m) ((hdr_msg m)\<lparr>msg_data := x\<rparr>) = (parsed m)\<lparr>msg_data := x\<rparr>"
  unfolding hdr_msg_def hdr_effs_def Let_def fold_append comp_apply fold_opt
  by (simp add: opt_update msg_zero_def parsed_def build_message_def Let_def)

lemma hdr_array_enc:
  "enc 12 (hdr_array m) = le_bytes 4 (length (encs 16 (hdr_fields m))) @ encs 16 (hdr_fields m)"
  by (simp add: Let_def array_body_def sig_align_def sRequiredAlignment_def align_def pad_def
      del: le_bytes.simps)

definition built :: "adbus_MsgFactory \<Rightarrow> char list" where
  "built m = build_header m @ enc 12 (hdr_array m)
     @ pad (12 + length (enc 12 (hdr_array m))) 8 @ buf_b (mf_argbuf m)"

lemma built_holds:
  "holds (built m @ rest) 4 (le_bytes 4 (length (buf_b (mf_argbuf m))))"
  "holds (built m @ rest) 8 (le_bytes 4 (nat (mf_serial m)))"
  "holds (built m @ rest) 12 (enc 12 (hdr_array m))"
  "(built m @ rest) ! 0 = CHR ''l''" "(built m @ rest) ! 1 = char_of (mf_messageType m)" "(built m @ rest) ! 2 = char_of (mf_flags m)"
  by (simp_all add: built_def build_header_def holds_def adbus_buf_size_def adbusI_nativeEndianness_def
      del: le_bytes.simps enc.simps)

lemma length_built:
  "length (built m) = align (length (encs 16 (hdr_fields m)) + 16) 8 + length (buf_b (mf_argbuf m))"
  unfolding built_def hdr_array_enc
  using length_pad[of 8 "16 + length (encs 16 (hdr_fields m))"] by (simp add: add_ac)

lemma hdr_fields_effs_buf [simp]: "hdr_effs (m\<lparr>mf_buf := b\<rparr>) = hdr_effs m"
  by (simp add: hdr_effs_def)

definition sendable :: "adbus_MsgFactory \<Rightarrow> bool" where
  "sendable m \<longleftrightarrow> wf_factory m \<and> build_check m \<and> adbus_buf_end (mf_argbuf m) = Inr ()
     \<and> length (buf_b (mf_argbuf m)) < 2 ^ 32 \<and> mf_serial m < 2 ^ 32 \<and> mf_flags m < 256"

lemma header_built:
  assumes "sendable m" and "buf_b buf = built m"
  shows "parse_header (built m @ rest) = Inr ((hdr_msg (m\<lparr>mf_buf := buf\<rparr>))\<lparr>msg_data := built m @ rest\<rparr>)"
proof -
  let ?n = "length (buf_b (mf_argbuf m))" and ?h = "length (encs 16 (hdr_fields m))"
  have b: "0 \<le> mf_serial m" "mf_serial m < 2 ^ 32" "?n < 2 ^ 32" "mf_flags m < 256"
    using assms(1) by (simp_all add: sendable_def build_check_def)
  have t: "mf_messageType m < 256"
    using assms(1) by (simp add: sendable_def build_check_def split: if_splits)
  have l: "?h \<le> ADBUS_MAXIMUM_ARRAY_LENGTH"
    using assms(1) by (simp add: sendable_def wf_factory_def array_body_def align_def sig_align_def
        sRequiredAlignment_def)
  have "holds (built m @ rest) 12 (le_bytes 4 ?h)"
    using built_holds(3)[of m rest] unfolding hdr_array_enc holds_append by simp
  from rd_lens(2)[OF this] l have h: "rd32 (built m @ rest) 12 = Inr (of_nat ?h)"
    by (simp add: ADBUS_MAXIMUM_ARRAY_LENGTH_def)
  have u: "unat (of_nat ?h :: 32 word) = ?h" "unat (of_nat ?n :: 32 word) = ?n"
    using b(3) l by (simp_all add: unat_of_nat take_bit_nat_eq_self ADBUS_MAXIMUM_ARRAY_LENGTH_def)
  have "nat (mf_serial m) < 2 ^ 32" using b(1,2) by simp
  from rd_lens(2)[OF built_holds(2) this] b(1) have "rd32 (built m @ rest) 8 = Inr (of_int (mf_serial m))"
    by (simp add: of_nat_nat)
  with h u rd_lens(2)[OF built_holds(1) b(3)] b(4) t built_holds(5,6)[of m rest] show ?thesis
    by (simp add: parse_header_def hdr_msg_def Let_def assms(2) adbus_buf_size_def length_built
        sizeof_ExtendedHeader_def)
qed

lemma parse_body_built:
  assumes "sendable m" and "buf_b buf = built m"
  shows "parse_body (built m @ rest) (length (built m)) = Inr ((parsed (m\<lparr>mf_buf := buf\<rparr>))\<lparr>msg_data := built m @ rest\<rparr>)"
proof -
  have wf: "wf_factory m" "build_check m" using assms(1) by (auto simp: sendable_def)
  let ?i = "\<lparr>it_data = 12, it_size = length (built m) - 12, it_sig = Some ''a(yv)''\<rparr>"
  have "at_value (built m @ rest) ?i (hdr_array m) []"
    using built_holds(3)[of m rest] wf(1)
    by (simp add: at_value_def wf_factory_def built_def del: enc.simps fits.simps)
  from beginarray_at[OF hdr_wf(1)[OF wf(1)] this] obtain k a where
    k: "adbus_iter_beginarray (built m @ rest) ?i = Inr (k, a)" "ia_sig a = ''(yv)''"
    "ia_data a = it_data k" "ia_size a = length (encs (it_data k) (hdr_fields m))"
    "holds (built m @ rest) (it_data k) (encs (it_data k) (hdr_fields m))"
    "length (encs (it_data k) (hdr_fields m)) \<le> it_size k" "fitss (it_data k) (hdr_fields m)"
    by auto
  let ?m0 = "(hdr_msg (m\<lparr>mf_buf := buf\<rparr>))\<lparr>msg_data := built m @ rest\<rparr>"
  obtain j where j: "parse_fields (built m @ rest) a k ?m0 = Inr (j, fold (\<lambda>f x. f x) (hdr_effs m) ?m0)"
    using parse_fields_list[OF hdr_fields_ok[OF wf(1)], of "''(yv)''" "built m @ rest" k a "[]" ?m0]
      hdr_entries[OF wf(1)] k by (auto simp: list_all_iff hdr_entry_def)
  have f: "fold (\<lambda>f x. f x) (hdr_effs m) ?m0 = (parsed (m\<lparr>mf_buf := buf\<rparr>))\<lparr>msg_data := built m @ rest\<rparr>"
    using fold_hdr_effs[of "m\<lparr>mf_buf := buf\<rparr>"] by simp
  have "required_fields ((parsed (m\<lparr>mf_buf := buf\<rparr>))\<lparr>msg_data := built m @ rest\<rparr>)"
    using wf(2) by (auto simp: required_fields_def parsed_def build_message_def Let_def build_check_def
        field_opt_def split: if_splits)
  with j f k(1) show ?thesis
    by (simp add: parse_body_def header_built[OF assms] sizeof_Header_def)
qed

lemma hdr_fields_nonempty: "build_check m \<Longrightarrow> hdr_fields m \<noteq> []"
  by (auto simp: hdr_fields_def str_field_def build_check_def split: if_splits)

lemma built_longer: "sendable m \<Longrightarrow> 16 < length (built m)"
proof -
  assume s: "sendable m"
  then obtain v vs where v: "hdr_fields m = v # vs" "wf_dval v"
    using hdr_fields_nonempty[of m] hdr_entries[of m]
    by (cases "hdr_fields m") (auto simp: sendable_def hdr_entry_def)
  then have "0 < length (encs 16 (hdr_fields m))"
    using enc_nonempty[of v 16] by (simp add: Let_def)
  then show ?thesis
    using align_ge[of 8 "length (encs 16 (hdr_fields m)) + 16"] unfolding length_built by linarith
qed

text \<open>What follows a message in memory does not matter.\<close>

lemma parse_built:
  assumes "sendable m" and "buf_b buf = built m"
  shows "adbus_parse n old (built m @ rest) (length (built m))
     = Some (Inr ((parsed (m\<lparr>mf_buf := buf\<rparr>))\<lparr>msg_data := built m @ rest\<rparr>))"
proof -
  have t: "mf_messageType m \<in> {1, 2, 3, 4}"
    using assms by (auto simp: sendable_def build_check_def split: if_splits)
  then have "(of_char ((built m @ rest) ! 1) :: nat) = mf_messageType m" using built_holds(5)[of m rest] by auto
  then show ?thesis
    using t built_longer[OF assms(1)] parse_body_built[OF assms, of rest]
    by (auto simp: adbus_parse_def Let_def built_holds(4) adbusI_nativeEndianness_def sizeof_ExtendedHeader_def)
qed

text \<open>C2: a message survives the trip from factory to parser. For every factory with the fields its
  message type needs (fields without embedded NUL, flags of one byte, 32 bit serial and argument
  size, header array within the limit of the iterator) the bytes \<open>adbus_msg_build\<close> produces are
  accepted by \<open>adbus_parse\<close>, and the parsed message has the same type, flags, serial, reply serial,
  string fields, signature and arguments as the built one. (Only \<open>signatureSize\<close> is lost.) No
  fuel is needed, as the bytes are in the byte order of the host.\<close>

theorem build_parse_roundtrip:
  assumes "sendable m"
  shows "\<exists>m' msg. adbus_msg_build m = Inr (m', msg)
    \<and> adbus_parse n old (msg_data msg) (msg_size msg) = Some (Inr (msg\<lparr>msg_signatureSize := 0\<rparr>))"
proof -
  from assms obtain buf where
    b: "adbus_msg_build m = Inr (m\<lparr>mf_buf := buf\<rparr>, build_message (m\<lparr>mf_buf := buf\<rparr>))" "buf_b buf = built m"
    using build_props[of m] by (auto simp: sendable_def built_def simp del: enc.simps)
  have "(parsed (m\<lparr>mf_buf := buf\<rparr>))\<lparr>msg_data := built m\<rparr> = parsed (m\<lparr>mf_buf := buf\<rparr>)"
    by (simp add: parsed_def build_message_def Let_def b(2))
  then have "adbus_parse n old (built m) (length (built m)) = Some (Inr (parsed (m\<lparr>mf_buf := buf\<rparr>)))"
    using parse_built[OF assms b(2), of n old "[]"] by simp
  moreover have "msg_data (build_message (m\<lparr>mf_buf := buf\<rparr>)) = built m"
    "msg_size (build_message (m\<lparr>mf_buf := buf\<rparr>)) = length (built m)"
    using b(2) by (simp_all add: build_message_def Let_def)
  ultimately show ?thesis using b(1) by (auto simp: parsed_def)
qed

lemma sample_call_sendable: "sendable sample_call"
  using sample_call_facts by (simp add: sendable_def, simp add: sample_call_def adbus_msg_new_def)

theorem build_parse_roundtrip_witness:
  "\<exists>m' msg. adbus_msg_build sample_call = Inr (m', msg)
     \<and> adbus_parse 0 msg_zero (msg_data msg) (msg_size msg) = Some (Inr (msg\<lparr>msg_signatureSize := 0\<rparr>))"
  by (rule build_parse_roundtrip[OF sample_call_sendable])

section \<open>Foreign byte order\<close>

text \<open>C38: no message in foreign byte order is ever accepted. For every block with a valid message type that is not in the
  byte order of the host, \<open>adbus_parse\<close> runs into an assert while it flips the fixed header,
  whatever the header says and whatever follows it.\<close>

theorem foreign_message_aborts:
  assumes "16 < sz" and "sz \<le> length mem" and "mem ! 0 \<noteq> CHR ''l''"
    and "of_char (mem ! 1) \<in> {ADBUS_MSG_METHOD, ADBUS_MSG_RETURN, ADBUS_MSG_ERROR, ADBUS_MSG_SIGNAL}"
    and "8 < n"
  shows "adbus_parse n m mem sz = Some (Inl Abort)"
proof -
  have t: "(of_char (mem ! 1) :: nat) \<noteq> 0" "\<not> (of_char (mem ! 1) :: nat) > 4" using assms(4) by auto
  then show ?thesis
    using flip_header_aborts[of sz mem n] assms(1-3,5)
    by (simp add: adbus_parse_def Let_def adbusI_nativeEndianness_def sizeof_ExtendedHeader_def)
qed

theorem foreign_message_aborts_witness:
  "adbus_parse 9 msg_zero (CHR ''B'' # CHR 0x01 # replicate 22 NUL) 24 = Some (Inl Abort)"
  by (rule foreign_message_aborts) simp_all

section \<open>The size of a message\<close>

lemma byte_bits: "bit (of_nat (of_char c) :: 32 word) n \<Longrightarrow> n < 8"
proof (rule ccontr)
  assume b: "bit (of_nat (of_char c) :: 32 word) n" and n: "\<not> n < 8"
  have "(of_char c :: nat) < 2 ^ n"
    by (rule order_less_le_trans[OF nat_of_char_less_256])
      (use power_increasing[of 8 n "2 :: nat"] n in simp)
  then have "\<not> bit (of_char c :: nat) n" by (simp add: bit_iff_odd)
  with b show False by (simp add: bit_of_nat_iff)
qed

lemma Get32_little:
  assumes "p = [a, b, c, d] @ q"
  shows "Get32 CHR ''l'' p = of_nat (le_val [a, b, c, d])"
proof -
  let ?w = "\<lambda>x. of_nat (of_char x) :: 32 word"
  have "?w c + push_bit 8 (?w d) = ?w c OR push_bit 8 (?w d)"
    by (rule disjunctive_add) (auto simp: bit_push_bit_iff dest!: byte_bits)
  moreover have "?w b + push_bit 8 (?w c + push_bit 8 (?w d)) = ?w b OR push_bit 8 (?w c + push_bit 8 (?w d))"
    by (rule disjunctive_add) (auto simp: bit_push_bit_iff dest!: byte_bits)
  moreover have "?w a + push_bit 8 (?w b + push_bit 8 (?w c + push_bit 8 (?w d)))
      = ?w a OR push_bit 8 (?w b + push_bit 8 (?w c + push_bit 8 (?w d)))"
    by (rule disjunctive_add) (auto simp: bit_push_bit_iff dest!: byte_bits)
  moreover have "of_nat (le_val [a, b, c, d]) = ?w a + push_bit 8 (?w b + push_bit 8 (?w c + push_bit 8 (?w d)))"
    by (simp add: push_bit_eq_mult)
  ultimately show ?thesis
    using assms by (simp add: Get32_def push_bit_or or.assoc)
qed

lemma align_twelve:
  "align (12 + h) 8 = align (h + 16) 8 \<longleftrightarrow> h mod 8 \<notin> {1, 2, 3, 4}"
proof -
  define q r where "q = h div 8" and "r = h mod 8"
  have h: "h = 8 * q + r" "r < 8" by (simp_all add: q_def r_def)
  have "(8 * q + r + 19) div 8 = q + (r + 19) div 8" "(8 * q + r + 23) div 8 = q + (r + 23) div 8"
    by (simp_all add: add.assoc)
  then have "align (12 + h) 8 = align (h + 16) 8 \<longleftrightarrow> (r + 19) div 8 = (r + 23) div 8"
    by (simp add: align_def h(1) add.commute add.left_commute)
  also have "\<dots> \<longleftrightarrow> r \<notin> {1, 2, 3, 4}"
  proof -
    from h(2) consider "r = 0" | "r = 1" | "r = 2" | "r = 3" | "r = 4" | "r = 5" | "r = 6" | "r = 7"
      by linarith
    then show ?thesis by cases simp_all
  qed
  finally show ?thesis by (simp add: r_def)
qed

lemma Get32_holds:
  assumes "holds mem off (le_bytes 4 n)" "n < 2 ^ 32"
  shows "unat (Get32 CHR ''l'' (drop off mem)) = n"
proof -
  obtain a b c d where l: "le_bytes 4 n = [a, b, c, d]"
    using length_le_bytes[of 4 n] by (auto simp: length_Suc_conv numeral_eq_Suc simp del: le_bytes.simps length_le_bytes)
  have "take 4 (drop off mem) = [a, b, c, d]" using assms(1) unfolding holds_def length_le_bytes by (simp only: l)
  then have "drop off mem = [a, b, c, d] @ drop 4 (drop off mem)" using append_take_drop_id[of 4 "drop off mem"] by simp
  from Get32_little[OF this] have "Get32 CHR ''l'' (drop off mem) = of_nat (le_val (le_bytes 4 n))" by (simp only: l)
  then show ?thesis using assms(2) by (simp add: le_val_le_bytes unat_of_nat take_bit_nat_eq_self del: le_bytes.simps)
qed

definition framed :: "adbus_MsgFactory \<Rightarrow> bool" where
  "framed m \<longleftrightarrow> length (encs 16 (hdr_fields m)) mod 8 \<notin> {1, 2, 3, 4}"

lemma parse_size_built:
  assumes "sendable m" "framed m"
  shows "adbus_parse_size (built m @ rest) (length (built m @ rest)) = Inr (length (built m))"
proof -
  let ?n = "length (buf_b (mf_argbuf m))" and ?h = "length (encs 16 (hdr_fields m))"
  have "?n < 2 ^ 32" using assms(1) by (simp add: sendable_def)
  moreover have "?h < 2 ^ 32"
    using assms(1) by (simp add: sendable_def wf_factory_def array_body_def align_def sig_align_def
        sRequiredAlignment_def ADBUS_MAXIMUM_ARRAY_LENGTH_def)
  moreover have "holds (built m @ rest) 12 (le_bytes 4 ?h)"
    using built_holds(3)[of m rest] unfolding hdr_array_enc holds_append by simp
  ultimately have "unat (Get32 CHR ''l'' (drop 12 (built m @ rest))) = ?h" "unat (Get32 CHR ''l'' (drop 4 (built m @ rest))) = ?n"
    using Get32_holds built_holds(1)[of m rest] by blast+
  then show ?thesis
    using built_longer[OF assms(1)] assms(2) align_twelve[of ?h] built_holds(4)[of m rest]
    by (simp add: adbus_parse_size_def framed_def sizeof_Header_def sizeof_ExtendedHeader_def Let_def length_built del: drop_append)
qed

text \<open>\<open>adbus_parse_size\<close> agrees with the size \<open>adbus_parse\<close> computes for the message only if the
  length of the header fields modulo eight is not between 1 and 4. It adds the size of the
  short header, which does not hold the length of the header fields, before it aligns.\<close>

theorem parse_size_agrees_iff:
  assumes "16 \<le> length data"
  shows "(let h = unat (Get32 (data ! 0) (drop 12 data)); l = unat (Get32 (data ! 0) (drop 4 data))
          in adbus_parse_size data (length data) = Inr (align (h + sizeof_ExtendedHeader) 8 + l)
             \<longleftrightarrow> h mod 8 \<notin> {1, 2, 3, 4})"
  using assms align_twelve[of "unat (Get32 (data ! 0) (drop 12 data))"]
  by (auto simp: adbus_parse_size_def sizeof_Header_def sizeof_ExtendedHeader_def Let_def)

theorem parse_size_agrees_iff_witness:
  "adbus_parse_size [CHR ''l'', CHR 0x01, NUL, CHR 0x01, NUL, NUL, NUL, NUL, CHR 0x01, NUL, NUL, NUL,
     CHR 0x03, NUL, NUL, NUL] 16 \<noteq> Inr (align (3 + 16) 8 + 0)"
proof -
  let ?d = "[CHR ''l'', CHR 0x01, NUL, CHR 0x01, NUL, NUL, NUL, NUL, CHR 0x01, NUL, NUL, NUL,
     CHR 0x03, NUL, NUL, NUL]"
  have "Get32 CHR ''l'' (drop 12 ?d) = 3" "Get32 CHR ''l'' (drop 4 ?d) = 0"
    by (simp_all add: Get32_def Let_def)
  moreover have l: "length ?d = 16" by simp
  ultimately show ?thesis using parse_size_agrees_iff[of ?d, unfolded l]
    by (simp add: sizeof_ExtendedHeader_def)
qed

section \<open>Arguments\<close>

definition str_arg :: "dval \<Rightarrow> string option" where
  "str_arg v = (case v of VStr c s \<Rightarrow> if c = CHR ''s'' then Some s else None | _ \<Rightarrow> None)"

lemma str_arg_None: "wf_dval v \<Longrightarrow> vsig v = c # cs \<Longrightarrow> c \<noteq> CHR ''s'' \<Longrightarrow> str_arg v = None"
  by (cases v) (auto simp: str_arg_def)

lemma str_arg_Some: "wf_dval v \<Longrightarrow> vsig v = CHR ''s'' # cs \<Longrightarrow> \<exists>s. v = VStr CHR ''s'' s \<and> str_arg v = Some s"
  by (cases v) (auto simp: str_arg_def)

lemma parse_args_list:
  assumes "list_all wf_dval vs" and "fitss (it_data i) vs"
    and "holds mem (it_data i) (encs (it_data i) vs)" "length (encs (it_data i) vs) \<le> it_size i"
    and "it_sig i = Some (concat (map vsig vs))"
  shows "parse_args mem i = Inr (map str_arg vs)"
  using assms
proof (induction vs arbitrary: i)
  case Nil
  then show ?case by (simp add: parse_args.simps[of mem i] it_sig_char_def)
next
  case (Cons v vs)
  have wf: "wf_dval v" using Cons.prems(1) by simp
  obtain c cs where c: "vsig v = c # cs" "c \<noteq> NUL" using vsig_Cons[OF wf] by auto
  then have sc: "it_sig_char i = Inr c" using Cons.prems(5) by (simp add: it_sig_char_Cons)
  have at: "at_value mem i v (concat (map vsig vs))"
    using Cons.prems by (simp add: at_value_def Let_def)
  have rest: "parse_args mem j = Inr (map str_arg vs)" if "reads v i (concat (map vsig vs)) j" for j
    using Cons.IH[of j] Cons.prems that by (auto simp: reads_def Let_def)
  show ?case
  proof (cases "c = CHR ''s''")
    case True
    with str_arg_Some[OF wf] c obtain s where s: "v = VStr CHR ''s'' s" "str_arg v = Some s" by auto
    with iter_read_string[of s mem i] wf at obtain j where
      "adbus_iter_string mem i = Inr (s, j)" "reads v i (concat (map vsig vs)) j" by blast
    with rest sc True s(2) show ?thesis by (simp add: parse_args.simps[of mem i])
  next
    case False
    from skip_okD[OF skip_ok_all[OF wf] at] obtain j where
      "adbus_iter_value mem i = Inr j" "reads v i (concat (map vsig vs)) j" by blast
    with rest sc False c str_arg_None[OF wf c(1)] show ?thesis by (simp add: parse_args.simps[of mem i])
  qed
qed

text \<open>\<open>adbus_parseargs\<close> on the arguments of a message: the vector has one entry per argument, the
  string for an argument of type string and no value for any other, in order; arguments of
  any type are skipped correctly on the way.\<close>

theorem parseargs_strings:
  assumes "list_all wf_dval vs" and "fitss (msg_argdata m) vs"
    and "holds (msg_data m) (msg_argdata m) (encs (msg_argdata m) vs)"
    and "msg_argsize m = length (encs (msg_argdata m) vs)"
    and "msg_signature m = Some (concat (map vsig vs))" and "msg_arguments m = None"
  shows "adbus_parseargs m = Inr (m\<lparr>msg_arguments := Some (map str_arg vs)\<rparr>)"
  using parse_args_list[of vs "\<lparr>it_data = msg_argdata m, it_size = msg_argsize m,
      it_sig = msg_signature m\<rparr>" "msg_data m"] assms
  by (simp add: adbus_parseargs_def)

theorem parseargs_strings_witness:
  "adbus_parseargs (msg_zero\<lparr>msg_data := encs 0 [VByte 3, VStr CHR ''s'' ''hi'', VArr ''y'' [VByte 1]],
       msg_argsize := length (encs 0 [VByte 3, VStr CHR ''s'' ''hi'', VArr ''y'' [VByte 1]]),
       msg_signature := Some ''ysay''\<rparr>)
   = Inr (msg_zero\<lparr>msg_data := encs 0 [VByte 3, VStr CHR ''s'' ''hi'', VArr ''y'' [VByte 1]],
       msg_argsize := length (encs 0 [VByte 3, VStr CHR ''s'' ''hi'', VArr ''y'' [VByte 1]]),
       msg_signature := Some ''ysay'', msg_arguments := Some [None, Some ''hi'', None]\<rparr>)"
proof -
  let ?vs = "[VByte 3, VStr CHR ''s'' ''hi'', VArr ''y'' [VByte 1]]"
  let ?m = "msg_zero\<lparr>msg_data := encs 0 ?vs, msg_argsize := length (encs 0 ?vs), msg_signature := Some ''ysay''\<rparr>"
  have "adbus_parseargs ?m = Inr (?m\<lparr>msg_arguments := Some (map str_arg ?vs)\<rparr>)"
    by (rule parseargs_strings)
      (simp_all add: basic_codes_def array_body_def align_def sig_align_def sRequiredAlignment_def
        pad_def ADBUS_MAXIMUM_ARRAY_LENGTH_def msg_zero_def holds_def Let_def)
  then show ?thesis by (simp add: str_arg_def)
qed

end
