(* ===== verification/Sha1.thy ===== *)
theory Sha1
  imports Prelude
begin

text \<open>
  \<^verbatim>\<open>adbus/sha1.c\<close>: the streaming SHA-1 the authentication uses.

  The code keeps a 64 byte block buffer, compresses it whenever it is full and pads in
  \<open>SHA1GetDigest\<close>. The reference (\<open>sha1\<close>) is the textbook description: pad the whole message,
  cut it into blocks, compress one after the other. The theorem: however a message is cut into
  pieces for \<open>SHA1AddBytes\<close>, the digest is that of the reference. Sizes are exact up to the
  32 bit counter of the code.
\<close>

section \<open>The code\<close>

type_synonym sha_state = "32 word \<times> 32 word \<times> 32 word \<times> 32 word \<times> 32 word"

record SHA1 =
  sha_H :: sha_state
  sha_bytes :: "char list"
  sha_unprocessedBytes :: nat
  sha_size :: "32 word"

definition lrot :: "32 word \<Rightarrow> nat \<Rightarrow> 32 word" where
  "lrot x bits = push_bit bits x OR drop_bit (32 - bits) x"

definition storeBigEndianUint32 :: "32 word \<Rightarrow> char list" where
  "storeBigEndianUint32 num =
     [char_of (unat (drop_bit 24 num)), char_of (unat (drop_bit 16 num)),
      char_of (unat (drop_bit 8 num)), char_of (unat num)]"

definition SHA1Init :: "SHA1 \<Rightarrow> SHA1" where
  "SHA1Init s = s\<lparr>sha_H := (0x67452301, 0xefcdab89, 0x98badcfe, 0x10325476, 0xc3d2e1f0),
     sha_unprocessedBytes := 0, sha_size := 0\<rparr>"

text \<open>The first sixteen words of the message schedule, and one more word from the last sixteen.\<close>

definition schedule_word :: "char list \<Rightarrow> nat \<Rightarrow> 32 word" where
  "schedule_word block t =
     (let b = (\<lambda>i. of_nat (of_char (block ! i)) :: 32 word)
      in push_bit 24 (b (t * 4)) + push_bit 16 (b (t * 4 + 1)) + push_bit 8 (b (t * 4 + 2)) + b (t * 4 + 3))"

primrec expand :: "nat \<Rightarrow> 32 word list \<Rightarrow> 32 word list" where
  "expand 0 W = W"
| "expand (Suc n) W =
     (let t = length W
      in expand n (W @ [lrot (W ! (t - 3) XOR W ! (t - 8) XOR W ! (t - 14) XOR W ! (t - 16)) 1]))"

definition sha_round :: "nat \<Rightarrow> 32 word \<Rightarrow> sha_state \<Rightarrow> sha_state" where
  "sha_round t w = (\<lambda>(a, b, c, d, e).
     let (K, f) =
       (if t < 20 then (0x5a827999, (b AND c) OR ((b XOR 0xFFFFFFFF) AND d))
        else if t < 40 then (0x6ed9eba1, b XOR c XOR d)
        else if t < 60 then (0x8f1bbcdc, (b AND c) OR (b AND d) OR (c AND d))
        else (0xca62c1d6, b XOR c XOR d))
     in (lrot a 5 + f + e + w + K, a, lrot b 30, c, d))"

primrec sha_rounds :: "nat \<Rightarrow> 32 word list \<Rightarrow> sha_state \<Rightarrow> sha_state" where
  "sha_rounds t [] st = st"
| "sha_rounds t (w # ws) st = sha_rounds (Suc t) ws (sha_round t w st)"

definition compress :: "char list \<Rightarrow> sha_state \<Rightarrow> sha_state" where
  "compress block H =
     (let W = expand 64 (map (schedule_word block) [0..<16])
      in case H of (h0, h1, h2, h3, h4) \<Rightarrow> case sha_rounds 0 W H of (a, b, c, d, e) \<Rightarrow>
           (h0 + a, h1 + b, h2 + c, h3 + d, h4 + e))"

definition process :: "SHA1 \<Rightarrow> SHA1 res" where
  "process s =
     bindr (assertr (sha_unprocessedBytes s = 64)) (\<lambda>_.
       Inr (s\<lparr>sha_H := compress (sha_bytes s) (sha_H s), sha_unprocessedBytes := 0\<rparr>))"

text \<open>
  The loop of \<^verbatim>\<open>SHA1AddBytes\<close>. The buffer always has room (its assert); the termination proof
  rests on that.
\<close>

function add_loop :: "SHA1 \<Rightarrow> char list \<Rightarrow> SHA1 res" where
  "add_loop s data =
     (if data = [] then Inr s
      else bindr (assertr (sha_unprocessedBytes s < 64)) (\<lambda>_.
        let needed = 64 - sha_unprocessedBytes s;
            toCopy = (if length data < needed then length data else needed);
            s = s\<lparr>sha_bytes := overwrite (sha_bytes s) (sha_unprocessedBytes s) (take toCopy data),
                  sha_unprocessedBytes := sha_unprocessedBytes s + toCopy\<rparr>
        in bindr (if sha_unprocessedBytes s = 64 then process s else Inr s) (\<lambda>s.
             add_loop s (drop toCopy data))))"
  by pat_completeness auto

termination
  by (relation "measure (\<lambda>(s, data). length data)") (auto split: if_splits)

declare add_loop.simps [simp del]

definition SHA1AddBytes :: "SHA1 \<Rightarrow> char list \<Rightarrow> SHA1 res" where
  "SHA1AddBytes s data =
     bindr (assertr (length data > 0)) (\<lambda>_.
       add_loop (s\<lparr>sha_size := sha_size s + of_nat (length data)\<rparr>) data)"

definition SHA1GetDigest :: "SHA1 \<Rightarrow> (char list \<times> SHA1) res" where
  "SHA1GetDigest s =
     (let totalBitsL = push_bit 3 (sha_size s); totalBitsH = drop_bit 29 (sha_size s)
      in bindr (SHA1AddBytes s [CHR 0x80]) (\<lambda>s.
         bindr (if sha_unprocessedBytes s > 56
                then SHA1AddBytes s (replicate (64 - sha_unprocessedBytes s) NUL) else Inr s) (\<lambda>s.
         bindr (assertr (sha_unprocessedBytes s \<le> 56)) (\<lambda>_.
         bindr (SHA1AddBytes s (replicate (56 - sha_unprocessedBytes s) NUL
                  @ storeBigEndianUint32 totalBitsH @ storeBigEndianUint32 totalBitsL)) (\<lambda>s.
           case sha_H s of (h0, h1, h2, h3, h4) \<Rightarrow>
             Inr (concat (map storeBigEndianUint32 [h0, h1, h2, h3, h4]), s))))))"

section \<open>The reference\<close>

definition sha_init :: sha_state where
  "sha_init = (0x67452301, 0xefcdab89, 0x98badcfe, 0x10325476, 0xc3d2e1f0)"

text \<open>Compress all full blocks of a message; what is left over is shorter than a block.\<close>

function absorb :: "sha_state \<Rightarrow> char list \<Rightarrow> sha_state \<times> char list" where
  "absorb H msg =
     (if length msg < 64 then (H, msg) else absorb (compress (take 64 msg) H) (drop 64 msg))"
  by pat_completeness auto

termination
  by (relation "measure (\<lambda>(H, msg). length msg)") auto

declare absorb.simps [simp del]

definition be_bytes :: "nat \<Rightarrow> nat \<Rightarrow> char list" where
  "be_bytes k n = rev (le_bytes k n)"

definition sha_pad :: "char list \<Rightarrow> char list" where
  "sha_pad msg = msg @ [CHR 0x80] @ replicate ((119 - length msg mod 64) mod 64) NUL
     @ be_bytes 8 (8 * length msg)"

definition sha1 :: "char list \<Rightarrow> char list" where
  "sha1 msg = (case fst (absorb sha_init (sha_pad msg)) of (h0, h1, h2, h3, h4) \<Rightarrow>
     concat (map (\<lambda>h. be_bytes 4 (unat h)) [h0, h1, h2, h3, h4]))"

section \<open>Streaming is hashing the whole message\<close>

lemma absorb_short: "length msg < 64 \<Longrightarrow> absorb H msg = (H, msg)"
  by (simp add: absorb.simps)

lemma absorb_full: "length b = 64 \<Longrightarrow> absorb H (b @ msg) = absorb (compress b H) msg"
  by (simp add: absorb.simps[of H])

lemma absorb_append:
  "absorb H (xs @ ys) = (case absorb H xs of (H', rest) \<Rightarrow> absorb H' (rest @ ys))"
proof (induction H xs rule: absorb.induct)
  case (1 H msg)
  show ?case
  proof (cases "length msg < 64")
    case True
    then show ?thesis by (simp add: absorb_short)
  next
    case False
    then have "absorb H (msg @ ys) = absorb (compress (take 64 msg) H) (drop 64 msg @ ys)"
      using absorb_full[of "take 64 msg" H "drop 64 msg @ ys"] by (simp flip: append_assoc)
    then show ?thesis using 1[OF False] False by (simp add: absorb.simps[of H msg])
  qed
qed

lemma absorb_more:
  assumes "absorb H msg = (H', r)"
  shows "length (r @ d) = 64 \<Longrightarrow> absorb H (msg @ d) = (compress (r @ d) H', [])"
    and "length (r @ d) < 64 \<Longrightarrow> absorb H (msg @ d) = (H', r @ d)"
  using absorb_full[of "r @ d" H' "[]"] by (simp_all add: absorb_append[of H msg d] assms absorb_short)

definition sha_inv :: "SHA1 \<Rightarrow> char list \<Rightarrow> bool" where
  "sha_inv s msg \<longleftrightarrow> length (sha_bytes s) = 64 \<and> sha_unprocessedBytes s < 64
     \<and> absorb sha_init msg = (sha_H s, take (sha_unprocessedBytes s) (sha_bytes s))"

lemma add_loop_inv:
  "sha_inv s msg \<Longrightarrow> \<exists>s'. add_loop s data = Inr s' \<and> sha_inv s' (msg @ data) \<and> sha_size s' = sha_size s"
proof (induction s data arbitrary: msg rule: add_loop.induct)
  case (1 s data)
  show ?case
  proof (cases "data = []")
    case True
    with 1 show ?thesis by (simp add: add_loop.simps)
  next
    case False
    let ?u = "sha_unprocessedBytes s" and ?r = "take (sha_unprocessedBytes s) (sha_bytes s)"
    let ?k = "if length data < 64 - ?u then length data else 64 - ?u"
    let ?s1 = "s\<lparr>sha_bytes := overwrite (sha_bytes s) ?u (take ?k data), sha_unprocessedBytes := ?u + ?k\<rparr>"
    have s: "length (sha_bytes s) = 64" "?u < 64" "absorb sha_init msg = (sha_H s, ?r)"
      using 1(2) by (auto simp: sha_inv_def)
    have k: "0 < ?k" "?k \<le> length data" "?u + ?k \<le> 64" using False s(2) by auto
    have b: "length (sha_bytes ?s1) = 64" "take (?u + ?k) (sha_bytes ?s1) = ?r @ take ?k data"
      using s(1,2) k by (auto simp: overwrite_def min_def)
    obtain s2 where s2: "(if sha_unprocessedBytes ?s1 = 64 then process ?s1 else Inr ?s1) = Inr s2"
      "sha_inv s2 (msg @ take ?k data)" "sha_size s2 = sha_size s"
    proof (cases "?u + ?k = 64")
      case True
      let ?s2 = "?s1\<lparr>sha_H := compress (sha_bytes ?s1) (sha_H s), sha_unprocessedBytes := 0\<rparr>"
      have r: "?r @ take ?k data = sha_bytes ?s1" using b(2) b(1)[symmetric] unfolding True by simp
      have "absorb sha_init (msg @ take ?k data) = (compress (?r @ take ?k data) (sha_H s), [])"
        by (rule absorb_more(1)[OF s(3)]) (simp only: r b(1))
      then have "absorb sha_init (msg @ take ?k data) = (sha_H ?s2, [])" unfolding r by simp
      then have "sha_inv ?s2 (msg @ take ?k data)" using b(1) by (simp add: sha_inv_def)
      with True show ?thesis by (intro that[of ?s2]) (simp_all add: process_def)
    next
      case False
      have "absorb sha_init (msg @ take ?k data) = (sha_H s, ?r @ take ?k data)"
        by (rule absorb_more(2)[OF s(3)]) (use s(1,2) k(2,3) False in \<open>simp add: min_def\<close>)
      then have "sha_inv ?s1 (msg @ take ?k data)"
        using b k(3) False by (simp add: sha_inv_def)
      with False show ?thesis by (intro that[of ?s1]) simp_all
    qed
    have step: "add_loop s data = add_loop s2 (drop ?k data)"
      using False s(2) s2(1) by (simp add: add_loop.simps[of s data] Let_def)
    from 1(1)[OF False _ refl refl refl _ s2(2)] s(2) s2(1)
    have "\<exists>s'. add_loop s2 (drop ?k data) = Inr s' \<and> sha_inv s' ((msg @ take ?k data) @ drop ?k data)
        \<and> sha_size s' = sha_size s2" by auto
    with step s2(3) show ?thesis by simp
  qed
qed

lemma AddBytes_inv:
  assumes "sha_inv s msg" and "data \<noteq> []"
  shows "\<exists>s'. SHA1AddBytes s data = Inr s' \<and> sha_inv s' (msg @ data)
    \<and> sha_size s' = sha_size s + of_nat (length data)"
  using add_loop_inv[of "s\<lparr>sha_size := sha_size s + of_nat (length data)\<rparr>" msg data] assms
  by (simp add: SHA1AddBytes_def sha_inv_def)

lemma absorb_rest: "length (snd (absorb H msg)) = length msg mod 64"
proof (induction H msg rule: absorb.induct)
  case (1 H msg)
  show ?case
  proof (cases "length msg < 64")
    case False
    with 1 show ?thesis by (simp add: absorb.simps[of H msg] le_mod_geq)
  qed (simp add: absorb_short)
qed

lemma inv_unprocessed: "sha_inv s msg \<Longrightarrow> sha_unprocessedBytes s = length msg mod 64"
  using absorb_rest[of sha_init msg] by (auto simp: sha_inv_def)

lemma le_bytes_4: "le_bytes 4 n = [char_of n, char_of (n div 256), char_of (n div 65536), char_of (n div 16777216)]"
proof -
  have "4 = Suc (Suc (Suc (Suc 0)))" by simp
  then show ?thesis by (simp only: le_bytes.simps) (simp flip: div_mult2_eq)
qed

lemma storeBigEndian_be: "storeBigEndianUint32 w = be_bytes 4 (unat w)"
  unfolding storeBigEndianUint32_def unat_drop_bit_eq drop_bit_eq_div
  by (simp add: be_bytes_def le_bytes_4 unat_div_distrib del: le_bytes.simps)

lemma le_bytes_add: "le_bytes (j + k) n = le_bytes j n @ le_bytes k (n div 256 ^ j)"
  by (induction j arbitrary: n) (simp_all add: div_mult2_eq)

lemma le_bytes_mod: "le_bytes k (n mod 256 ^ k) = le_bytes k n"
proof (induction k arbitrary: n)
  case (Suc k)
  have "char_of (n mod (256 * 256 ^ k)) = (char_of n :: char)"
    by (subst char_of_mod_256[symmetric]) (simp add: mod_mod_cancel)
  moreover have "n mod (256 * 256 ^ k) div 256 = n div 256 mod 256 ^ k"
    by (simp add: mod_mult2_eq)
  ultimately show ?case using Suc[of "n div 256"] by simp
qed simp

text \<open>The two words of the bit count are the big-endian 64 bit length in bits.\<close>

lemma footer_length:
  assumes "n < 2 ^ 32"
  shows "storeBigEndianUint32 (drop_bit 29 (of_nat n)) @ storeBigEndianUint32 (push_bit 3 (of_nat n))
    = be_bytes 8 (8 * n)"
proof -
  have n: "unat (of_nat n :: 32 word) = n" using assms by (simp add: unat_of_nat take_bit_nat_eq_self)
  have "push_bit 3 (of_nat n :: 32 word) = of_nat (8 * n)"
    by (simp add: push_bit_eq_mult)
  then have "unat (push_bit 3 (of_nat n) :: 32 word) = (8 * n) mod 256 ^ 4"
    by (simp only: unat_of_nat) (simp add: take_bit_eq_mod)
  then have lo: "storeBigEndianUint32 (push_bit 3 (of_nat n)) = be_bytes 4 (8 * n)"
    unfolding storeBigEndian_be be_bytes_def by (simp only: le_bytes_mod)
  have hi: "storeBigEndianUint32 (drop_bit 29 (of_nat n)) = be_bytes 4 (8 * n div 256 ^ 4)"
    unfolding storeBigEndian_be unat_drop_bit_eq n drop_bit_eq_div
    using div_mult_mult1[of 8 n "2 ^ 29"] n by (simp add: unat_div_distrib)
  show ?thesis unfolding lo hi be_bytes_def using le_bytes_add[of 4 4 "8 * n"] by simp
qed

text \<open>The padding the code adds piece by piece.\<close>

lemma pad_pieces:
  assumes "u = (n + 1) mod 64"
  shows "(if u > 56 then replicate (64 - u) NUL @ replicate 56 NUL else replicate (56 - u) NUL)
    = replicate ((119 - n mod 64) mod 64) NUL"
proof -
  define r where "r = n mod 64"
  have r: "r < 64" "u = (if r = 63 then 0 else r + 1)" using assms by (auto simp: r_def mod_Suc)
  have "(119 - r) mod 64 = (if r < 56 then 55 - r else 119 - r)"
    using r(1) by (auto simp: le_mod_geq)
  with r show ?thesis by (auto simp: r_def[symmetric] replicate_add[symmetric])
qed

lemma digest_props:
  assumes "sha_inv s msg" and "sha_size s = of_nat (length msg)" and "length msg < 2 ^ 32"
  shows "\<exists>s'. SHA1GetDigest s = Inr (sha1 msg, s')"
proof -
  let ?f = "storeBigEndianUint32 (drop_bit 29 (sha_size s)) @ storeBigEndianUint32 (push_bit 3 (sha_size s))"
  have f: "?f = be_bytes 8 (8 * length msg)" using footer_length[OF assms(3)] assms(2) by simp
  have fl: "length ?f = 8" by (simp add: storeBigEndianUint32_def)
  from AddBytes_inv[OF assms(1), of "[CHR 0x80]"] obtain s1
    where s1: "SHA1AddBytes s [CHR 0x80] = Inr s1" "sha_inv s1 (msg @ [CHR 0x80])" by auto
  let ?u = "sha_unprocessedBytes s1"
  have u: "?u = (length msg + 1) mod 64" using inv_unprocessed[OF s1(2)] by simp
  obtain s2 z where s2: "(if ?u > 56 then SHA1AddBytes s1 (replicate (64 - ?u) NUL) else Inr s1) = Inr s2"
    "sha_inv s2 (msg @ [CHR 0x80] @ replicate z NUL)" "sha_unprocessedBytes s2 \<le> 56"
    "replicate z NUL @ replicate (56 - sha_unprocessedBytes s2) NUL = replicate ((119 - length msg mod 64) mod 64) NUL"
  proof (cases "?u > 56")
    case True
    have "?u < 64" using s1(2) by (simp add: sha_inv_def)
    with AddBytes_inv[OF s1(2), of "replicate (64 - ?u) NUL"] obtain s2 where
      s2: "SHA1AddBytes s1 (replicate (64 - ?u) NUL) = Inr s2"
      "sha_inv s2 ((msg @ [CHR 0x80]) @ replicate (64 - ?u) NUL)" by auto
    have "sha_unprocessedBytes s2 = (length msg + 1 + (64 - ?u)) mod 64"
      using inv_unprocessed[OF s2(2)] by simp
    also have "\<dots> = (?u + (64 - ?u)) mod 64" unfolding u by (rule mod_add_left_eq[symmetric])
    also have "\<dots> = 0" using \<open>?u < 64\<close> by simp
    finally have z: "sha_unprocessedBytes s2 = 0" .
    show ?thesis
      by (rule that[of s2 "64 - ?u"]) (use True s2 z pad_pieces[OF u] in simp_all)
  next
    case False
    show ?thesis
      by (rule that[of s1 0]) (use False s1 pad_pieces[OF u] in simp_all)
  qed
  let ?last = "replicate (56 - sha_unprocessedBytes s2) NUL @ ?f"
  have "?last \<noteq> []" using fl by auto
  from AddBytes_inv[OF s2(2) this] obtain s3 where s3: "SHA1AddBytes s2 ?last = Inr s3"
    "sha_inv s3 ((msg @ [CHR 0x80] @ replicate z NUL) @ ?last)" by blast
  have "(msg @ [CHR 0x80] @ replicate z NUL) @ ?last = sha_pad msg"
    unfolding sha_pad_def f s2(4)[symmetric] by simp
  then have "fst (absorb sha_init (sha_pad msg)) = sha_H s3" using s3(2) by (simp add: sha_inv_def)
  then have "sha1 msg = (case sha_H s3 of (h0, h1, h2, h3, h4) \<Rightarrow>
      concat (map storeBigEndianUint32 [h0, h1, h2, h3, h4]))"
    by (simp add: sha1_def storeBigEndian_be)
  then show ?thesis
    using s1(1) s2(1,3) s3(1) by (auto simp: SHA1GetDigest_def Let_def split: prod.splits)
qed

fun add_all :: "SHA1 \<Rightarrow> char list list \<Rightarrow> SHA1 res" where
  "add_all s [] = Inr s"
| "add_all s (d # ds) = bindr (SHA1AddBytes s d) (\<lambda>s. add_all s ds)"

lemma add_all_inv:
  "sha_inv s msg \<Longrightarrow> [] \<notin> set ds \<Longrightarrow>
   \<exists>s'. add_all s ds = Inr s' \<and> sha_inv s' (msg @ concat ds)
     \<and> sha_size s' = sha_size s + of_nat (length (concat ds))"
proof (induction ds arbitrary: s msg)
  case (Cons d ds)
  from AddBytes_inv[OF Cons.prems(1), of d] Cons.prems(2) obtain s1 where
    s1: "SHA1AddBytes s d = Inr s1" "sha_inv s1 (msg @ d)" "sha_size s1 = sha_size s + of_nat (length d)"
    by auto
  with Cons.IH[OF s1(2)] Cons.prems(2) show ?case by auto
qed simp

text \<open>C27: the streaming SHA-1 computes the digest of the whole message, however it is cut up. Starting from
  \<open>SHA1Init\<close>, any sequence of \<open>SHA1AddBytes\<close> calls with non-empty pieces followed by
  \<open>SHA1GetDigest\<close> runs without an assert failing and returns the SHA-1 of the concatenation of
  the pieces (padding, block boundaries and the 64 bit length included), for messages of
  less than 4 GiB.\<close>

theorem sha1_streaming:
  assumes "length (sha_bytes s) = 64" and "[] \<notin> set ds" and "length (concat ds) < 2 ^ 32"
  shows "\<exists>s1 s2. add_all (SHA1Init s) ds = Inr s1 \<and> SHA1GetDigest s1 = Inr (sha1 (concat ds), s2)"
proof -
  have "sha_inv (SHA1Init s) []"
    using assms(1) by (simp add: sha_inv_def SHA1Init_def absorb_short sha_init_def)
  from add_all_inv[OF this assms(2)] obtain s1 where
    "add_all (SHA1Init s) ds = Inr s1" "sha_inv s1 (concat ds)" "sha_size s1 = of_nat (length (concat ds))"
    by (auto simp: SHA1Init_def)
  with digest_props[of s1 "concat ds"] assms(3) show ?thesis by blast
qed

theorem sha1_streaming_witness:
  "\<exists>s1 s2. add_all (SHA1Init \<lparr>sha_H = sha_init, sha_bytes = replicate 64 NUL, sha_unprocessedBytes = 9,
       sha_size = 5\<rparr>) [''he'', ''llo''] = Inr s1 \<and> SHA1GetDigest s1 = Inr (sha1 ''hello'', s2)"
  using sha1_streaming[of "\<lparr>sha_H = sha_init, sha_bytes = replicate 64 NUL, sha_unprocessedBytes = 9,
       sha_size = 5\<rparr>" "[''he'', ''llo'']"] by simp

end
