(* ===== verification/Auth.thy ===== *)
theory Auth
  imports Sha1 Buffer
begin

text \<open>
  \<^verbatim>\<open>adbus/auth.c\<close>: the SASL client and server.

  The callbacks and the system calls are the environment \<open>auth_env\<close>: what \<^verbatim>\<open>send\<close> returns for a
  string given everything sent before, the random bytes, the home directory and the contents of
  files (as the lines \<^verbatim>\<open>fgets\<close> returns). The callback that decides about an external identity is
  part of the structure, as in the code. The strings sent so far (\<open>au_sent\<close>) and the
  number of random bytes used are recorded in the state. A \<^verbatim>\<open>d_String\<close> is its contents, which may hold NUL
  characters here; \<open>cstr\<close> is what a C string function sees of it.
\<close>

section \<open>Hexadecimal strings\<close>

definition cstr :: "string \<Rightarrow> string" where
  "cstr s = takeWhile (\<lambda>c. c \<noteq> NUL) s"

definition hex_digit :: "char \<Rightarrow> nat option" where
  "hex_digit c =
     (if in_range CHR ''0'' CHR ''9'' c then Some (ord_of c - ord_of CHR ''0'')
      else if in_range CHR ''a'' CHR ''f'' c then Some (ord_of c - ord_of CHR ''a'' + 10)
      else if in_range CHR ''A'' CHR ''F'' c then Some (ord_of c - ord_of CHR ''A'' + 10)
      else None)"

fun hex_pairs :: "string \<Rightarrow> string" where
  "hex_pairs (a # b # rest) =
     (case hex_digit a of None \<Rightarrow> [] | Some hi \<Rightarrow>
       (case hex_digit b of None \<Rightarrow> [] | Some lo \<Rightarrow> char_of (hi * 16 + lo) # hex_pairs rest))"
| "hex_pairs _ = []"

definition HexDecode :: "string \<Rightarrow> string \<Rightarrow> string" where
  "HexDecode out str = (if length str mod 2 \<noteq> 0 then out else out @ hex_pairs str)"

definition hex_char :: "nat \<Rightarrow> char" where
  "hex_char n = char_of (if n < 10 then n + ord_of CHR ''0'' else n + (ord_of CHR ''a'' - 10))"

definition HexEncode :: "string \<Rightarrow> string \<Rightarrow> string" where
  "HexEncode out data = out @ concat (map (\<lambda>c. [hex_char (ord_of c div 16), hex_char (ord_of c mod 16)]) data)"

section \<open>State\<close>

datatype mech = NOT_TRIED | NOT_SUPPORTED | BEGIN

record auth_env =
  env_send :: "string list \<Rightarrow> string \<Rightarrow> int"
  env_rand :: "nat \<Rightarrow> char"
  env_home :: "string option"
  env_file :: "string \<Rightarrow> string list option"

record adbus_Auth =
  au_server :: bool
  au_cookie :: mech
  au_external :: mech
  au_externalcb :: "(string \<Rightarrow> bool) option"
  au_onData :: bool
  au_id :: string
  au_okCmd :: string
  au_okSent :: bool
  au_sent :: "string list"
  au_rands :: nat

abbreviation CRLF :: string where "CRLF \<equiv> [CHR 0x0D, CHR 0x0A]"

definition adbus_sauth_new :: adbus_Auth where
  "adbus_sauth_new = \<lparr>au_server = True, au_cookie = NOT_TRIED, au_external = NOT_SUPPORTED,
     au_externalcb = None, au_onData = False, au_id = [], au_okCmd = ''OK 1234deadbeef'' @ CRLF,
     au_okSent = False, au_sent = [], au_rands = 0\<rparr>"

definition adbus_sauth_setuuid :: "adbus_Auth \<Rightarrow> string \<Rightarrow> adbus_Auth" where
  "adbus_sauth_setuuid a uuid = a\<lparr>au_okCmd := HexEncode ''OK '' (cstr uuid) @ CRLF\<rparr>"

definition adbus_sauth_external :: "adbus_Auth \<Rightarrow> (string \<Rightarrow> bool) option \<Rightarrow> adbus_Auth res" where
  "adbus_sauth_external a cb =
     bindr (assertr (au_server a \<and> au_external a = NOT_SUPPORTED)) (\<lambda>_.
       Inr (a\<lparr>au_external := NOT_TRIED, au_externalcb := cb\<rparr>))"

text \<open>\<open>localid\<close> is what \<^verbatim>\<open>LocalId\<close> prints: the user id in decimal.\<close>

definition adbus_cauth_new :: "string \<Rightarrow> adbus_Auth" where
  "adbus_cauth_new localid = \<lparr>au_server = False, au_cookie = NOT_TRIED, au_external = NOT_SUPPORTED,
     au_externalcb = None, au_onData = False, au_id = localid, au_okCmd = [],
     au_okSent = False, au_sent = [], au_rands = 0\<rparr>"

definition adbus_cauth_external :: "adbus_Auth \<Rightarrow> adbus_Auth res" where
  "adbus_cauth_external a =
     bindr (assertr (\<not> au_server a \<and> au_external a = NOT_SUPPORTED)) (\<lambda>_.
       Inr (a\<lparr>au_external := NOT_TRIED\<rparr>))"

section \<open>Sending\<close>

type_synonym auth_res = "(int \<times> adbus_Auth) res"

definition Send :: "auth_env \<Rightarrow> adbus_Auth \<Rightarrow> string \<Rightarrow> auth_res" where
  "Send env a data =
     (let s = cstr data; sent = env_send env (au_sent a) s; a' = a\<lparr>au_sent := au_sent a @ [s]\<rparr>
      in if sent < 0 then Inr (-1, a') else if sent \<noteq> int (length s) then Inl Abort else Inr (0, a'))"

definition RandomData :: "auth_env \<Rightarrow> adbus_Auth \<Rightarrow> string \<times> adbus_Auth" where
  "RandomData env a =
     (map (\<lambda>i. env_rand env (au_rands a + i)) [0..<64], a\<lparr>au_rands := au_rands a + 64\<rparr>)"

section \<open>Server\<close>

definition ServerReset :: "auth_env \<Rightarrow> adbus_Auth \<Rightarrow> auth_res" where
  "ServerReset env a = Send env (a\<lparr>au_okSent := False\<rparr>) (''REJECTED EXTERNAL'' @ CRLF)"

definition ServerOk :: "auth_env \<Rightarrow> adbus_Auth \<Rightarrow> auth_res" where
  "ServerOk env a = Send env (a\<lparr>au_okSent := True\<rparr>) (au_okCmd a)"

definition ServerExternalInit :: "auth_env \<Rightarrow> adbus_Auth \<Rightarrow> auth_res" where
  "ServerExternalInit env a =
     (let a = a\<lparr>au_external := BEGIN\<rparr>
      in if (case au_externalcb a of None \<Rightarrow> True | Some cb \<Rightarrow> cb (cstr (au_id a)))
         then ServerOk env a else ServerReset env a)"

definition ServerAuth :: "auth_env \<Rightarrow> adbus_Auth \<Rightarrow> string \<Rightarrow> string \<Rightarrow> auth_res" where
  "ServerAuth env a mech data =
     (let a = a\<lparr>au_id := data\<rparr>
      in if au_external a = NOT_TRIED \<and> mech = ''EXTERNAL''
         then ServerExternalInit env a else ServerReset env a)"

section \<open>Client\<close>

text \<open>
  \<^verbatim>\<open>GetCookie\<close> on one line of the keyring file that starts with the id: the text behind the
  second field, without the newline. A line that ends with the blank after the second field makes the
  computed length negative.
\<close>

definition cookie_line :: "string \<Rightarrow> string \<Rightarrow> string res" where
  "cookie_line buf kid =
     (if length kid \<ge> length buf then Inr []
      else let timeBegin = drop (length kid + 1) buf;
               time = takeWhile (\<lambda>c. c \<noteq> CHR '' '') timeBegin
           in if length time = length timeBegin then Inr []
              else let dataBegin = drop (length time + 1) timeBegin
                   in if dataBegin = [] then Inl Fault else Inr (butlast dataBegin))"

definition GetCookie :: "auth_env \<Rightarrow> string \<Rightarrow> string \<Rightarrow> string res" where
  "GetCookie env keyring kid =
     (let path = (case env_home env of None \<Rightarrow> [] | Some home \<Rightarrow> home @ ''/'') @ ''.dbus-keyrings/'' @ keyring
      in bindr (case env_file env path of None \<Rightarrow> Inr []
                | Some ls \<Rightarrow> (case filter (\<lambda>l. take (length kid) l = kid) ls of
                     [] \<Rightarrow> Inr [] | l # _ \<Rightarrow> cookie_line l kid)) (\<lambda>cookie.
         bindr (checkr (length cookie > 0)) (\<lambda>_. Inr cookie)))"

definition ParseServerData :: "string \<Rightarrow> (string \<times> string \<times> string) res" where
  "ParseServerData data =
     (let keyring = takeWhile (\<lambda>c. c \<noteq> CHR '' '') data
      in if length keyring = length data then Inl Failed
         else let idBegin = drop (length keyring + 1) data;
                  kid = takeWhile (\<lambda>c. c \<noteq> CHR '' '') idBegin
              in if length kid = length idBegin then Inl Failed
                 else Inr (keyring, kid, drop (length kid + 1) idBegin))"

definition sha1_of :: "string \<Rightarrow> string res" where
  "sha1_of str =
     bindr (SHA1AddBytes (SHA1Init \<lparr>sha_H = (0, 0, 0, 0, 0), sha_bytes = replicate 64 NUL,
              sha_unprocessedBytes = 0, sha_size = 0\<rparr>) str) (\<lambda>s.
     bindr (SHA1GetDigest s) (\<lambda>(digest, s). Inr digest))"

text \<open>
  The two lookups fail with the return value -1; the cookie is a \<^verbatim>\<open>d_String\<close>, so the string
  that is hashed is taken by its size.
\<close>

definition ClientCookie :: "auth_env \<Rightarrow> adbus_Auth \<Rightarrow> string \<Rightarrow> auth_res" where
  "ClientCookie env a data =
     (case bindr (ParseServerData (cstr data)) (\<lambda>(keyring, kid, servdata).
             bindr (GetCookie env keyring kid) (\<lambda>cookie. Inr (servdata, cookie))) of
        Inl e \<Rightarrow> if e = Failed then Inr (-1, a) else Inl e
      | Inr (servdata, cookie) \<Rightarrow>
          (let (localdata, a) = RandomData env a;
               shastr = HexEncode (servdata @ '':'') localdata @ '':'' @ cookie
           in bindr (sha1_of shastr) (\<lambda>digest.
                let replyarg = HexEncode (HexEncode [] localdata @ '' '') digest;
                    reply = HexEncode ''DATA '' replyarg @ CRLF
                in Send env a reply)))"

definition ClientReset :: "auth_env \<Rightarrow> adbus_Auth \<Rightarrow> auth_res" where
  "ClientReset env a =
     (if au_external a = NOT_TRIED then
        Send env (a\<lparr>au_onData := False, au_external := BEGIN\<rparr>)
          (HexEncode ''AUTH EXTERNAL '' (au_id a) @ CRLF)
      else if au_cookie a = NOT_TRIED then
        Send env (a\<lparr>au_onData := True, au_cookie := BEGIN\<rparr>)
          (HexEncode ''AUTH DBUS_COOKIE_SHA1 '' (au_id a) @ CRLF)
      else Inr (-1, a))"

definition adbus_cauth_start :: "auth_env \<Rightarrow> adbus_Auth \<Rightarrow> auth_res" where
  "adbus_cauth_start env a = ClientReset env a"

section \<open>Lines\<close>

text \<open>
  The two tests that strip the line end read \<^verbatim>\<open>line[len - 1]\<close>, which is in front of the line
  once \<^verbatim>\<open>len\<close> is zero.
\<close>

definition strip_eol :: "string \<Rightarrow> string res" where
  "strip_eol line =
     (if line = [] then Inl Fault
      else let line = (if last line = CHR 0x0A then butlast line else line)
           in if line = [] then Inl Fault
              else Inr (if last line = CHR 0x0D then butlast line else line))"

definition reply_error :: "auth_env \<Rightarrow> adbus_Auth \<Rightarrow> auth_res" where
  "reply_error env a = bindr (Send env a (''ERROR'' @ CRLF)) (\<lambda>(_, a). Inr (0, a))"

definition adbus_auth_line :: "auth_env \<Rightarrow> adbus_Auth \<Rightarrow> string \<Rightarrow> auth_res" where
  "adbus_auth_line env a line =
     bindr (strip_eol line) (\<lambda>line.
       let cmd = takeWhile (\<lambda>c. c \<noteq> CHR '' '') line; has_arg = (length cmd < length line);
           arg = drop (length cmd + 1) line
       in if au_server a \<and> has_arg \<and> cmd = ''AUTH'' then
            (let mech = takeWhile (\<lambda>c. c \<noteq> CHR '' '') arg
             in if length mech < length arg
                then ServerAuth env a mech (HexDecode [] (drop (length mech + 1) arg))
                else reply_error env a)
          else if au_onData a \<and> cmd = ''DATA'' then
            ClientCookie env a (if has_arg then HexDecode [] arg else [])
          else if au_server a \<and> cmd = ''CANCEL'' then ServerReset env a
          else if au_server a \<and> au_okSent a \<and> cmd = ''BEGIN'' then Inr (1, a)
          else if \<not> au_server a \<and> cmd = ''OK'' then
            bindr (Send env a (''BEGIN'' @ CRLF)) (\<lambda>(_, a). Inr (1, a))
          else if \<not> au_server a \<and> cmd = ''REJECTED'' then ClientReset env a
          else if cmd = ''ERROR'' then Inr (-1, a)
          else reply_error env a)"

text \<open>The loop over the complete lines of the buffer ends because every line is removed.\<close>

function adbus_auth_parse :: "auth_env \<Rightarrow> adbus_Auth \<Rightarrow> adbus_Buffer \<Rightarrow> (int \<times> adbus_Auth \<times> adbus_Buffer) res" where
  "adbus_auth_parse env a buf =
     (case adbus_buf_line buf of None \<Rightarrow> Inr (0, a, buf)
      | Some len \<Rightarrow>
          bindr (adbus_auth_line env a (take len (buf_b buf))) (\<lambda>(ret, a).
          bindr (adbus_buf_remove buf 0 len) (\<lambda>buf.
            if ret = 0 then adbus_auth_parse env a buf else Inr (ret, a, buf))))"
  by pat_completeness auto

termination
  by (relation "measure (\<lambda>(env, a, buf). length (buf_b buf))")
    (auto simp: buf_line_remove(1) dest!: buf_line_remove(2))

declare adbus_auth_parse.simps [simp del]

section \<open>Hexadecimal round trip\<close>

lemma hex_digit_char: "n < 16 \<Longrightarrow> hex_digit (hex_char n) = Some n"
proof -
  assume "n < 16"
  then consider "n < 10" | "10 \<le> n" "n < 16" by linarith
  then show ?thesis
    by cases (auto simp: hex_digit_def hex_char_def in_range_def ord_of_def)
qed

lemma char_of_ord [simp]: "char_of (ord_of c) = c"
  by (simp add: ord_of_def)

lemma nibbles_less: "ord_of c div 16 < 16" "ord_of c mod 16 < 16"
  using nat_of_char_less_256[of c] by (auto simp: ord_of_def less_mult_imp_div_less)

lemma hex_pairs_encode: "hex_pairs (HexEncode [] data) = data"
  by (induction data) (simp_all add: HexEncode_def hex_digit_char nibbles_less)

lemma HexEncode_out: "HexEncode out data = out @ HexEncode [] data"
  by (simp add: HexEncode_def)

lemma length_HexEncode: "length (HexEncode [] data) = 2 * length data"
  by (induction data) (simp_all add: HexEncode_def)

text \<open>Decoding undoes encoding: for every string of bytes, \<open>HexDecode\<close> applied to the output of
  \<open>HexEncode\<close> appends exactly that string.\<close>

theorem hex_roundtrip: "HexDecode out (HexEncode [] data) = out @ data"
  by (simp add: HexDecode_def length_HexEncode hex_pairs_encode)

lemma hex_char_not: "n < 16 \<Longrightarrow> hex_char n \<notin> {CHR '' '', CHR 0x0A, CHR 0x0D, NUL}"
proof -
  assume "n < 16"
  then consider "n < 10" | "10 \<le> n" "n < 16" by linarith
  then show ?thesis
  proof cases
    case 1
    have "(of_char (hex_char n) :: nat) = n + 48" using 1 by (simp add: hex_char_def ord_of_def)
    then show ?thesis using 1 by auto
  next
    case 2
    have "(of_char (hex_char n) :: nat) = n + 87" using 2 by (simp add: hex_char_def ord_of_def)
    then show ?thesis using 2 by auto
  qed
qed

lemma HexEncode_chars: "c \<in> set (HexEncode [] data) \<Longrightarrow> c \<notin> {CHR '' '', CHR 0x0A, CHR 0x0D, NUL}"
  using hex_char_not nibbles_less by (auto simp: HexEncode_def)

section \<open>What a server accepts\<close>

lemma Send_props: "Send env a d = Inr (r, a') \<Longrightarrow>
  a' = a\<lparr>au_sent := au_sent a @ [cstr d]\<rparr> \<and> (r = 0 \<or> r = -1)"
  by (auto simp: Send_def Let_def split: if_splits)

text \<open>A line that asks for the external mechanism and gives an identity.\<close>

definition auth_request :: "string \<Rightarrow> string \<Rightarrow> bool" where
  "auth_request line ident \<longleftrightarrow>
     (\<exists>h. strip_eol line = Inr (''AUTH EXTERNAL '' @ h) \<and> ident = HexDecode [] h)"

definition approves :: "(string \<Rightarrow> bool) option \<Rightarrow> string \<Rightarrow> bool" where
  "approves cb ident \<longleftrightarrow> (case cb of None \<Rightarrow> True | Some f \<Rightarrow> f (cstr ident))"

definition server_inv :: "(string \<Rightarrow> bool) option \<Rightarrow> string list \<Rightarrow> adbus_Auth \<Rightarrow> bool" where
  "server_inv cb ls a \<longleftrightarrow> au_server a \<and> \<not> au_onData a \<and> au_externalcb a = cb
     \<and> (au_okSent a \<longrightarrow> approves cb (au_id a) \<and> (\<exists>l \<in> set ls. auth_request l (au_id a)))"

lemma word_split:
  assumes "cmd = takeWhile (\<lambda>c. c \<noteq> CHR '' '') line" and "length cmd < length line"
  shows "line = cmd @ CHR '' '' # drop (length cmd + 1) line"
proof -
  let ?n = "length cmd"
  have 1: "line = take ?n line @ line ! ?n # drop (Suc ?n) line"
    using assms(2) by (rule id_take_nth_drop)
  have 2: "line ! ?n = CHR '' ''"
    using nth_length_takeWhile[of "\<lambda>c. c \<noteq> CHR '' ''" line] assms by simp
  have 3: "take ?n line = cmd"
    unfolding assms(1) by (rule takeWhile_eq_take[symmetric])
  show ?thesis using 1 unfolding 2 3 by simp
qed

lemma ServerAuth_cases:
  "ServerAuth env a m data =
     (if au_external a = NOT_TRIED \<and> m = ''EXTERNAL''
      then (if approves (au_externalcb a) data
            then ServerOk env (a\<lparr>au_id := data, au_external := BEGIN\<rparr>)
            else ServerReset env (a\<lparr>au_id := data, au_external := BEGIN\<rparr>))
      else ServerReset env (a\<lparr>au_id := data\<rparr>))"
  by (auto simp: ServerAuth_def ServerExternalInit_def approves_def Let_def split: option.splits)

lemma ServerAuth_inv:
  assumes inv: "server_inv cb ls a" and a: "ServerAuth env a m data = Inr (r, a')"
    and req: "m = ''EXTERNAL'' \<Longrightarrow> auth_request l data"
  shows "server_inv cb (ls @ [l]) a' \<and> (r = 0 \<or> r = -1)"
proof -
  have i: "au_server a" "\<not> au_onData a" "au_externalcb a = cb" using inv by (auto simp: server_inv_def)
  show ?thesis
  proof (cases "au_external a = NOT_TRIED \<and> m = ''EXTERNAL'' \<and> approves cb data")
    case True
    with a i have "Send env (a\<lparr>au_id := data, au_external := BEGIN, au_okSent := True\<rparr>) (au_okCmd a) = Inr (r, a')"
      by (simp add: ServerAuth_cases ServerOk_def)
    with i True req show ?thesis by (auto simp: server_inv_def dest!: Send_props)
  next
    case False
    with a i obtain b where "ServerReset env b = Inr (r, a')" "au_server b" "\<not> au_onData b" "au_externalcb b = cb"
      by (fastforce simp: ServerAuth_cases split: if_splits)
    then show ?thesis by (auto simp: ServerReset_def server_inv_def dest!: Send_props)
  qed
qed

lemma reply_error_inv:
  "server_inv cb ls a \<Longrightarrow> reply_error env a = Inr (r, a') \<Longrightarrow> server_inv cb (ls @ [l]) a' \<and> r = 0"
  by (auto simp: reply_error_def bindr_Inr_conv server_inv_def dest!: Send_props)

lemma ServerReset_inv:
  "server_inv cb ls a \<Longrightarrow> ServerReset env a = Inr (r, a') \<Longrightarrow> server_inv cb (ls @ [l]) a' \<and> (r = 0 \<or> r = -1)"
  by (auto simp: ServerReset_def server_inv_def dest!: Send_props)

lemma server_line_inv:
  assumes inv: "server_inv cb ls a" and l: "adbus_auth_line env a line = Inr (r, a')"
  shows "server_inv cb (ls @ [line]) a' \<and> (r = 1 \<longrightarrow> au_okSent a \<and> a' = a)"
proof -
  from l obtain s where s: "strip_eol line = Inr s" by (auto simp: adbus_auth_line_def bindr_Inr_conv)
  define cmd where "cmd = takeWhile (\<lambda>c. c \<noteq> CHR '' '') s"
  define arg where "arg = drop (length cmd + 1) s"
  define m where "m = takeWhile (\<lambda>c. c \<noteq> CHR '' '') arg"
  have sv: "au_server a" "\<not> au_onData a" using inv by (auto simp: server_inv_def)
  consider (auth) "length cmd < length s" "cmd = ''AUTH''" "length m < length arg"
      "ServerAuth env a m (HexDecode [] (drop (length m + 1) arg)) = Inr (r, a')"
    | (err) "reply_error env a = Inr (r, a')"
    | (cancel) "ServerReset env a = Inr (r, a')"
    | (ret) "a' = a" "r = 1 \<longrightarrow> au_okSent a"
    using l s sv unfolding adbus_auth_line_def cmd_def arg_def m_def
    by (auto simp: Let_def split: if_splits)
  then show ?thesis
  proof cases
    case auth
    have "auth_request line (HexDecode [] (drop (length m + 1) arg))" if "m = ''EXTERNAL''"
      unfolding auth_request_def
      using s word_split[OF cmd_def auth(1)] word_split[OF m_def auth(3)] auth(2) that
      by (intro exI[of _ "drop (length m + 1) arg"]) (simp add: arg_def)
    from ServerAuth_inv[OF inv auth(4) this] show ?thesis by auto
  next
    case err
    with reply_error_inv[OF inv err] show ?thesis by simp
  next
    case cancel
    with ServerReset_inv[OF inv cancel] show ?thesis by auto
  next
    case ret
    with inv show ?thesis by (auto simp: server_inv_def)
  qed
qed

text \<open>
  The states of a server after some lines, each of which it answered and asked for more. The server may have
  been given a uuid before.
\<close>

inductive server_reach :: "auth_env \<Rightarrow> (string \<Rightarrow> bool) option \<Rightarrow> string list \<Rightarrow> adbus_Auth \<Rightarrow> bool"
  for env :: auth_env and cb :: "(string \<Rightarrow> bool) option" where
  start: "adbus_sauth_external adbus_sauth_new cb = Inr a \<Longrightarrow> server_reach env cb [] a"
| start_uuid: "adbus_sauth_external (adbus_sauth_setuuid adbus_sauth_new uuid) cb = Inr a \<Longrightarrow>
    server_reach env cb [] a"
| line: "server_reach env cb ls a \<Longrightarrow> adbus_auth_line env a l = Inr (0, a') \<Longrightarrow>
    server_reach env cb (ls @ [l]) a'"

lemma server_reach_inv: "server_reach env cb ls a \<Longrightarrow> server_inv cb ls a"
proof (induction rule: server_reach.induct)
  case (start a)
  then show ?case by (auto simp: adbus_sauth_external_def adbus_sauth_new_def server_inv_def)
next
  case (start_uuid uuid a)
  then show ?case
    by (auto simp: adbus_sauth_external_def adbus_sauth_setuuid_def adbus_sauth_new_def server_inv_def)
next
  case (line ls a l a')
  from server_line_inv[OF line.IH line.hyps(2)] show ?case by simp
qed

text \<open>C24: a server lets nobody in without approval. Whatever lines a client sends and whatever the socket
  answers, when \<open>adbus_auth_line\<close> returns 1 on the server, one of the earlier lines asked for the
  external mechanism with the identity the server now holds, and the callback approved exactly that
  identity; rejected or cancelled requests in between do not help.\<close>

theorem server_accepts_approved:
  assumes "server_reach env cb ls a" and "adbus_auth_line env a l = Inr (1, a')"
  shows "approves cb (au_id a') \<and> (\<exists>k \<in> set ls. auth_request k (au_id a'))"
  using server_line_inv[OF server_reach_inv[OF assms(1)] assms(2)] server_reach_inv[OF assms(1)]
  by (auto simp: server_inv_def)

definition sample_env :: auth_env where
  "sample_env = \<lparr>env_send = (\<lambda>_ s. int (length s)), env_rand = (\<lambda>_. NUL), env_home = None,
     env_file = (\<lambda>_. None)\<rparr>"

lemma sample_server:
  "\<exists>a a'. server_reach sample_env (Some (\<lambda>i. i = ''1'')) [''AUTH EXTERNAL 31'' @ CRLF] a
     \<and> adbus_auth_line sample_env a (''BEGIN'' @ CRLF) = Inr (1, a')"
proof -
  let ?cb = "Some (\<lambda>i. i = ''1'')" and ?l = "''AUTH EXTERNAL 31'' @ CRLF"
  let ?s0 = "adbus_sauth_new\<lparr>au_external := NOT_TRIED, au_externalcb := ?cb\<rparr>"
  let ?s1 = "?s0\<lparr>au_id := ''1'', au_external := BEGIN, au_okSent := True,
     au_sent := [''OK 1234deadbeef'' @ CRLF]\<rparr>"
  have "adbus_sauth_external adbus_sauth_new ?cb = Inr ?s0"
    by (simp add: adbus_sauth_external_def adbus_sauth_new_def)
  moreover have "char_of (49 :: nat) = CHR ''1''" by code_simp
  then have "adbus_auth_line sample_env ?s0 ?l = Inr (0, ?s1)"
    by (simp add: adbus_auth_line_def strip_eol_def Let_def adbus_sauth_new_def ServerAuth_cases ServerOk_def
        approves_def HexDecode_def hex_digit_def in_range_def ord_of_def cstr_def Send_def sample_env_def)
  ultimately have "server_reach sample_env ?cb ([] @ [?l]) ?s1"
    by (intro server_reach.line[OF server_reach.start])
  moreover have "adbus_auth_line sample_env ?s1 (''BEGIN'' @ CRLF) = Inr (1, ?s1)"
    by (simp add: adbus_auth_line_def strip_eol_def Let_def adbus_sauth_new_def)
  ultimately show ?thesis by auto
qed

theorem server_accepts_approved_witness:
  "\<exists>a a'. adbus_auth_line sample_env a (''BEGIN'' @ CRLF) = Inr (1, a')
     \<and> approves (Some (\<lambda>i. i = ''1'')) (au_id a') \<and> auth_request (''AUTH EXTERNAL 31'' @ CRLF) (au_id a')"
  using sample_server server_accepts_approved by fastforce

section \<open>A client and a server\<close>

lemma Send_honest:
  "(\<And>log s. env_send env log s = int (length s)) \<Longrightarrow>
   Send env a d = Inr (0, a\<lparr>au_sent := au_sent a @ [cstr d]\<rparr>)"
  by (simp add: Send_def Let_def)

lemma cstr_id: "NUL \<notin> set s \<Longrightarrow> cstr s = s"
  by (auto simp: cstr_def takeWhile_eq_all_conv)

lemma strip_crlf: "last (x # l) \<noteq> CHR 0x0D \<Longrightarrow> strip_eol ((x # l) @ CRLF) = Inr (x # l)"
  by (simp add: strip_eol_def butlast_append)

lemma request_line:
  assumes "NUL \<notin> set ident"
  shows "cstr (HexEncode ''AUTH EXTERNAL '' ident @ CRLF) = ''AUTH EXTERNAL '' @ HexEncode [] ident @ CRLF"
    and "strip_eol (''AUTH EXTERNAL '' @ HexEncode [] ident @ CRLF) = Inr (''AUTH EXTERNAL '' @ HexEncode [] ident)"
proof -
  have n: "NUL \<notin> set (HexEncode [] ident)" "CHR 0x0D \<notin> set (HexEncode [] ident)"
    using HexEncode_chars by blast+
  then show "cstr (HexEncode ''AUTH EXTERNAL '' ident @ CRLF) = ''AUTH EXTERNAL '' @ HexEncode [] ident @ CRLF"
    by (subst HexEncode_out) (simp add: cstr_id)
  have "last (''AUTH EXTERNAL '' @ HexEncode [] ident) \<noteq> CHR 0x0D"
    using n(2) by (cases "HexEncode [] ident = []") (simp, metis last_appendR last_in_set)
  then show "strip_eol (''AUTH EXTERNAL '' @ HexEncode [] ident @ CRLF) = Inr (''AUTH EXTERNAL '' @ HexEncode [] ident)"
    using strip_crlf[of "CHR ''A''" "''UTH EXTERNAL '' @ HexEncode [] ident"] by simp
qed

text \<open>C25: a client and a server of this module complete the handshake. Over a socket that sends everything,
  a client with the external mechanism opens with its hex encoded identity; the server, whose callback
  approves that identity, answers with its OK line; the client takes that as success and sends
  BEGIN, which the server takes as success, holding the client's identity.\<close>

theorem auth_handshake:
  assumes "\<And>log s. env_send env log s = int (length s)" and "NUL \<notin> set ident"
    and "approves cb ident"
  shows "\<exists>c0 c1 c2 s0 s1 s2 l1 l2 l3.
    adbus_cauth_external (adbus_cauth_new ident) = Inr c0 \<and> adbus_cauth_start env c0 = Inr (0, c1)
    \<and> au_sent c1 = [l1]
    \<and> adbus_sauth_external adbus_sauth_new cb = Inr s0 \<and> adbus_auth_line env s0 l1 = Inr (0, s1)
    \<and> au_sent s1 = [l2]
    \<and> adbus_auth_line env c1 l2 = Inr (1, c2) \<and> au_sent c2 = [l1, l3]
    \<and> adbus_auth_line env s1 l3 = Inr (1, s2) \<and> au_id s2 = ident"
proof -
  note snd = Send_honest[OF assms(1)]
  let ?l1 = "''AUTH EXTERNAL '' @ HexEncode [] ident @ CRLF"
  let ?l2 = "''OK 1234deadbeef'' @ CRLF" and ?l3 = "''BEGIN'' @ CRLF"
  let ?c0 = "(adbus_cauth_new ident)\<lparr>au_external := NOT_TRIED\<rparr>"
  let ?c1 = "(adbus_cauth_new ident)\<lparr>au_external := BEGIN, au_sent := [?l1]\<rparr>"
  let ?s0 = "adbus_sauth_new\<lparr>au_external := NOT_TRIED, au_externalcb := cb\<rparr>"
  let ?s1 = "adbus_sauth_new\<lparr>au_external := BEGIN, au_externalcb := cb, au_id := ident, au_okSent := True,
      au_sent := [?l2]\<rparr>"
  have c0: "adbus_cauth_external (adbus_cauth_new ident) = Inr ?c0"
    by (simp add: adbus_cauth_external_def adbus_cauth_new_def)
  have c1: "adbus_cauth_start env ?c0 = Inr (0, ?c1)"
    using request_line(1)[OF assms(2)]
    by (simp add: adbus_cauth_start_def ClientReset_def snd adbus_cauth_new_def)
  have s0: "adbus_sauth_external adbus_sauth_new cb = Inr ?s0"
    by (simp add: adbus_sauth_external_def adbus_sauth_new_def)
  have ok: "cstr ?l2 = ?l2" by (simp add: cstr_def)
  have "HexDecode [] (HexEncode [] ident) = ident"
    by (simp add: HexDecode_def length_HexEncode hex_pairs_encode)
  then have s1: "adbus_auth_line env ?s0 ?l1 = Inr (0, ?s1)"
    unfolding adbus_auth_line_def request_line(2)[OF assms(2)] bindr_simps
    using assms(3) ok by (simp add: Let_def adbus_sauth_new_def ServerAuth_cases ServerOk_def snd)
  have c2: "adbus_auth_line env ?c1 ?l2 = Inr (1, ?c1\<lparr>au_sent := [?l1, ?l3]\<rparr>)"
    by (simp add: adbus_auth_line_def strip_eol_def Let_def adbus_cauth_new_def snd cstr_def)
  have s2: "adbus_auth_line env ?s1 ?l3 = Inr (1, ?s1)"
    by (simp add: adbus_auth_line_def strip_eol_def Let_def adbus_sauth_new_def)
  show ?thesis
    by (rule exI[of _ ?c0], rule exI[of _ ?c1], rule exI[of _ "?c1\<lparr>au_sent := [?l1, ?l3]\<rparr>"],
        rule exI[of _ ?s0], rule exI[of _ ?s1], rule exI[of _ ?s1], rule exI[of _ ?l1],
        rule exI[of _ ?l2], rule exI[of _ ?l3]) (use c0 c1 s0 s1 c2 s2 in simp)
qed

theorem auth_handshake_witness:
  "\<exists>c0 c1 s0 s1 l1. adbus_cauth_external (adbus_cauth_new ''1000'') = Inr c0
     \<and> adbus_cauth_start sample_env c0 = Inr (0, c1) \<and> au_sent c1 = [l1]
     \<and> adbus_sauth_external adbus_sauth_new (Some (\<lambda>i. i = ''1000'')) = Inr s0
     \<and> adbus_auth_line sample_env s0 l1 = Inr (0, s1)"
  using auth_handshake[of sample_env "''1000''" "Some (\<lambda>i. i = ''1000'')"]
  by (simp add: sample_env_def approves_def cstr_def) blast

section \<open>Data in pieces\<close>

lemma buf_line_append:
  "adbus_buf_line buf = Some len \<Longrightarrow> adbus_buf_line (adbus_buf_append buf ys) = Some len"
proof -
  assume l: "adbus_buf_line buf = Some len"
  from buf_line_split[OF l] obtain pre rest where
    p: "buf_b buf = pre @ [CHR 0x0A] @ rest" "CHR 0x0A \<notin> set pre" "len = length pre + 1" by blast
  then have "takeWhile (\<lambda>c. c \<noteq> CHR 0x0A) (pre @ CHR 0x0A # rest @ ys) = pre"
    by (subst takeWhile_append2) auto
  with p show ?thesis by (simp add: adbus_buf_line_def adbus_buf_append_def Let_def)
qed

lemma auth_parse_append:
  "adbus_auth_parse env a buf = Inr (0, a1, buf1) \<Longrightarrow>
   adbus_auth_parse env a (adbus_buf_append buf ys) = adbus_auth_parse env a1 (adbus_buf_append buf1 ys)"
proof (induction env a buf rule: adbus_auth_parse.induct)
  case (1 env a buf)
  show ?case
  proof (cases "adbus_buf_line buf")
    case None
    with 1(2) show ?thesis by (simp add: adbus_auth_parse.simps[of env a buf])
  next
    case (Some len)
    let ?line = "take len (buf_b buf)" and ?rest = "buf\<lparr>buf_b := drop len (buf_b buf)\<rparr>"
    have len: "len \<le> length (buf_b buf)" using buf_line_remove(2)[OF Some] by simp
    from 1(2) Some obtain r a2 where
      r: "adbus_auth_line env a ?line = Inr (r, a2)" "r = 0" "adbus_auth_parse env a2 ?rest = Inr (0, a1, buf1)"
      by (auto simp: adbus_auth_parse.simps[of env a buf] buf_line_remove(1)[OF Some] bindr_Inr_conv split: if_splits)
    have "adbus_auth_parse env a (adbus_buf_append buf ys) = adbus_auth_parse env a2 (adbus_buf_append ?rest ys)"
      using r(1,2) len buf_line_remove(1)[OF buf_line_append[OF Some, of ys]]
      by (simp add: adbus_auth_parse.simps[of env a "adbus_buf_append buf ys"] buf_line_append[OF Some])
        (simp add: adbus_buf_append_def)
    also have "\<dots> = adbus_auth_parse env a1 (adbus_buf_append buf1 ys)"
      using 1(1)[OF Some r(1) refl buf_line_remove(1)[OF Some] r(2) r(3)] .
    finally show ?thesis .
  qed
qed

text \<open>C26: the authentication does not depend on how the stream of lines is cut into reads. If
  \<open>adbus_auth_parse\<close> has consumed the complete lines of some data and asks for more, then appending
  further data and calling it again gives the same result, replies and left-over bytes as
  one call on all of the data.\<close>

theorem auth_parse_pieces:
  assumes "adbus_auth_parse env a buf = Inr (0, a1, buf1)"
  shows "adbus_auth_parse env a1 (adbus_buf_append buf1 ys) = adbus_auth_parse env a (adbus_buf_append buf ys)"
  using auth_parse_append[OF assms] by simp

theorem auth_parse_pieces_witness:
  "adbus_auth_parse sample_env (adbus_sauth_new\<lparr>au_sent := [''ERROR'' @ CRLF]\<rparr>)
     (adbus_buf_append (adbus_buf_append adbus_buf_new ''AU'') ''TH x'')
   = adbus_auth_parse sample_env adbus_sauth_new
       (adbus_buf_append (adbus_buf_append adbus_buf_new [CHR ''X'', CHR 0x0A, CHR ''A'', CHR ''U'']) ''TH x'')"
  by (rule auth_parse_pieces)
    (simp add: adbus_auth_parse.simps adbus_buf_line_def adbus_buf_append_def adbus_buf_new_def
      adbus_auth_line_def strip_eol_def adbus_sauth_new_def reply_error_def Send_def cstr_def
      sample_env_def adbus_buf_remove_def Let_def)

text \<open>An empty line is fatal. When the received data starts with a newline, \<open>adbus_auth_line\<close> reads the
  byte in front of the buffer, on the client and on the server, before any authentication.\<close>

theorem auth_empty_line_faults:
  "adbus_auth_parse env a (adbus_buf_append adbus_buf_new (CHR 0x0A # rest)) = Inl Fault"
  by (simp add: adbus_auth_parse.simps adbus_buf_line_def adbus_buf_append_def adbus_buf_new_def
      adbus_auth_line_def strip_eol_def)

end
