(* ===== verification/Match_Rules.thy ===== *)
theory Match_Rules
  imports Parse
begin

text \<open>
  Match rules, from both ends: the string a client sends to the bus
  (\<^verbatim>\<open>adbusI_matchString\<close> of \<^verbatim>\<open>adbus/misc.c\<close>), the rule the server makes of such a
  string (\<^verbatim>\<open>IsArgKey\<close> and \<^verbatim>\<open>adbusI_serv_newmatch\<close> of \<^verbatim>\<open>adbus/server.c\<close>), and what
  the server's dispatch does with the rules of a remote (\<^verbatim>\<open>StringMatches\<close>, \<^verbatim>\<open>ArgsMatch\<close>
  and the test of \<^verbatim>\<open>RemoteDispatchMatch\<close> in \<^verbatim>\<open>adbus/server-dispatch.c\<close>).

  A pointer and a size are one string, a null pointer is \<open>None\<close>. The strings of the
  client's \<open>adbus_Match\<close> keep the size apart from the string, since the code prints the
  string up to its NUL whatever the size is.
\<close>

section \<open>The string of a match\<close>

record adbus_Match =
  am_type :: nat
  am_addMatchToBusDaemon :: bool
  am_replySerial :: int
  am_sender :: "(string \<times> int) option"
  am_destination :: "(string \<times> int) option"
  am_interface :: "(string \<times> int) option"
  am_path :: "(string \<times> int) option"
  am_member :: "(string \<times> int) option"
  am_error :: "(string \<times> int) option"
  am_arguments :: "(string \<times> int) option list"

text \<open>\<^verbatim>\<open>%*s\<close>: the whole string, filled up with blanks on the left to the given width.\<close>

definition fmt_width :: "int \<Rightarrow> string \<Rightarrow> string" where
  "fmt_width w v = replicate (nat w - length v) CHR '' '' @ v"

definition Append :: "string \<Rightarrow> string \<Rightarrow> (string \<times> int) option \<Rightarrow> string" where
  "Append s key field =
     (case field of
        None \<Rightarrow> s
      | Some (value, vsize) \<Rightarrow>
          let vsize = (if vsize < 0 then int (length value) else vsize)
          in s @ key @ ''='' @ [CHR 0x27] @ fmt_width vsize value @ [CHR 0x27] @ '','')"

definition TypeString :: "nat \<Rightarrow> string" where
  "TypeString type =
     (if type = ADBUS_MSG_METHOD then ''method_call''
      else if type = ADBUS_MSG_RETURN then ''method_return''
      else if type = ADBUS_MSG_ERROR then ''error''
      else if type = ADBUS_MSG_SIGNAL then ''signal''
      else ''unknown'')"

primrec match_args :: "string \<Rightarrow> nat \<Rightarrow> (string \<times> int) option list \<Rightarrow> string" where
  "match_args s i [] = s"
| "match_args s i (a # rest) = match_args (Append s (''arg'' @ dec i) a) (Suc i) rest"

definition adbusI_matchString :: "string \<Rightarrow> adbus_Match \<Rightarrow> string" where
  "adbusI_matchString s m =
     (let s = (if am_type m \<noteq> 0
               then s @ ''type='' @ [CHR 0x27] @ TypeString (am_type m) @ [CHR 0x27] @ '',''
               else s);
          s = Append s ''sender'' (am_sender m);
          s = Append s ''interface'' (am_interface m);
          s = Append s ''member'' (am_member m);
          s = Append s ''path'' (am_path m);
          s = Append s ''destination'' (am_destination m);
          s = match_args s 0 (am_arguments m)
      in if length s > 0 then butlast s else s)"

section \<open>The server's rule\<close>

record Match =
  ma_type :: nat
  ma_reply :: "32 word"
  ma_checkReply :: bool
  ma_path :: "string option"
  ma_interface :: "string option"
  ma_member :: "string option"
  ma_error :: "string option"
  ma_destination :: "string option"
  ma_sender :: "string option"
  ma_arguments :: "string option list"
  ma_data :: string

definition match_zero :: Match where
  "match_zero = \<lparr>ma_type = ADBUS_MSG_INVALID, ma_reply = 0, ma_checkReply = False,
     ma_path = None, ma_interface = None, ma_member = None, ma_error = None,
     ma_destination = None, ma_sender = None, ma_arguments = [], ma_data = []\<rparr>"

definition digit_val :: "char \<Rightarrow> nat" where
  "digit_val c = ord_of c - 48"

definition IsArgKey :: "string \<Rightarrow> nat option" where
  "IsArgKey key =
     (if length key < 3 \<or> take 3 key \<noteq> ''arg'' then None
      else if length key = 4 \<and> is_digit (key ! 3) then Some (digit_val (key ! 3))
      else if length key = 5 \<and> is_digit (key ! 3) \<and> is_digit (key ! 4) then
        (let num = digit_val (key ! 3) * 10 + digit_val (key ! 4)
         in if num \<le> 63 then Some num else None)
      else None)"

text \<open>\<^verbatim>\<open>memchr\<close>: what is before the character and what is after it.\<close>

definition memchr_split :: "char \<Rightarrow> string \<Rightarrow> (string \<times> string) option" where
  "memchr_split c s =
     (let b = takeWhile (\<lambda>x. x \<noteq> c) s
      in if length b < length s then Some (b, drop (Suc (length b)) s) else None)"

definition set_arg :: "string option list \<Rightarrow> nat \<Rightarrow> string \<Rightarrow> string option list" where
  "set_arg args n v =
     (let toadd = n + 1 - length args;
          args = (if toadd > 0 then args @ replicate toadd None else args)
      in args[n := Some v])"

definition match_type :: "string \<Rightarrow> nat option" where
  "match_type v =
     (if v = ''signal'' then Some ADBUS_MSG_SIGNAL
      else if v = ''method_call'' then Some ADBUS_MSG_METHOD
      else if v = ''method_return'' then Some ADBUS_MSG_RETURN
      else if v = ''error'' then Some ADBUS_MSG_ERROR
      else None)"

definition match_key :: "Match \<Rightarrow> string \<Rightarrow> string \<Rightarrow> Match option" where
  "match_key m key v =
     (if key = ''type'' then map_option (\<lambda>t. m\<lparr>ma_type := t\<rparr>) (match_type v)
      else if key = ''sender'' then Some (m\<lparr>ma_sender := Some v\<rparr>)
      else if key = ''interface'' then Some (m\<lparr>ma_interface := Some v\<rparr>)
      else if key = ''member'' then Some (m\<lparr>ma_member := Some v\<rparr>)
      else if key = ''path'' then Some (m\<lparr>ma_path := Some v\<rparr>)
      else if key = ''destination'' then Some (m\<lparr>ma_destination := Some v\<rparr>)
      else case IsArgKey key of
             Some n \<Rightarrow> Some (m\<lparr>ma_arguments := set_arg (ma_arguments m) n v\<rparr>)
           | None \<Rightarrow> Some m)"

text \<open>
  One round of the loop: a pair \<^verbatim>\<open>key='value',\<close>, and what is left of the line. The comma may be
  missing at the end.
\<close>

definition match_pair :: "string \<Rightarrow> (string \<times> string \<times> string) option" where
  "match_pair line =
     (case memchr_split CHR ''='' line of
        None \<Rightarrow> None
      | Some (key, rest) \<Rightarrow>
          if rest = [] \<or> hd rest \<noteq> CHR 0x27 then None
          else (case memchr_split CHR 0x27 (tl rest) of
                  None \<Rightarrow> None
                | Some (v, rest) \<Rightarrow>
                    if rest \<noteq> [] \<and> hd rest \<noteq> CHR '','' then None
                    else Some (key, v, tl rest)))"

lemma match_pair_shorter: "match_pair line = Some (key, v, rest) \<Longrightarrow> length rest < length line"
  by (auto simp: match_pair_def memchr_split_def Let_def split: if_splits)

function newmatch_loop :: "Match \<Rightarrow> string \<Rightarrow> Match option" where
  "newmatch_loop m line =
     (if line = [] then Some m
      else case match_pair line of
             None \<Rightarrow> None
           | Some (key, v, rest) \<Rightarrow>
               (case match_key m key v of
                  None \<Rightarrow> None
                | Some m' \<Rightarrow> newmatch_loop m' rest))"
  by pat_completeness auto

termination
  by (relation "measure (\<lambda>(m, line). length line)") (auto dest: match_pair_shorter)

declare newmatch_loop.simps [simp del]

definition adbusI_serv_newmatch :: "string \<Rightarrow> Match option" where
  "adbusI_serv_newmatch mstr = newmatch_loop (match_zero\<lparr>ma_data := mstr\<rparr>) mstr"

section \<open>Matching a message\<close>

definition StringMatches :: "string option \<Rightarrow> string option \<Rightarrow> bool" where
  "StringMatches match msg =
     (case match of
        None \<Rightarrow> True
      | Some a \<Rightarrow>
          (case msg of
             None \<Rightarrow> False
           | Some b \<Rightarrow> if length a \<noteq> length b then False else a = b))"

definition ArgsMatch :: "Match \<Rightarrow> adbus_Message \<Rightarrow> bool" where
  "ArgsMatch match msg =
     (let args = (case msg_arguments msg of None \<Rightarrow> [] | Some vs \<Rightarrow> vs)
      in if length args < length (ma_arguments match) then False
         else list_all (\<lambda>(a, b). StringMatches a b) (zip (ma_arguments match) args))"

text \<open>
  The chain of tests on one rule, as the code has them: \<open>None\<close> when the rule's type,
  reply serial or strings rule the message out; otherwise the message, with its arguments
  parsed if the rule has any, and whether it matches.
\<close>

definition match_msg :: "Match \<Rightarrow> adbus_Message \<Rightarrow> (bool \<times> adbus_Message) res" where
  "match_msg match msg =
     (if ma_type match = ADBUS_MSG_INVALID \<and> ma_type match \<noteq> msg_type msg then Inr (False, msg)
      else if ma_checkReply match
           \<and> (case msg_replySerial msg of None \<Rightarrow> True | Some r \<Rightarrow> ma_reply match \<noteq> r)
        then Inr (False, msg)
      else if \<not> StringMatches (ma_path match) (msg_path msg) then Inr (False, msg)
      else if \<not> StringMatches (ma_interface match) (msg_interface msg) then Inr (False, msg)
      else if \<not> StringMatches (ma_member match) (msg_member msg) then Inr (False, msg)
      else if \<not> StringMatches (ma_error match) (msg_error msg) then Inr (False, msg)
      else if \<not> StringMatches (ma_destination match) (msg_destination msg) then Inr (False, msg)
      else if \<not> StringMatches (ma_sender match) (msg_sender msg) then Inr (False, msg)
      else if length (ma_arguments match) > 0 then
        bindr (adbus_parseargs msg) (\<lambda>msg. Inr (ArgsMatch match msg, msg))
      else Inr (True, msg))"

text \<open>The loop of \<^verbatim>\<open>RemoteDispatchMatch\<close> up to the first rule that matches, if any.\<close>

primrec match_any :: "Match list \<Rightarrow> adbus_Message \<Rightarrow> (bool \<times> adbus_Message) res" where
  "match_any [] msg = Inr (False, msg)"
| "match_any (match # rest) msg =
     bindr (match_msg match msg) (\<lambda>(hit, msg).
       if hit then Inr (True, msg) else match_any rest msg)"

section \<open>The grammar of match strings\<close>

text \<open>
  A match string is a list of pairs, each printed as \<^verbatim>\<open>key='value',\<close>, with the last comma optional.
\<close>

definition pair_ok :: "string \<times> string \<Rightarrow> bool" where
  "pair_ok p \<longleftrightarrow> CHR ''='' \<notin> set (fst p) \<and> CHR 0x27 \<notin> set (snd p)"

definition body :: "string \<times> string \<Rightarrow> string" where
  "body p = fst p @ ''='' @ [CHR 0x27] @ snd p @ [CHR 0x27]"

definition render :: "(string \<times> string) list \<Rightarrow> string" where
  "render ps = concat (map (\<lambda>p. body p @ '','') ps)"

primrec apply_pairs :: "Match \<Rightarrow> (string \<times> string) list \<Rightarrow> Match option" where
  "apply_pairs m [] = Some m"
| "apply_pairs m (p # ps) =
     (case match_key m (fst p) (snd p) of None \<Rightarrow> None | Some m' \<Rightarrow> apply_pairs m' ps)"

lemma memchr_split_Some: "memchr_split c s = Some (a, b) \<longleftrightarrow> s = a @ c # b \<and> c \<notin> set a"
proof
  assume "memchr_split c s = Some (a, b)"
  then have a: "a = takeWhile (\<lambda>x. x \<noteq> c) s" and l: "length a < length s"
    and b: "b = drop (Suc (length a)) s"
    by (auto simp: memchr_split_def Let_def split: if_splits)
  have s: "s = a @ drop (length a) s" using a by (metis append_eq_conv_conj takeWhile_eq_take)
  have "s ! length a = c" using l a nth_length_takeWhile by fastforce
  then have "s = a @ c # b" using s b l by (metis Cons_nth_drop_Suc)
  then show "s = a @ c # b \<and> c \<notin> set a" using a by (metis set_takeWhileD)
next
  assume h: "s = a @ c # b \<and> c \<notin> set a"
  then have "\<And>x. x \<in> set a \<Longrightarrow> x \<noteq> c" by auto
  then have "takeWhile (\<lambda>x. x \<noteq> c) (a @ c # b) = a" by (subst takeWhile_append2) auto
  with h show "memchr_split c s = Some (a, b)" by (simp add: memchr_split_def Let_def)
qed

lemma match_pair_Some:
  "match_pair line = Some (key, v, rest) \<longleftrightarrow>
     pair_ok (key, v) \<and> (line = body (key, v) @ '','' @ rest \<or> line = body (key, v) \<and> rest = [])"
proof -
  have "match_pair line = Some (key, v, rest) \<longleftrightarrow>
      (\<exists>t u. memchr_split CHR ''='' line = Some (key, CHR 0x27 # t)
        \<and> memchr_split CHR 0x27 t = Some (v, u) \<and> (u = [] \<and> rest = [] \<or> u = CHR '','' # rest))"
  proof (cases "memchr_split CHR ''='' line")
    case None
    then show ?thesis by (simp add: match_pair_def)
  next
    case (Some kr)
    obtain k r where kr: "kr = (k, r)" by (cases kr)
    show ?thesis
    proof (cases r)
      case Nil
      with Some kr show ?thesis by (simp add: match_pair_def)
    next
      case (Cons q t)
      note l1 = Some kr Cons
      show ?thesis
      proof (cases "memchr_split CHR 0x27 t")
        case None
        with l1 show ?thesis by (auto simp: match_pair_def)
      next
        case (Some vu)
        obtain w u where vu: "vu = (w, u)" by (cases vu)
        show ?thesis using l1 Some vu by (cases u) (auto simp: match_pair_def)
      qed
    qed
  qed
  then show ?thesis by (auto simp: memchr_split_Some pair_ok_def body_def)
qed

lemma render_simps [simp]:
  "render [] = []"
  "render (p # ps) = body p @ '','' @ render ps"
  by (simp_all add: render_def)

lemma render_Nil_iff [simp]: "render ps = [] \<longleftrightarrow> ps = []" "[] = render ps \<longleftrightarrow> ps = []"
  by (cases ps; simp)+

lemma render_comma [simp]: "render ps \<noteq> '',''" "'','' \<noteq> render ps"
proof -
  have "length (render ps) \<noteq> 1" by (cases ps) (auto simp: body_def)
  then show "render ps \<noteq> '',''" by force
  then show "'','' \<noteq> render ps" by (metis)
qed

lemma render_snoc: "ps \<noteq> [] \<Longrightarrow> render ps = butlast (render ps) @ '',''"
  by (cases ps rule: rev_cases) (auto simp: render_def butlast_append)

lemma render_cut: "line @ '','' = render ps \<longleftrightarrow> ps \<noteq> [] \<and> line = butlast (render ps)"
  by (metis append_is_Nil_conv butlast_snoc list.distinct(1) render_Nil_iff(2) render_snoc)

lemma render_cut_Cons:
  "line @ '','' = render (p # ps) \<longleftrightarrow>
     line = body p \<and> ps = [] \<or> (\<exists>rest. line = body p @ '','' @ rest \<and> rest @ '','' = render ps)"
proof (cases "ps = []")
  case True
  then show ?thesis by (auto simp: render_cut butlast_append)
next
  case False
  have "line @ '','' = render (p # ps) \<longleftrightarrow> line = body p @ '','' @ butlast (render ps)"
    using False by (simp add: render_cut[of line "p # ps"] butlast_append del: render_simps(2)) (simp add: butlast_append)
  with False show ?thesis by (simp add: render_cut)
qed

lemma newmatch_loop_iff:
  "newmatch_loop m line = Some m' \<longleftrightarrow>
     (\<exists>ps. list_all pair_ok ps \<and> (line = render ps \<or> line @ '','' = render ps)
           \<and> apply_pairs m ps = Some m')"
proof (induction m line rule: newmatch_loop.induct)
  case (1 m line)
  show ?case
  proof (cases "line = []")
    case True
    have "(\<exists>ps. list_all pair_ok ps \<and> ([] = render ps \<or> '','' = render ps)
           \<and> apply_pairs m ps = Some m') \<longleftrightarrow> m = m'" by auto
    with True show ?thesis by (simp add: newmatch_loop.simps)
  next
    case False
    have ren: "(line = render ps \<or> line @ '','' = render ps) \<and> list_all pair_ok ps \<longleftrightarrow>
      (\<exists>key v rest qs. ps = (key, v) # qs \<and> match_pair line = Some (key, v, rest)
        \<and> list_all pair_ok qs \<and> (rest = render qs \<or> rest @ '','' = render qs))" (is "?L = ?R") for ps
    proof (cases ps)
      case Nil
      then show ?thesis using False by (simp add: render_def)
    next
      case (Cons p qs)
      obtain key v where p: "p = (key, v)" by (cases p)
      show ?thesis unfolding Cons render_cut_Cons match_pair_Some p
        by auto
    qed
    have "newmatch_loop m line = Some m' \<longleftrightarrow>
      (\<exists>key v rest mm. match_pair line = Some (key, v, rest) \<and> match_key m key v = Some mm
         \<and> newmatch_loop mm rest = Some m')"
      using False by (subst newmatch_loop.simps) (auto split: option.splits prod.splits)
    also have "\<dots> \<longleftrightarrow> (\<exists>key v rest mm qs. match_pair line = Some (key, v, rest) \<and> match_key m key v = Some mm
         \<and> list_all pair_ok qs \<and> (rest = render qs \<or> rest @ '','' = render qs) \<and> apply_pairs mm qs = Some m')"
      using 1[OF False] by (metis (no_types, lifting) prod.collapse)
    also have "\<dots> \<longleftrightarrow> (\<exists>ps. ((line = render ps \<or> line @ '','' = render ps) \<and> list_all pair_ok ps)
           \<and> apply_pairs m ps = Some m')"
      (is "?P \<longleftrightarrow> ?Q")
    proof
      assume ?P
      then obtain key v rest mm qs where "match_pair line = Some (key, v, rest)"
        "match_key m key v = Some mm" "list_all pair_ok qs" "rest = render qs \<or> rest @ '','' = render qs"
        "apply_pairs mm qs = Some m'" by blast
      then have "apply_pairs m ((key, v) # qs) = Some m'" by simp
      moreover have "(line = render ((key, v) # qs) \<or> line @ '','' = render ((key, v) # qs))
          \<and> list_all pair_ok ((key, v) # qs)"
        unfolding ren by (intro exI conjI) (rule refl | fact)+
      ultimately show ?Q by blast
    next
      assume ?Q
      then show ?P unfolding ren by (auto split: option.splits)
    qed
    finally show ?thesis by blast
  qed
qed

text \<open>C34: \<open>adbusI_serv_newmatch\<close> accepts exactly the comma separated lists of pairs
  \<^verbatim>\<open>key='value'\<close> (no equals sign in a key, no quote in a value, an optional comma at the end) whose
  \<^verbatim>\<open>type\<close> pairs name one of the four message types, and the rule it makes is the one the pairs
  give from left to right.\<close>

theorem newmatch_iff:
  "adbusI_serv_newmatch mstr = Some m \<longleftrightarrow>
     (\<exists>ps. list_all pair_ok ps \<and> (mstr = render ps \<or> mstr @ '','' = render ps)
           \<and> apply_pairs (match_zero\<lparr>ma_data := mstr\<rparr>) ps = Some m)"
  unfolding adbusI_serv_newmatch_def by (rule newmatch_loop_iff)

section \<open>From the client's match to the server's rule\<close>

definition field_fine :: "(string \<times> int) option \<Rightarrow> bool" where
  "field_fine f = (case f of None \<Rightarrow> True
     | Some (v, sz) \<Rightarrow> CHR 0x27 \<notin> set v \<and> (sz < 0 \<or> sz = int (length v)))"

definition match_fine :: "adbus_Match \<Rightarrow> bool" where
  "match_fine m \<longleftrightarrow> am_type m \<le> ADBUS_MSG_SIGNAL \<and> field_fine (am_sender m)
     \<and> field_fine (am_interface m) \<and> field_fine (am_member m) \<and> field_fine (am_path m)
     \<and> field_fine (am_destination m) \<and> list_all field_fine (am_arguments m)
     \<and> length (am_arguments m) \<le> 64"

definition opt_pair :: "string \<Rightarrow> (string \<times> int) option \<Rightarrow> (string \<times> string) list" where
  "opt_pair key f = (case f of None \<Rightarrow> [] | Some (v, sz) \<Rightarrow> [(key, v)])"

primrec arg_pairs :: "nat \<Rightarrow> (string \<times> int) option list \<Rightarrow> (string \<times> string) list" where
  "arg_pairs i [] = []"
| "arg_pairs i (a # rest) = opt_pair (''arg'' @ dec i) a @ arg_pairs (Suc i) rest"

definition client_pairs :: "adbus_Match \<Rightarrow> (string \<times> string) list" where
  "client_pairs m = (if am_type m = 0 then [] else [(''type'', TypeString (am_type m))])
     @ opt_pair ''sender'' (am_sender m) @ opt_pair ''interface'' (am_interface m)
     @ opt_pair ''member'' (am_member m) @ opt_pair ''path'' (am_path m)
     @ opt_pair ''destination'' (am_destination m) @ arg_pairs 0 (am_arguments m)"

text \<open>The arguments the rule keeps end with the last one that has a value.\<close>

definition trim :: "'a option list \<Rightarrow> 'a option list" where
  "trim xs = rev (dropWhile (\<lambda>x. x = None) (rev xs))"

definition rule_of :: "adbus_Match \<Rightarrow> Match" where
  "rule_of m = match_zero\<lparr>ma_type := am_type m, ma_path := map_option fst (am_path m),
     ma_interface := map_option fst (am_interface m), ma_member := map_option fst (am_member m),
     ma_destination := map_option fst (am_destination m), ma_sender := map_option fst (am_sender m),
     ma_arguments := trim (map (map_option fst) (am_arguments m))\<rparr>"

lemma render_append [simp]: "render (ps @ qs) = render ps @ render qs"
  by (simp add: render_def)

lemma Append_render: "field_fine f \<Longrightarrow> Append s key f = s @ render (opt_pair key f)"
  by (auto simp: Append_def field_fine_def opt_pair_def fmt_width_def body_def Let_def
      split: option.splits)

lemma match_args_render:
  "list_all field_fine as \<Longrightarrow> match_args s i as = s @ render (arg_pairs i as)"
  by (induction as arbitrary: s i) (auto simp: Append_render)

lemma matchString_render:
  assumes "match_fine m"
  shows "adbusI_matchString [] m = butlast (render (client_pairs m))"
  using assms unfolding adbusI_matchString_def match_fine_def client_pairs_def
  by (simp add: Append_render match_args_render body_def Let_def)

lemma apply_pairs_append:
  "apply_pairs m (ps @ qs) = (case apply_pairs m ps of None \<Rightarrow> None | Some m' \<Rightarrow> apply_pairs m' qs)"
  by (induction ps arbitrary: m) (auto split: option.splits)

lemma trim_snoc [simp]: "trim (xs @ [None]) = trim xs" "trim (xs @ [Some v]) = xs @ [Some v]"
  by (simp_all add: trim_def)

lemma length_trim: "length (trim xs) \<le> length xs"
  unfolding trim_def using length_dropWhile_le[of _ "rev xs"] by simp

lemma trim_pad: "trim xs @ replicate (length xs - length (trim xs)) None = xs"
proof (induction xs rule: rev_induct)
  case Nil
  then show ?case by (simp add: trim_def)
next
  case (snoc x xs)
  have "length (trim xs) \<le> length xs" by (rule length_trim)
  then have "replicate (Suc (length xs) - length (trim xs)) None
      = replicate (length xs - length (trim xs)) (None :: 'a option) @ [None]"
    by (simp add: Suc_diff_le replicate_append_same)
  with snoc show ?case by (cases x) simp_all
qed

lemma set_arg_trim: "set_arg (trim xs) (length xs) v = xs @ [Some v]"
proof -
  have le: "length (trim xs) \<le> length xs" by (rule length_trim)
  have "trim xs @ replicate (length xs + 1 - length (trim xs)) None = xs @ [None]"
    using trim_pad[of "xs @ [None]"] by simp
  with le show ?thesis by (simp add: set_arg_def Let_def)
qed

lemma IsArgKey_dec: "i < 64 \<Longrightarrow> IsArgKey (''arg'' @ dec i) = Some i"
proof (cases "i < 10")
  case True
  then show ?thesis
    by (simp add: dec.simps IsArgKey_def digit_val_def is_digit_def in_range_def ord_of_def)
next
  case False
  assume "i < 64"
  then have d: "i div 10 < 10" "i div 10 \<le> 9" "i mod 10 \<le> 9" "i div 10 * 10 + i mod 10 = i"
    by (simp_all flip: less_Suc_eq_le)
  then have "dec i = [char_of (48 + i div 10), char_of (48 + i mod 10)]"
    using False by (simp add: dec.simps[of i] dec.simps[of "i div 10"])
  then show ?thesis using d \<open>i < 64\<close>
    by (simp add: IsArgKey_def digit_val_def is_digit_def in_range_def ord_of_def Let_def)
qed

lemma match_key_arg:
  "i < 64 \<Longrightarrow> match_key m (''arg'' @ dec i) v =
     Some (m\<lparr>ma_arguments := set_arg (ma_arguments m) i v\<rparr>)"
  by (frule IsArgKey_dec) (simp add: match_key_def)

lemma apply_arg_pairs:
  "ma_arguments m = trim pre \<Longrightarrow> i = length pre \<Longrightarrow> length pre + length as \<le> 64 \<Longrightarrow>
   apply_pairs m (arg_pairs i as) = Some (m\<lparr>ma_arguments := trim (pre @ map (map_option fst) as)\<rparr>)"
proof (induction as arbitrary: m pre i)
  case Nil
  then show ?case by simp
next
  case (Cons a as)
  show ?case
  proof (cases a)
    case None
    have "apply_pairs m (arg_pairs (Suc i) as)
        = Some (m\<lparr>ma_arguments := trim ((pre @ [None]) @ map (map_option fst) as)\<rparr>)"
      using Cons.prems by (intro Cons.IH) simp_all
    with None show ?thesis by (simp add: opt_pair_def)
  next
    case (Some p)
    obtain v sz where p: "p = (v, sz)" by (cases p)
    let ?m = "m\<lparr>ma_arguments := pre @ [Some v]\<rparr>"
    have "apply_pairs ?m (arg_pairs (Suc i) as)
        = Some (?m\<lparr>ma_arguments := trim ((pre @ [Some v]) @ map (map_option fst) as)\<rparr>)"
      using Cons.prems by (intro Cons.IH) simp_all
    moreover have "match_key m (''arg'' @ dec i) v = Some ?m"
      using Cons.prems by (simp add: match_key_arg set_arg_trim del: append_Cons)
    moreover have "arg_pairs i (a # as) = (''arg'' @ dec i, v) # arg_pairs (Suc i) as"
      using Some p by (simp add: opt_pair_def)
    ultimately show ?thesis using Some p by simp
  qed
qed

lemma match_key_type:
  "0 < t \<Longrightarrow> t \<le> ADBUS_MSG_SIGNAL \<Longrightarrow> match_key m ''type'' (TypeString t) = Some (m\<lparr>ma_type := t\<rparr>)"
proof -
  assume "0 < t" "t \<le> ADBUS_MSG_SIGNAL"
  then consider "t = 1" | "t = 2" | "t = 3" | "t = 4" by linarith
  then show ?thesis by cases (simp_all add: match_key_def match_type_def TypeString_def)
qed

lemma apply_opt_pair:
  "apply_pairs m (opt_pair ''sender'' f) = Some (if f = None then m else m\<lparr>ma_sender := map_option fst f\<rparr>)"
  "apply_pairs m (opt_pair ''interface'' f) = Some (if f = None then m else m\<lparr>ma_interface := map_option fst f\<rparr>)"
  "apply_pairs m (opt_pair ''member'' f) = Some (if f = None then m else m\<lparr>ma_member := map_option fst f\<rparr>)"
  "apply_pairs m (opt_pair ''path'' f) = Some (if f = None then m else m\<lparr>ma_path := map_option fst f\<rparr>)"
  "apply_pairs m (opt_pair ''destination'' f) = Some (if f = None then m else m\<lparr>ma_destination := map_option fst f\<rparr>)"
  by (cases f; auto simp: opt_pair_def match_key_def)+

lemma apply_client_pairs:
  assumes "match_fine m"
  shows "apply_pairs (match_zero\<lparr>ma_data := s\<rparr>) (client_pairs m) = Some ((rule_of m)\<lparr>ma_data := s\<rparr>)"
proof -
  let ?t = "(match_zero\<lparr>ma_data := s\<rparr>)\<lparr>ma_type := am_type m\<rparr>"
  let ?r = "((rule_of m)\<lparr>ma_data := s\<rparr>)\<lparr>ma_arguments := []\<rparr>"
  have t: "apply_pairs (match_zero\<lparr>ma_data := s\<rparr>)
      (if am_type m = 0 then [] else [(''type'', TypeString (am_type m))]) = Some ?t"
    using assms by (auto simp: match_fine_def match_key_type match_zero_def)
  have "apply_pairs ?r (arg_pairs 0 (am_arguments m))
      = Some (?r\<lparr>ma_arguments := trim ([] @ map (map_option fst) (am_arguments m))\<rparr>)"
    using assms by (intro apply_arg_pairs) (auto simp: match_fine_def trim_def)
  then have a: "apply_pairs ?r (arg_pairs 0 (am_arguments m)) = Some ((rule_of m)\<lparr>ma_data := s\<rparr>)"
    by (simp add: rule_of_def)
  have r: "?t\<lparr>ma_sender := map_option fst (am_sender m), ma_interface := map_option fst (am_interface m),
      ma_member := map_option fst (am_member m), ma_path := map_option fst (am_path m),
      ma_destination := map_option fst (am_destination m)\<rparr> = ?r"
    by (simp add: rule_of_def match_zero_def)
  let ?mid = "opt_pair ''sender'' (am_sender m) @ opt_pair ''interface'' (am_interface m)
     @ opt_pair ''member'' (am_member m) @ opt_pair ''path'' (am_path m)
     @ opt_pair ''destination'' (am_destination m)"
  have "apply_pairs ?t ?mid = Some ?r"
    unfolding r[symmetric] by (simp add: apply_pairs_append apply_opt_pair match_zero_def)
  then have "apply_pairs ?t (?mid @ arg_pairs 0 (am_arguments m)) = Some ((rule_of m)\<lparr>ma_data := s\<rparr>)"
    using a by (simp only: apply_pairs_append[of ?t ?mid] option.case)
  moreover have "client_pairs m = (if am_type m = 0 then [] else [(''type'', TypeString (am_type m))])
      @ ?mid @ arg_pairs 0 (am_arguments m)"
    by (simp add: client_pairs_def)
  ultimately show ?thesis
    using t by (simp only: apply_pairs_append[of "match_zero\<lparr>ma_data := s\<rparr>"] option.case)
qed

lemma client_pairs_ok: "match_fine m \<Longrightarrow> list_all pair_ok (client_pairs m)"
proof -
  assume f: "match_fine m"
  have o: "field_fine x \<Longrightarrow> CHR ''='' \<notin> set key \<Longrightarrow> list_all pair_ok (opt_pair key x)" for key x
    by (auto simp: opt_pair_def pair_ok_def field_fine_def split: option.splits)
  have e: "CHR ''='' \<notin> set (dec i)" for i
    by (rule list_all_notin[OF dec_digits]) (simp add: is_digit_def in_range_def ord_of_def)
  have a: "list_all field_fine as \<Longrightarrow> list_all pair_ok (arg_pairs i as)" for i as
    by (induction as arbitrary: i) (auto intro!: o simp: e)
  have t: "CHR 0x27 \<notin> set (TypeString x)" for x by (simp add: TypeString_def)
  show ?thesis using f unfolding client_pairs_def match_fine_def
    by (auto simp: pair_ok_def t intro!: o a)
qed

lemma newmatch_matchString_aux:
  assumes "match_fine m"
  shows "adbusI_serv_newmatch (adbusI_matchString [] m)
           = Some ((rule_of m)\<lparr>ma_data := adbusI_matchString [] m\<rparr>)"
proof -
  have "adbusI_matchString [] m = render (client_pairs m)
      \<or> adbusI_matchString [] m @ '','' = render (client_pairs m)"
    unfolding matchString_render[OF assms] using render_snoc by (cases "client_pairs m = []") auto
  then show ?thesis unfolding adbusI_serv_newmatch_def newmatch_loop_iff
    using apply_client_pairs[OF assms] client_pairs_ok[OF assms] by blast
qed

text \<open>C33: The string the client library prints for a match is understood by the server: for a match
  whose strings have no quote and whose sizes are right, with at most 64 arguments,
  \<open>adbusI_serv_newmatch\<close> of \<open>adbusI_matchString\<close> is the rule with the same type, sender,
  interface, member, path and destination, and the same arguments up to the last one that has a
  value.\<close>

theorem newmatch_matchString:
  assumes "match_fine m"
  shows "adbusI_serv_newmatch (adbusI_matchString [] m)
           = Some ((rule_of m)\<lparr>ma_data := adbusI_matchString [] m\<rparr>)"
  by (rule newmatch_matchString_aux[OF assms])

definition sample_match :: adbus_Match where
  "sample_match = \<lparr>am_type = ADBUS_MSG_SIGNAL, am_addMatchToBusDaemon = True, am_replySerial = -1,
     am_sender = Some (''org.a'', 5), am_destination = None, am_interface = None,
     am_path = Some (''/x'', -1), am_member = None, am_error = None,
     am_arguments = [None, Some (''q='', -1), None]\<rparr>"

lemma sample_match_string:
  "adbusI_matchString [] sample_match =
     ''type='' @ [CHR 0x27] @ ''signal'' @ [CHR 0x27] @ '',sender='' @ [CHR 0x27] @ ''org.a'' @ [CHR 0x27]
      @ '',path='' @ [CHR 0x27] @ ''/x'' @ [CHR 0x27] @ '',arg1='' @ [CHR 0x27] @ ''q='' @ [CHR 0x27]"
  by code_simp

theorem newmatch_matchString_witness:
  "match_fine sample_match
   \<and> adbusI_serv_newmatch (''type='' @ [CHR 0x27] @ ''signal'' @ [CHR 0x27] @ '',sender='' @ [CHR 0x27] @ ''org.a'' @ [CHR 0x27]
      @ '',path='' @ [CHR 0x27] @ ''/x'' @ [CHR 0x27] @ '',arg1='' @ [CHR 0x27] @ ''q='' @ [CHR 0x27])
     = Some ((rule_of sample_match)\<lparr>ma_data := adbusI_matchString [] sample_match\<rparr>)
   \<and> ma_arguments (rule_of sample_match) = [None, Some ''q='']"
proof -
  have f: "match_fine sample_match" by code_simp
  have "ma_arguments (rule_of sample_match) = [None, Some ''q='']" by code_simp
  with f newmatch_matchString[OF f] show ?thesis by (simp only: sample_match_string)
qed

section \<open>What a rule matches\<close>

lemma untyped_never_matches:
  "ma_type r = ADBUS_MSG_INVALID \<Longrightarrow> msg_type msg \<noteq> ADBUS_MSG_INVALID \<Longrightarrow> match_msg r msg = Inr (False, msg)"
  by (simp add: match_msg_def)

text \<open>The type test of the server's dispatch is inverted: whatever rules a client makes from
  matches that leave the type open, none of them ever matches a message (whose type
  \<open>adbus_parse\<close> has checked to be valid), while a rule with a type is matched whatever the type
  of the message is.\<close>

theorem untyped_rules_match_nothing:
  assumes "list_all (\<lambda>m. match_fine m \<and> am_type m = ADBUS_MSG_INVALID) ms"
    and "map (\<lambda>m. adbusI_serv_newmatch (adbusI_matchString [] m)) ms = map Some rules"
    and "msg_type msg \<noteq> ADBUS_MSG_INVALID"
  shows "match_any rules msg = Inr (False, msg)
    \<and> match_any [match_zero\<lparr>ma_type := ADBUS_MSG_SIGNAL\<rparr>] msg = Inr (True, msg)"
proof
  show "match_any [match_zero\<lparr>ma_type := ADBUS_MSG_SIGNAL\<rparr>] msg = Inr (True, msg)"
    by (simp add: match_msg_def match_zero_def StringMatches_def)
  have "list_all (\<lambda>r. ma_type r = ADBUS_MSG_INVALID) rules"
    using assms(1,2)
  proof (induction ms arbitrary: rules)
    case Nil
    then show ?case by simp
  next
    case (Cons m ms)
    then obtain r rs where "rules = r # rs" by (cases rules) auto
    with Cons show ?case by (auto simp: newmatch_matchString_aux rule_of_def)
  qed
  then show "match_any rules msg = Inr (False, msg)"
    using assms(3) by (induction rules) (simp_all add: untyped_never_matches)
qed

theorem untyped_rules_match_nothing_witness:
  "match_any [(rule_of (sample_match\<lparr>am_type := 0\<rparr>))\<lparr>ma_data := adbusI_matchString [] (sample_match\<lparr>am_type := 0\<rparr>)\<rparr>]
     (msg_zero\<lparr>msg_type := ADBUS_MSG_SIGNAL, msg_sender := Some ''org.a'', msg_path := Some ''/x'',
        msg_arguments := Some [None, Some ''q='']\<rparr>)
   = Inr (False, msg_zero\<lparr>msg_type := ADBUS_MSG_SIGNAL, msg_sender := Some ''org.a'', msg_path := Some ''/x'',
        msg_arguments := Some [None, Some ''q='']\<rparr>)"
proof -
  have f: "match_fine (sample_match\<lparr>am_type := 0\<rparr>)" by code_simp
  show ?thesis
    by (rule untyped_rules_match_nothing[THEN conjunct1, of "[sample_match\<lparr>am_type := 0\<rparr>]"])
      (use f in \<open>simp_all add: newmatch_matchString_aux sample_match_def\<close>)
qed

text \<open>A rule with an argument aborts the server: when its other fields fit a message that has
  no signature (a message without arguments), the assert of \<open>adbus_parseargs\<close> fails.\<close>

theorem arg_rule_aborts:
  assumes "ma_type r \<noteq> ADBUS_MSG_INVALID" and "\<not> ma_checkReply r"
    and "StringMatches (ma_path r) (msg_path msg)" and "StringMatches (ma_interface r) (msg_interface msg)"
    and "StringMatches (ma_member r) (msg_member msg)" and "StringMatches (ma_error r) (msg_error msg)"
    and "StringMatches (ma_destination r) (msg_destination msg)"
    and "StringMatches (ma_sender r) (msg_sender msg)"
    and "ma_arguments r \<noteq> []" and "msg_signature msg = None" and "msg_arguments msg = None"
  shows "match_any (r # rules) msg = Inl Abort"
  using assms by (simp add: match_msg_def adbus_parseargs_def)

theorem arg_rule_aborts_witness:
  "match_any [match_zero\<lparr>ma_type := ADBUS_MSG_SIGNAL, ma_arguments := [Some ''x'']\<rparr>]
     (msg_zero\<lparr>msg_type := ADBUS_MSG_METHOD, msg_path := Some ''/'', msg_member := Some ''Hello''\<rparr>)
   = Inl Abort"
  by (rule arg_rule_aborts) (simp_all add: match_zero_def msg_zero_def StringMatches_def)

end
