(* ===== verification/Bus_Names.thy ===== *)
theory Bus_Names
  imports Match_Rules "HOL-Library.AList"
begin

text \<open>
  The bus server's registry of remotes and names: \<^verbatim>\<open>adbus_serv_connect\<close>,
  \<^verbatim>\<open>adbus_remote_disconnect\<close>, \<^verbatim>\<open>adbusI_serv_requestname\<close>, \<^verbatim>\<open>adbusI_serv_releasename\<close>
  and their helpers in \<^verbatim>\<open>adbus/server.c\<close>, and \<^verbatim>\<open>adbusI_serv_ownerchanged\<close> and
  \<^verbatim>\<open>adbusI_serv_initbus\<close> of \<^verbatim>\<open>adbus/server-bus.c\<close>.

  A remote is the number of its allocation; \<open>sv_heap\<close> holds every remote that was ever allocated and
  \<open>rm_freed\<close> says which have been freed. Reaching through the pointer to a freed remote is
  \<open>Inl Fault\<close>. A pointer to a \<^verbatim>\<open>struct Service\<close> is its name: a service is in the table
  from its allocation until it is freed. The table is an association list, whose order stands for the
  order of the hash table and is never used. The signals the server emits are recorded in \<open>sv_log\<close>.
\<close>

section \<open>State\<close>

record ServiceOwner =
  so_remote :: nat
  so_allowReplacement :: bool

datatype ParseState = PBEGIN | PHEADER | PDATA

record adbus_Remote =
  rm_unique :: string
  rm_matches :: "Match list"
  rm_parseState :: ParseState
  rm_msg :: adbus_Buffer
  rm_dispatch :: adbus_Buffer
  rm_native :: bool
  rm_headerSize :: nat
  rm_msgSize :: nat
  rm_parsedMsgSize :: nat
  rm_haveHello :: bool
  rm_services :: "string list"
  rm_freed :: bool

datatype bus_signal =
  NameOwnerChanged string string string
| NameLost string string
| NameAcquired string string

record adbus_Server =
  sv_busRemote :: "nat option"
  sv_helloRemote :: "nat option"
  sv_services :: "(string \<times> ServiceOwner list) list"
  sv_remotes :: "nat list"
  sv_nextRemote :: "32 word"
  sv_heap :: "adbus_Remote list"
  sv_log :: "bus_signal list"

definition ADBUS_SERVICE_ALLOW_REPLACEMENT :: "32 word" where "ADBUS_SERVICE_ALLOW_REPLACEMENT = 1"
definition ADBUS_SERVICE_REPLACE_EXISTING :: "32 word" where "ADBUS_SERVICE_REPLACE_EXISTING = 2"
definition ADBUS_SERVICE_DO_NOT_QUEUE :: "32 word" where "ADBUS_SERVICE_DO_NOT_QUEUE = 4"

abbreviation (input) ADBUS_SERVICE_SUCCESS :: nat where "ADBUS_SERVICE_SUCCESS \<equiv> 1"
abbreviation (input) ADBUS_SERVICE_REQUEST_IN_QUEUE :: nat where "ADBUS_SERVICE_REQUEST_IN_QUEUE \<equiv> 2"
abbreviation (input) ADBUS_SERVICE_REQUEST_FAILED :: nat where "ADBUS_SERVICE_REQUEST_FAILED \<equiv> 3"
abbreviation (input) ADBUS_SERVICE_REQUEST_ALREADY_OWNER :: nat where "ADBUS_SERVICE_REQUEST_ALREADY_OWNER \<equiv> 4"
abbreviation (input) ADBUS_SERVICE_RELEASE_INVALID_NAME :: nat where "ADBUS_SERVICE_RELEASE_INVALID_NAME \<equiv> 2"
abbreviation (input) ADBUS_SERVICE_RELEASE_NOT_OWNER :: nat where "ADBUS_SERVICE_RELEASE_NOT_OWNER \<equiv> 3"

text \<open>Access to a remote, and to the queue of a name.\<close>

definition live :: "adbus_Server \<Rightarrow> nat \<Rightarrow> bool" where
  "live s r \<longleftrightarrow> r < length (sv_heap s) \<and> \<not> rm_freed (sv_heap s ! r)"

definition get_remote :: "adbus_Server \<Rightarrow> nat \<Rightarrow> adbus_Remote res" where
  "get_remote s r = (if live s r then Inr (sv_heap s ! r) else Inl Fault)"

definition upd_remote :: "adbus_Server \<Rightarrow> nat \<Rightarrow> (adbus_Remote \<Rightarrow> adbus_Remote) \<Rightarrow> adbus_Server res" where
  "upd_remote s r f = bindr (get_remote s r) (\<lambda>x. Inr (s\<lparr>sv_heap := (sv_heap s)[r := f x]\<rparr>))"

definition queue_of :: "adbus_Server \<Rightarrow> string \<Rightarrow> ServiceOwner list option" where
  "queue_of s name = map_of (sv_services s) name"

definition set_queue :: "adbus_Server \<Rightarrow> string \<Rightarrow> ServiceOwner list \<Rightarrow> adbus_Server" where
  "set_queue s name q = s\<lparr>sv_services := AList.update name q (sv_services s)\<rparr>"

definition del_service :: "adbus_Server \<Rightarrow> string \<Rightarrow> adbus_Server" where
  "del_service s name = s\<lparr>sv_services := AList.delete name (sv_services s)\<rparr>"

section \<open>Operations\<close>

definition adbusI_serv_ownerchanged ::
    "adbus_Server \<Rightarrow> string \<Rightarrow> nat option \<Rightarrow> nat option \<Rightarrow> adbus_Server res" where
  "adbusI_serv_ownerchanged s name oldowner newowner =
     bindr (case newowner of
              None \<Rightarrow> Inr None
            | Some n \<Rightarrow> bindr (get_remote s n) (\<lambda>x.
                        bindr (assertr (rm_haveHello x)) (\<lambda>_. Inr (Some (rm_unique x))))) (\<lambda>newu.
     bindr (case oldowner of
              None \<Rightarrow> Inr None
            | Some old \<Rightarrow> bindr (get_remote s old) (\<lambda>x.
                          Inr (if rm_haveHello x then Some (rm_unique x) else None))) (\<lambda>oldu.
       Inr (s\<lparr>sv_log := sv_log s
          @ [NameOwnerChanged name (case oldu of None \<Rightarrow> [] | Some u \<Rightarrow> u) (case newu of None \<Rightarrow> [] | Some u \<Rightarrow> u)]
          @ (case oldu of None \<Rightarrow> [] | Some u \<Rightarrow> [NameLost u name])
          @ (case newu of None \<Rightarrow> [] | Some u \<Rightarrow> [NameAcquired u name])\<rparr>)))"

definition new_remote :: "string \<Rightarrow> adbus_Remote" where
  "new_remote unique = \<lparr>rm_unique = unique, rm_matches = [], rm_parseState = PBEGIN,
     rm_msg = adbus_buf_new, rm_dispatch = adbus_buf_new, rm_native = False, rm_headerSize = 0,
     rm_msgSize = 0, rm_parsedMsgSize = 0, rm_haveHello = False, rm_services = [], rm_freed = False\<rparr>"

definition adbus_serv_connect :: "adbus_Server \<Rightarrow> nat \<times> adbus_Server" where
  "adbus_serv_connect s =
     (let n = length (sv_heap s);
          (unique, next) = (if sv_busRemote s = None then (''org.freedesktop.DBus'', sv_nextRemote s)
                            else ('':1.'' @ dec (unat (sv_nextRemote s)), sv_nextRemote s + 1))
      in (n, s\<lparr>sv_nextRemote := next, sv_heap := sv_heap s @ [new_remote unique],
               sv_remotes := n # sv_remotes s\<rparr>))"

definition adbusI_serv_remote :: "adbus_Server \<Rightarrow> string \<Rightarrow> nat option res" where
  "adbusI_serv_remote s name =
     (case queue_of s name of
        None \<Rightarrow> Inr None
      | Some [] \<Rightarrow> Inl Fault
      | Some (o1 # _) \<Rightarrow> Inr (Some (so_remote o1)))"

definition adbusI_serv_removeServiceFromRemote :: "adbus_Server \<Rightarrow> nat \<Rightarrow> string \<Rightarrow> adbus_Server res" where
  "adbusI_serv_removeServiceFromRemote s r name =
     upd_remote s r (\<lambda>x. x\<lparr>rm_services := remove1 name (rm_services x)\<rparr>)"

text \<open>
  The loop behind the owner's branch tests \<^verbatim>\<open>queue[0]\<close> in every round, not \<^verbatim>\<open>queue[i]\<close>.
\<close>

definition adbusI_serv_releasename :: "adbus_Server \<Rightarrow> nat \<Rightarrow> string \<Rightarrow> (nat \<times> adbus_Server) res" where
  "adbusI_serv_releasename s r name =
     (case queue_of s name of
        None \<Rightarrow> Inr (ADBUS_SERVICE_RELEASE_INVALID_NAME, s)
      | Some q \<Rightarrow>
          bindr (adbusI_serv_removeServiceFromRemote s r name) (\<lambda>s.
            case q of
              [] \<Rightarrow> Inl Fault
            | o1 # rest \<Rightarrow>
                if so_remote o1 = r then
                  let s = set_queue s name rest
                  in if rest = [] then
                       bindr (adbusI_serv_ownerchanged s name (Some r) None) (\<lambda>s.
                         Inr (ADBUS_SERVICE_SUCCESS, del_service s name))
                     else
                       bindr (adbusI_serv_ownerchanged s name (Some r) (Some (so_remote (hd rest)))) (\<lambda>s.
                         Inr (ADBUS_SERVICE_SUCCESS, s))
                else
                  (case find (\<lambda>i. so_remote (q ! 0) = r) [1..<length q] of
                     Some i \<Rightarrow> Inr (ADBUS_SERVICE_SUCCESS, set_queue s name (take i q @ drop (Suc i) q))
                   | None \<Rightarrow> Inr (ADBUS_SERVICE_RELEASE_NOT_OWNER, s))))"

primrec update_first :: "nat \<Rightarrow> ServiceOwner \<Rightarrow> ServiceOwner list \<Rightarrow> ServiceOwner list" where
  "update_first r o1 [] = []"
| "update_first r o1 (x # q) = (if so_remote x = r then o1 # q else x # update_first r o1 q)"

definition adbusI_serv_requestname ::
    "adbus_Server \<Rightarrow> nat \<Rightarrow> string \<Rightarrow> 32 word \<Rightarrow> (nat \<times> adbus_Server) res" where
  "adbusI_serv_requestname s r name flags =
     (let s = (if queue_of s name = None then set_queue s name [] else s);
          q = (case queue_of s name of None \<Rightarrow> [] | Some q \<Rightarrow> q);
          me = \<lparr>so_remote = r, so_allowReplacement = (flags AND ADBUS_SERVICE_ALLOW_REPLACEMENT \<noteq> 0)\<rparr>;
          push_service = (\<lambda>x. x\<lparr>rm_services := rm_services x @ [name]\<rparr>)
      in if q = [] then
           bindr (upd_remote s r push_service) (\<lambda>s.
           bindr (adbusI_serv_ownerchanged (set_queue s name [me]) name None (Some r)) (\<lambda>s.
             Inr (ADBUS_SERVICE_SUCCESS, s)))
         else if so_remote (hd q) = r then
           Inr (ADBUS_SERVICE_REQUEST_ALREADY_OWNER, set_queue s name (me # tl q))
         else if flags AND ADBUS_SERVICE_REPLACE_EXISTING \<noteq> 0 \<and> so_allowReplacement (hd q) then
           bindr (adbusI_serv_releasename s r name) (\<lambda>(_, s).
             case queue_of s name of
               None \<Rightarrow> Inl Fault
             | Some [] \<Rightarrow> Inl Fault
             | Some (o1 # rest) \<Rightarrow>
                 bindr (adbusI_serv_removeServiceFromRemote s (so_remote o1) name) (\<lambda>s.
                 bindr (adbusI_serv_ownerchanged (set_queue s name (me # rest)) name
                          (Some (so_remote o1)) (Some r)) (\<lambda>s.
                   Inr (ADBUS_SERVICE_SUCCESS, s))))
         else if flags AND ADBUS_SERVICE_DO_NOT_QUEUE = 0 then
           (if r \<in> so_remote ` set q then
              Inr (ADBUS_SERVICE_REQUEST_IN_QUEUE, set_queue s name (update_first r me q))
            else
              bindr (upd_remote s r push_service) (\<lambda>s.
                Inr (ADBUS_SERVICE_REQUEST_IN_QUEUE, set_queue s name (q @ [me]))))
         else
           bindr (adbusI_serv_releasename s r name) (\<lambda>(_, s).
             Inr (ADBUS_SERVICE_REQUEST_FAILED, s)))"

section \<open>Lemmas on the state\<close>

lemma queue_of_set_queue [simp]:
  "queue_of (set_queue s name q) n = (if n = name then Some q else queue_of s n)"
  by (simp add: queue_of_def set_queue_def update_conv')

lemma queue_of_del_service [simp]:
  "queue_of (del_service s name) n = (if n = name then None else queue_of s n)"
  by (simp add: queue_of_def del_service_def delete_conv')

lemma queue_of_update [simp]:
  "queue_of (s\<lparr>sv_heap := h\<rparr>) = queue_of s"
  "queue_of (s\<lparr>sv_log := l\<rparr>) = queue_of s"
  "queue_of (s\<lparr>sv_remotes := rs\<rparr>) = queue_of s"
  by (simp_all add: queue_of_def fun_eq_iff)

lemma set_queue_simps [simp]:
  "sv_heap (set_queue s name q) = sv_heap s" "sv_heap (del_service s name) = sv_heap s"
  "sv_log (set_queue s name q) = sv_log s" "sv_log (del_service s name) = sv_log s"
  "sv_remotes (set_queue s name q) = sv_remotes s" "sv_remotes (del_service s name) = sv_remotes s"
  "sv_busRemote (set_queue s name q) = sv_busRemote s" "sv_busRemote (del_service s name) = sv_busRemote s"
  "sv_nextRemote (set_queue s name q) = sv_nextRemote s" "sv_nextRemote (del_service s name) = sv_nextRemote s"
  "live (set_queue s name q) r = live s r" "live (del_service s name) r = live s r"
  by (simp_all add: set_queue_def del_service_def live_def)

lemma live_update [simp]:
  "live (s\<lparr>sv_log := l\<rparr>) r = live s r" "live (s\<lparr>sv_remotes := rs\<rparr>) r = live s r"
  by (simp_all add: live_def)

lemma upd_remote_Inr:
  "upd_remote s r f = Inr s' \<longleftrightarrow> live s r \<and> s' = s\<lparr>sv_heap := (sv_heap s)[r := f (sv_heap s ! r)]\<rparr>"
  by (auto simp: upd_remote_def get_remote_def)

definition owner_events :: "string \<Rightarrow> string option \<Rightarrow> string option \<Rightarrow> bus_signal list" where
  "owner_events name oldu newu =
     NameOwnerChanged name (case oldu of None \<Rightarrow> [] | Some u \<Rightarrow> u) (case newu of None \<Rightarrow> [] | Some u \<Rightarrow> u)
     # (case oldu of None \<Rightarrow> [] | Some u \<Rightarrow> [NameLost u name])
     @ (case newu of None \<Rightarrow> [] | Some u \<Rightarrow> [NameAcquired u name])"

text \<open>The unique name of a remote, freed or not.\<close>

definition uniq :: "adbus_Server \<Rightarrow> nat \<Rightarrow> string" where
  "uniq s r = rm_unique (sv_heap s ! r)"

definition hello :: "adbus_Server \<Rightarrow> nat \<Rightarrow> bool" where
  "hello s r \<longleftrightarrow> r < length (sv_heap s) \<and> rm_haveHello (sv_heap s ! r)"

definition links :: "adbus_Server \<Rightarrow> nat \<Rightarrow> string list" where
  "links s r = rm_services (sv_heap s ! r)"

lemma ownerchanged_Inr:
  "adbusI_serv_ownerchanged s name old new = Inr s' \<longleftrightarrow>
     (\<forall>n\<in>set_option new. live s n \<and> hello s n) \<and> (\<forall>n\<in>set_option old. live s n)
     \<and> s' = s\<lparr>sv_log := sv_log s @ owner_events name
          (case old of None \<Rightarrow> None | Some n \<Rightarrow> if hello s n then Some (uniq s n) else None)
          (map_option (uniq s) new)\<rparr>"
  by (cases new; cases old)
    (auto simp: adbusI_serv_ownerchanged_def res_convs get_remote_def owner_events_def uniq_def
      hello_def live_def split: if_splits)

lemma find_const [simp]: "find (\<lambda>i. P) xs = (if P \<and> xs \<noteq> [] then Some (hd xs) else None)"
  by (induction xs) auto

text \<open>What releasing and requesting a name do, branch by branch.\<close>

lemma releasename_none: "queue_of s name = None \<Longrightarrow> adbusI_serv_releasename s r name = Inr (2, s)"
  by (simp add: adbusI_serv_releasename_def)

lemma releasename_other:
  assumes "queue_of s name = Some (o1 # rest)" and "so_remote o1 \<noteq> r"
  shows "adbusI_serv_releasename s r name =
           bindr (adbusI_serv_removeServiceFromRemote s r name) (\<lambda>s. Inr (3, s))"
  using assms by (simp add: adbusI_serv_releasename_def)

lemma releasename_owner:
  assumes "queue_of s name = Some (o1 # rest)" and "so_remote o1 = r"
  shows "adbusI_serv_releasename s r name =
           bindr (adbusI_serv_removeServiceFromRemote s r name) (\<lambda>s.
           bindr (adbusI_serv_ownerchanged (set_queue s name rest) name (Some r)
                    (if rest = [] then None else Some (so_remote (hd rest)))) (\<lambda>s.
             Inr (1, if rest = [] then del_service s name else s)))"
  using assms by (simp add: adbusI_serv_releasename_def Let_def)

section \<open>The registry's invariant\<close>

text \<open>
  The ownership the signals tell: the last \<^verbatim>\<open>NameOwnerChanged\<close> of a name names its owner, and
  every one of them names the owner before it.
\<close>

definition replay1 :: "string \<Rightarrow> bus_signal \<Rightarrow> string \<Rightarrow> string" where
  "replay1 n e cur = (case e of NameOwnerChanged m old new \<Rightarrow> if m = n then new else cur | _ \<Rightarrow> cur)"

definition replay :: "bus_signal list \<Rightarrow> string \<Rightarrow> string" where
  "replay l n = fold (replay1 n) l []"

definition journal_ok :: "bus_signal list \<Rightarrow> bool" where
  "journal_ok l \<longleftrightarrow> (\<forall>i n old new. i < length l \<longrightarrow> l ! i = NameOwnerChanged n old new \<longrightarrow> old = replay (take i l) n)"

definition owner_of :: "adbus_Server \<Rightarrow> string \<Rightarrow> nat option" where
  "owner_of s n = (case queue_of s n of Some (o1 # _) \<Rightarrow> Some (so_remote o1) | _ \<Rightarrow> None)"

definition owner_name :: "adbus_Server \<Rightarrow> string \<Rightarrow> string" where
  "owner_name s n = (case owner_of s n of None \<Rightarrow> [] | Some r \<Rightarrow> uniq s r)"

definition queues_ok :: "adbus_Server \<Rightarrow> bool" where
  "queues_ok s \<longleftrightarrow> distinct (map fst (sv_services s))
     \<and> (\<forall>n q. queue_of s n = Some q \<longrightarrow> q \<noteq> [] \<and> (\<forall>x\<in>set q. hello s (so_remote x)))"

definition links_ok :: "adbus_Server \<Rightarrow> bool" where
  "links_ok s \<longleftrightarrow> (\<forall>r. live s r \<longrightarrow> distinct (links s r)
     \<and> (\<forall>n\<in>set (links s r). \<exists>q. queue_of s n = Some q \<and> r \<in> so_remote ` set q))"

definition remotes_ok :: "adbus_Server \<Rightarrow> bool" where
  "remotes_ok s \<longleftrightarrow> distinct (sv_remotes s) \<and> (\<forall>r. r \<in> set (sv_remotes s) \<longleftrightarrow> live s r)"

definition log_ok :: "adbus_Server \<Rightarrow> bool" where
  "log_ok s \<longleftrightarrow> journal_ok (sv_log s) \<and> (\<forall>n. replay (sv_log s) n = owner_name s n)"

definition names_ok :: "adbus_Server \<Rightarrow> bool" where
  "names_ok s \<longleftrightarrow> queues_ok s \<and> links_ok s \<and> log_ok s"

definition serv_inv :: "adbus_Server \<Rightarrow> bool" where
  "serv_inv s \<longleftrightarrow> names_ok s \<and> remotes_ok s"

lemma replay_append: "replay (l @ k) n = fold (replay1 n) k (replay l n)"
  by (simp add: replay_def)

lemma replay_events:
  "replay (l @ owner_events name oldu newu) n =
     (if n = name then (case newu of None \<Rightarrow> [] | Some u \<Rightarrow> u) else replay l n)"
  by (auto simp: replay_append owner_events_def replay1_def split: option.splits)

lemma journal_ok_events:
  assumes "journal_ok l" and "(case oldu of None \<Rightarrow> [] | Some u \<Rightarrow> u) = replay l name"
  shows "journal_ok (l @ owner_events name oldu newu)"
  unfolding journal_ok_def
proof (intro allI impI)
  fix i n old new
  assume i: "i < length (l @ owner_events name oldu newu)"
    and e: "(l @ owner_events name oldu newu) ! i = NameOwnerChanged n old new"
  show "old = replay (take i (l @ owner_events name oldu newu)) n"
  proof (cases "i < length l")
    case True
    with e assms(1) show ?thesis by (simp add: nth_append journal_ok_def)
  next
    case False
    then have "owner_events name oldu newu ! (i - length l) = NameOwnerChanged n old new"
      using e by (simp add: nth_append)
    then have "i = length l \<and> n = name \<and> old = (case oldu of None \<Rightarrow> [] | Some u \<Rightarrow> u)"
      using False i by (auto simp: owner_events_def nth_Cons nth_append split: nat.splits option.splits if_splits)
    with assms(2) show ?thesis by simp
  qed
qed


text \<open>The operations change a remote of the registry only in its list of services.\<close>

definition set_links :: "adbus_Server \<Rightarrow> nat \<Rightarrow> string list \<Rightarrow> adbus_Server" where
  "set_links s r ls = s\<lparr>sv_heap := (sv_heap s)[r := (sv_heap s ! r)\<lparr>rm_services := ls\<rparr>]\<rparr>"

lemma set_links_simps [simp]:
  "live (set_links s r ls) k = live s k" "hello (set_links s r ls) k = hello s k"
  "queue_of (set_links s r ls) = queue_of s" "sv_log (set_links s r ls) = sv_log s"
  "sv_remotes (set_links s r ls) = sv_remotes s" "sv_services (set_links s r ls) = sv_services s"
  "length (sv_heap (set_links s r ls)) = length (sv_heap s)"
  "live s r \<Longrightarrow> links (set_links s r ls) k = (if k = r then ls else links s k)"
  by (cases "r < length (sv_heap s)"; cases "k = r";
      auto simp: set_links_def live_def hello_def links_def queue_of_def)+

lemma uniq_set_links [simp]: "uniq (set_links s r ls) k = uniq s k"
  by (cases "r < length (sv_heap s)"; cases "k = r"; simp add: set_links_def uniq_def nth_list_update list_update_beyond)

lemma view_simps [simp]:
  "hello (set_queue s n q) r = hello s r" "hello (del_service s n) r = hello s r"
  "hello (s\<lparr>sv_log := l\<rparr>) r = hello s r"
  "uniq (set_queue s n q) r = uniq s r" "uniq (del_service s n) r = uniq s r"
  "uniq (s\<lparr>sv_log := l\<rparr>) r = uniq s r"
  "links (set_queue s n q) r = links s r" "links (del_service s n) r = links s r"
  "links (s\<lparr>sv_log := l\<rparr>) r = links s r"
  by (simp_all add: hello_def uniq_def links_def set_queue_def del_service_def)

lemma removeService_Inr:
  "adbusI_serv_removeServiceFromRemote s r name = Inr s' \<longleftrightarrow>
     live s r \<and> s' = set_links s r (remove1 name (links s r))"
  by (simp add: adbusI_serv_removeServiceFromRemote_def upd_remote_Inr set_links_def links_def)

lemma push_service_Inr:
  "upd_remote s r (\<lambda>x. x\<lparr>rm_services := rm_services x @ [name]\<rparr>) = Inr s' \<longleftrightarrow>
     live s r \<and> s' = set_links s r (links s r @ [name])"
  by (simp add: upd_remote_Inr set_links_def links_def)

text \<open>The three ways a queue changes, with what they keep of the invariant.\<close>

lemma queues_ok_set:
  "queues_ok s \<Longrightarrow> q \<noteq> [] \<Longrightarrow> (\<And>x. x \<in> set q \<Longrightarrow> hello s (so_remote x)) \<Longrightarrow> queues_ok (set_queue s name q)"
  by (auto simp: queues_ok_def set_queue_def queue_of_def update_conv' hello_def
      intro: distinct_update split: if_splits)

lemma queues_ok_del: "queues_ok s \<Longrightarrow> queues_ok (del_service s name)"
  by (auto simp: queues_ok_def del_service_def queue_of_def delete_conv' hello_def
      intro: distinct_delete split: if_splits)

lemma queues_ok_set_del:
  "queues_ok s \<Longrightarrow> queues_ok (del_service ((set_queue s name q)\<lparr>sv_log := l\<rparr>) name)"
  by (auto simp: queues_ok_def del_service_def set_queue_def queue_of_def delete_conv' update_conv'
      hello_def intro!: distinct_delete distinct_update split: if_splits)

lemma queues_ok_other [simp]:
  "queues_ok (set_links s r ls) = queues_ok s" "queues_ok (s\<lparr>sv_log := l\<rparr>) = queues_ok s"
  by (simp_all add: queues_ok_def)

lemma owner_of_simps [simp]:
  "owner_of (set_links s r ls) n = owner_of s n" "owner_of (s\<lparr>sv_log := l\<rparr>) n = owner_of s n"
  "owner_of (set_queue s name q) n =
     (if n = name then (case q of [] \<Rightarrow> None | o1 # _ \<Rightarrow> Some (so_remote o1)) else owner_of s n)"
  "owner_of (del_service s name) n = (if n = name then None else owner_of s n)"
  by (auto simp: owner_of_def split: list.splits)

lemma log_ok_same:
  assumes "log_ok s" and "sv_log s' = sv_log s" and "\<And>n. owner_of s' n = owner_of s n"
    and "\<And>r. uniq s' r = uniq s r"
  shows "log_ok s'"
  using assms by (auto simp: log_ok_def owner_name_def split: option.split)

text \<open>Whoever changes the owner of one name and tells it keeps the journal.\<close>

lemma log_ok_change:
  assumes ok: "log_ok s"
    and own: "owner_of s name = old" and oldh: "\<And>n. old = Some n \<Longrightarrow> hello s n"
    and log: "sv_log s' = sv_log s @ owner_events name
       (case old of None \<Rightarrow> None | Some n \<Rightarrow> if hello s n then Some (uniq s n) else None)
       (map_option (uniq s) new)"
    and o: "\<And>n. owner_of s' n = (if n = name then new else owner_of s n)"
    and u: "\<And>r. uniq s' r = uniq s r"
  shows "log_ok s'"
proof -
  have "(case old of None \<Rightarrow> [] | Some n \<Rightarrow> uniq s n) = replay (sv_log s) name"
    using ok own by (simp add: log_ok_def owner_name_def)
  then have "(case (case old of None \<Rightarrow> None | Some n \<Rightarrow> if hello s n then Some (uniq s n) else None) of
      None \<Rightarrow> [] | Some u \<Rightarrow> u) = replay (sv_log s) name"
    using oldh by (cases old) auto
  with ok log have "journal_ok (sv_log s')" by (simp add: log_ok_def journal_ok_events)
  moreover have "replay (sv_log s') n = owner_name s' n" for n
    using ok unfolding log replay_events owner_name_def o
    by (auto simp: log_ok_def owner_name_def u split: option.splits)
  ultimately show ?thesis by (simp add: log_ok_def)
qed


section \<open>The operations keep the invariant\<close>

lemma queue_hd:
  "queues_ok s \<Longrightarrow> queue_of s name = Some q \<Longrightarrow>
     \<exists>o1 rest. q = o1 # rest \<and> hello s (so_remote o1) \<and> owner_of s name = Some (so_remote o1)
        \<and> (\<forall>x\<in>set rest. hello s (so_remote x))"
  by (cases q) (auto simp: queues_ok_def owner_of_def)

lemma links_ok_remove:
  "links_ok s \<Longrightarrow> live s r \<Longrightarrow> links_ok (set_links s r (remove1 name (links s r)))"
  by (auto simp: links_ok_def dest: notin_set_remove1 intro: distinct_remove1 split: if_splits)

lemma links_ok_queue:
  assumes "links_ok s" and "\<And>k. live s k \<Longrightarrow> name \<in> set (links s k) \<Longrightarrow> k \<in> so_remote ` set q"
  shows "links_ok (set_queue s name q)"
  using assms by (fastforce simp: links_ok_def)

lemma links_ok_del:
  assumes "links_ok s" and "\<And>k. live s k \<Longrightarrow> name \<notin> set (links s k)"
  shows "links_ok (del_service s name)"
  using assms by (fastforce simp: links_ok_def)

lemma links_ok_log [simp]: "links_ok (s\<lparr>sv_log := l\<rparr>) = links_ok s"
  by (simp add: links_ok_def)

lemma link_queued:
  "links_ok s \<Longrightarrow> live s k \<Longrightarrow> name \<in> set (links s k) \<Longrightarrow> queue_of s name = Some q \<Longrightarrow> k \<in> so_remote ` set q"
  by (fastforce simp: links_ok_def)

lemma releasename_names_ok:
  assumes ok: "names_ok s" and rel: "adbusI_serv_releasename s r name = Inr (c, s')"
  shows "names_ok s'"
proof (cases "queue_of s name")
  case None
  with rel ok show ?thesis by (simp add: releasename_none)
next
  case (Some q)
  from ok have qo: "queues_ok s" and lo: "links_ok s" and go: "log_ok s" by (simp_all add: names_ok_def)
  from queue_hd[OF qo Some] obtain o1 rest where q: "q = o1 # rest" "hello s (so_remote o1)"
    "owner_of s name = Some (so_remote o1)" "\<forall>x\<in>set rest. hello s (so_remote x)" by auto
  show ?thesis
  proof (cases "so_remote o1 = r")
    case False
    then have s': "live s r" "s' = set_links s r (remove1 name (links s r))"
      using rel by (auto simp: releasename_other[OF Some[unfolded q(1)]] res_convs removeService_Inr)
    then show ?thesis using qo links_ok_remove[OF lo] log_ok_same[OF go, of s']
      by (simp add: names_ok_def)
  next
    case True
    let ?s1 = "set_links s r (remove1 name (links s r))" and ?new = "if rest = [] then None else Some (so_remote (hd rest))"
    from rel obtain s2 where lr: "live s r" and oc: "adbusI_serv_ownerchanged (set_queue ?s1 name rest) name (Some r) ?new = Inr s2"
      and s': "s' = (if rest = [] then del_service s2 name else s2)"
      by (auto simp: releasename_owner[OF Some[unfolded q(1)] True] res_convs removeService_Inr)
    from oc have s2: "s2 = (set_queue ?s1 name rest)\<lparr>sv_log := sv_log s @ owner_events name (Some (uniq s r)) (map_option (uniq s) ?new)\<rparr>"
      using q(2) True unfolding ownerchanged_Inr by (auto cong: map_option_cong split: if_splits)
    have kq: "k \<in> so_remote ` set rest" if "live s k" "name \<in> set (links ?s1 k)" for k
    proof -
      have "k \<noteq> r" using that lr lo by (auto simp: links_ok_def split: if_splits)
      moreover from that this lr have "k \<in> so_remote ` set (o1 # rest)"
        using link_queued[OF lo _ _ Some] q(1) by simp
      ultimately show ?thesis using True by auto
    qed
    have "queues_ok s'" unfolding s' s2
      using qo q by (auto intro!: queues_ok_set_del queues_ok_set)
    moreover have "links_ok s'"
      unfolding s' s2 using kq links_ok_remove[OF lo lr, of name]
      by (auto intro!: links_ok_del links_ok_queue)
    moreover have "log_ok s'"
      by (rule log_ok_change[OF go, where name=name and old="Some r" and new="?new"])
        (use q True in \<open>auto simp: s' s2 split: list.splits\<close>)
    ultimately show ?thesis by (simp add: names_ok_def)
  qed
qed


text \<open>The branches of a request, on a name that is taken.\<close>

lemma requestname_taken:
  assumes "queue_of s name = Some (o1 # rest)"
  shows "adbusI_serv_requestname s r name flags =
     (let me = \<lparr>so_remote = r, so_allowReplacement = (flags AND ADBUS_SERVICE_ALLOW_REPLACEMENT \<noteq> 0)\<rparr>
      in if so_remote o1 = r then Inr (4, set_queue s name (me # rest))
         else if flags AND ADBUS_SERVICE_REPLACE_EXISTING \<noteq> 0 \<and> so_allowReplacement o1 then
           bindr (adbusI_serv_removeServiceFromRemote s r name) (\<lambda>s.
           bindr (adbusI_serv_removeServiceFromRemote s (so_remote o1) name) (\<lambda>s.
           bindr (adbusI_serv_ownerchanged (set_queue s name (me # rest)) name
                    (Some (so_remote o1)) (Some r)) (\<lambda>s. Inr (1, s))))
         else if flags AND ADBUS_SERVICE_DO_NOT_QUEUE = 0 then
           (if r \<in> so_remote ` set rest then Inr (2, set_queue s name (o1 # update_first r me rest))
            else bindr (upd_remote s r (\<lambda>x. x\<lparr>rm_services := rm_services x @ [name]\<rparr>)) (\<lambda>s.
                   Inr (2, set_queue s name (o1 # rest @ [me]))))
         else bindr (adbusI_serv_removeServiceFromRemote s r name) (\<lambda>s. Inr (3, s)))"
proof (cases "so_remote o1 = r")
  case True
  with assms show ?thesis by (simp add: adbusI_serv_requestname_def Let_def)
next
  case False
  have rq: "queue_of s' name = Some (o1 # rest)"
    if "adbusI_serv_removeServiceFromRemote s r name = Inr s'" for s'
    using that assms by (simp add: removeService_Inr)
  from False assms show ?thesis
    by (auto simp add: adbusI_serv_requestname_def Let_def releasename_other[OF assms] bindr_assoc rq
        intro!: bindr_cong)
qed

lemma requestname_free:
  assumes "queue_of s name = None"
  shows "adbusI_serv_requestname s r name flags =
     bindr (upd_remote (set_queue s name []) r (\<lambda>x. x\<lparr>rm_services := rm_services x @ [name]\<rparr>)) (\<lambda>s.
     bindr (adbusI_serv_ownerchanged (set_queue s name
         [\<lparr>so_remote = r, so_allowReplacement = (flags AND ADBUS_SERVICE_ALLOW_REPLACEMENT \<noteq> 0)\<rparr>]) name None (Some r)) (\<lambda>s.
       Inr (1, s)))"
  using assms by (simp add: adbusI_serv_requestname_def Let_def)

lemma set_update_first:
  "set (update_first r o1 q) \<subseteq> insert o1 (set q)"
  "so_remote o1 = r \<Longrightarrow> so_remote ` set (update_first r o1 q) = so_remote ` set q"
  by (induction q) auto

lemma not_linked_free:
  "links_ok s \<Longrightarrow> queue_of s name = None \<Longrightarrow> live s k \<Longrightarrow> name \<notin> set (links s k)"
  by (fastforce simp: links_ok_def)

lemma claim_free_ok:
  assumes ok: "names_ok s" and h: "hello s r" and lr: "live s r" and none: "queue_of s name = None"
    and me: "so_remote me = r"
    and s': "s' = (set_queue (set_links (set_queue s name []) r (links s r @ [name])) name [me])
        \<lparr>sv_log := sv_log s @ owner_events name None (Some (uniq s r))\<rparr>"
  shows "names_ok s'"
proof -
  from ok have qo: "queues_ok s" and lo: "links_ok s" and go: "log_ok s" by (simp_all add: names_ok_def)
  note nl = not_linked_free[OF lo none]
  have "queues_ok s'" unfolding s' using qo h me
    by (auto simp: queues_ok_def set_queue_def queue_of_def update_conv' set_links_def hello_def
        nth_list_update intro!: distinct_update split: if_splits)
  moreover have "links_ok s'" unfolding s' using lo lr nl me
    by (auto simp: links_ok_def split: if_splits)
  moreover have "log_ok s'"
    by (rule log_ok_change[OF go, where name=name and old=None and new="Some r"])
      (use none me in \<open>auto simp: s' owner_of_def\<close>)
  ultimately show ?thesis by (simp add: names_ok_def)
qed

lemma same_owner_ok:
  assumes ok: "names_ok s" and q: "queue_of s name = Some (o1 # rest)" and o2: "so_remote o2 = so_remote o1"
    and h: "\<And>x. x \<in> set q2 \<Longrightarrow> hello s (so_remote x)" and l: "links_ok (set_queue (set_links s r ls) name (o2 # q2))"
  shows "names_ok (set_queue (set_links s r ls) name (o2 # q2))"
proof -
  from ok have qo: "queues_ok s" and go: "log_ok s" by (simp_all add: names_ok_def)
  have "log_ok (set_queue (set_links s r ls) name (o2 # q2))"
    by (rule log_ok_same[OF go]) (use q o2 in \<open>auto simp: owner_of_def\<close>)
  moreover have "queues_ok (set_queue (set_links s r ls) name (o2 # q2))"
    using qo h q o2 by (intro queues_ok_set) (auto simp: queues_ok_def)
  ultimately show ?thesis using l by (simp add: names_ok_def)
qed

lemma set_links_id [simp]: "set_links s r (links s r) = s"
  by (simp add: set_links_def links_def)

lemma refresh_owner_ok:
  assumes ok: "names_ok s" and q: "queue_of s name = Some (o1 # rest)" and o2: "so_remote o2 = so_remote o1"
  shows "names_ok (set_queue s name (o2 # rest))"
proof -
  from ok have lo: "links_ok s" and qo: "queues_ok s" by (simp_all add: names_ok_def)
  have "links_ok (set_queue s name (o2 # rest))"
    using link_queued[OF lo _ _ q] o2 by (intro links_ok_queue[OF lo]) auto
  then show ?thesis using same_owner_ok[OF ok q o2, of rest 0 "links s 0"] qo q
    by (simp add: queues_ok_def)
qed

lemma requeue_ok:
  assumes ok: "names_ok s" and q: "queue_of s name = Some (o1 # rest)" and h: "hello s r" and me: "so_remote me = r"
  shows "names_ok (set_queue s name (o1 # update_first r me rest))"
proof -
  from ok have lo: "links_ok s" and qo: "queues_ok s" by (simp_all add: names_ok_def)
  have "links_ok (set_queue s name (o1 # update_first r me rest))"
    using link_queued[OF lo _ _ q] set_update_first(2)[OF me] by (intro links_ok_queue[OF lo]) auto
  moreover have "hello s (so_remote x)" if "x \<in> set (update_first r me rest)" for x
    using that set_update_first(1)[of r me rest] h me qo q by (auto simp: queues_ok_def)
  ultimately show ?thesis using same_owner_ok[OF ok q refl, of "update_first r me rest" 0 "links s 0"] by simp
qed

lemma enqueue_ok:
  assumes ok: "names_ok s" and q: "queue_of s name = Some (o1 # rest)" and h: "hello s r" and lr: "live s r"
    and me: "so_remote me = r" and new: "r \<noteq> so_remote o1" "r \<notin> so_remote ` set rest"
  shows "names_ok (set_queue (set_links s r (links s r @ [name])) name (o1 # rest @ [me]))"
proof -
  from ok have lo: "links_ok s" and qo: "queues_ok s" by (simp_all add: names_ok_def)
  have nl: "name \<notin> set (links s r)" using link_queued[OF lo lr _ q] new by auto
  have "links_ok (set_queue (set_links s r (links s r @ [name])) name (o1 # rest @ [me]))"
    unfolding links_ok_def using lo lr nl me link_queued[OF lo _ _ q]
    by (auto simp: links_ok_def split: if_splits)
  then show ?thesis using qo q h me by (intro same_owner_ok[OF ok q refl]) (auto simp: queues_ok_def)
qed

lemma replace_ok:
  assumes ok: "names_ok s" and q: "queue_of s name = Some (o1 # rest)" and h: "hello s r" and lr: "live s r"
    and me: "so_remote me = r" and ne: "so_remote o1 \<noteq> r" and lo1: "live s (so_remote o1)"
    and s1: "s1 = set_links s r (remove1 name (links s r))"
    and s2: "s2 = set_links s1 (so_remote o1) (remove1 name (links s1 (so_remote o1)))"
    and s': "s' = (set_queue s2 name (me # rest))\<lparr>sv_log := sv_log s @ owner_events name
        (Some (uniq s (so_remote o1))) (Some (uniq s r))\<rparr>"
  shows "names_ok s'"
proof -
  from ok have qo: "queues_ok s" and lo: "links_ok s" and go: "log_ok s" by (simp_all add: names_ok_def)
  have ho: "hello s (so_remote o1)" using qo q by (auto simp: queues_ok_def)
  have lo2: "links_ok s2" unfolding s2 s1 using lr lo1 by (intro links_ok_remove lo) simp_all
  have k: "k \<in> so_remote ` set rest" if "live s k" "name \<in> set (links s2 k)" for k
  proof -
    from lo lr lo1 have d: "distinct (links s r)" "distinct (links s (so_remote o1))"
      by (auto simp: links_ok_def)
    with that lr lo1 ne have "k \<noteq> r" "k \<noteq> so_remote o1" by (auto simp: s1 s2 split: if_splits)
    with that lr lo1 have "name \<in> set (links s k)" by (simp add: s1 s2)
    with link_queued[OF lo that(1) _ q] \<open>k \<noteq> so_remote o1\<close> show ?thesis by auto
  qed
  have "links_ok (set_queue s2 name (me # rest))"
    using k by (intro links_ok_queue[OF lo2]) (auto simp: s1 s2)
  then have "links_ok s'" by (simp add: s')
  moreover have "hello s (so_remote x)" if "x \<in> set (me # rest)" for x
    using that qo q h me by (auto simp: queues_ok_def)
  then have "queues_ok s'" using qo unfolding s' s2 s1 by (simp, intro queues_ok_set) auto
  moreover have "log_ok s'"
    by (rule log_ok_change[OF go, where name=name and old="Some (so_remote o1)" and new="Some r"])
      (use q ho me in \<open>auto simp: s' s2 s1 owner_of_def\<close>)
  ultimately show ?thesis by (simp add: names_ok_def)
qed

lemma requestname_names_ok:
  assumes ok: "names_ok s" and hr: "hello s r" and req: "adbusI_serv_requestname s r name flags = Inr (c, s')"
  shows "names_ok s'"
proof -
  define me where "me = \<lparr>so_remote = r, so_allowReplacement = (flags AND ADBUS_SERVICE_ALLOW_REPLACEMENT \<noteq> 0)\<rparr>"
  have me: "so_remote me = r" by (simp add: me_def)
  from ok have qo: "queues_ok s" by (simp add: names_ok_def)
  show ?thesis
  proof (cases "queue_of s name")
    case None
    with req have "live s r" "s' = (set_queue (set_links (set_queue s name []) r (links s r @ [name])) name [me])
        \<lparr>sv_log := sv_log s @ owner_events name None (Some (uniq s r))\<rparr>"
      by (auto simp: requestname_free me_def[symmetric] res_convs push_service_Inr ownerchanged_Inr)
    with claim_free_ok[OF ok hr _ None me] show ?thesis by blast
  next
    case (Some q)
    from queue_hd[OF qo Some] obtain o1 rest where q: "q = o1 # rest" "hello s (so_remote o1)" by auto
    note qq = Some[unfolded q(1)]
    note taken = requestname_taken[OF qq, of r flags, folded me_def, unfolded Let_def]
    consider "so_remote o1 = r"
      | "so_remote o1 \<noteq> r" "flags AND ADBUS_SERVICE_REPLACE_EXISTING \<noteq> 0 \<and> so_allowReplacement o1"
      | "so_remote o1 \<noteq> r" "\<not> (flags AND ADBUS_SERVICE_REPLACE_EXISTING \<noteq> 0 \<and> so_allowReplacement o1)"
        "flags AND ADBUS_SERVICE_DO_NOT_QUEUE = 0"
      | "so_remote o1 \<noteq> r" "\<not> (flags AND ADBUS_SERVICE_REPLACE_EXISTING \<noteq> 0 \<and> so_allowReplacement o1)"
        "flags AND ADBUS_SERVICE_DO_NOT_QUEUE \<noteq> 0" by blast
    then show ?thesis
    proof cases
      case 1
      then show ?thesis using req taken refresh_owner_ok[OF ok qq, of me] me by simp
    next
      case 2
      with req taken q(2) have "live s r" "live s (so_remote o1)"
        "s' = (set_queue (set_links (set_links s r (remove1 name (links s r))) (so_remote o1)
            (remove1 name (links (set_links s r (remove1 name (links s r))) (so_remote o1)))) name (me # rest))
          \<lparr>sv_log := sv_log s @ owner_events name (Some (uniq s (so_remote o1))) (Some (uniq s r))\<rparr>"
        by (auto simp: res_convs removeService_Inr ownerchanged_Inr)
      then show ?thesis using replace_ok[OF ok qq hr _ me 2(1)] by blast
    next
      case 3
      show ?thesis
      proof (cases "r \<in> so_remote ` set rest")
        case True
        then show ?thesis using req taken 3 requeue_ok[OF ok qq hr me] by simp
      next
        case False
        with req taken 3 have "live s r" "s' = set_queue (set_links s r (links s r @ [name])) name (o1 # rest @ [me])"
          by (auto simp: res_convs push_service_Inr)
        then show ?thesis using enqueue_ok[OF ok qq hr _ me] 3(1) False by auto
      qed
    next
      case 4
      then have "adbusI_serv_releasename s r name = Inr (3, s')"
        using req taken releasename_other[OF qq 4(1)] by (auto simp: res_convs)
      with ok show ?thesis by (rule releasename_names_ok)
    qed
  qed
qed

section \<open>Connecting and disconnecting\<close>

text \<open>What no operation on names touches.\<close>

definition frame :: "adbus_Server \<Rightarrow> adbus_Server \<Rightarrow> bool" where
  "frame s s' \<longleftrightarrow> (\<forall>k. live s' k = live s k \<and> hello s' k = hello s k \<and> uniq s' k = uniq s k)
     \<and> sv_remotes s' = sv_remotes s \<and> sv_busRemote s' = sv_busRemote s
     \<and> sv_nextRemote s' = sv_nextRemote s \<and> length (sv_heap s') = length (sv_heap s)"

lemma frame_refl [simp]: "frame s s"
  by (simp add: frame_def)

lemma frame_trans: "frame s s' \<Longrightarrow> frame s' s'' \<Longrightarrow> frame s s''"
  by (simp add: frame_def)

lemma frame_steps [simp]:
  "frame s (set_queue s' n q) = frame s s'" "frame s (del_service s' n) = frame s s'"
  "frame s (set_links s' r ls) = frame s s'" "frame s (s'\<lparr>sv_log := l\<rparr>) = frame s s'"
  by (simp_all add: frame_def) (simp_all add: set_links_def)

lemma releasename_frame:
  assumes "adbusI_serv_releasename s r name = Inr (c, s')" and "queue_of s name = Some q"
  shows "frame s s' \<and> live s r \<and> links s' k = (if k = r then remove1 name (links s r) else links s k)
     \<and> (n \<noteq> name \<longrightarrow> queue_of s' n = queue_of s n)"
proof (cases q)
  case Nil
  with assms show ?thesis by (auto simp: adbusI_serv_releasename_def res_convs)
next
  case (Cons o1 rest)
  note q = assms(2)[unfolded Cons]
  show ?thesis
  proof (cases "so_remote o1 = r")
    case True
    with assms(1) show ?thesis
      by (auto simp: releasename_owner[OF q] res_convs removeService_Inr ownerchanged_Inr)
  next
    case False
    with assms(1) show ?thesis
      by (auto simp: releasename_other[OF q] res_convs removeService_Inr)
  qed
qed

function release_services :: "adbus_Server \<Rightarrow> nat \<Rightarrow> adbus_Server res" where
  "release_services s r =
     bindr (get_remote s r) (\<lambda>x.
       case rm_services x of
         [] \<Rightarrow> Inr s
       | name # _ \<Rightarrow>
           (if queue_of s name = None then Inl Fault
            else bindr (adbusI_serv_releasename s r name) (\<lambda>(_, s). release_services s r)))"
  by pat_completeness auto

termination
proof (relation "measure (\<lambda>(s, r). length (links s r))", goal_cases)
  case 1
  then show ?case by simp
next
  case (2 s r x name rest cs c s')
  then have "links s r = name # rest" by (auto simp: get_remote_def links_def split: if_splits)
  moreover from 2 obtain q where "queue_of s name = Some q" by auto
  with releasename_frame[of s r name c s' q r] 2 have "links s' r = remove1 name (links s r)" by auto
  ultimately show ?case by simp
qed

declare release_services.simps [simp del]

definition adbus_remote_disconnect :: "adbus_Server \<Rightarrow> nat \<Rightarrow> adbus_Server res" where
  "adbus_remote_disconnect s r =
     bindr (get_remote s r) (\<lambda>_.
     bindr (upd_remote (s\<lparr>sv_remotes := remove1 r (sv_remotes s)\<rparr>) r (\<lambda>x. x\<lparr>rm_matches := []\<rparr>)) (\<lambda>s.
     bindr (release_services s r) (\<lambda>s.
       upd_remote s r (\<lambda>x. x\<lparr>rm_freed := True\<rparr>))))"

definition adbusI_serv_initbus :: "adbus_Server \<Rightarrow> adbus_Server res" where
  "adbusI_serv_initbus s =
     (let (r, s) = adbus_serv_connect s; s = s\<lparr>sv_busRemote := Some r\<rparr>
      in bindr (upd_remote s r (\<lambda>x. x\<lparr>rm_haveHello := True\<rparr>)) (\<lambda>s.
         bindr (get_remote s r) (\<lambda>x.
         bindr (adbusI_serv_requestname s r (rm_unique x) 0) (\<lambda>(_, s). Inr s))))"

definition adbus_serv_new :: "adbus_Server res" where
  "adbus_serv_new = adbusI_serv_initbus \<lparr>sv_busRemote = None, sv_helloRemote = None, sv_services = [],
     sv_remotes = [], sv_nextRemote = 0, sv_heap = [], sv_log = []\<rparr>"

text \<open>\<^verbatim>\<open>adbus_serv_free\<close> disconnects the remotes in the order of the list, then frees what is left.\<close>

primrec disconnect_all :: "adbus_Server \<Rightarrow> nat list \<Rightarrow> adbus_Server res" where
  "disconnect_all s [] = Inr s"
| "disconnect_all s (r # rs) = bindr (adbus_remote_disconnect s r) (\<lambda>s. disconnect_all s rs)"

definition adbus_serv_free :: "adbus_Server \<Rightarrow> adbus_Server res" where
  "adbus_serv_free s =
     bindr (disconnect_all s (sv_remotes s)) (\<lambda>s. Inr (s\<lparr>sv_remotes := [], sv_services := []\<rparr>))"

text \<open>
  The part of the \<^verbatim>\<open>Hello\<close> method that changes the registry: the remote may use the bus and owns
  its unique name, which \<^verbatim>\<open>FixHeaders\<close> has made the sender of the message.
\<close>

definition say_hello :: "adbus_Server \<Rightarrow> nat \<Rightarrow> (nat \<times> adbus_Server) res" where
  "say_hello s r =
     bindr (upd_remote s r (\<lambda>x. x\<lparr>rm_haveHello := True\<rparr>)) (\<lambda>s.
     bindr (get_remote s r) (\<lambda>x. adbusI_serv_requestname s r (rm_unique x) 0))"

lemma requestname_frame:
  assumes "adbusI_serv_requestname s r name flags = Inr (c, s')" and "queues_ok s"
  shows "frame s s' \<and> (n \<noteq> name \<longrightarrow> queue_of s' n = queue_of s n)"
proof (cases "queue_of s name")
  case None
  with assms(1) show ?thesis
    by (auto simp: requestname_free res_convs push_service_Inr ownerchanged_Inr)
next
  case (Some q)
  with queue_hd[OF assms(2) Some] obtain o1 rest where q: "queue_of s name = Some (o1 # rest)" by auto
  from assms(1) show ?thesis
    unfolding requestname_taken[OF q] Let_def
    by (auto simp: res_convs push_service_Inr ownerchanged_Inr removeService_Inr split: if_splits)
qed

lemma names_ok_heap:
  assumes ok: "names_ok s" and "sv_services s' = sv_services s" and "sv_log s' = sv_log s"
    and h: "\<And>k. hello s k \<Longrightarrow> hello s' k \<and> uniq s' k = uniq s k"
    and l: "\<And>k. live s' k \<Longrightarrow> links s' k = [] \<or> live s k \<and> links s' k = links s k"
  shows "names_ok s'"
proof -
  have q: "queue_of s' = queue_of s" using assms(2) by (simp add: queue_of_def fun_eq_iff)
  then have o: "owner_of s' n = owner_of s n" for n by (simp add: owner_of_def)
  have oh: "hello s r" if "owner_of s n = Some r" for n r
    using that ok by (fastforce simp: names_ok_def queues_ok_def owner_of_def split: option.splits list.splits)
  have "owner_name s' n = owner_name s n" for n
    using oh[of n] h by (auto simp: owner_name_def o split: option.split)
  then have "log_ok s'" using ok assms(3) by (simp add: names_ok_def log_ok_def)
  moreover have "queues_ok s'" using ok h by (auto simp: names_ok_def queues_ok_def q assms(2))
  moreover have "links_ok s'" using ok l by (force simp: names_ok_def links_ok_def q)
  ultimately show ?thesis by (simp add: names_ok_def)
qed

lemma heap_update_views:
  assumes "r < length (sv_heap s)"
  shows "live (s\<lparr>sv_heap := (sv_heap s)[r := x]\<rparr>) k = (if k = r then \<not> rm_freed x else live s k)"
    "hello (s\<lparr>sv_heap := (sv_heap s)[r := x]\<rparr>) k = (if k = r then rm_haveHello x else hello s k)"
    "uniq (s\<lparr>sv_heap := (sv_heap s)[r := x]\<rparr>) k = (if k = r then rm_unique x else uniq s k)"
    "links (s\<lparr>sv_heap := (sv_heap s)[r := x]\<rparr>) k = (if k = r then rm_services x else links s k)"
  using assms by (auto simp: live_def hello_def uniq_def links_def)

lemma remote_views:
  "live s r \<Longrightarrow> \<not> rm_freed (sv_heap s ! r)" "rm_unique (sv_heap s ! r) = uniq s r"
  "rm_services (sv_heap s ! r) = links s r" "live s r \<Longrightarrow> rm_haveHello (sv_heap s ! r) = hello s r"
  by (simp_all add: live_def hello_def uniq_def links_def)

lemma connect_eq:
  "snd (adbus_serv_connect s) =
     s\<lparr>sv_nextRemote := (if sv_busRemote s = None then sv_nextRemote s else sv_nextRemote s + 1),
       sv_heap := sv_heap s @ [new_remote (if sv_busRemote s = None then ''org.freedesktop.DBus''
                                           else '':1.'' @ dec (unat (sv_nextRemote s)))],
       sv_remotes := length (sv_heap s) # sv_remotes s\<rparr>"
  by (cases s) (auto simp: adbus_serv_connect_def Let_def)

lemma connect_inv:
  assumes "serv_inv s"
  shows "serv_inv (snd (adbus_serv_connect s))"
proof -
  obtain u nx where c: "snd (adbus_serv_connect s) =
      s\<lparr>sv_nextRemote := nx, sv_heap := sv_heap s @ [new_remote u], sv_remotes := length (sv_heap s) # sv_remotes s\<rparr>"
    using connect_eq by blast
  have r: "rm_services (new_remote u) = []" "\<not> rm_freed (new_remote u)" by (simp_all add: new_remote_def)
  let ?s = "snd (adbus_serv_connect s)"
  have "names_ok ?s"
    by (rule names_ok_heap[of s]) (use assms r in
        \<open>auto simp: c serv_inv_def hello_def uniq_def links_def live_def nth_append\<close>)
  moreover have lv: "live ?s k \<longleftrightarrow> live s k \<or> k = length (sv_heap s)" for k
    using r by (auto simp: c live_def nth_append)
  then have "remotes_ok ?s" using assms
    by (auto simp: serv_inv_def remotes_ok_def c) (auto simp: live_def)
  ultimately show ?thesis by (simp add: serv_inv_def)
qed

lemma release_services_props:
  assumes "release_services s r = Inr s'" and "names_ok s"
  shows "names_ok s' \<and> frame s s' \<and> live s r \<and> links s' r = []
     \<and> (\<forall>k. k \<noteq> r \<longrightarrow> links s' k = links s k) \<and> (\<forall>n. n \<notin> set (links s r) \<longrightarrow> queue_of s' n = queue_of s n)"
  using assms
proof (induction s r rule: release_services.induct)
  case (1 s r)
  from "1.prems"(1) have lr: "live s r" by (auto simp: release_services.simps[of s r] res_convs get_remote_def split: if_splits)
  then have g: "get_remote s r = Inr (sv_heap s ! r)" by (simp add: get_remote_def)
  show ?case
  proof (cases "links s r")
    case Nil
    with "1.prems" g lr show ?thesis by (simp add: release_services.simps[of s r] links_def)
  next
    case (Cons name rest)
    then have sv: "rm_services (sv_heap s ! r) = name # rest" by (simp add: links_def)
    from "1.prems"(1) g sv obtain c s1 where q: "queue_of s name \<noteq> None"
      and rel: "adbusI_serv_releasename s r name = Inr (c, s1)" and rec: "release_services s1 r = Inr s'"
      by (auto simp: release_services.simps[of s r] res_convs split: if_splits)
    from q obtain qq where qq: "queue_of s name = Some qq" by auto
    note f = releasename_frame[OF rel qq]
    from "1.IH"[OF g sv q rel _ rec releasename_names_ok[OF "1.prems"(2) rel]]
    have "names_ok s' \<and> frame s1 s' \<and> live s1 r \<and> links s' r = []
       \<and> (\<forall>k. k \<noteq> r \<longrightarrow> links s' k = links s1 k) \<and> (\<forall>n. n \<notin> set (links s1 r) \<longrightarrow> queue_of s' n = queue_of s1 n)"
      by simp
    then show ?thesis using f lr Cons frame_trans[of s s1 s'] by (auto simp: notin_set_remove1)
  qed
qed

lemma disconnect_props:
  assumes "adbus_remote_disconnect s r = Inr s'" and inv: "serv_inv s"
  shows "serv_inv s' \<and> live s r \<and> (\<forall>k. live s' k \<longleftrightarrow> live s k \<and> k \<noteq> r)
     \<and> (\<forall>k. hello s' k = hello s k \<and> uniq s' k = uniq s k)
     \<and> (\<forall>n. n \<notin> set (links s r) \<longrightarrow> queue_of s' n = queue_of s n)
     \<and> sv_busRemote s' = sv_busRemote s \<and> sv_nextRemote s' = sv_nextRemote s \<and> length (sv_heap s') = length (sv_heap s)"
proof -
  let ?s1 = "s\<lparr>sv_remotes := remove1 r (sv_remotes s), sv_heap := (sv_heap s)[r := (sv_heap s ! r)\<lparr>rm_matches := []\<rparr>]\<rparr>"
  from assms(1) obtain s2 where lr: "live s r" and rel: "release_services ?s1 r = Inr s2"
    and l2: "live s2 r" and s': "s' = s2\<lparr>sv_heap := (sv_heap s2)[r := (sv_heap s2 ! r)\<lparr>rm_freed := True\<rparr>]\<rparr>"
    by (auto simp: adbus_remote_disconnect_def res_convs upd_remote_Inr)
  have r: "r < length (sv_heap s)" using lr by (simp add: live_def)
  have v1: "live ?s1 k = live s k" "hello ?s1 k = hello s k" "uniq ?s1 k = uniq s k" "links ?s1 k = links s k" for k
    using heap_update_views[of r "s\<lparr>sv_remotes := remove1 r (sv_remotes s)\<rparr>" "(sv_heap s ! r)\<lparr>rm_matches := []\<rparr>" k] r lr
    by (simp_all add: remote_views) (simp_all add: hello_def uniq_def links_def live_def)
  have "names_ok ?s1" by (rule names_ok_heap[of s]) (use inv in \<open>auto simp: serv_inv_def v1\<close>)
  note p = release_services_props[OF rel this]
  have r2: "r < length (sv_heap s2)" using l2 by (simp add: live_def)
  have v2: "live s' k \<longleftrightarrow> live s2 k \<and> k \<noteq> r" "hello s' k = hello s2 k" "uniq s' k = uniq s2 k"
    "links s' k = links s2 k" for k
    using l2 by (simp_all add: s' heap_update_views[OF r2] remote_views)
  have f2: "sv_services s' = sv_services s2" "sv_log s' = sv_log s2" "sv_remotes s' = sv_remotes s2"
    "sv_busRemote s' = sv_busRemote s2" "sv_nextRemote s' = sv_nextRemote s2"
    "length (sv_heap s') = length (sv_heap s2)" "queue_of s' = queue_of s2"
    by (simp_all add: s')
  have "names_ok s'" by (rule names_ok_heap[of s2]) (use p in \<open>auto simp: v2 f2\<close>)
  moreover have lv: "live s' k \<longleftrightarrow> live s k \<and> k \<noteq> r" for k using p by (auto simp: v2 v1 frame_def)
  moreover have "remotes_ok s'"
    using inv p lv by (auto simp: serv_inv_def remotes_ok_def f2 frame_def)
  ultimately show ?thesis using p lr lv
    by (auto simp: serv_inv_def v2 v1 frame_def f2)
qed

end
