(* ===== verification/Bus_Registry.thy ===== *)
theory Bus_Registry
  imports Bus_Names
begin

text \<open>
  What holds of the registry of \<^verbatim>\<open>Bus_Names\<close> in every state the server can reach: its
  invariant, the truth of the signals, unique names that identify remotes, what a request and a
  disconnection do, and two scenarios in which a freed remote stays in a queue.
\<close>

section \<open>Reachable servers\<close>

inductive serv_reach :: "adbus_Server \<Rightarrow> bool" where
  new: "adbus_serv_new = Inr s \<Longrightarrow> serv_reach s"
| connect: "serv_reach s \<Longrightarrow> serv_reach (snd (adbus_serv_connect s))"
| hello: "serv_reach s \<Longrightarrow> \<not> hello s r \<Longrightarrow> say_hello s r = Inr (c, s') \<Longrightarrow> serv_reach s'"
| request: "serv_reach s \<Longrightarrow> live s r \<Longrightarrow> hello s r \<Longrightarrow> name \<noteq> [] \<Longrightarrow> hd name \<noteq> CHR '':'' \<Longrightarrow>
     adbusI_serv_requestname s r name flags = Inr (c, s') \<Longrightarrow> serv_reach s'"
| release: "serv_reach s \<Longrightarrow> live s r \<Longrightarrow> hello s r \<Longrightarrow> name \<noteq> [] \<Longrightarrow> hd name \<noteq> CHR '':'' \<Longrightarrow>
     adbusI_serv_releasename s r name = Inr (c, s') \<Longrightarrow> serv_reach s'"
| disconnect: "serv_reach s \<Longrightarrow> adbus_remote_disconnect s r = Inr s' \<Longrightarrow> serv_reach s'"

lemma say_hello_split:
  assumes "say_hello s r = Inr (c, s')" and "names_ok s"
  shows "\<exists>s1. live s r \<and> names_ok s1 \<and> hello s1 r \<and> adbusI_serv_requestname s1 r (uniq s r) 0 = Inr (c, s')
     \<and> (\<forall>k. live s1 k = live s k \<and> uniq s1 k = uniq s k \<and> links s1 k = links s k \<and> (k \<noteq> r \<longrightarrow> hello s1 k = hello s k))
     \<and> queue_of s1 = queue_of s \<and> sv_remotes s1 = sv_remotes s \<and> sv_busRemote s1 = sv_busRemote s
     \<and> sv_nextRemote s1 = sv_nextRemote s \<and> length (sv_heap s1) = length (sv_heap s)"
proof -
  let ?s1 = "s\<lparr>sv_heap := (sv_heap s)[r := (sv_heap s ! r)\<lparr>rm_haveHello := True\<rparr>]\<rparr>"
  from assms(1) have lr: "live s r" and req: "adbusI_serv_requestname ?s1 r (rm_unique (sv_heap ?s1 ! r)) 0 = Inr (c, s')"
    by (auto simp: say_hello_def res_convs upd_remote_Inr get_remote_def split: if_splits)
  have r: "r < length (sv_heap s)" using lr by (simp add: live_def)
  have v: "live ?s1 k = live s k" "uniq ?s1 k = uniq s k" "links ?s1 k = links s k"
    "hello ?s1 k = (hello s k \<or> k = r)" for k
    using lr by (simp_all add: heap_update_views[OF r] remote_views)
  have "names_ok ?s1" by (rule names_ok_heap[of s]) (use assms(2) in \<open>auto simp: v\<close>)
  moreover have "rm_unique (sv_heap ?s1 ! r) = uniq s r" using v(2)[of r] by (simp add: uniq_def)
  ultimately show ?thesis using lr req r by (intro exI[of _ ?s1]) (auto simp: v simp del: nth_list_update_eq)
qed

lemma frame_remotes_ok: "frame s s' \<Longrightarrow> remotes_ok s \<Longrightarrow> remotes_ok s'"
  by (simp add: frame_def remotes_ok_def)

lemma new_server:
  assumes "adbus_serv_new = Inr s"
  shows "serv_inv s \<and> sv_busRemote s = Some 0 \<and> sv_nextRemote s = 0 \<and> length (sv_heap s) = 1 \<and> live s 0
     \<and> hello s 0 \<and> uniq s 0 = ''org.freedesktop.DBus'' \<and> (\<forall>n. owner_of s n = (if n = ''org.freedesktop.DBus'' then Some 0 else None))"
proof -
  let ?b = "(new_remote ''org.freedesktop.DBus'')\<lparr>rm_haveHello := True\<rparr>"
  define s1 where "s1 = \<lparr>sv_busRemote = Some 0, sv_helloRemote = None, sv_services = [], sv_remotes = [0],
     sv_nextRemote = 0, sv_heap = [?b], sv_log = []\<rparr>"
  from assms obtain c where req: "adbusI_serv_requestname s1 0 ''org.freedesktop.DBus'' 0 = Inr (c, s)"
    by (auto simp: adbus_serv_new_def adbusI_serv_initbus_def adbus_serv_connect_def Let_def res_convs
        upd_remote_def get_remote_def live_def new_remote_def s1_def)
  have v: "live s1 k \<longleftrightarrow> k = 0" "hello s1 k \<longleftrightarrow> k = 0" "uniq s1 0 = ''org.freedesktop.DBus''"
    "links s1 0 = []" "queue_of s1 = Map.empty" "owner_of s1 n = None" for k n
    by (auto simp: s1_def live_def hello_def uniq_def links_def new_remote_def queue_of_def owner_of_def)
  have ok: "names_ok s1" "queues_ok s1"
    by (auto simp: names_ok_def queues_ok_def links_ok_def log_ok_def v journal_ok_def replay_def owner_name_def)
      (auto simp: s1_def)
  have "remotes_ok s1" by (auto simp: remotes_ok_def v) (auto simp: s1_def)
  moreover have "frame s1 s" using requestname_frame[OF req ok(2)] by blast
  ultimately have "serv_inv s" "frame s1 s"
    using requestname_names_ok[OF ok(1) _ req] frame_remotes_ok by (auto simp: v serv_inv_def)
  moreover have "owner_of s n = (if n = ''org.freedesktop.DBus'' then Some 0 else None)" for n
    using req by (auto simp: requestname_free v res_convs push_service_Inr ownerchanged_Inr)
  moreover have "sv_busRemote s1 = Some 0 \<and> sv_nextRemote s1 = 0 \<and> length (sv_heap s1) = 1" by (simp add: s1_def)
  ultimately show ?thesis using v by (auto simp: frame_def)
qed

lemma serv_reach_inv: "serv_reach s \<Longrightarrow> serv_inv s"
proof (induction rule: serv_reach.induct)
  case (new s)
  then show ?case using new_server by blast
next
  case (connect s)
  then show ?case by (simp add: connect_inv)
next
  case (hello s r c s')
  then have ok: "names_ok s" "remotes_ok s" by (simp_all add: serv_inv_def)
  from say_hello_split[OF hello.hyps(3) ok(1)] obtain s1 where s1: "names_ok s1" "hello s1 r"
    "adbusI_serv_requestname s1 r (uniq s r) 0 = Inr (c, s')" "\<forall>k. live s1 k = live s k" "sv_remotes s1 = sv_remotes s"
    by blast
  then have "queues_ok s1" by (simp add: names_ok_def)
  with s1 ok show ?case using requestname_names_ok[OF s1(1,2,3)] requestname_frame[OF s1(3)]
    by (auto simp: serv_inv_def frame_def remotes_ok_def)
next
  case (request s r name flags c s')
  then have ok: "names_ok s" "queues_ok s" "remotes_ok s" by (simp_all add: serv_inv_def names_ok_def)
  have "frame s s'" using requestname_frame[OF request.hyps(6) ok(2)] by blast
  then show ?case using requestname_names_ok[OF ok(1) request.hyps(3,6)] ok(3) frame_remotes_ok
    by (auto simp: serv_inv_def)
next
  case (release s r name c s')
  then have ok: "names_ok s" "remotes_ok s" by (simp_all add: serv_inv_def)
  have "frame s s'" using releasename_frame[OF release.hyps(6)] release.hyps(6)
    by (cases "queue_of s name") (auto simp: releasename_none)
  then show ?case using releasename_names_ok[OF ok(1) release.hyps(6)] ok(2) frame_remotes_ok
    by (auto simp: serv_inv_def)
next
  case (disconnect s r s')
  then show ?case using disconnect_props by blast
qed

section \<open>What requesting a name does\<close>


section \<open>Progress\<close>

text \<open>Nobody who waits for a name or owns one has been freed.\<close>

definition nobody_stale :: "adbus_Server \<Rightarrow> bool" where
  "nobody_stale s \<longleftrightarrow> list_all (\<lambda>(n, q). list_all (\<lambda>x. live s (so_remote x)) q) (sv_services s)"

lemma nobody_staleD: "nobody_stale s \<Longrightarrow> queue_of s n = Some q \<Longrightarrow> x \<in> set q \<Longrightarrow> live s (so_remote x)"
  by (auto simp: nobody_stale_def queue_of_def list_all_iff dest!: map_of_SomeD)

lemma removeService_live:
  "live s r \<Longrightarrow> adbusI_serv_removeServiceFromRemote s r name = Inr (set_links s r (remove1 name (links s r)))"
  by (simp add: removeService_Inr)

lemma ownerchanged_live:
  assumes "\<forall>n\<in>set_option new. live s n \<and> hello s n" and "\<forall>n\<in>set_option old. live s n"
  shows "\<exists>l. adbusI_serv_ownerchanged s name old new = Inr (s\<lparr>sv_log := l\<rparr>)"
  using assms by (auto simp: ownerchanged_Inr)

lemma releasename_live:
  assumes qo: "queues_ok s" and l: "live s r" and n: "\<And>q x. queue_of s name = Some q \<Longrightarrow> x \<in> set q \<Longrightarrow> live s (so_remote x)"
  shows "\<exists>c s'. adbusI_serv_releasename s r name = Inr (c, s')"
proof (cases "queue_of s name")
  case None
  then show ?thesis by (simp add: releasename_none)
next
  case (Some q)
  from queue_hd[OF qo Some] obtain o1 rest where q: "q = o1 # rest" "\<forall>x\<in>set rest. hello s (so_remote x)" by auto
  note qq = Some[unfolded q(1)]
  show ?thesis
  proof (cases "so_remote o1 = r")
    case False
    then show ?thesis using l by (simp add: releasename_other[OF qq] removeService_live)
  next
    case True
    let ?s1 = "set_queue (set_links s r (remove1 name (links s r))) name rest"
    have "\<forall>k\<in>set_option (if rest = [] then None else Some (so_remote (hd rest))). live ?s1 k \<and> hello ?s1 k"
      using n[OF qq] q(2) by (cases rest) auto
    then have "\<exists>lg. adbusI_serv_ownerchanged ?s1 name (Some r) (if rest = [] then None else Some (so_remote (hd rest)))
        = Inr (?s1\<lparr>sv_log := lg\<rparr>)"
      by (rule ownerchanged_live) (use l in simp)
    then obtain lg where "adbusI_serv_ownerchanged ?s1 name (Some r) (if rest = [] then None else Some (so_remote (hd rest)))
        = Inr (?s1\<lparr>sv_log := lg\<rparr>)" ..
    then show ?thesis using l True by (simp add: releasename_owner[OF qq] removeService_live)
  qed
qed

lemma requestname_live:
  assumes qo: "queues_ok s" and l: "live s r" "hello s r"
    and n: "\<And>q x. queue_of s name = Some q \<Longrightarrow> x \<in> set q \<Longrightarrow> live s (so_remote x)"
  shows "\<exists>c s'. adbusI_serv_requestname s r name flags = Inr (c, s')"
proof (cases "queue_of s name")
  case None
  have "adbusI_serv_requestname s r name flags \<noteq> Inl e" for e
    using None l by (auto simp: requestname_free bindr_Inl_conv upd_remote_def get_remote_def adbusI_serv_ownerchanged_def
        live_def hello_def)
  then show ?thesis by (cases "adbusI_serv_requestname s r name flags") auto
next
  case (Some q)
  from queue_hd[OF qo Some] obtain o1 rest where q: "q = o1 # rest" by auto
  note qq = Some[unfolded q(1)]
  have lo: "live s (so_remote o1)" using n[OF qq] by simp
  let ?s2 = "set_links (set_links s r (remove1 name (links s r))) (so_remote o1)
     (remove1 name (links (set_links s r (remove1 name (links s r))) (so_remote o1)))"
  have "\<exists>l. adbusI_serv_ownerchanged (set_queue ?s2 name q2) name (Some (so_remote o1)) (Some r) = Inr ((set_queue ?s2 name q2)\<lparr>sv_log := l\<rparr>)" for q2
    using lo l by (intro ownerchanged_live) auto
  then show ?thesis unfolding requestname_taken[OF qq] Let_def
    using l lo by (auto simp: removeService_live upd_remote_def get_remote_def) (metis bindr_simps(2))
qed


text \<open>The registry answers: as long as nobody in a queue has been freed, a live remote that said
  hello gets an answer to every request and every release.\<close>

theorem registry_progress:
  assumes "serv_reach s" and "live s r" and "hello s r" and "nobody_stale s"
  shows "(\<exists>c s'. adbusI_serv_requestname s r name flags = Inr (c, s'))
       \<and> (\<exists>c s'. adbusI_serv_releasename s r name = Inr (c, s'))"
proof -
  have "queues_ok s" using serv_reach_inv[OF assms(1)] by (simp add: serv_inv_def names_ok_def)
  then show ?thesis
    using requestname_live[OF _ assms(2,3)] releasename_live[OF _ assms(2)] nobody_staleD[OF assms(4)] by metis
qed

section \<open>Disconnecting\<close>

text \<open>Whoever is in a queue owns the name, is there once, and has the name in its list.\<close>

definition only_owns :: "adbus_Server \<Rightarrow> nat \<Rightarrow> bool" where
  "only_owns s r \<longleftrightarrow> list_all (\<lambda>(n, q). r \<in> so_remote ` set q \<longrightarrow>
     so_remote (hd q) = r \<and> r \<notin> so_remote ` set (tl q) \<and> n \<in> set (links s r)) (sv_services s)"

lemma releasename_owner_queue:
  assumes "queue_of s name = Some (o1 # rest)" and "adbusI_serv_releasename s (so_remote o1) name = Inr (c, s')"
  shows "c = 1 \<and> queue_of s' name = (if rest = [] then None else Some rest)"
  using assms(2) by (auto simp: releasename_owner[OF assms(1) refl] res_convs removeService_Inr ownerchanged_Inr)

definition handed_over :: "adbus_Server \<Rightarrow> nat \<Rightarrow> string \<Rightarrow> ServiceOwner list option" where
  "handed_over s r n = (case queue_of s n of None \<Rightarrow> None
     | Some q \<Rightarrow> if n \<in> set (links s r) then (if tl q = [] then None else Some (tl q)) else Some q)"

lemma links_okD:
  "links_ok s \<Longrightarrow> live s r \<Longrightarrow> distinct (links s r) \<and> (n \<in> set (links s r) \<longrightarrow> (\<exists>q. queue_of s n = Some q))"
  by (auto simp: links_ok_def)

lemma release_services_live:
  assumes "names_ok s" and "live s r"
    and "\<And>n q. queue_of s n = Some q \<Longrightarrow> n \<in> set (links s r) \<Longrightarrow> so_remote (hd q) = r"
    and "\<And>n q x. queue_of s n = Some q \<Longrightarrow> x \<in> set q \<Longrightarrow> live s (so_remote x)"
  shows "\<exists>s'. release_services s r = Inr s' \<and> (\<forall>n. queue_of s' n = handed_over s r n)"
  using assms
proof (induction s r rule: release_services.induct)
  case (1 s r)
  have g: "get_remote s r = Inr (sv_heap s ! r)" using "1.prems"(2) by (simp add: get_remote_def)
  show ?case
  proof (cases "links s r")
    case Nil
    then show ?thesis using g by (auto simp: release_services.simps[of s r] links_def handed_over_def split: option.splits)
  next
    case (Cons name ls)
    then have sv: "rm_services (sv_heap s ! r) = name # ls" by (simp add: links_def)
    from "1.prems"(1) have qo: "queues_ok s" and lo: "links_ok s" by (simp_all add: names_ok_def)
    have "distinct (links s r) \<and> (\<exists>q. queue_of s name = Some q)"
      using links_okD[OF lo "1.prems"(2), of name] Cons by simp
    then obtain q where q: "queue_of s name = Some q" and d: "distinct (name # ls)" using Cons by auto
    obtain o1 rest where q1: "q = o1 # rest" using queue_hd[OF qo q] by blast
    have "so_remote (hd q) = r" using "1.prems"(3)[OF q] Cons by simp
    then have q2: "so_remote o1 = r" using q1 by simp
    have qq: "queue_of s name = Some (o1 # rest)" using q q1 by simp
    have "\<exists>c s1. adbusI_serv_releasename s r name = Inr (c, s1)"
      by (rule releasename_live[OF qo "1.prems"(2)]) (rule "1.prems"(4))
    then obtain c s1 where rel: "adbusI_serv_releasename s r name = Inr (c, s1)" by blast
    from releasename_owner_queue[OF qq] rel q2 have qn: "queue_of s1 name = (if rest = [] then None else Some rest)" by simp
    have f: "frame s s1" "links s1 r = ls" "n \<noteq> name \<Longrightarrow> queue_of s1 n = queue_of s n" for n
      using releasename_frame[OF rel q, of r] releasename_frame[OF rel q, of r n] Cons d by simp_all
    have l1: "live s1 k = live s k" for k using f(1) by (simp add: frame_def)
    have "\<exists>s'. release_services s1 r = Inr s' \<and> (\<forall>n. queue_of s' n = handed_over s1 r n)"
    proof (rule "1.IH"[OF g sv _ rel refl])
      show "queue_of s name \<noteq> None" using q by simp
      show "names_ok s1" by (rule releasename_names_ok[OF "1.prems"(1) rel])
      show "live s1 r" using "1.prems"(2) l1 by simp
      show "so_remote (hd q') = r" if "queue_of s1 n = Some q'" "n \<in> set (links s1 r)" for n q'
        using that d f(2) f(3)[of n] "1.prems"(3)[of n q'] Cons by (cases "n = name") auto
      show "live s1 (so_remote x)" if "queue_of s1 n = Some q'" "x \<in> set q'" for n q' x
        using that qn f(3)[of n] l1 "1.prems"(4)[of n q' x] "1.prems"(4)[OF qq, of x]
        by (cases "n = name") (auto split: if_splits)
    qed
    then obtain s' where s': "release_services s1 r = Inr s'" "\<forall>n. queue_of s' n = handed_over s1 r n" by blast
    have "handed_over s1 r n = handed_over s r n" for n
      using qn qq f(2) f(3)[of n] Cons d by (cases "n = name") (auto simp: handed_over_def split: option.splits)
    then show ?thesis using s' g sv rel q by (simp add: release_services.simps[of s r])
  qed
qed


lemma only_ownsD:
  "only_owns s r \<Longrightarrow> queue_of s n = Some q \<Longrightarrow> r \<in> so_remote ` set q \<Longrightarrow>
     so_remote (hd q) = r \<and> r \<notin> so_remote ` set (tl q) \<and> n \<in> set (links s r)"
  by (auto simp: only_owns_def queue_of_def list_all_iff dest!: map_of_SomeD)

lemma nobody_staleI:
  assumes "queues_ok s" and "\<And>n q x. queue_of s n = Some q \<Longrightarrow> x \<in> set q \<Longrightarrow> live s (so_remote x)"
  shows "nobody_stale s"
  using assms by (fastforce simp: nobody_stale_def queues_ok_def queue_of_def list_all_iff)

lemma disconnect_runs:
  assumes ok: "names_ok s" and lr: "live s r"
    and o: "\<And>n q. queue_of s n = Some q \<Longrightarrow> n \<in> set (links s r) \<Longrightarrow> so_remote (hd q) = r"
    and l: "\<And>n q x. queue_of s n = Some q \<Longrightarrow> x \<in> set q \<Longrightarrow> live s (so_remote x)"
  shows "\<exists>s'. adbus_remote_disconnect s r = Inr s' \<and> (\<forall>n. queue_of s' n = handed_over s r n)"
proof -
  let ?s1 = "s\<lparr>sv_remotes := remove1 r (sv_remotes s), sv_heap := (sv_heap s)[r := (sv_heap s ! r)\<lparr>rm_matches := []\<rparr>]\<rparr>"
  have r: "r < length (sv_heap s)" using lr by (simp add: live_def)
  have v: "live ?s1 k = live s k" "hello ?s1 k = hello s k" "uniq ?s1 k = uniq s k" "links ?s1 k = links s k" for k
    using heap_update_views[of r "s\<lparr>sv_remotes := remove1 r (sv_remotes s)\<rparr>" "(sv_heap s ! r)\<lparr>rm_matches := []\<rparr>" k] r lr
    by (simp_all add: remote_views) (simp_all add: hello_def uniq_def links_def live_def)
  have n1: "names_ok ?s1" by (rule names_ok_heap[of s]) (use ok in \<open>auto simp: v\<close>)
  have "\<exists>s2. release_services ?s1 r = Inr s2 \<and> (\<forall>n. queue_of s2 n = handed_over ?s1 r n)"
    by (rule release_services_live[OF n1]) (use lr o l in \<open>auto simp: v\<close>)
  then obtain s2 where s2: "release_services ?s1 r = Inr s2" "\<forall>n. queue_of s2 n = handed_over ?s1 r n" by blast
  have "live s2 r" using release_services_props[OF s2(1) n1] by (auto simp: frame_def)
  then have "adbus_remote_disconnect s r = Inr (s2\<lparr>sv_heap := (sv_heap s2)[r := (sv_heap s2 ! r)\<lparr>rm_freed := True\<rparr>]\<rparr>)"
    using s2(1) lr by (simp add: adbus_remote_disconnect_def get_remote_def upd_remote_def)
  moreover have "handed_over ?s1 r n = handed_over s r n" for n by (simp only: handed_over_def v(4) queue_of_update)
  ultimately show ?thesis using s2(2) by simp
qed


section \<open>Unique names\<close>

text \<open>
  The unique name of remote \<open>k\<close> is \<^verbatim>\<open>:1.\<close> and its number, from zero, as long as the 32 bit
  counter has not wrapped; the bus itself is remote 0. Only unique names start with a colon.
\<close>

definition uniq_ok :: "adbus_Server \<Rightarrow> bool" where
  "uniq_ok s \<longleftrightarrow> sv_busRemote s = Some 0 \<and> 0 < length (sv_heap s) \<and> hello s 0
     \<and> sv_nextRemote s = of_nat (length (sv_heap s) - 1)
     \<and> (length (sv_heap s) \<le> 2 ^ 32 \<longrightarrow>
          (\<forall>k. 0 < k \<longrightarrow> k < length (sv_heap s) \<longrightarrow> uniq s k = '':1.'' @ dec (k - 1)
             \<and> (\<not> hello s k \<longrightarrow> queue_of s (uniq s k) = None)
             \<and> (live s k \<and> hello s k \<longrightarrow> (\<exists>x. queue_of s (uniq s k) = Some [x] \<and> so_remote x = k)))
          \<and> (\<forall>n. queue_of s ('':'' @ n) \<noteq> None \<longrightarrow> (\<exists>k. 0 < k \<and> k < length (sv_heap s) \<and> '':'' @ n = uniq s k)))"

lemma uniq_okD:
  assumes "uniq_ok s" and "length (sv_heap s) \<le> 2 ^ 32" and "0 < k" and "k < length (sv_heap s)"
  shows "uniq s k = '':1.'' @ dec (k - 1)" "\<not> hello s k \<Longrightarrow> queue_of s (uniq s k) = None"
    "live s k \<Longrightarrow> hello s k \<Longrightarrow> \<exists>x. queue_of s (uniq s k) = Some [x] \<and> so_remote x = k"
  using assms unfolding uniq_ok_def by blast+

lemma uniq_inject:
  assumes "uniq_ok s" and "length (sv_heap s) \<le> 2 ^ 32" and "0 < k" "k < length (sv_heap s)" "0 < j" "j < length (sv_heap s)"
  shows "uniq s k = uniq s j \<longleftrightarrow> k = j"
proof -
  have "uniq s k = '':1.'' @ dec (k - 1)" "uniq s j = '':1.'' @ dec (j - 1)"
    using uniq_okD(1)[OF assms(1,2)] assms by blast+
  then show ?thesis using assms by (simp only: same_append_eq dec_inject) linarith
qed

lemma uniq_ok_same:
  assumes ok: "uniq_ok s" and bus: "sv_busRemote s' = sv_busRemote s" "sv_nextRemote s' = sv_nextRemote s"
    and len: "length (sv_heap s') = length (sv_heap s)"
    and v: "\<And>k. uniq s' k = uniq s k" "\<And>k. hello s k \<Longrightarrow> hello s' k" "\<And>k. live s' k \<Longrightarrow> live s k"
    and q: "\<And>k. length (sv_heap s) \<le> 2 ^ 32 \<Longrightarrow> 0 < k \<Longrightarrow> k < length (sv_heap s) \<Longrightarrow>
        (\<not> hello s' k \<or> live s' k \<and> hello s k) \<Longrightarrow> queue_of s' (uniq s k) = queue_of s (uniq s k)"
    and new: "\<And>k. length (sv_heap s) \<le> 2 ^ 32 \<Longrightarrow> 0 < k \<Longrightarrow> k < length (sv_heap s) \<Longrightarrow>
        \<not> hello s k \<Longrightarrow> hello s' k \<Longrightarrow> \<exists>x. queue_of s' (uniq s k) = Some [x] \<and> so_remote x = k"
    and colon: "\<And>n. length (sv_heap s) \<le> 2 ^ 32 \<Longrightarrow> queue_of s' ('':'' @ n) \<noteq> None \<Longrightarrow> queue_of s ('':'' @ n) = None \<Longrightarrow>
        \<exists>k. 0 < k \<and> k < length (sv_heap s) \<and> '':'' @ n = uniq s k"
  shows "uniq_ok s'"
proof -
  have "uniq s' k = '':1.'' @ dec (k - 1) \<and> (\<not> hello s' k \<longrightarrow> queue_of s' (uniq s' k) = None)
      \<and> (live s' k \<and> hello s' k \<longrightarrow> (\<exists>x. queue_of s' (uniq s' k) = Some [x] \<and> so_remote x = k))"
    if "length (sv_heap s) \<le> 2 ^ 32" "0 < k" "k < length (sv_heap s)" for k
    using uniq_okD[OF ok that] q[OF that] new[OF that] v by (cases "hello s k"; cases "hello s' k") auto
  moreover have "\<exists>k. 0 < k \<and> k < length (sv_heap s) \<and> '':'' @ n = uniq s' k"
    if "length (sv_heap s) \<le> 2 ^ 32" "queue_of s' ('':'' @ n) \<noteq> None" for n
    using ok colon[OF that] that v(1) unfolding uniq_ok_def by (cases "queue_of s ('':'' @ n)") auto
  ultimately show ?thesis using ok bus len v unfolding uniq_ok_def by auto
qed

lemma uniq_ok_frame:
  assumes "uniq_ok s" and f: "frame s s'" and q: "\<And>n. n \<noteq> name \<Longrightarrow> queue_of s' n = queue_of s n"
    and n: "name \<noteq> []" "hd name \<noteq> CHR '':''"
  shows "uniq_ok s'"
proof -
  have c: "'':'' @ m \<noteq> name" for m using n by auto
  have "uniq s k \<noteq> name" if "length (sv_heap s) \<le> 2 ^ 32" "0 < k" "k < length (sv_heap s)" for k
    using uniq_okD(1)[OF assms(1) that] n by auto
  then show ?thesis using f c by (intro uniq_ok_same[OF assms(1)]) (auto simp: q frame_def)
qed

lemma uniq_ok_connect:
  assumes ok: "uniq_ok s" and inv: "serv_inv s"
  shows "uniq_ok (snd (adbus_serv_connect s))"
proof -
  let ?s = "snd (adbus_serv_connect s)" and ?l = "length (sv_heap s)"
  have b: "sv_busRemote s = Some 0" and nx: "sv_nextRemote s = of_nat (?l - 1)" and l0: "0 < ?l"
    using ok by (simp_all add: uniq_ok_def)
  have c: "?s = s\<lparr>sv_nextRemote := of_nat ?l, sv_heap := sv_heap s @ [new_remote ('':1.'' @ dec (unat (sv_nextRemote s)))],
     sv_remotes := ?l # sv_remotes s\<rparr>"
    using b nx l0 by (simp add: connect_eq)
  have v: "queue_of ?s = queue_of s" "length (sv_heap ?s) = Suc ?l" "sv_busRemote ?s = Some 0"
    "sv_nextRemote ?s = of_nat ?l" "uniq ?s ?l = '':1.'' @ dec (unat (sv_nextRemote s))" "\<not> hello ?s ?l"
    by (simp_all add: c b uniq_def hello_def new_remote_def queue_of_def fun_eq_iff)
  have old: "uniq ?s k = uniq s k" "hello ?s k = hello s k" "live ?s k = live s k" if "k < ?l" for k
    using that by (simp_all add: c uniq_def hello_def live_def nth_append)
  show ?thesis
  proof (cases "Suc ?l \<le> 2 ^ 32")
    case False
    with v old(2)[OF l0] ok show ?thesis by (simp add: uniq_ok_def)
  next
    case True
    then have len: "?l \<le> 2 ^ 32" by simp
    have un: "unat (sv_nextRemote s) = ?l - 1" using True by (simp add: nx unat_of_nat take_bit_nat_eq_self)
    have "queue_of s ('':1.'' @ dec (?l - 1)) = None"
    proof (rule ccontr)
      assume "queue_of s ('':1.'' @ dec (?l - 1)) \<noteq> None"
      then obtain k where k: "0 < k" "k < ?l" "'':1.'' @ dec (?l - 1) = uniq s k"
        using ok len unfolding uniq_ok_def by (metis append_Cons append_Nil)
      with uniq_okD(1)[OF ok len k(1,2)] show False by simp
    qed
    then have A: "uniq ?s k = '':1.'' @ dec (k - 1) \<and> (\<not> hello ?s k \<longrightarrow> queue_of ?s (uniq ?s k) = None)
      \<and> (live ?s k \<and> hello ?s k \<longrightarrow> (\<exists>x. queue_of ?s (uniq ?s k) = Some [x] \<and> so_remote x = k))"
      if "0 < k" "k < Suc ?l" for k
      using uniq_okD[OF ok len that(1)] old v un that by (cases "k = ?l") auto
    have B: "\<exists>k. 0 < k \<and> k < Suc ?l \<and> '':'' @ n = uniq ?s k" if "queue_of s ('':'' @ n) \<noteq> None" for n
      using ok len that old(1) unfolding uniq_ok_def by (metis less_Suc_eq)
    have "hello ?s 0" using old(2)[OF l0] ok by (simp add: uniq_ok_def)
    then show ?thesis unfolding uniq_ok_def v(2,3,4) using A B[folded v(1)] by fastforce
  qed
qed

lemma uniq_ok_hello:
  assumes ok: "uniq_ok s" and inv: "serv_inv s" and nh: "\<not> hello s r" and hi: "say_hello s r = Inr (c, s')"
  shows "uniq_ok s'"
proof -
  have "names_ok s" using inv by (simp add: serv_inv_def)
  from say_hello_split[OF hi this] obtain s1 where s1: "live s r" "names_ok s1" "hello s1 r"
    and req: "adbusI_serv_requestname s1 r (uniq s r) 0 = Inr (c, s')"
    and v1: "\<And>k. live s1 k = live s k" "\<And>k. uniq s1 k = uniq s k" "\<And>k. k \<noteq> r \<Longrightarrow> hello s1 k = hello s k"
    and q1: "queue_of s1 = queue_of s" and b1: "sv_busRemote s1 = sv_busRemote s"
    "sv_nextRemote s1 = sv_nextRemote s" "length (sv_heap s1) = length (sv_heap s)" by blast
  have r: "0 < r" "r < length (sv_heap s)" using nh ok s1(1) by (auto simp: uniq_ok_def live_def intro: gr0I)
  have "queues_ok s1" using s1(2) by (simp add: names_ok_def)
  then have f: "frame s1 s'" "n \<noteq> uniq s r \<Longrightarrow> queue_of s' n = queue_of s n" for n
    using requestname_frame[OF req] q1 by auto
  have qr: "\<exists>x. queue_of s' (uniq s r) = Some [x] \<and> so_remote x = r" if "length (sv_heap s) \<le> 2 ^ 32"
    using req uniq_okD(2)[OF ok that r nh] q1
    by (auto simp: requestname_free res_convs push_service_Inr ownerchanged_Inr)
  show ?thesis
  proof (rule uniq_ok_same[OF ok])
    show "queue_of s' (uniq s k) = queue_of s (uniq s k)"
      if "length (sv_heap s) \<le> 2 ^ 32" "0 < k" "k < length (sv_heap s)" "\<not> hello s' k \<or> live s' k \<and> hello s k" for k
      using that f uniq_inject[OF ok that(1,2,3) r] nh s1(3) by (auto simp: frame_def)
    show "\<exists>k. 0 < k \<and> k < length (sv_heap s) \<and> '':'' @ n = uniq s k"
      if "queue_of s' ('':'' @ n) \<noteq> None" "queue_of s ('':'' @ n) = None" for n
    proof -
      have "'':'' @ n = uniq s r" using that f(2)[of "'':'' @ n"] by metis
      with r show ?thesis by blast
    qed
    show "hello s' k" if "hello s k" for k
      using that nh f(1) v1(3)[of k] by (cases "k = r") (auto simp: frame_def)
    show "\<exists>x. queue_of s' (uniq s k) = Some [x] \<and> so_remote x = k"
      if "length (sv_heap s) \<le> 2 ^ 32" "\<not> hello s k" "hello s' k" for k
      using that qr f(1) v1(3)[of k] by (cases "k = r") (auto simp: frame_def)
  qed (use f(1) v1 b1 in \<open>auto simp: frame_def\<close>)
qed

lemma uniq_ok_disconnect:
  assumes ok: "uniq_ok s" and inv: "serv_inv s" and d: "adbus_remote_disconnect s r = Inr s'"
  shows "uniq_ok s'"
proof -
  note p = disconnect_props[OF d inv]
  have lo: "links_ok s" using inv by (simp add: serv_inv_def names_ok_def)
  have lr: "live s r" using p by blast
  have keep: "queue_of s' n = queue_of s n" if "n \<notin> set (links s r)" for n using p that by blast
  have lq: "\<exists>q. queue_of s n = Some q \<and> r \<in> so_remote ` set q" if "n \<in> set (links s r)" for n
    using lo lr that by (simp add: links_ok_def)
  show ?thesis
  proof (rule uniq_ok_same[OF ok])
    show "queue_of s' (uniq s k) = queue_of s (uniq s k)"
      if k: "length (sv_heap s) \<le> 2 ^ 32" "0 < k" "k < length (sv_heap s)" and h: "\<not> hello s' k \<or> live s' k \<and> hello s k" for k
    proof (rule keep, rule notI)
      assume "uniq s k \<in> set (links s r)"
      from lq[OF this] obtain q where q: "queue_of s (uniq s k) = Some q" "r \<in> so_remote ` set q" by blast
      from h p have "\<not> hello s k \<or> live s k \<and> hello s k \<and> k \<noteq> r" by blast
      then show False
      proof
        assume "\<not> hello s k"
        then show False using uniq_okD(2)[OF ok k] q by simp
      next
        assume "live s k \<and> hello s k \<and> k \<noteq> r"
        moreover from this obtain x where "queue_of s (uniq s k) = Some [x]" "so_remote x = k"
          using uniq_okD(3)[OF ok k] by blast
        ultimately show False using q by auto
      qed
    qed
    show "\<exists>k. 0 < k \<and> k < length (sv_heap s) \<and> '':'' @ n = uniq s k"
      if "queue_of s' ('':'' @ n) \<noteq> None" "queue_of s ('':'' @ n) = None" for n
      using that keep lq by (metis option.distinct(1))
  qed (use p in auto)
qed


lemma serv_reach_uniq: "serv_reach s \<Longrightarrow> uniq_ok s"
proof (induction rule: serv_reach.induct)
  case (new s)
  have o: "queue_of s n = None" if "n \<noteq> ''org.freedesktop.DBus''" for n
    using new_server[OF new] that by (fastforce simp: owner_of_def serv_inv_def names_ok_def queues_ok_def
        split: option.splits list.splits)
  show ?case using new_server[OF new] o by (auto simp: uniq_ok_def)
next
  case (connect s)
  then show ?case by (simp add: uniq_ok_connect serv_reach_inv)
next
  case (hello s r c s')
  then show ?case using uniq_ok_hello[OF _ serv_reach_inv] by blast
next
  case (request s r name flags c s')
  have qo: "queues_ok s" using serv_reach_inv[OF request.hyps(1)] by (simp add: serv_inv_def names_ok_def)
  show ?case using requestname_frame[OF request.hyps(6) qo] by (intro uniq_ok_frame[OF request.IH _ _ request.hyps(4,5)]) auto
next
  case (release s r name c s')
  show ?case
  proof (cases "queue_of s name")
    case None
    then show ?thesis using release by (simp add: releasename_none)
  next
    case (Some q)
    show ?thesis using releasename_frame[OF release.hyps(6) Some]
      by (intro uniq_ok_frame[OF release.IH _ _ release.hyps(4,5)]) auto
  qed
next
  case (disconnect s r s')
  then show ?case using uniq_ok_disconnect[OF _ serv_reach_inv] by blast
qed

text \<open>C7: Unique names identify remotes: in every reachable server in which the counter has not
  wrapped, every remote but the bus that is connected and said hello owns its unique name alone (so
  \<open>adbusI_serv_remote\<close> finds it), and no two remotes have the same unique name.\<close>

theorem unique_names_route:
  assumes "serv_reach s" and "length (sv_heap s) \<le> 2 ^ 32" and "0 < k" and "live s k" and "hello s k"
  shows "adbusI_serv_remote s (uniq s k) = Inr (Some k)
    \<and> (\<forall>j. 0 < j \<longrightarrow> j < length (sv_heap s) \<longrightarrow> uniq s j = uniq s k \<longrightarrow> j = k)"
proof -
  note ok = serv_reach_uniq[OF assms(1)]
  have k: "k < length (sv_heap s)" using assms(4) by (simp add: live_def)
  from uniq_okD(3)[OF ok assms(2,3) k assms(4,5)] obtain x where
    "queue_of s (uniq s k) = Some [x]" "so_remote x = k" by blast
  then show ?thesis using uniq_inject[OF ok assms(2) _ _ assms(3) k] by (simp add: adbusI_serv_remote_def)
qed

text \<open>C6: The signals tell the truth about ownership: in every reachable server, each
  \<^verbatim>\<open>NameOwnerChanged\<close> names the owner the earlier signals left as the old owner, and for every name
  the last one names the remote at the head of the name's queue (or the empty string if the name is
  free).\<close>

theorem owner_journal:
  assumes "serv_reach s"
  shows "journal_ok (sv_log s) \<and> (\<forall>n. replay (sv_log s) n = owner_name s n)"
  using serv_reach_inv[OF assms] by (simp add: serv_inv_def names_ok_def log_ok_def)



section \<open>Scenarios\<close>

text \<open>
  A bus with two clients, remotes 1 and 2, that have said hello.
\<close>

definition two_clients :: "adbus_Server res" where
  "two_clients =
     bindr adbus_serv_new (\<lambda>s.
     bindr (say_hello (snd (adbus_serv_connect s)) 1) (\<lambda>(_, s).
     bindr (say_hello (snd (adbus_serv_connect s)) 2) (\<lambda>(_, s). Inr s)))"

lemma connect_not_hello: "\<not> hello (snd (adbus_serv_connect s)) (length (sv_heap s))"
  by (simp add: connect_eq hello_def new_remote_def)

lemma say_hello_length:
  assumes "say_hello s r = Inr (c, s')" and "names_ok s"
  shows "length (sv_heap s') = length (sv_heap s)"
proof -
  from say_hello_split[OF assms] obtain s1 where s1: "names_ok s1"
    "adbusI_serv_requestname s1 r (uniq s r) 0 = Inr (c, s')" "length (sv_heap s1) = length (sv_heap s)" by blast
  then show ?thesis using requestname_frame[OF s1(2)] by (auto simp: names_ok_def frame_def)
qed

lemma two_clients_reach:
  assumes "two_clients = Inr s"
  shows "serv_reach s"
proof -
  from assms obtain s0 c1 s1 c2 where n: "adbus_serv_new = Inr s0"
    and h1: "say_hello (snd (adbus_serv_connect s0)) 1 = Inr (c1, s1)"
    and h2: "say_hello (snd (adbus_serv_connect s1)) 2 = Inr (c2, s)"
    by (auto simp: two_clients_def res_convs)
  have r0: "serv_reach (snd (adbus_serv_connect s0))" using serv_reach.new[OF n] by (rule serv_reach.connect)
  have l0: "length (sv_heap s0) = 1" using new_server[OF n] by blast
  have r1: "serv_reach s1"
    using serv_reach.hello[OF r0 _ h1] connect_not_hello[of s0] l0 by simp
  have "names_ok (snd (adbus_serv_connect s0))" using serv_reach_inv[OF r0] by (simp add: serv_inv_def)
  from say_hello_length[OF h1 this] have "length (sv_heap s1) = 2" using l0 by (simp add: connect_eq)
  then show ?thesis
    using serv_reach.hello[OF serv_reach.connect[OF r1] _ h2] connect_not_hello[of s1] by simp
qed

definition sample_bus :: adbus_Server where
  "sample_bus = (case two_clients of Inr s \<Rightarrow> s | Inl _ \<Rightarrow> \<lparr>sv_busRemote = None, sv_helloRemote = None,
     sv_services = [], sv_remotes = [], sv_nextRemote = 0, sv_heap = [], sv_log = []\<rparr>)"

lemma sample_bus_reach: "serv_reach sample_bus"
proof -
  have "\<not> isl two_clients" by code_simp
  then have eq: "two_clients = Inr (projr two_clients)" by (rule sum.collapse(2)[symmetric])
  then have "sample_bus = projr two_clients" unfolding sample_bus_def by (metis sum.case(2))
  with eq have "two_clients = Inr sample_bus" by metis
  then show ?thesis by (rule two_clients_reach)
qed

lemma sample_bus_facts:
  "live sample_bus 1" "hello sample_bus 1" "nobody_stale sample_bus" "only_owns sample_bus 1"
  "length (sv_heap sample_bus) = 3" "uniq sample_bus 1 = '':1.0''" "owner_of sample_bus '':1.0'' = Some 1"
  "queue_of sample_bus ''a.b'' = None"
  by code_simp+


theorem registry_progress_witness:
  "(\<exists>c s'. adbusI_serv_requestname sample_bus 1 ''a.b'' 4 = Inr (c, s'))
   \<and> (\<exists>c s'. adbusI_serv_releasename sample_bus 1 ''a.b'' = Inr (c, s'))"
  by (rule registry_progress[OF sample_bus_reach sample_bus_facts(1,2,3)])


theorem unique_names_route_witness:
  "adbusI_serv_remote sample_bus (uniq sample_bus 1) = Inr (Some 1)"
  using unique_names_route[OF sample_bus_reach _ _ sample_bus_facts(1,2)] by (simp add: sample_bus_facts(5))

theorem owner_journal_witness:
  "journal_ok (sv_log sample_bus) \<and> replay (sv_log sample_bus) '':1.0'' = '':1.0''"
proof -
  have "owner_name sample_bus '':1.0'' = '':1.0''"
    unfolding owner_name_def sample_bus_facts(7) option.case by (rule sample_bus_facts(6))
  then show ?thesis using owner_journal[OF sample_bus_reach] by simp
qed


text \<open>
  Remote 1 owns a name, remote 2 waits for it, gives up waiting and disconnects; then remote 1
  releases the name.
\<close>

definition give_up :: "adbus_Server \<Rightarrow> adbus_Server res" where
  "give_up s =
     bindr (adbusI_serv_requestname s 1 ''a.b'' 0) (\<lambda>(_, s).
     bindr (adbusI_serv_requestname s 2 ''a.b'' 0) (\<lambda>(_, s).
     bindr (adbusI_serv_releasename s 2 ''a.b'') (\<lambda>(_, s).
       adbus_remote_disconnect s 2)))"

text \<open>Remote 2 replaces remote 1 as the owner of a name and disconnects.\<close>

definition take_over :: "adbus_Server \<Rightarrow> adbus_Server res" where
  "take_over s =
     bindr (adbusI_serv_requestname s 1 ''a.b'' ADBUS_SERVICE_ALLOW_REPLACEMENT) (\<lambda>(_, s).
     bindr (adbusI_serv_requestname s 2 ''a.b'' ADBUS_SERVICE_REPLACE_EXISTING) (\<lambda>(_, s).
       adbus_remote_disconnect s 2))"


end
