(* ===== verification/Callback.thy ===== *)
theory Callback
  imports Parse
begin

text \<open>
  Message callbacks: the data a callback gets (\<^verbatim>\<open>adbus_CbData\<close>), its error replies
  (\<^verbatim>\<open>adbus_error\<close>, \<^verbatim>\<open>adbus_errorf\<close> and \<^verbatim>\<open>adbus_dispatch\<close> of \<^verbatim>\<open>adbus/messages.c\<close>, the error
  helpers at the end of \<^verbatim>\<open>adbus/misc.c\<close>), and the \<^verbatim>\<open>adbus_check_*\<close> functions of
  \<^verbatim>\<open>adbus/riterator.c\<close>, which read an argument or leave the callback with \<^verbatim>\<open>longjmp\<close>.

  A callback is a function of the callback data and of the state of whoever registered it; it
  returns, jumps to the \<^verbatim>\<open>setjmp\<close> of \<open>adbus_dispatch\<close>, or crashes. A pointer to an argument is
  its offset in the message, so the numeric checks read the message at that offset.
\<close>

section \<open>Callback data\<close>

record adbus_CbData =
  cb_msg :: adbus_Message
  cb_ret :: "adbus_MsgFactory option"
  cb_noreturn :: bool
  cb_iter :: adbus_Iterator
  cb_nextSerial :: "32 word"

definition ADBUSI_ERROR :: int where "ADBUSI_ERROR = -1"

definition ADBUSI_PARSE_ERROR :: int where "ADBUSI_PARSE_ERROR = -2"

definition ADBUS_MSG_NO_REPLY :: nat where "ADBUS_MSG_NO_REPLY = 1"

datatype ('s, 'a) cbres = Ret 'a "adbus_CbData \<times> 's" | Jmp int "adbus_CbData \<times> 's" | Crash fail

type_synonym ('s, 'a) cbm = "adbus_CbData \<times> 's \<Rightarrow> ('s, 'a) cbres"

definition bindc :: "('s, 'a) cbm \<Rightarrow> ('a \<Rightarrow> ('s, 'b) cbm) \<Rightarrow> ('s, 'b) cbm" where
  "bindc m f st = (case m st of Ret x st \<Rightarrow> f x st | Jmp j st \<Rightarrow> Jmp j st | Crash e \<Rightarrow> Crash e)"

definition retc :: "'a \<Rightarrow> ('s, 'a) cbm" where
  "retc x st = Ret x st"

text \<open>A step that may fail, on the callback data.\<close>

definition withc :: "(adbus_CbData \<Rightarrow> ('a \<times> adbus_CbData) res) \<Rightarrow> ('s, 'a) cbm" where
  "withc f st = (case f (fst st) of Inl e \<Rightarrow> Crash e | Inr (x, d) \<Rightarrow> Ret x (d, snd st))"

section \<open>Error replies\<close>

definition adbus_conn_serial :: "32 word \<Rightarrow> 32 word \<times> 32 word" where
  "adbus_conn_serial nextSerial =
     (let nextSerial = (if nextSerial = -1 then 1 else nextSerial) in (nextSerial, nextSerial + 1))"

definition adbus_error ::
    "adbus_CbData \<Rightarrow> string \<Rightarrow> int \<Rightarrow> (string \<times> int) option \<Rightarrow> adbus_CbData res" where
  "adbus_error d errorName errorNameSize errorMessage =
     (case cb_ret d of
        None \<Rightarrow> Inr d
      | Some m \<Rightarrow>
          let m = adbus_msg_reset m;
              m = adbus_msg_settype m ADBUS_MSG_ERROR;
              m = adbus_msg_setflags m ADBUS_MSG_NO_REPLY;
              (serial, next) = adbus_conn_serial (cb_nextSerial d);
              m = adbus_msg_setserial m serial;
              m = adbus_msg_setreply m (msg_serial (cb_msg d))
          in bindr (adbus_msg_seterror m errorName errorNameSize) (\<lambda>m.
             bindr (case msg_destination (cb_msg d) of
                      None \<Rightarrow> Inr m
                    | Some dest \<Rightarrow> adbus_msg_setdestination m dest (int (length dest))) (\<lambda>m.
             bindr (case errorMessage of
                      None \<Rightarrow> Inr m
                    | Some (text, sz) \<Rightarrow>
                        bindr (adbus_buf_setsig (mf_argbuf m) ''s'' 1) (\<lambda>b.
                        bindr (adbus_buf_string b text sz) (\<lambda>b.
                        bindr (adbus_buf_end b) (\<lambda>_. Inr (m\<lparr>mf_argbuf := b\<rparr>))))) (\<lambda>m.
               Inr (d\<lparr>cb_ret := Some m, cb_nextSerial := next\<rparr>)))))"

text \<open>The message comes formatted, from the format and arguments of the call.\<close>

definition adbus_errorf :: "adbus_CbData \<Rightarrow> string \<Rightarrow> string \<Rightarrow> adbus_CbData res" where
  "adbus_errorf d errorName text = adbus_error d errorName (-1) (Some (text, int (length text)))"

definition adbus_errorf_jmp :: "string \<Rightarrow> string \<Rightarrow> ('s, 'a) cbm" where
  "adbus_errorf_jmp errorName text st =
     (case adbus_errorf (fst st) errorName text of
        Inl e \<Rightarrow> Crash e
      | Inr d \<Rightarrow> Jmp ADBUSI_ERROR (d, snd st))"

text \<open>\<^verbatim>\<open>%s\<close> of a pointer that may be null.\<close>

definition fmt_s :: "string option \<Rightarrow> string" where
  "fmt_s s = (case s of None \<Rightarrow> ''(null)'' | Some s \<Rightarrow> s)"

definition quoted :: "string \<Rightarrow> string" where
  "quoted s = [CHR 0x27] @ s @ [CHR 0x27]"

definition full_name :: "adbus_CbData \<Rightarrow> string" where
  "full_name d = fmt_s (msg_interface (cb_msg d)) @ ''.'' @ fmt_s (msg_member (cb_msg d))"

definition adbus_error_argument :: "adbus_CbData \<Rightarrow> adbus_CbData res" where
  "adbus_error_argument d =
     (if msg_interface (cb_msg d) \<noteq> None then
        adbus_errorf d ''nz.co.foobar.adbus.InvalidArgument''
          (''Invalid argument to the method '' @ quoted (full_name d) @ '' on '' @ fmt_s (msg_path (cb_msg d)))
      else
        adbus_errorf d ''nz.co.foobar.adbus.InvalidArgument''
          (''Invalid argument to the method '' @ quoted (fmt_s (msg_member (cb_msg d))) @ '' on ''
           @ fmt_s (msg_path (cb_msg d))))"

definition adbusI_pathError :: "adbus_CbData \<Rightarrow> adbus_CbData res" where
  "adbusI_pathError d =
     adbus_errorf d ''nz.co.foobar.adbus.InvalidPath''
       (''The path '' @ quoted (fmt_s (msg_path (cb_msg d))) @ '' does not exist.'')"

definition adbusI_interfaceError :: "adbus_CbData \<Rightarrow> adbus_CbData res" where
  "adbusI_interfaceError d =
     adbus_errorf d ''nz.co.foobar.adbus.InvalidInterface''
       (''The path '' @ quoted (fmt_s (msg_path (cb_msg d))) @ '' does not export the interface ''
        @ quoted (fmt_s (msg_interface (cb_msg d))) @ ''.'')"

definition adbusI_methodError :: "adbus_CbData \<Rightarrow> adbus_CbData res" where
  "adbusI_methodError d =
     (if msg_interface (cb_msg d) \<noteq> None then
        adbus_errorf d ''nz.co.foobar.adbus.InvalidMethod''
          (''The path '' @ quoted (fmt_s (msg_path (cb_msg d))) @ '' does not export the method ''
           @ quoted (full_name d) @ ''.'')
      else
        adbus_errorf d ''nz.co.foobar.adbus.InvalidMethod''
          (''The path '' @ quoted (fmt_s (msg_path (cb_msg d))) @ '' does not export the method ''
           @ quoted (fmt_s (msg_member (cb_msg d))) @ ''.''))"

definition adbusI_propertyError :: "adbus_CbData \<Rightarrow> adbus_CbData res" where
  "adbusI_propertyError d =
     adbus_errorf d ''nz.co.foobar.adbus.InvalidProperty''
       (''The path '' @ quoted (fmt_s (msg_path (cb_msg d))) @ '' does not export the property ''
        @ quoted (full_name d) @ ''.'')"

definition adbusI_propWriteError :: "adbus_CbData \<Rightarrow> adbus_CbData res" where
  "adbusI_propWriteError d =
     adbus_errorf d ''nz.co.foobar.adbus.ReadOnlyProperty''
       (''The property '' @ quoted (full_name d) @ '' on '' @ quoted (fmt_s (msg_path (cb_msg d)))
        @ '' is read only.'')"

definition adbusI_propReadError :: "adbus_CbData \<Rightarrow> adbus_CbData res" where
  "adbusI_propReadError d =
     adbus_errorf d ''nz.co.foobar.adbus.WriteOnlyProperty''
       (''The property '' @ quoted (full_name d) @ '' on '' @ quoted (fmt_s (msg_path (cb_msg d)))
        @ '' is write only.'')"

definition adbusI_propTypeError :: "adbus_CbData \<Rightarrow> adbus_CbData res" where
  "adbusI_propTypeError d =
     adbus_errorf d ''nz.co.foobar.adbus.InvalidPropertyType''
       (''Incorrect property type for '' @ quoted (full_name d) @ '' on '' @ fmt_s (msg_path (cb_msg d)) @ ''.'')"

section \<open>The check functions\<close>

definition adbus_iter_args :: "adbus_Message \<Rightarrow> adbus_Iterator" where
  "adbus_iter_args msg = \<lparr>it_data = msg_argdata msg, it_size = msg_argsize msg, it_sig = msg_signature msg\<rparr>"

text \<open>The error reply for a wrong argument, and out of the callback.\<close>

definition argument_jmp :: "('s, 'a) cbm" where
  "argument_jmp st =
     (case adbus_error_argument (fst st) of
        Inl e \<Rightarrow> Crash e
      | Inr d \<Rightarrow> Jmp ADBUSI_ERROR (d, snd st))"

definition Sig :: "char \<Rightarrow> ('s, unit) cbm" where
  "Sig field st =
     (case it_sig (cb_iter (fst st)) of
        None \<Rightarrow> argument_jmp st
      | Some s \<Rightarrow> if (case s of [] \<Rightarrow> NUL | c # _ \<Rightarrow> c) \<noteq> field then argument_jmp st else Ret () st)"

definition Iter :: "(mem \<Rightarrow> adbus_Iterator \<Rightarrow> ('a \<times> adbus_Iterator) res) \<Rightarrow> ('s, 'a) cbm" where
  "Iter f st =
     (case f (msg_data (cb_msg (fst st))) (cb_iter (fst st)) of
        Inl Failed \<Rightarrow> Jmp ADBUSI_PARSE_ERROR st
      | Inl e \<Rightarrow> Crash e
      | Inr (x, i) \<Rightarrow> Ret x ((fst st)\<lparr>cb_iter := i\<rparr>, snd st))"

definition deref :: "(mem \<Rightarrow> nat \<Rightarrow> 'a res) \<Rightarrow> nat \<Rightarrow> ('s, 'a) cbm" where
  "deref rdf off st =
     (case rdf (msg_data (cb_msg (fst st))) off of Inl e \<Rightarrow> Crash e | Inr v \<Rightarrow> Ret v st)"

definition adbus_check_end :: "('s, unit) cbm" where
  "adbus_check_end st =
     (case it_sig (cb_iter (fst st)) of
        None \<Rightarrow> Ret () st
      | Some s \<Rightarrow> if s \<noteq> [] then argument_jmp st else Ret () st)"

definition adbus_check_bool :: "('s, 32 word) cbm" where
  "adbus_check_bool = bindc (Sig CHR ''b'') (\<lambda>_. bindc (Iter (\<lambda>_. adbus_iter_bool)) (deref rd32))"

definition adbus_check_u8 :: "('s, 8 word) cbm" where
  "adbus_check_u8 = bindc (Sig CHR ''y'') (\<lambda>_. bindc (Iter (\<lambda>_. adbus_iter_u8)) (deref rd8))"

definition adbus_check_i16 :: "('s, 16 word) cbm" where
  "adbus_check_i16 = bindc (Sig CHR ''n'') (\<lambda>_. bindc (Iter (\<lambda>_. adbus_iter_i16)) (deref rd16))"

definition adbus_check_u16 :: "('s, 16 word) cbm" where
  "adbus_check_u16 = bindc (Sig CHR ''q'') (\<lambda>_. bindc (Iter (\<lambda>_. adbus_iter_u16)) (deref rd16))"

definition adbus_check_i32 :: "('s, 32 word) cbm" where
  "adbus_check_i32 = bindc (Sig CHR ''i'') (\<lambda>_. bindc (Iter (\<lambda>_. adbus_iter_i32)) (deref rd32))"

definition adbus_check_u32 :: "('s, 32 word) cbm" where
  "adbus_check_u32 = bindc (Sig CHR ''u'') (\<lambda>_. bindc (Iter (\<lambda>_. adbus_iter_u32)) (deref rd32))"

definition adbus_check_i64 :: "('s, 64 word) cbm" where
  "adbus_check_i64 = bindc (Sig CHR ''x'') (\<lambda>_. bindc (Iter (\<lambda>_. adbus_iter_i64)) (deref rd64))"

definition adbus_check_u64 :: "('s, 64 word) cbm" where
  "adbus_check_u64 = bindc (Sig CHR ''t'') (\<lambda>_. bindc (Iter (\<lambda>_. adbus_iter_u64)) (deref rd64))"

definition adbus_check_double :: "('s, 64 word) cbm" where
  "adbus_check_double = bindc (Sig CHR ''d'') (\<lambda>_. bindc (Iter (\<lambda>_. adbus_iter_double)) (deref rd64))"

definition adbus_check_string :: "('s, string) cbm" where
  "adbus_check_string = bindc (Sig CHR ''s'') (\<lambda>_. Iter adbus_iter_string)"

definition adbus_check_objectpath :: "('s, string) cbm" where
  "adbus_check_objectpath = bindc (Sig CHR ''s'') (\<lambda>_. Iter adbus_iter_string)"

definition adbus_check_signature :: "('s, string) cbm" where
  "adbus_check_signature = bindc (Sig CHR ''s'') (\<lambda>_. Iter adbus_iter_string)"

definition adbus_check_beginarray :: "('s, adbus_IterArray) cbm" where
  "adbus_check_beginarray =
     bindc (Sig CHR ''a'') (\<lambda>_.
       Iter (\<lambda>mem i. bindr (adbus_iter_beginarray mem i) (\<lambda>(i, a). Inr (a, i))))"

definition adbus_check_inarray :: "adbus_IterArray \<Rightarrow> ('s, bool) cbm" where
  "adbus_check_inarray a = Iter (\<lambda>_ i. Inr (adbus_iter_inarray i a))"

definition adbus_check_endarray :: "adbus_IterArray \<Rightarrow> ('s, unit) cbm" where
  "adbus_check_endarray a = Iter (\<lambda>_ i. Inr ((), adbus_iter_endarray i a))"

definition adbus_check_beginstruct :: "('s, unit) cbm" where
  "adbus_check_beginstruct =
     bindc (Sig CHR ''('') (\<lambda>_. Iter (\<lambda>_ i. bindr (adbus_iter_beginstruct i) (\<lambda>i. Inr ((), i))))"

definition adbus_check_endstruct :: "('s, unit) cbm" where
  "adbus_check_endstruct =
     bindc (Sig CHR '')'') (\<lambda>_. Iter (\<lambda>_ i. bindr (adbus_iter_endstruct i) (\<lambda>i. Inr ((), i))))"

definition adbus_check_begindictentry :: "('s, unit) cbm" where
  "adbus_check_begindictentry =
     bindc (Sig CHR ''{'') (\<lambda>_. Iter (\<lambda>_ i. bindr (adbus_iter_begindictentry i) (\<lambda>i. Inr ((), i))))"

definition adbus_check_enddictentry :: "('s, unit) cbm" where
  "adbus_check_enddictentry =
     bindc (Sig CHR ''}'') (\<lambda>_. Iter (\<lambda>_ i. bindr (adbus_iter_enddictentry i) (\<lambda>i. Inr ((), i))))"

definition adbus_check_beginvariant :: "('s, string option \<times> adbus_IterVariant) cbm" where
  "adbus_check_beginvariant =
     bindc (Sig CHR ''v'') (\<lambda>_.
       Iter (\<lambda>mem i. bindr (adbus_iter_beginvariant mem i) (\<lambda>(i, v). Inr ((it_sig i, v), i))))"

definition adbus_check_endvariant :: "adbus_IterVariant \<Rightarrow> ('s, adbus_IterVariant) cbm" where
  "adbus_check_endvariant v =
     bindc (Sig NUL) (\<lambda>_.
       Iter (\<lambda>_ i. bindr (adbus_iter_endvariant i v) (\<lambda>(i, v). Inr (v, i))))"

definition adbus_check_value :: "('s, unit) cbm" where
  "adbus_check_value st =
     (if (case it_sig (cb_iter (fst st)) of None \<Rightarrow> True | Some s \<Rightarrow> s = []) then argument_jmp st
      else Iter (\<lambda>mem i. bindr (adbus_iter_value mem i) (\<lambda>i. Inr ((), i))) st)"

text \<open>The \<^verbatim>\<open>setjmp\<close> around a callback: an error that has been answered counts as success.\<close>

definition adbus_dispatch :: "('s, int) cbm \<Rightarrow> adbus_CbData \<times> 's \<Rightarrow> (int \<times> adbus_CbData \<times> 's) res" where
  "adbus_dispatch callback st =
     (case callback ((fst st)\<lparr>cb_iter := adbus_iter_args (cb_msg (fst st))\<rparr>, snd st) of
        Ret r st \<Rightarrow> Inr (r, st)
      | Jmp j st \<Rightarrow> Inr (if j = ADBUSI_ERROR then 0 else j, st)
      | Crash e \<Rightarrow> Inl e)"

section \<open>Reading the arguments of a message\<close>

text \<open>The iterator stands before these values, which are the rest of the arguments.\<close>

definition at_values :: "mem \<Rightarrow> adbus_Iterator \<Rightarrow> dval list \<Rightarrow> bool" where
  "at_values mem i vs \<longleftrightarrow> list_all wf_dval vs \<and> fitss (it_data i) vs
     \<and> holds mem (it_data i) (encs (it_data i) vs) \<and> length (encs (it_data i) vs) \<le> it_size i
     \<and> (it_sig i = Some (concat (map vsig vs)) \<or> vs = [] \<and> it_sig i = None)"

lemma at_values_Cons:
  "at_values mem i (v # vs) \<Longrightarrow> wf_dval v \<and> at_value mem i v (concat (map vsig vs))"
  by (simp add: at_values_def at_value_def Let_def)

lemma at_values_next:
  "at_values mem i (v # vs) \<Longrightarrow> reads v i (concat (map vsig vs)) j \<Longrightarrow> at_values mem j vs"
  by (auto simp: at_values_def reads_def Let_def)

definition carries :: "adbus_Message \<Rightarrow> dval list \<Rightarrow> bool" where
  "carries m vs \<longleftrightarrow> at_values (msg_data m) (adbus_iter_args m) vs"

lemma bindc_Ret: "m st = Ret x st' \<Longrightarrow> bindc m f st = f x st'"
  by (simp add: bindc_def)

lemma check_end_ok: "at_values mem (cb_iter d) [] \<Longrightarrow> adbus_check_end (d, st) = Ret () (d, st)"
  by (auto simp: adbus_check_end_def at_values_def)

lemma bind_Sig: "it_sig (cb_iter d) = Some (c # r) \<Longrightarrow> bindc (Sig c) f (d, st) = f () (d, st)"
  by (simp add: bindc_def Sig_def)

lemma Iter_ok:
  "f (msg_data (cb_msg d)) (cb_iter d) = Inr (x, i) \<Longrightarrow> Iter f (d, st) = Ret x (d\<lparr>cb_iter := i\<rparr>, st)"
  by (simp add: Iter_def)

lemma check_string_ok:
  assumes "at_values (msg_data (cb_msg d)) (cb_iter d) (VStr CHR ''s'' s # vs)"
  shows "\<exists>j. adbus_check_string (d, st) = Ret s (d\<lparr>cb_iter := j\<rparr>, st) \<and> at_values (msg_data (cb_msg d)) j vs"
proof -
  note at = at_values_Cons[OF assms]
  with iter_read_string[of s "msg_data (cb_msg d)" "cb_iter d"] obtain j where
    j: "adbus_iter_string (msg_data (cb_msg d)) (cb_iter d) = Inr (s, j)"
    "reads (VStr CHR ''s'' s) (cb_iter d) (concat (map vsig vs)) j" by blast
  have "it_sig (cb_iter d) = Some (CHR ''s'' # concat (map vsig vs))"
    using at by (simp add: at_value_def)
  with j show ?thesis
    by (auto simp: adbus_check_string_def bind_Sig Iter_ok at_values_next[OF assms])
qed

text \<open>
  One check function per basic type, with its result as a value; the functions for object paths
  and signatures are those of the code and read strings.
\<close>

definition mapc :: "('a \<Rightarrow> 'b) \<Rightarrow> ('s, 'a) cbm \<Rightarrow> ('s, 'b) cbm" where
  "mapc f m = bindc m (\<lambda>x. retc (f x))"

definition check_basic :: "char \<Rightarrow> ('s, dval) cbm" where
  "check_basic c =
     (if c = CHR ''y'' then mapc VByte adbus_check_u8
      else if c = CHR ''b'' then mapc (V32 c) adbus_check_bool
      else if c = CHR ''n'' then mapc (V16 c) adbus_check_i16
      else if c = CHR ''q'' then mapc (V16 c) adbus_check_u16
      else if c = CHR ''i'' then mapc (V32 c) adbus_check_i32
      else if c = CHR ''u'' then mapc (V32 c) adbus_check_u32
      else if c = CHR ''x'' then mapc (V64 c) adbus_check_i64
      else if c = CHR ''t'' then mapc (V64 c) adbus_check_u64
      else if c = CHR ''d'' then mapc (V64 c) adbus_check_double
      else if c = CHR ''s'' then mapc (VStr c) adbus_check_string
      else if c = CHR ''o'' then mapc (VStr c) adbus_check_objectpath
      else mapc VSig adbus_check_signature)"


lemma check_number:
  assumes "bindr (g (cb_iter d)) (\<lambda>(p, i). bindr (rdf (msg_data (cb_msg d)) p) (\<lambda>w. Inr (K w, i))) = Inr (v, j)"
    and "it_sig (cb_iter d) = Some (c # r)"
  shows "mapc K (bindc (Sig c) (\<lambda>_. bindc (Iter (\<lambda>_. g)) (deref rdf))) (d, st) = Ret v (d\<lparr>cb_iter := j\<rparr>, st)"
proof -
  from assms(1) obtain p w where "g (cb_iter d) = Inr (p, j)" "rdf (msg_data (cb_msg d)) p = Inr w" "v = K w"
    by (auto simp: res_convs)
  then show ?thesis using assms(2) by (simp add: mapc_def bindc_def Sig_def Iter_def deref_def retc_def)
qed

lemma check_str:
  assumes "bindr (g (msg_data (cb_msg d)) (cb_iter d)) (\<lambda>(s, i). Inr (K s, i)) = Inr (v, j)"
    and "it_sig (cb_iter d) = Some (c # r)"
  shows "mapc K (bindc (Sig c) (\<lambda>_. Iter g)) (d, st) = Ret v (d\<lparr>cb_iter := j\<rparr>, st)"
proof -
  from assms(1) obtain w where "g (msg_data (cb_msg d)) (cb_iter d) = Inr (w, j)" "v = K w"
    by (auto simp: res_convs)
  then show ?thesis using assms(2) by (simp add: mapc_def bindc_def Sig_def Iter_def retc_def)
qed

lemma getv_check_basic:
  assumes "getv (Suc n) (msg_data (cb_msg d)) (cb_iter d) = Inr (v, j)"
    and "it_sig (cb_iter d) = Some (c # r)" and "c \<in> set ''ybnqiuxtds''"
  shows "check_basic c (d, st) = Ret v (d\<lparr>cb_iter := j\<rparr>, st)"
proof -
  let ?mem = "msg_data (cb_msg d)" and ?i = "cb_iter d"
  have sc: "it_sig_char ?i = Inr c" using assms(2) by (rule it_sig_char_Cons)
  from assms(3) consider "c = CHR ''y''" | "c = CHR ''b''" | "c = CHR ''n''" | "c = CHR ''q''"
    | "c = CHR ''i''" | "c = CHR ''u''" | "c = CHR ''x''" | "c = CHR ''t''" | "c = CHR ''d''"
    | "c = CHR ''s''" by auto
  then show ?thesis
  proof cases
    case 1
    then show ?thesis using assms(1,2) sc unfolding check_basic_def adbus_check_u8_def
      by (simp, intro check_number) assumption+
  next
    case 2
    then show ?thesis using assms(1,2) sc unfolding check_basic_def adbus_check_bool_def
      by (simp, intro check_number) assumption+
  next
    case 3
    then show ?thesis using assms(1,2) sc unfolding check_basic_def adbus_check_i16_def
      by (simp, intro check_number) assumption+
  next
    case 4
    then show ?thesis using assms(1,2) sc unfolding check_basic_def adbus_check_u16_def
      by (simp, intro check_number) assumption+
  next
    case 5
    then show ?thesis using assms(1,2) sc unfolding check_basic_def adbus_check_i32_def
      by (simp, intro check_number) assumption+
  next
    case 6
    then show ?thesis using assms(1,2) sc unfolding check_basic_def adbus_check_u32_def
      by (simp, intro check_number) assumption+
  next
    case 7
    then show ?thesis using assms(1,2) sc unfolding check_basic_def adbus_check_i64_def
      by (simp, intro check_number) assumption+
  next
    case 8
    then show ?thesis using assms(1,2) sc unfolding check_basic_def adbus_check_u64_def
      by (simp, intro check_number) assumption+
  next
    case 9
    then show ?thesis using assms(1,2) sc unfolding check_basic_def adbus_check_double_def
      by (simp, intro check_number) assumption+
  next
    case 10
    then show ?thesis using assms(1,2) sc unfolding check_basic_def adbus_check_string_def
      by (simp, intro check_str) assumption+
  qed
qed

lemma check_basic_ok:
  assumes "at_values (msg_data (cb_msg d)) (cb_iter d) (v # vs)" and "vsig v = [c]"
    and "c \<in> set ''ybnqiuxtds''"
  shows "\<exists>j. check_basic c (d, st) = Ret v (d\<lparr>cb_iter := j\<rparr>, st) \<and> at_values (msg_data (cb_msg d)) j vs"
proof -
  note at = at_values_Cons[OF assms(1)]
  from get_okD[OF get_ok_all[OF conjunct1[OF at]] lessI conjunct2[OF at]] obtain j where
    j: "getv (Suc (size v)) (msg_data (cb_msg d)) (cb_iter d) = Inr (v, j)"
    "reads v (cb_iter d) (concat (map vsig vs)) j" by blast
  have "it_sig (cb_iter d) = Some (c # concat (map vsig vs))"
    using at assms(2) by (simp add: at_value_def)
  from getv_check_basic[OF j(1) this assms(3)] at_values_next[OF assms(1) j(2)]
  show ?thesis by (intro exI conjI)
qed

lemma check_u32_ok:
  assumes "at_values (msg_data (cb_msg d)) (cb_iter d) (V32 CHR ''u'' w # vs)"
  shows "\<exists>j. adbus_check_u32 (d, st) = Ret w (d\<lparr>cb_iter := j\<rparr>, st) \<and> at_values (msg_data (cb_msg d)) j vs"
proof -
  have "\<exists>j. check_basic CHR ''u'' (d, st) = Ret (V32 CHR ''u'' w) (d\<lparr>cb_iter := j\<rparr>, st)
      \<and> at_values (msg_data (cb_msg d)) j vs"
    by (rule check_basic_ok[OF assms]) simp_all
  then obtain j where
    "mapc (V32 CHR ''u'') adbus_check_u32 (d, st) = Ret (V32 CHR ''u'' w) (d\<lparr>cb_iter := j\<rparr>, st)"
    "at_values (msg_data (cb_msg d)) j vs"
    by (auto simp: check_basic_def)
  then show ?thesis
    by (auto simp: mapc_def bindc_def retc_def split: cbres.splits)
qed

section \<open>Error replies are complete\<close>

text \<open>A buffer nothing has been written to.\<close>

definition fresh_buf :: "adbus_Buffer \<Rightarrow> bool" where
  "fresh_buf b \<longleftrightarrow> buf_b b = [] \<and> buf_sigp b = InSig 0 \<and> length (buf_sig b) = 256"

lemma fresh_reset [simp]: "length (buf_sig b) = 256 \<Longrightarrow> fresh_buf (adbus_buf_reset b)"
  by (simp add: fresh_buf_def adbus_buf_reset_def)

lemma setsig_fresh:
  assumes "fresh_buf b" and "NUL \<notin> set s" and "length s < 256" and "sz < 0 \<or> sz = int (length s)"
  shows "\<exists>b'. adbus_buf_setsig b s sz = Inr b' \<and> buf_b b' = [] \<and> buf_sigp b' = InSig 0
     \<and> sigp_str b' (buf_sigp b') = Some s \<and> adbus_buf_sig b' = s \<and> length (buf_sig b') = 256"
proof -
  have n: "arg_size s sz = length s" using assms(2,4) by (auto simp: arg_size_def c_strlen_no_nul)
  let ?b = "b\<lparr>buf_sig := overwrite (buf_sig b) 0 (s @ [NUL])\<rparr>"
  have "adbus_buf_setsig b s sz = Inr ?b" using assms(3) by (simp add: adbus_buf_setsig_def n copy_sig_def)
  moreover have "takeWhile (\<lambda>c. c \<noteq> NUL) (s @ NUL # xs) = s" for xs
    using assms(2) by (subst takeWhile_append2) auto
  ultimately show ?thesis using assms(1,3)
    by (simp add: fresh_buf_def sigp_str_def adbus_buf_sig_def overwrite_def)
qed

text \<open>A reply of one value: its signature, the value, and the check that the signature is used up.\<close>

lemma reply_value:
  assumes "fresh_buf b" and "wf_dval v" and "dict_free v" and "fits 0 v" and "length (vsig v) < 256"
    and "sz < 0 \<or> sz = int (length (vsig v))"
  shows "\<exists>b'. bindr (adbus_buf_setsig b (vsig v) sz) (\<lambda>b. bindr (put b v) (\<lambda>b. bindr (adbus_buf_end b) (\<lambda>_. Inr b))) = Inr b'
     \<and> buf_b b' = enc 0 v \<and> adbus_buf_sig b' = vsig v \<and> length (buf_sig b') = 256"
proof -
  from setsig_fresh[OF assms(1) vsig_no_nul[OF assms(2)] assms(5,6)] obtain b1 where
    b1: "adbus_buf_setsig b (vsig v) sz = Inr b1" "buf_b b1 = []"
    "sigp_str b1 (buf_sigp b1) = Some (vsig v)" "adbus_buf_sig b1 = vsig v" "length (buf_sig b1) = 256" by blast
  have "put b1 v = Inr (emit b1 (enc 0 v) (length (vsig v)))"
    using put_okD[OF put_ok_all[OF assms(2,3)], of b1 "[]"] b1 assms(4) by simp
  moreover have "sigp_str b1 (sigp_adv (length (vsig v)) (buf_sigp b1)) = Some []"
    using sigp_str_adv[of b1 "buf_sigp b1" "vsig v" "[]"] b1(3) by simp
  ultimately show ?thesis using b1
    by (simp add: adbus_buf_end_def sigp_char_def adbus_buf_sig_def)
qed

lemma reply_string:
  assumes "fresh_buf b" and "NUL \<notin> set t" and "length t < 2 ^ 32" and "sz < 0 \<or> sz = int (length t)"
    and "sz1 < 0 \<or> sz1 = 1"
  shows "\<exists>b'. bindr (adbus_buf_setsig b ''s'' sz1) (\<lambda>b. bindr (adbus_buf_string b t sz) (\<lambda>b. bindr (adbus_buf_end b) (\<lambda>_. Inr b))) = Inr b'
     \<and> buf_b b' = enc 0 (VStr CHR ''s'' t) \<and> adbus_buf_sig b' = ''s'' \<and> length (buf_sig b') = 256"
proof -
  have "arg_size t sz = arg_size t (-1)" using assms(2,4) by (auto simp: arg_size_def c_strlen_no_nul)
  then have "adbus_buf_string b t sz = adbus_buf_string b t (-1)" for b by (simp add: adbus_buf_string_def)
  then show ?thesis using reply_value[OF assms(1), of "VStr CHR ''s'' t" sz1] assms by simp
qed

lemma field_arg_ok: "NUL \<notin> set s \<Longrightarrow> sz < 0 \<or> sz = int (length s) \<Longrightarrow> field_arg s sz = Inr s"
  by (auto simp: field_arg_def arg_size_def c_strlen_no_nul)

lemma errorf_ok:
  assumes "cb_ret d = Some m" and "length (buf_sig (mf_argbuf m)) = 256" and "NUL \<notin> set name"
    and "NUL \<notin> set text" and "length text < 2 ^ 32" and "\<forall>x\<in>set_option (msg_destination (cb_msg d)). NUL \<notin> set x"
  shows "\<exists>d' m'. adbus_errorf d name text = Inr d' \<and> cb_ret d' = Some m' \<and> cb_msg d' = cb_msg d
     \<and> mf_messageType m' = ADBUS_MSG_ERROR \<and> mf_error m' = name \<and> mf_hasReplySerial m'
     \<and> mf_replySerial m' = msg_serial (cb_msg d) \<and> mf_flags m' = ADBUS_MSG_NO_REPLY
     \<and> mf_destination m' = (case msg_destination (cb_msg d) of None \<Rightarrow> [] | Some x \<Rightarrow> x)
     \<and> buf_b (mf_argbuf m') = enc 0 (VStr CHR ''s'' text) \<and> adbus_buf_sig (mf_argbuf m') = ''s''"
proof -
  let ?r = "adbus_msg_reset m"
  have "fresh_buf (mf_argbuf ?r)" using assms(2) by (simp add: adbus_msg_reset_def)
  from reply_string[OF this assms(4,5), of "int (length text)" 1] obtain b where
    b: "bindr (adbus_buf_setsig (mf_argbuf ?r) ''s'' 1) (\<lambda>b. bindr (adbus_buf_string b text (int (length text)))
          (\<lambda>b. bindr (adbus_buf_end b) (\<lambda>_. Inr b))) = Inr b"
    "buf_b b = enc 0 (VStr CHR ''s'' text)" "adbus_buf_sig b = ''s''" by auto
  from b(1) obtain b1 b2 where b12: "adbus_buf_setsig (mf_argbuf ?r) ''s'' 1 = Inr b1"
    "adbus_buf_string b1 text (int (length text)) = Inr b2" "adbus_buf_end b2 = Inr ()" "b2 = b"
    by (auto simp: res_convs)
  show ?thesis using assms(1,3,6) b(2,3) b12
    by (cases "msg_destination (cb_msg d)")
      (auto simp: adbus_errorf_def adbus_error_def Let_def adbus_msg_seterror_def adbus_msg_setdestination_def
        adbus_msg_setreply_def adbus_msg_setserial_def adbus_msg_setflags_def adbus_msg_settype_def
        field_arg_ok adbus_msg_reset_def split: prod.splits simp del: enc.simps)
qed

text \<open>The strings of a message are C strings of less than a gigabyte.\<close>

definition plain_str :: "string option \<Rightarrow> bool" where
  "plain_str s = (case s of None \<Rightarrow> True | Some s \<Rightarrow> NUL \<notin> set s \<and> length s < 2 ^ 30)"

definition plain_msg :: "adbus_Message \<Rightarrow> bool" where
  "plain_msg m \<longleftrightarrow> plain_str (msg_interface m) \<and> plain_str (msg_member m) \<and> plain_str (msg_path m)
     \<and> plain_str (msg_destination m)"

lemma plain_fmt: "plain_str s \<Longrightarrow> NUL \<notin> set (fmt_s s) \<and> length (fmt_s s) < 2 ^ 30"
  by (auto simp: plain_str_def fmt_s_def split: option.splits)

lemma error_argument_ok:
  assumes "cb_ret d = Some m" and "length (buf_sig (mf_argbuf m)) = 256" and "plain_msg (cb_msg d)"
  shows "\<exists>d' m'. adbus_error_argument d = Inr d' \<and> cb_ret d' = Some m' \<and> cb_msg d' = cb_msg d
     \<and> mf_messageType m' = ADBUS_MSG_ERROR \<and> mf_error m' = ''nz.co.foobar.adbus.InvalidArgument''
     \<and> mf_hasReplySerial m' \<and> mf_replySerial m' = msg_serial (cb_msg d)
     \<and> mf_destination m' = (case msg_destination (cb_msg d) of None \<Rightarrow> [] | Some x \<Rightarrow> x)"
proof -
  have p: "NUL \<notin> set (fmt_s (msg_interface (cb_msg d)))" "length (fmt_s (msg_interface (cb_msg d))) < 2 ^ 30"
    "NUL \<notin> set (fmt_s (msg_member (cb_msg d)))" "length (fmt_s (msg_member (cb_msg d))) < 2 ^ 30"
    "NUL \<notin> set (fmt_s (msg_path (cb_msg d)))" "length (fmt_s (msg_path (cb_msg d))) < 2 ^ 30"
    using assms(3) plain_fmt unfolding plain_msg_def by blast+
  have dest: "\<forall>x\<in>set_option (msg_destination (cb_msg d)). NUL \<notin> set x"
    using assms(3) by (auto simp: plain_msg_def plain_str_def split: option.splits)
  have name: "NUL \<notin> set ''nz.co.foobar.adbus.InvalidArgument''" by simp
  obtain t0 where t: "adbus_error_argument d = adbus_errorf d ''nz.co.foobar.adbus.InvalidArgument'' t0"
    "NUL \<notin> set t0" "length t0 < 2 ^ 32"
  proof (cases "msg_interface (cb_msg d)")
    case None
    show ?thesis
      by (rule that[of "''Invalid argument to the method '' @ quoted (fmt_s (msg_member (cb_msg d))) @ '' on '' @ fmt_s (msg_path (cb_msg d))"])
        (use None p in \<open>simp_all add: adbus_error_argument_def quoted_def\<close>)
  next
    case (Some i)
    show ?thesis
      by (rule that[of "''Invalid argument to the method '' @ quoted (full_name d) @ '' on '' @ fmt_s (msg_path (cb_msg d))"])
        (use Some p in \<open>simp_all add: adbus_error_argument_def quoted_def full_name_def\<close>)
  qed
  from errorf_ok[OF assms(1,2) name t(2,3) dest] show ?thesis unfolding t(1) by blast
qed

text \<open>C40: A call with an argument of the wrong type is answered and does nothing else: when the first
  argument does not have the type the callback checks for, the callback is left before it has
  changed the state of its owner, \<open>adbus_dispatch\<close> reports success, and the reply is the
  \<^verbatim>\<open>InvalidArgument\<close> error for the serial of the call. (Its destination is the destination of the
  call, not the sender of it.)\<close>

theorem wrong_argument_answered:
  assumes "cb_ret d = Some m" and "length (buf_sig (mf_argbuf m)) = 256" and "plain_msg (cb_msg d)"
    and "case msg_signature (cb_msg d) of None \<Rightarrow> True | Some [] \<Rightarrow> field \<noteq> NUL | Some (c # _) \<Rightarrow> c \<noteq> field"
  shows "\<exists>d' m'. adbus_dispatch (bindc (Sig field) body) (d, s) = Inr (0, d', s) \<and> cb_ret d' = Some m'
     \<and> mf_messageType m' = ADBUS_MSG_ERROR \<and> mf_error m' = ''nz.co.foobar.adbus.InvalidArgument''
     \<and> mf_hasReplySerial m' \<and> mf_replySerial m' = msg_serial (cb_msg d)
     \<and> mf_destination m' = (case msg_destination (cb_msg d) of None \<Rightarrow> [] | Some x \<Rightarrow> x)"
proof -
  let ?d = "d\<lparr>cb_iter := adbus_iter_args (cb_msg d)\<rparr>"
  from error_argument_ok[of ?d m] assms(1-3) obtain d' m' where
    d': "adbus_error_argument ?d = Inr d'" "cb_ret d' = Some m'" "mf_messageType m' = ADBUS_MSG_ERROR"
    "mf_error m' = ''nz.co.foobar.adbus.InvalidArgument''" "mf_hasReplySerial m'"
    "mf_replySerial m' = msg_serial (cb_msg d)"
    "mf_destination m' = (case msg_destination (cb_msg d) of None \<Rightarrow> [] | Some x \<Rightarrow> x)" by auto
  have "Sig field (?d, s) = Jmp ADBUSI_ERROR (d', s)"
    using assms(4) d'(1) by (auto simp: Sig_def argument_jmp_def adbus_iter_args_def split: option.splits list.splits)
  then show ?thesis using d' by (simp add: adbus_dispatch_def bindc_def)
qed

definition sample_cb :: adbus_CbData where
  "sample_cb = \<lparr>cb_msg = msg_zero\<lparr>msg_serial := 7, msg_path := Some ''/'', msg_member := Some ''M'',
       msg_sender := Some '':1.0'', msg_destination := Some ''org.b''\<rparr>, cb_ret = Some adbus_msg_new, cb_noreturn = False,
     cb_iter = \<lparr>it_data = 0, it_size = 0, it_sig = None\<rparr>, cb_nextSerial = 1\<rparr>"

theorem wrong_argument_answered_witness:
  "\<exists>d' m'. adbus_dispatch (bindc (Sig CHR ''s'') (\<lambda>_ st. Ret 5 (fst st, snd st + 1))) (sample_cb, 3 :: nat) = Inr (0, d', 3)
     \<and> cb_ret d' = Some m' \<and> mf_messageType m' = ADBUS_MSG_ERROR \<and> mf_replySerial m' = 7 \<and> mf_destination m' = ''org.b''"
proof -
  have "length (buf_sig (mf_argbuf adbus_msg_new)) = 256" "plain_msg (cb_msg sample_cb)" "cb_ret sample_cb = Some adbus_msg_new"
    "case msg_signature (cb_msg sample_cb) of None \<Rightarrow> True | Some [] \<Rightarrow> CHR ''s'' \<noteq> NUL | Some (c # _) \<Rightarrow> c \<noteq> CHR ''s''"
    by (simp_all add: sample_cb_def adbus_msg_new_def adbus_buf_new_def plain_msg_def plain_str_def msg_zero_def)
  from wrong_argument_answered[OF this(3,1,2,4), of "\<lambda>_ st. Ret 5 (fst st, snd st + 1)" "3 :: nat"]
  show ?thesis by (auto simp: sample_cb_def)
qed

text \<open>The check functions read the arguments of a message: for a message whose remaining
  arguments are the encodings of values, the check function of the first one's type returns it and
  leaves the rest. (It holds for every basic type but object paths and signatures, whose check
  functions ask for a string.)\<close>

theorem check_reads_argument:
  assumes "at_values (msg_data (cb_msg d)) (cb_iter d) (v # vs)" and "vsig v = [c]"
    and "c \<in> set ''ybnqiuxtds''"
  shows "\<exists>j. check_basic c (d, st) = Ret v (d\<lparr>cb_iter := j\<rparr>, st) \<and> at_values (msg_data (cb_msg d)) j vs"
  by (rule check_basic_ok[OF assms])

theorem check_reads_argument_witness:
  "\<exists>j. check_basic CHR ''y'' (sample_cb\<lparr>cb_msg := msg_zero\<lparr>msg_data := [CHR ''A'']\<rparr>,
        cb_iter := \<lparr>it_data = 0, it_size = 1, it_sig = Some ''y''\<rparr>\<rparr>, ())
     = Ret (VByte 65) (sample_cb\<lparr>cb_msg := msg_zero\<lparr>msg_data := [CHR ''A'']\<rparr>, cb_iter := j\<rparr>, ())"
proof -
  let ?d = "sample_cb\<lparr>cb_msg := msg_zero\<lparr>msg_data := [CHR ''A'']\<rparr>, cb_iter := \<lparr>it_data = 0, it_size = 1, it_sig = Some ''y''\<rparr>\<rparr>"
  have "at_values (msg_data (cb_msg ?d)) (cb_iter ?d) [VByte 65]"
    by code_simp
  from check_reads_argument[OF this, of "CHR ''y''" "()"] show ?thesis by auto
qed

text \<open>An object path or signature argument is never accepted: \<open>adbus_check_objectpath\<close> and
  \<open>adbus_check_signature\<close> check for the type code of a string, so on an argument of their own type
  they leave the callback.\<close>

theorem check_path_rejects_paths:
  assumes "it_sig (cb_iter d) = Some (c # r)" and "c = CHR ''o'' \<or> c = CHR ''g''"
  shows "(\<forall>x st'. adbus_check_objectpath (d, st) \<noteq> Ret x st') \<and> (\<forall>x st'. adbus_check_signature (d, st) \<noteq> Ret x st')"
  using assms by (auto simp: adbus_check_objectpath_def adbus_check_signature_def bindc_def Sig_def argument_jmp_def
      split: sum.splits cbres.splits)

theorem check_path_rejects_paths_witness:
  "\<forall>x st'. adbus_check_objectpath (sample_cb\<lparr>cb_iter := \<lparr>it_data = 0, it_size = 8, it_sig = Some ''o''\<rparr>\<rparr>, ()) \<noteq> Ret x st'"
  using check_path_rejects_paths[of "sample_cb\<lparr>cb_iter := \<lparr>it_data = 0, it_size = 8, it_sig = Some ''o''\<rparr>\<rparr>" "CHR ''o''" "[]" "()"]
  by simp

end
