(* ===== verification/Bus_Methods.thy ===== *)
theory Bus_Methods
  imports Bus_Registry Callback
begin

text \<open>
  The methods of the bus object, the handlers of \<^verbatim>\<open>adbus/server-bus.c\<close>: \<^verbatim>\<open>Hello\<close>,
  \<^verbatim>\<open>RequestName\<close>, \<^verbatim>\<open>ReleaseName\<close>, \<^verbatim>\<open>ListNames\<close>, \<^verbatim>\<open>NameHasOwner\<close>, \<^verbatim>\<open>GetNameOwner\<close>,
  \<^verbatim>\<open>AddMatch\<close> and \<^verbatim>\<open>RemoveMatch\<close>. Each is a callback over the server of \<^verbatim>\<open>Bus_Names\<close>:
  it checks its arguments, does its work on the registry, and writes its reply if one is asked for.

  A null pointer the code reaches through (a caller nobody knows, a message without a sender) is a
  crash with \<open>Fault\<close>. \<^verbatim>\<open>ListNames\<close> lists the names in the order of the table.
\<close>

section \<open>The handlers\<close>

text \<open>A step on the server, a step on the callback data, and the arguments of the reply, if there is one.\<close>

definition serverc :: "(adbus_Server \<Rightarrow> ('a \<times> adbus_Server) res) \<Rightarrow> (adbus_Server, 'a) cbm" where
  "serverc f st = (case f (snd st) of Inl e \<Rightarrow> Crash e | Inr (x, s) \<Rightarrow> Ret x (fst st, s))"

definition errorc :: "(adbus_CbData \<Rightarrow> adbus_CbData res) \<Rightarrow> (adbus_Server, int) cbm" where
  "errorc f = withc (\<lambda>d. bindr (f d) (\<lambda>d. Inr (0, d)))"

definition replyc :: "string \<Rightarrow> (adbus_Buffer \<Rightarrow> adbus_Buffer res) \<Rightarrow> (adbus_Server, unit) cbm" where
  "replyc sig put_args = withc (\<lambda>d.
     case cb_ret d of
       None \<Rightarrow> Inr ((), d)
     | Some m \<Rightarrow>
         bindr (adbus_buf_setsig (mf_argbuf m) sig (-1)) (\<lambda>b.
         bindr (put_args b) (\<lambda>b.
         bindr (adbus_buf_end b) (\<lambda>_.
           Inr ((), d\<lparr>cb_ret := Some (m\<lparr>mf_argbuf := b\<rparr>)\<rparr>)))))"

text \<open>The name of the sender, which the code hands on as a C string, and the remote with that name.\<close>

definition senderc :: "(adbus_Server, string) cbm" where
  "senderc st = (case msg_sender (cb_msg (fst st)) of None \<Rightarrow> Crash Fault | Some u \<Rightarrow> Ret u st)"

definition callerc :: "(adbus_Server, nat option) cbm" where
  "callerc = bindc senderc (\<lambda>u. serverc (\<lambda>s. bindr (adbusI_serv_remote s u) (\<lambda>r. Inr (r, s))))"

definition nonnull :: "nat option \<Rightarrow> nat res" where
  "nonnull p = (case p of None \<Rightarrow> Inl Fault | Some r \<Rightarrow> Inr r)"

definition bad_name :: "string \<Rightarrow> bool" where
  "bad_name name \<longleftrightarrow> (name \<noteq> [] \<and> hd name = CHR '':'') \<or> \<not> adbusI_isValidBusName (Some name)"

definition Hello :: "(adbus_Server, int) cbm" where
  "Hello =
     bindc adbus_check_end (\<lambda>_.
     bindc (serverc (\<lambda>s. Inr (sv_helloRemote s, s))) (\<lambda>p.
     bindc (serverc (\<lambda>s. case p of
              None \<Rightarrow> Inr (True, s)
            | Some r \<Rightarrow> bindr (get_remote s r) (\<lambda>x. Inr (rm_haveHello x, s)))) (\<lambda>already.
       if already then errorc (\<lambda>d. adbus_error d ''nz.co.foobar.adbus.AlreadyHaveHello'' (-1) None)
       else
         bindc (serverc (\<lambda>s. bindr (nonnull p) (\<lambda>r.
                  bindr (upd_remote s r (\<lambda>x. x\<lparr>rm_haveHello := True\<rparr>)) (\<lambda>s. Inr (r, s))))) (\<lambda>r.
         bindc senderc (\<lambda>u.
         bindc (serverc (\<lambda>s. adbusI_serv_requestname s r u 0)) (\<lambda>_.
         bindc (replyc ''s'' (\<lambda>b. adbus_buf_string b u (-1))) (\<lambda>_.
           retc 0)))))))"

definition RequestName :: "(adbus_Server, int) cbm" where
  "RequestName =
     bindc adbus_check_string (\<lambda>name.
     bindc adbus_check_u32 (\<lambda>flags.
     bindc adbus_check_end (\<lambda>_.
     bindc callerc (\<lambda>r.
       if bad_name name then errorc (\<lambda>d. adbus_errorf d ''TODO'' ''TODO'')
       else
         bindc (serverc (\<lambda>s. bindr (nonnull r) (\<lambda>r. adbusI_serv_requestname s r name flags))) (\<lambda>ret.
         bindc (replyc ''u'' (\<lambda>b. adbus_buf_u32 b (of_nat ret))) (\<lambda>_.
           retc 0))))))"

text \<open>Releasing a name nobody has does not look at the remote.\<close>

definition ReleaseName :: "(adbus_Server, int) cbm" where
  "ReleaseName =
     bindc adbus_check_string (\<lambda>name.
     bindc adbus_check_end (\<lambda>_.
     bindc callerc (\<lambda>r.
       if bad_name name then errorc (\<lambda>d. adbus_errorf d ''TODO'' ''TODO'')
       else
         bindc (serverc (\<lambda>s.
                  if queue_of s name = None then Inr (ADBUS_SERVICE_RELEASE_INVALID_NAME, s)
                  else bindr (nonnull r) (\<lambda>r. adbusI_serv_releasename s r name))) (\<lambda>ret.
         bindc (replyc ''u'' (\<lambda>b. adbus_buf_u32 b (of_nat ret))) (\<lambda>_.
           retc 0)))))"

primrec list_names :: "adbus_BufArray \<Rightarrow> string list \<Rightarrow> adbus_Buffer \<Rightarrow> adbus_Buffer res" where
  "list_names a [] b = Inr b"
| "list_names a (n # ns) b =
     bindr (adbus_buf_string (adbus_buf_arrayentry b a) n (-1)) (\<lambda>b. list_names a ns b)"

definition ListNames :: "(adbus_Server, int) cbm" where
  "ListNames =
     bindc adbus_check_end (\<lambda>_.
     bindc (serverc (\<lambda>s. Inr (map fst (sv_services s), s))) (\<lambda>names.
     bindc (replyc ''as'' (\<lambda>b.
              bindr (adbus_buf_beginarray b) (\<lambda>(b, a).
              bindr (list_names a names b) (\<lambda>b. adbus_buf_endarray b a)))) (\<lambda>_.
       retc 0)))"

definition NameHasOwner :: "(adbus_Server, int) cbm" where
  "NameHasOwner =
     bindc adbus_check_string (\<lambda>name.
     bindc adbus_check_end (\<lambda>_.
     bindc (serverc (\<lambda>s. bindr (adbusI_serv_remote s name) (\<lambda>r. Inr (r, s)))) (\<lambda>r.
     bindc (replyc ''b'' (\<lambda>b. adbus_buf_bool b (if r \<noteq> None then 1 else 0))) (\<lambda>_.
       retc 0))))"

definition GetNameOwner :: "(adbus_Server, int) cbm" where
  "GetNameOwner =
     bindc adbus_check_string (\<lambda>name.
     bindc adbus_check_end (\<lambda>_.
     bindc (serverc (\<lambda>s. bindr (adbusI_serv_remote s name) (\<lambda>r. Inr (r, s)))) (\<lambda>p.
       case p of
         None \<Rightarrow> errorc (\<lambda>d. adbus_errorf d ''org.freedesktop.DBus.Error.NameHasNoOwner'' ''TODO'')
       | Some r \<Rightarrow>
           bindc (serverc (\<lambda>s. bindr (get_remote s r) (\<lambda>x. Inr (rm_unique x, s)))) (\<lambda>u.
           bindc (replyc ''s'' (\<lambda>b. adbus_buf_string b u (int (length u)))) (\<lambda>_.
             retc 0)))))"

definition AddMatch :: "(adbus_Server, int) cbm" where
  "AddMatch =
     bindc adbus_check_string (\<lambda>mstr.
     bindc adbus_check_end (\<lambda>_.
       case adbusI_serv_newmatch mstr of
         None \<Rightarrow> errorc (\<lambda>d. adbus_errorf d ''TODO'' ''TODO'')
       | Some m \<Rightarrow>
           bindc callerc (\<lambda>p.
           bindc (serverc (\<lambda>s. bindr (nonnull p) (\<lambda>r.
                    bindr (upd_remote s r (\<lambda>x. x\<lparr>rm_matches := m # rm_matches x\<rparr>)) (\<lambda>s. Inr ((), s))))) (\<lambda>_.
             retc 0))))"

primrec remove_match :: "string \<Rightarrow> Match list \<Rightarrow> Match list option" where
  "remove_match mstr [] = None"
| "remove_match mstr (m # ms) =
     (if ma_data m = mstr then Some ms else map_option (Cons m) (remove_match mstr ms))"

definition RemoveMatch :: "(adbus_Server, int) cbm" where
  "RemoveMatch =
     bindc adbus_check_string (\<lambda>mstr.
     bindc adbus_check_end (\<lambda>_.
     bindc callerc (\<lambda>p.
     bindc (serverc (\<lambda>s. bindr (nonnull p) (\<lambda>r. bindr (get_remote s r) (\<lambda>x.
              case remove_match mstr (rm_matches x) of
                None \<Rightarrow> Inr (False, s)
              | Some ms \<Rightarrow> bindr (upd_remote s r (\<lambda>x. x\<lparr>rm_matches := ms\<rparr>)) (\<lambda>s. Inr (True, s)))))) (\<lambda>found.
     bindc (if found then retc 0 else errorc (\<lambda>d. adbus_errorf d ''TODO'' ''TODO'')) (\<lambda>_.
       retc 0)))))"

text \<open>The methods \<^verbatim>\<open>adbusI_serv_initbus\<close> adds to the bus interface.\<close>

definition bus_method :: "string \<Rightarrow> (adbus_Server, int) cbm option" where
  "bus_method name = map_of
     [(''Hello'', Hello), (''RequestName'', RequestName), (''ReleaseName'', ReleaseName),
      (''ListNames'', ListNames), (''NameHasOwner'', NameHasOwner), (''GetNameOwner'', GetNameOwner),
      (''AddMatch'', AddMatch), (''RemoveMatch'', RemoveMatch)] name"

section \<open>Replies\<close>

text \<open>The reply of a call, if one is asked for, has room for its arguments; after the call it carries one value.\<close>

definition reply_ready :: "adbus_CbData \<Rightarrow> bool" where
  "reply_ready d \<longleftrightarrow> (\<forall>m\<in>set_option (cb_ret d). fresh_buf (mf_argbuf m))"

definition answered :: "adbus_CbData \<Rightarrow> dval \<Rightarrow> adbus_CbData \<Rightarrow> bool" where
  "answered d v d' \<longleftrightarrow>
     (case cb_ret d of
        None \<Rightarrow> cb_ret d' = None
      | Some m \<Rightarrow> \<exists>b. cb_ret d' = Some (m\<lparr>mf_argbuf := b\<rparr>) \<and> buf_b b = enc 0 v \<and> adbus_buf_sig b = vsig v)"

lemma reply_ready_iter [simp]: "reply_ready (d\<lparr>cb_iter := i\<rparr>) = reply_ready d"
  by (simp add: reply_ready_def)

lemma answered_iter [simp]: "answered (d\<lparr>cb_iter := i\<rparr>) v d' = answered d v d'"
  by (simp add: answered_def)

lemma replyc_put:
  assumes "reply_ready d" and "wf_dval v" and "dict_free v" and "fits 0 v" and "length (vsig v) < 256"
  shows "\<exists>d'. replyc (vsig v) (\<lambda>b. put b v) (d, s) = Ret () (d', s) \<and> answered d v d'"
proof (cases "cb_ret d")
  case None
  then show ?thesis by (simp add: replyc_def withc_def answered_def)
next
  case (Some m)
  then have "fresh_buf (mf_argbuf m)" using assms(1) by (simp add: reply_ready_def)
  from reply_value[OF this assms(2-5), of "-1"] obtain b where
    b: "bindr (adbus_buf_setsig (mf_argbuf m) (vsig v) (-1)) (\<lambda>b. bindr (put b v) (\<lambda>b. bindr (adbus_buf_end b) (\<lambda>_. Inr b))) = Inr b"
    "buf_b b = enc 0 v" "adbus_buf_sig b = vsig v" by auto
  from b(1) obtain b1 b2 where "adbus_buf_setsig (mf_argbuf m) (vsig v) (-1) = Inr b1" "put b1 v = Inr b2"
    "adbus_buf_end b2 = Inr ()" "b2 = b" by (auto simp: res_convs)
  then show ?thesis using Some b(2,3) by (auto simp: replyc_def withc_def answered_def)
qed

lemma reply_u32:
  assumes "reply_ready d"
  shows "\<exists>d'. replyc ''u'' (\<lambda>b. adbus_buf_u32 b w) (d, s) = Ret () (d', s) \<and> answered d (V32 CHR ''u'' w) d'"
  using replyc_put[OF assms, of "V32 CHR ''u'' w"] by simp

lemma reply_bool:
  assumes "reply_ready d"
  shows "\<exists>d'. replyc ''b'' (\<lambda>b. adbus_buf_bool b (if p then 1 else 0)) (d, s) = Ret () (d', s)
     \<and> answered d (V32 CHR ''b'' (if p then 1 else 0)) d'"
  using replyc_put[OF assms, of "V32 CHR ''b'' (if p then 1 else 0)"] by simp

lemma reply_str:
  assumes "reply_ready d" and "NUL \<notin> set t" and "length t < 2 ^ 32" and "sz < 0 \<or> sz = int (length t)"
  shows "\<exists>d'. replyc ''s'' (\<lambda>b. adbus_buf_string b t sz) (d, s) = Ret () (d', s)
     \<and> answered d (VStr CHR ''s'' t) d'"
proof -
  have "arg_size t sz = arg_size t (-1)" using assms(2,4) by (auto simp: arg_size_def c_strlen_no_nul)
  then have "adbus_buf_string b t sz = adbus_buf_string b t (-1)" for b by (simp add: adbus_buf_string_def)
  then show ?thesis using replyc_put[OF assms(1), of "VStr CHR ''s'' t"] assms(2,3) by simp
qed

lemma list_names_put: "list_names a ns b = put_elems a b (map (VStr CHR ''s'') ns)"
  by (induction ns arbitrary: b) simp_all

lemma reply_names:
  assumes "reply_ready d" and "\<forall>n\<in>set ns. NUL \<notin> set n \<and> length n < 2 ^ 32" and "fits 0 (VArr ''s'' (map (VStr CHR ''s'') ns))"
  shows "\<exists>d'. replyc ''as'' (\<lambda>b. bindr (adbus_buf_beginarray b) (\<lambda>(b, a).
            bindr (list_names a ns b) (\<lambda>b. adbus_buf_endarray b a))) (d, s) = Ret () (d', s)
     \<and> answered d (VArr ''s'' (map (VStr CHR ''s'') ns)) d'"
proof -
  let ?v = "VArr ''s'' (map (VStr CHR ''s'') ns)"
  have "adbus_nextarg ''s'' = Some []" by code_simp
  then have "wf_dval ?v" using assms(2) by (simp add: list_all_iff del: adbus_nextarg.simps)
  moreover have "dict_free ?v" by (simp add: list_all_iff)
  moreover have "length (vsig ?v) < 256" by simp
  ultimately show ?thesis using replyc_put[OF assms(1) _ _ assms(3)]
    by (simp add: list_names_put del: enc.simps)
qed

section \<open>Calls on the names\<close>

lemma dispatch_Ret:
  "callback (d\<lparr>cb_iter := adbus_iter_args (cb_msg d)\<rparr>, s) = Ret x (d', s') \<Longrightarrow>
   adbus_dispatch callback (d, s) = Inr (x, d', s')"
  by (simp add: adbus_dispatch_def)

lemma carriesD:
  "carries (cb_msg d) vs \<Longrightarrow> at_values (msg_data (cb_msg (d\<lparr>cb_iter := adbus_iter_args (cb_msg d)\<rparr>)))
     (cb_iter (d\<lparr>cb_iter := adbus_iter_args (cb_msg d)\<rparr>)) vs"
  by (simp add: carries_def)

lemma check_string_end:
  assumes "carries (cb_msg d) [VStr CHR ''s'' t]"
  shows "\<exists>j. \<forall>f. bindc adbus_check_string (\<lambda>x. bindc adbus_check_end (\<lambda>_. f x)) (d\<lparr>cb_iter := adbus_iter_args (cb_msg d)\<rparr>, s)
     = f t (d\<lparr>cb_iter := j\<rparr>, s)"
proof -
  let ?d = "d\<lparr>cb_iter := adbus_iter_args (cb_msg d)\<rparr>"
  from check_string_ok[OF carriesD[OF assms], of s] obtain j where
    j: "adbus_check_string (?d, s) = Ret t (d\<lparr>cb_iter := j\<rparr>, s)" "at_values (msg_data (cb_msg d)) j []" by auto
  with check_end_ok[of "msg_data (cb_msg d)" "d\<lparr>cb_iter := j\<rparr>" s] show ?thesis
    by (auto simp: bindc_Ret)
qed

lemma check_string_u32_end:
  assumes "carries (cb_msg d) [VStr CHR ''s'' t, V32 CHR ''u'' w]"
  shows "\<exists>j. \<forall>f. bindc adbus_check_string (\<lambda>x. bindc adbus_check_u32 (\<lambda>y. bindc adbus_check_end (\<lambda>_. f x y)))
       (d\<lparr>cb_iter := adbus_iter_args (cb_msg d)\<rparr>, s) = f t w (d\<lparr>cb_iter := j\<rparr>, s)"
proof -
  let ?d = "d\<lparr>cb_iter := adbus_iter_args (cb_msg d)\<rparr>"
  from check_string_ok[OF carriesD[OF assms], of s] obtain j where
    j: "adbus_check_string (?d, s) = Ret t (d\<lparr>cb_iter := j\<rparr>, s)"
    "at_values (msg_data (cb_msg d)) j [V32 CHR ''u'' w]" by auto
  with check_u32_ok[of "d\<lparr>cb_iter := j\<rparr>" w "[]" s] obtain k where
    k: "adbus_check_u32 (d\<lparr>cb_iter := j\<rparr>, s) = Ret w (d\<lparr>cb_iter := k\<rparr>, s)" "at_values (msg_data (cb_msg d)) k []" by auto
  with check_end_ok[of "msg_data (cb_msg d)" "d\<lparr>cb_iter := k\<rparr>" s] j show ?thesis
    by (auto simp: bindc_Ret)
qed

lemma bindc_serverc:
  "bindc (serverc f) g (d, s) = (case f s of Inl e \<Rightarrow> Crash e | Inr (x, s') \<Rightarrow> g x (d, s'))"
  by (simp add: bindc_def serverc_def split: sum.split prod.split)

lemma reply_retc: "replyc sig f st = Ret () st' \<Longrightarrow> bindc (replyc sig f) (\<lambda>_. retc 0) st = Ret 0 st'"
  by (simp add: bindc_def retc_def)

text \<open>The caller of a message: the remote that owns the sender's name.\<close>

definition called_by :: "adbus_CbData \<Rightarrow> adbus_Server \<Rightarrow> nat \<Rightarrow> bool" where
  "called_by d s r \<longleftrightarrow> (\<exists>u. msg_sender (cb_msg d) = Some u \<and> adbusI_serv_remote s u = Inr (Some r))"

lemma callerc_ok: "called_by d s r \<Longrightarrow> callerc (d\<lparr>cb_iter := j\<rparr>, s) = Ret (Some r) (d\<lparr>cb_iter := j\<rparr>, s)"
  by (auto simp: called_by_def callerc_def bindc_def senderc_def serverc_def)

lemma RequestName_ok:
  assumes "carries (cb_msg d) [VStr CHR ''s'' name, V32 CHR ''u'' flags]" and "called_by d s r"
    and "\<not> bad_name name" and "reply_ready d" and "adbusI_serv_requestname s r name flags = Inr (c, s')"
  shows "\<exists>d'. adbus_dispatch RequestName (d, s) = Inr (0, d', s') \<and> answered d (V32 CHR ''u'' (of_nat c)) d'"
proof -
  from check_string_u32_end[OF assms(1), of s] obtain j where
    j: "\<And>f :: string \<Rightarrow> 32 word \<Rightarrow> (adbus_Server, int) cbm.
      bindc adbus_check_string (\<lambda>x. bindc adbus_check_u32 (\<lambda>y. bindc adbus_check_end (\<lambda>_. f x y)))
       (d\<lparr>cb_iter := adbus_iter_args (cb_msg d)\<rparr>, s) = f name flags (d\<lparr>cb_iter := j\<rparr>, s)" by blast
  from reply_u32[of "d\<lparr>cb_iter := j\<rparr>" "of_nat c" s'] assms(4) obtain d' where
    "replyc ''u'' (\<lambda>b. adbus_buf_u32 b (of_nat c)) (d\<lparr>cb_iter := j\<rparr>, s') = Ret () (d', s')"
    "answered d (V32 CHR ''u'' (of_nat c)) d'" by auto
  then show ?thesis using assms(3,5)
    by (auto intro!: exI[of _ d'] dispatch_Ret
      simp: RequestName_def j bindc_Ret[of callerc, OF callerc_ok[OF assms(2)]] bindc_serverc reply_retc nonnull_def)
qed

lemma ReleaseName_ok:
  assumes "carries (cb_msg d) [VStr CHR ''s'' name]" and "called_by d s r"
    and "\<not> bad_name name" and "reply_ready d" and "adbusI_serv_releasename s r name = Inr (c, s')"
  shows "\<exists>d'. adbus_dispatch ReleaseName (d, s) = Inr (0, d', s') \<and> answered d (V32 CHR ''u'' (of_nat c)) d'"
proof -
  from check_string_end[OF assms(1), of s] obtain j where
    j: "\<And>f :: string \<Rightarrow> (adbus_Server, int) cbm. bindc adbus_check_string (\<lambda>x. bindc adbus_check_end (\<lambda>_. f x))
       (d\<lparr>cb_iter := adbus_iter_args (cb_msg d)\<rparr>, s) = f name (d\<lparr>cb_iter := j\<rparr>, s)" by blast
  have c: "(if queue_of s name = None then Inr (ADBUS_SERVICE_RELEASE_INVALID_NAME, s)
            else adbusI_serv_releasename s r name) = Inr (c, s')"
    using assms(5) by (auto simp: releasename_none split: if_splits)
  from reply_u32[of "d\<lparr>cb_iter := j\<rparr>" "of_nat c" s'] assms(4) obtain d' where
    "replyc ''u'' (\<lambda>b. adbus_buf_u32 b (of_nat c)) (d\<lparr>cb_iter := j\<rparr>, s') = Ret () (d', s')"
    "answered d (V32 CHR ''u'' (of_nat c)) d'" by auto
  then show ?thesis using assms(3) c
    by (auto intro!: exI[of _ d'] dispatch_Ret
      simp: ReleaseName_def j bindc_Ret[of callerc, OF callerc_ok[OF assms(2)]] bindc_serverc reply_retc nonnull_def)
qed

lemma NameHasOwner_ok:
  assumes "carries (cb_msg d) [VStr CHR ''s'' name]" and "reply_ready d" and "adbusI_serv_remote s name = Inr p"
  shows "\<exists>d'. adbus_dispatch NameHasOwner (d, s) = Inr (0, d', s)
     \<and> answered d (V32 CHR ''b'' (if p \<noteq> None then 1 else 0)) d'"
proof -
  from check_string_end[OF assms(1), of s] obtain j where
    j: "\<And>f :: string \<Rightarrow> (adbus_Server, int) cbm. bindc adbus_check_string (\<lambda>x. bindc adbus_check_end (\<lambda>_. f x))
       (d\<lparr>cb_iter := adbus_iter_args (cb_msg d)\<rparr>, s) = f name (d\<lparr>cb_iter := j\<rparr>, s)" by blast
  from reply_bool[of "d\<lparr>cb_iter := j\<rparr>" "p \<noteq> None" s] assms(2) obtain d' where
    "replyc ''b'' (\<lambda>b. adbus_buf_bool b (if p \<noteq> None then 1 else 0)) (d\<lparr>cb_iter := j\<rparr>, s) = Ret () (d', s)"
    "answered d (V32 CHR ''b'' (if p \<noteq> None then 1 else 0)) d'" by auto
  then show ?thesis using assms(3)
    by (intro exI[of _ d'] conjI dispatch_Ret) (simp_all only: NameHasOwner_def j bindc_serverc reply_retc
        bindr_simps sum.case prod.case)
qed

lemma GetNameOwner_ok:
  assumes "carries (cb_msg d) [VStr CHR ''s'' name]" and "reply_ready d" and "adbusI_serv_remote s name = Inr (Some r)"
    and "live s r" and "plain_str (Some (uniq s r))"
  shows "\<exists>d'. adbus_dispatch GetNameOwner (d, s) = Inr (0, d', s) \<and> answered d (VStr CHR ''s'' (uniq s r)) d'"
proof -
  from check_string_end[OF assms(1), of s] obtain j where
    j: "\<And>f :: string \<Rightarrow> (adbus_Server, int) cbm. bindc adbus_check_string (\<lambda>x. bindc adbus_check_end (\<lambda>_. f x))
       (d\<lparr>cb_iter := adbus_iter_args (cb_msg d)\<rparr>, s) = f name (d\<lparr>cb_iter := j\<rparr>, s)" by blast
  have u: "get_remote s r = Inr (sv_heap s ! r)" "rm_unique (sv_heap s ! r) = uniq s r"
    using assms(4) by (simp_all add: get_remote_def uniq_def)
  from reply_str[of "d\<lparr>cb_iter := j\<rparr>" "uniq s r" "int (length (uniq s r))" s] assms(2,5) obtain d' where
    "replyc ''s'' (\<lambda>b. adbus_buf_string b (uniq s r) (int (length (uniq s r)))) (d\<lparr>cb_iter := j\<rparr>, s) = Ret () (d', s)"
    "answered d (VStr CHR ''s'' (uniq s r)) d'" by (auto simp: plain_str_def)
  then show ?thesis using assms(3) u
    by (intro exI[of _ d'] conjI dispatch_Ret) (simp_all only: GetNameOwner_def j bindc_serverc reply_retc
        bindr_simps sum.case prod.case option.case)
qed

lemma ListNames_ok:
  assumes "carries (cb_msg d) []" and "reply_ready d"
    and "\<forall>n\<in>set (map fst (sv_services s)). NUL \<notin> set n \<and> length n < 2 ^ 32"
    and "fits 0 (VArr ''s'' (map (VStr CHR ''s'') (map fst (sv_services s))))"
  shows "\<exists>d'. adbus_dispatch ListNames (d, s) = Inr (0, d', s)
     \<and> answered d (VArr ''s'' (map (VStr CHR ''s'') (map fst (sv_services s)))) d'"
proof -
  let ?d = "d\<lparr>cb_iter := adbus_iter_args (cb_msg d)\<rparr>"
  have e: "adbus_check_end (?d, s) = Ret () (?d, s)" by (rule check_end_ok[OF carriesD[OF assms(1)]])
  from reply_names[OF _ assms(3,4), of ?d s] assms(2) obtain d' where
    "replyc ''as'' (\<lambda>b. bindr (adbus_buf_beginarray b) (\<lambda>(b, a).
            bindr (list_names a (map fst (sv_services s)) b) (\<lambda>b. adbus_buf_endarray b a))) (?d, s) = Ret () (d', s)"
    "answered d (VArr ''s'' (map (VStr CHR ''s'') (map fst (sv_services s)))) d'" by auto
  then show ?thesis
    by (intro exI[of _ d'] conjI dispatch_Ret)
      (simp_all only: ListNames_def bindc_Ret[of adbus_check_end, OF e] bindc_serverc reply_retc sum.case prod.case)
qed

text \<open>C30: The name methods tell and change the registry over the wire. On a message with a name
  and flags from a known caller, \<^verbatim>\<open>RequestName\<close> does what \<open>adbusI_serv_requestname\<close> does for the caller and
  replies with its result code; a name that is not valid, or is a unique name, changes nothing and is
  answered with an error.\<close>

theorem request_call:
  assumes "carries (cb_msg d) [VStr CHR ''s'' name, V32 CHR ''u'' flags]" and "called_by d s r"
    and "cb_ret d = Some m" and "fresh_buf (mf_argbuf m)" and "plain_msg (cb_msg d)"
    and "adbusI_serv_requestname s r name flags = Inr (c, s')"
  shows "(\<not> bad_name name \<longrightarrow> (\<exists>d'. adbus_dispatch RequestName (d, s) = Inr (0, d', s')
            \<and> answered d (V32 CHR ''u'' (of_nat c)) d'))
       \<and> (bad_name name \<longrightarrow> (\<exists>d' m'. adbus_dispatch RequestName (d, s) = Inr (0, d', s)
            \<and> cb_ret d' = Some m' \<and> mf_messageType m' = ADBUS_MSG_ERROR \<and> mf_replySerial m' = msg_serial (cb_msg d)))"
proof (intro conjI impI)
  assume "\<not> bad_name name"
  then show "\<exists>d'. adbus_dispatch RequestName (d, s) = Inr (0, d', s') \<and> answered d (V32 CHR ''u'' (of_nat c)) d'"
    using RequestName_ok[OF assms(1,2)] assms(3,4,6) by (simp add: reply_ready_def)
next
  assume bad: "bad_name name"
  from check_string_u32_end[OF assms(1), of s] obtain j where
    j: "\<And>f :: string \<Rightarrow> 32 word \<Rightarrow> (adbus_Server, int) cbm.
      bindc adbus_check_string (\<lambda>x. bindc adbus_check_u32 (\<lambda>y. bindc adbus_check_end (\<lambda>_. f x y)))
       (d\<lparr>cb_iter := adbus_iter_args (cb_msg d)\<rparr>, s) = f name flags (d\<lparr>cb_iter := j\<rparr>, s)" by blast
  have "\<forall>x\<in>set_option (msg_destination (cb_msg d)). NUL \<notin> set x"
    using assms(5) by (auto simp: plain_msg_def plain_str_def split: option.splits)
  with errorf_ok[of "d\<lparr>cb_iter := j\<rparr>" m "''TODO''" "''TODO''"] assms(3,4) obtain d' m' where
    e: "adbus_errorf (d\<lparr>cb_iter := j\<rparr>) ''TODO'' ''TODO'' = Inr d'" "cb_ret d' = Some m'"
    "mf_messageType m' = ADBUS_MSG_ERROR" "mf_replySerial m' = msg_serial (cb_msg d)"
    by (auto simp: fresh_buf_def)
  show "\<exists>d' m'. adbus_dispatch RequestName (d, s) = Inr (0, d', s) \<and> cb_ret d' = Some m'
       \<and> mf_messageType m' = ADBUS_MSG_ERROR \<and> mf_replySerial m' = msg_serial (cb_msg d)"
    using bad e by (intro exI conjI dispatch_Ret)
      (auto simp: RequestName_def j bindc_Ret[of callerc, OF callerc_ok[OF assms(2)]] errorc_def withc_def)
qed


section \<open>Calls on the match rules\<close>

lemma match_key_data: "match_key m k v = Some m' \<Longrightarrow> ma_data m' = ma_data m"
  by (auto simp: match_key_def split: if_splits option.splits)

lemma apply_pairs_data: "apply_pairs m ps = Some m' \<Longrightarrow> ma_data m' = ma_data m"
  by (induction ps arbitrary: m) (auto dest: match_key_data split: option.splits)

lemma newmatch_data: "adbusI_serv_newmatch mstr = Some m \<Longrightarrow> ma_data m = mstr"
  by (auto simp: adbusI_serv_newmatch_def newmatch_loop_iff dest!: apply_pairs_data)

definition set_matches :: "adbus_Server \<Rightarrow> nat \<Rightarrow> Match list \<Rightarrow> adbus_Server" where
  "set_matches s r ms = s\<lparr>sv_heap := (sv_heap s)[r := (sv_heap s ! r)\<lparr>rm_matches := ms\<rparr>]\<rparr>"

lemma set_matches_simps:
  "live s r \<Longrightarrow> live (set_matches s r ms) r"
  "live s r \<Longrightarrow> rm_matches (sv_heap (set_matches s r ms) ! r) = ms"
  "live s r \<Longrightarrow> set_matches (set_matches s r ms) r ms' = set_matches s r ms'"
  "set_matches s r (rm_matches (sv_heap s ! r)) = s"
  "adbusI_serv_remote (set_matches s r ms) u = adbusI_serv_remote s u"
  "live s r \<Longrightarrow> upd_remote s r (\<lambda>x. x\<lparr>rm_matches := ms\<rparr>) = Inr (set_matches s r ms)"
  "live s r \<Longrightarrow> upd_remote s r (\<lambda>x. x\<lparr>rm_matches := m # rm_matches x\<rparr>)
     = Inr (set_matches s r (m # rm_matches (sv_heap s ! r)))"
  by (simp_all add: set_matches_def live_def adbusI_serv_remote_def queue_of_def upd_remote_def get_remote_def)

lemma called_by_matches: "called_by d s r \<Longrightarrow> called_by d (set_matches s k ms) r"
  by (simp add: called_by_def set_matches_simps)

lemma AddMatch_ok:
  assumes "carries (cb_msg d) [VStr CHR ''s'' mstr]" and "called_by d s r" and "live s r"
    and "adbusI_serv_newmatch mstr = Some m"
  shows "\<exists>d'. adbus_dispatch AddMatch (d, s) = Inr (0, d', set_matches s r (m # rm_matches (sv_heap s ! r)))"
proof -
  from check_string_end[OF assms(1), of s] obtain j where
    j: "\<And>f :: string \<Rightarrow> (adbus_Server, int) cbm. bindc adbus_check_string (\<lambda>x. bindc adbus_check_end (\<lambda>_. f x))
       (d\<lparr>cb_iter := adbus_iter_args (cb_msg d)\<rparr>, s) = f mstr (d\<lparr>cb_iter := j\<rparr>, s)" by blast
  show ?thesis
    by (intro exI dispatch_Ret) (simp only: AddMatch_def j assms(4) option.case
        bindc_Ret[of callerc, OF callerc_ok[OF assms(2)]] bindc_serverc nonnull_def
        set_matches_simps(7)[OF assms(3)] bindr_simps sum.case prod.case retc_def)
qed

lemma RemoveMatch_ok:
  assumes "carries (cb_msg d) [VStr CHR ''s'' mstr]" and "called_by d s r" and "live s r"
    and "remove_match mstr (rm_matches (sv_heap s ! r)) = Some ms"
  shows "\<exists>d'. adbus_dispatch RemoveMatch (d, s) = Inr (0, d', set_matches s r ms)"
proof -
  from check_string_end[OF assms(1), of s] obtain j where
    j: "\<And>f :: string \<Rightarrow> (adbus_Server, int) cbm. bindc adbus_check_string (\<lambda>x. bindc adbus_check_end (\<lambda>_. f x))
       (d\<lparr>cb_iter := adbus_iter_args (cb_msg d)\<rparr>, s) = f mstr (d\<lparr>cb_iter := j\<rparr>, s)" by blast
  have g: "get_remote s r = Inr (sv_heap s ! r)" using assms(3) by (simp add: get_remote_def)
  have t: "bindc (retc 0) (\<lambda>_. retc 0) st = (Ret 0 st :: (adbus_Server, int) cbres)" for st
    by (simp add: bindc_def retc_def)
  show ?thesis
    by (intro exI dispatch_Ret) (simp only: RemoveMatch_def j
        bindc_Ret[of callerc, OF callerc_ok[OF assms(2)]] bindc_serverc nonnull_def option.case g assms(4)
        set_matches_simps(6)[OF assms(3)] bindr_simps sum.case prod.case if_True t)
qed

text \<open>C32: A rule that was added can be removed again: for a match string the server can parse,
  \<^verbatim>\<open>AddMatch\<close> puts the rule in front of the caller's rules and changes nothing else, and
  \<^verbatim>\<open>RemoveMatch\<close> with the same string then gives the server back as it was.\<close>

theorem match_calls:
  assumes "carries (cb_msg d) [VStr CHR ''s'' mstr]" and "called_by d s r" and "live s r"
    and "adbusI_serv_newmatch mstr = Some m"
  shows "\<exists>d1 s1. adbus_dispatch AddMatch (d, s) = Inr (0, d1, s1)
     \<and> s1 = s\<lparr>sv_heap := (sv_heap s)[r := (sv_heap s ! r)\<lparr>rm_matches := m # rm_matches (sv_heap s ! r)\<rparr>]\<rparr>
     \<and> (\<exists>d2. adbus_dispatch RemoveMatch (d, s1) = Inr (0, d2, s))"
proof -
  let ?s1 = "set_matches s r (m # rm_matches (sv_heap s ! r))"
  from AddMatch_ok[OF assms] obtain d1 where d1: "adbus_dispatch AddMatch (d, s) = Inr (0, d1, ?s1)" by blast
  have "remove_match mstr (rm_matches (sv_heap ?s1 ! r)) = Some (rm_matches (sv_heap s ! r))"
    using set_matches_simps(2)[OF assms(3)] newmatch_data[OF assms(4)] by simp
  from RemoveMatch_ok[OF assms(1) called_by_matches[OF assms(2)] set_matches_simps(1)[OF assms(3)] this]
  obtain d2 where "adbus_dispatch RemoveMatch (d, ?s1) = Inr (0, d2, s)"
    using set_matches_simps(3)[OF assms(3)] set_matches_simps(4) by metis
  with d1 show ?thesis by (auto simp: set_matches_def)
qed

section \<open>Sample calls\<close>

text \<open>A call of remote 1 of the sample bus with these arguments.\<close>

definition sample_call :: "dval list \<Rightarrow> adbus_CbData" where
  "sample_call vs = sample_cb\<lparr>cb_msg := (cb_msg sample_cb)\<lparr>msg_data := encs 0 vs, msg_argdata := 0,
     msg_argsize := length (encs 0 vs), msg_signature := Some (concat (map vsig vs))\<rparr>\<rparr>"

lemma sample_call_ready:
  "called_by (sample_call vs) sample_bus 1" "plain_msg (cb_msg (sample_call vs))"
  "cb_ret (sample_call vs) = Some adbus_msg_new" "fresh_buf (mf_argbuf adbus_msg_new)"
  "reply_ready (sample_call vs)"
proof -
  have "adbusI_serv_remote sample_bus '':1.0'' = Inr (Some 1)" by code_simp
  then show "called_by (sample_call vs) sample_bus 1" by (simp add: called_by_def sample_call_def sample_cb_def msg_zero_def)
  show "plain_msg (cb_msg (sample_call vs))" by (simp add: sample_call_def sample_cb_def plain_msg_def plain_str_def msg_zero_def)
  show r: "cb_ret (sample_call vs) = Some adbus_msg_new" by (simp add: sample_call_def sample_cb_def)
  show f: "fresh_buf (mf_argbuf adbus_msg_new)" by (simp add: fresh_buf_def adbus_msg_new_def adbus_buf_new_def)
  show "reply_ready (sample_call vs)" using r f by (simp add: reply_ready_def)
qed

lemma sample_call_carries:
  assumes "list_all wf_dval vs" and "fitss 0 vs"
  shows "carries (cb_msg (sample_call vs)) vs"
  using assms by (simp add: carries_def at_values_def holds_def sample_call_def adbus_iter_args_def)

theorem request_call_witness:
  "\<exists>c s' d'. adbus_dispatch RequestName (sample_call [VStr CHR ''s'' ''a.b'', V32 CHR ''u'' 0], sample_bus) = Inr (0, d', s')
     \<and> answered (sample_call [VStr CHR ''s'' ''a.b'', V32 CHR ''u'' 0]) (V32 CHR ''u'' (of_nat c)) d'"
proof -
  let ?d = "sample_call [VStr CHR ''s'' ''a.b'', V32 CHR ''u'' 0]"
  have q: "queues_ok sample_bus" using serv_reach_inv[OF sample_bus_reach] by (simp add: serv_inv_def names_ok_def)
  have "\<exists>c s'. adbusI_serv_requestname sample_bus 1 ''a.b'' 0 = Inr (c, s')"
    by (rule requestname_live[OF q sample_bus_facts(1,2)]) (rule nobody_staleD[OF sample_bus_facts(3)])
  then obtain c s' where req: "adbusI_serv_requestname sample_bus 1 ''a.b'' 0 = Inr (c, s')" by blast
  have "carries (cb_msg ?d) [VStr CHR ''s'' ''a.b'', V32 CHR ''u'' 0]"
    by (rule sample_call_carries) simp_all
  from request_call[OF this sample_call_ready(1,3,4,2) req]
  have "\<exists>d'. adbus_dispatch RequestName (?d, sample_bus) = Inr (0, d', s') \<and> answered ?d (V32 CHR ''u'' (of_nat c)) d'"
    if "\<not> bad_name ''a.b''" using that by blast
  moreover have "\<not> bad_name ''a.b''" by code_simp
  ultimately show ?thesis by blast
qed


theorem match_calls_witness:
  "\<exists>d1 s1 d2. adbus_dispatch AddMatch (sample_call [VStr CHR ''s'' (''path='' @ quoted ''/'')], sample_bus) = Inr (0, d1, s1)
     \<and> adbus_dispatch RemoveMatch (sample_call [VStr CHR ''s'' (''path='' @ quoted ''/'')], s1) = Inr (0, d2, sample_bus)"
proof -
  let ?d = "sample_call [VStr CHR ''s'' (''path='' @ quoted ''/'')]"
  have "adbusI_serv_newmatch (''path='' @ quoted ''/'') \<noteq> None" by code_simp
  then obtain m where m: "adbusI_serv_newmatch (''path='' @ quoted ''/'') = Some m" by blast
  have "carries (cb_msg ?d) [VStr CHR ''s'' (''path='' @ quoted ''/'')]"
    by (rule sample_call_carries) (simp_all add: quoted_def)
  from match_calls[OF this sample_call_ready(1) sample_bus_facts(1) m] show ?thesis by blast
qed

end
