(* ===== verification/Bus_Dispatch.thy ===== *)
theory Bus_Dispatch
  imports Bus_Methods
begin

text \<open>
  Routing of messages by the bus server, \<^verbatim>\<open>RemoteDispatchMatch\<close> and \<^verbatim>\<open>adbusI_serv_dispatch\<close> of
  \<^verbatim>\<open>adbus/server-dispatch.c\<close>. The send callback of a remote, which the program that connected
  the remote provides, is the parameter \<open>send\<close>, on a state of its own; it says how many bytes it
  has sent. The routing reads the server as it is when the dispatch begins. (The send callback that
  changes the server is that of the bus itself, which has no rules and is only called last.)
\<close>

section \<open>Routing\<close>

type_synonym 'w sender = "nat \<Rightarrow> adbus_Message \<Rightarrow> 'w \<Rightarrow> int \<times> 'w"

text \<open>
  The result is the return value, the message (whose arguments may have been parsed meanwhile) and
  the state of the send callbacks.
\<close>

definition RemoteDispatchMatch ::
    "'w sender \<Rightarrow> adbus_Server \<Rightarrow> nat \<Rightarrow> adbus_Message \<Rightarrow> 'w \<Rightarrow> (int \<times> adbus_Message \<times> 'w) res" where
  "RemoteDispatchMatch send s r msg w =
     bindr (get_remote s r) (\<lambda>x.
       case match_any (rm_matches x) msg of
         Inl Failed \<Rightarrow> Inr (-1, msg, w)
       | Inl e \<Rightarrow> Inl e
       | Inr (hit, msg) \<Rightarrow>
           if hit then
             (case send r msg w of (n, w) \<Rightarrow> Inr (if n \<noteq> int (msg_size msg) then 1 else 0, msg, w))
           else Inr (0, msg, w))"

definition direct_remote :: "adbus_Server \<Rightarrow> adbus_Message \<Rightarrow> nat option" where
  "direct_remote s m =
     (case msg_destination m of
        Some dest \<Rightarrow>
          (case queue_of s dest of
             None \<Rightarrow> None
           | Some q \<Rightarrow> if length q > 0 then Some (so_remote (q ! 0)) else None)
      | None \<Rightarrow> if msg_type m = ADBUS_MSG_METHOD then sv_busRemote s else None)"

primrec dispatch_remotes ::
    "'w sender \<Rightarrow> adbus_Server \<Rightarrow> nat option \<Rightarrow> nat list \<Rightarrow> adbus_Message \<Rightarrow> 'w \<Rightarrow> (int \<times> adbus_Message \<times> 'w) res" where
  "dispatch_remotes send s direct [] m w = Inr (0, m, w)"
| "dispatch_remotes send s direct (r # rs) m w =
     (if Some r \<noteq> direct then
        bindr (RemoteDispatchMatch send s r m w) (\<lambda>(ret, m, w).
          if ret \<noteq> 0 then Inr (-1, m, w) else dispatch_remotes send s direct rs m w)
      else dispatch_remotes send s direct rs m w)"

definition adbusI_serv_dispatch ::
    "'w sender \<Rightarrow> adbus_Server \<Rightarrow> adbus_Message \<Rightarrow> 'w \<Rightarrow> (int \<times> adbus_Message \<times> 'w) res" where
  "adbusI_serv_dispatch send s m w =
     (let direct = direct_remote s m
      in bindr (dispatch_remotes send s direct (sv_remotes s) m w) (\<lambda>(ret, m, w).
           if ret \<noteq> 0 then Inr (ret, m, w)
           else case direct of
                  None \<Rightarrow> Inr (0, m, w)
                | Some r \<Rightarrow>
                    bindr (get_remote s r) (\<lambda>_.
                      case send r m w of (n, w) \<Rightarrow>
                        if n \<noteq> int (msg_size m) then Inr (-1, m, w) else Inr (0, m, w))))"

section \<open>Who gets a message\<close>

text \<open>Whether a rule fits a message with parsed arguments.\<close>

definition rule_fits :: "Match \<Rightarrow> adbus_Message \<Rightarrow> bool" where
  "rule_fits r m \<longleftrightarrow> (ma_type r \<noteq> ADBUS_MSG_INVALID \<or> msg_type m = ADBUS_MSG_INVALID)
     \<and> (ma_checkReply r \<longrightarrow> msg_replySerial m = Some (ma_reply r))
     \<and> StringMatches (ma_path r) (msg_path m) \<and> StringMatches (ma_interface r) (msg_interface m)
     \<and> StringMatches (ma_member r) (msg_member m) \<and> StringMatches (ma_error r) (msg_error m)
     \<and> StringMatches (ma_destination r) (msg_destination m) \<and> StringMatches (ma_sender r) (msg_sender m)
     \<and> (ma_arguments r \<noteq> [] \<longrightarrow> ArgsMatch r m)"

text \<open>
  The message with the arguments \<open>vs\<close> parsed; the arguments parse, or no rule asks for them.
\<close>

definition parsed :: "string option list option \<Rightarrow> adbus_Message \<Rightarrow> adbus_Message" where
  "parsed vs m = m\<lparr>msg_arguments := vs\<rparr>"

definition args_known :: "Match list \<Rightarrow> adbus_Message \<Rightarrow> string option list option \<Rightarrow> bool" where
  "args_known rules m vs \<longleftrightarrow> msg_arguments m = None
     \<and> (adbus_parseargs m = Inr (parsed vs m) \<and> vs \<noteq> None
        \<or> vs = None \<and> list_all (\<lambda>r. ma_arguments r = []) rules)"

lemma parsed_None: "msg_arguments m = None \<Longrightarrow> parsed None m = m"
  by (simp add: parsed_def)

lemma parseargs_again: "vs \<noteq> None \<Longrightarrow> adbus_parseargs (parsed vs m) = Inr (parsed vs m)"
  by (simp add: adbus_parseargs_def parsed_def)

lemma match_msg_fits:
  assumes "args_known [r] m vs" and "m1 = m \<or> m1 = parsed vs m"
  shows "\<exists>m2. match_msg r m1 = Inr (rule_fits r (parsed vs m), m2) \<and> (m2 = m \<or> m2 = parsed vs m)"
proof -
  have same: "msg_type m1 = msg_type m" "msg_replySerial m1 = msg_replySerial m" "msg_path m1 = msg_path m"
    "msg_interface m1 = msg_interface m" "msg_member m1 = msg_member m" "msg_error m1 = msg_error m"
    "msg_destination m1 = msg_destination m" "msg_sender m1 = msg_sender m"
    using assms(2) by (auto simp: parsed_def)
  have p: "ma_arguments r \<noteq> [] \<Longrightarrow> adbus_parseargs m1 = Inr (parsed vs m)"
    using assms parseargs_again by (auto simp: args_known_def)
  show ?thesis using assms(2) p
    by (auto simp: match_msg_def same rule_fits_def parsed_def split: option.splits)
qed

lemma match_any_fits:
  assumes "args_known rules m vs" and "m1 = m \<or> m1 = parsed vs m"
  shows "\<exists>m2. match_any rules m1 = Inr (\<exists>r\<in>set rules. rule_fits r (parsed vs m), m2) \<and> (m2 = m \<or> m2 = parsed vs m)"
  using assms
proof (induction rules arbitrary: m1)
  case Nil
  then show ?case by auto
next
  case (Cons r rules)
  then have a: "args_known [r] m vs" "args_known rules m vs" by (auto simp: args_known_def)
  from match_msg_fits[OF a(1) Cons.prems(2)] obtain m2 where
    m2: "match_msg r m1 = Inr (rule_fits r (parsed vs m), m2)" "m2 = m \<or> m2 = parsed vs m" by blast
  show ?case
  proof (cases "rule_fits r (parsed vs m)")
    case True
    with m2 show ?thesis by auto
  next
    case False
    with m2 Cons.IH[OF a(2) m2(2)] show ?thesis by auto
  qed
qed

text \<open>A send callback that sends everything and keeps a list of what it has sent to whom.\<close>

definition recorder :: "(nat \<times> adbus_Message) list sender" where
  "recorder r m w = (int (msg_size m), w @ [(r, m\<lparr>msg_arguments := None\<rparr>)])"

definition listens :: "adbus_Server \<Rightarrow> nat \<Rightarrow> adbus_Message \<Rightarrow> bool" where
  "listens s r m \<longleftrightarrow> (\<exists>x\<in>set (rm_matches (sv_heap s ! r)). rule_fits x m)"

lemma recorder_parsed: "recorder r (parsed vs m) w = recorder r m w"
  by (simp add: recorder_def parsed_def)

lemma dispatch_remotes_record:
  assumes "\<forall>r\<in>set rs. live s r \<and> args_known (rm_matches (sv_heap s ! r)) m vs" and "m1 = m \<or> m1 = parsed vs m"
  shows "\<exists>m2. dispatch_remotes recorder s direct rs m1 w = Inr (0, m2, w @ map (\<lambda>r. (r, m\<lparr>msg_arguments := None\<rparr>))
       (filter (\<lambda>r. Some r \<noteq> direct \<and> listens s r (parsed vs m)) rs)) \<and> (m2 = m \<or> m2 = parsed vs m)"
  using assms
proof (induction rs arbitrary: m1 w)
  case Nil
  then show ?case by auto
next
  case (Cons r rs)
  show ?case
  proof (cases "Some r = direct")
    case True
    then show ?thesis using Cons.IH[of m1 w] Cons.prems by simp
  next
    case False
    from match_any_fits[of "rm_matches (sv_heap s ! r)" m vs m1] Cons.prems obtain m2 where
      m2: "match_any (rm_matches (sv_heap s ! r)) m1 = Inr (listens s r (parsed vs m), m2)" "m2 = m \<or> m2 = parsed vs m"
      by (auto simp: listens_def)
    let ?w = "if listens s r (parsed vs m) then w @ [(r, m\<lparr>msg_arguments := None\<rparr>)] else w"
    have "recorder r m2 w = (int (msg_size m2), w @ [(r, m\<lparr>msg_arguments := None\<rparr>)])"
      using m2(2) by (auto simp: recorder_def parsed_def)
    then have "RemoteDispatchMatch recorder s r m1 w = Inr (0, m2, ?w)"
      using m2(1) Cons.prems(1) by (simp add: RemoteDispatchMatch_def get_remote_def)
    then show ?thesis using Cons.IH[OF _ m2(2), of ?w] Cons.prems(1) False by auto
  qed
qed

lemma direct_owner:
  "queues_ok s \<Longrightarrow> direct_remote s m = Some r \<longleftrightarrow>
     (case msg_destination m of Some n \<Rightarrow> owner_of s n = Some r
      | None \<Rightarrow> msg_type m = ADBUS_MSG_METHOD \<and> sv_busRemote s = Some r)"
  by (auto simp: direct_remote_def owner_of_def queues_ok_def split: option.splits list.splits)



end
