(* ===== verification/Server_Parse.thy ===== *)
theory Server_Parse
  imports Bus_Dispatch
begin

text \<open>
  The bus server's side of a connection, \<^verbatim>\<open>adbus/server-parse.c\<close>: messages are cut out of the
  stream of a remote, their sender field is replaced by the remote's unique name
  (\<^verbatim>\<open>FixHeaders\<close>), and they are parsed and routed (\<^verbatim>\<open>DispatchMsg\<close>); a remote that has not said
  hello may only call \<^verbatim>\<open>Hello\<close>.

  The send callbacks work on the server and a state of their own, because the bus's own callback
  runs the methods of \<^verbatim>\<open>Bus_Methods\<close>. The fuel \<open>n\<close> is that of \<open>adbus_flip_data\<close>, which is only
  called for messages in the other byte order; \<open>None\<close> means that it ran out. When a step
  returns -1 the remote is to be kicked; what that step has left in the remote's parse fields is
  not kept.
\<close>

section \<open>Results\<close>

type_synonym 'a run = "'a res option"

definition bindo :: "'a run \<Rightarrow> ('a \<Rightarrow> 'b run) \<Rightarrow> 'b run" where
  "bindo x f = (case x of None \<Rightarrow> None | Some (Inl e) \<Rightarrow> Some (Inl e) | Some (Inr y) \<Rightarrow> f y)"

lemma bindo_simps [simp]:
  "bindo None f = None" "bindo (Some (Inl e)) f = Some (Inl e)" "bindo (Some (Inr y)) f = f y"
  by (simp_all add: bindo_def)

lemma bindo_Inr: "bindo x f = Some (Inr z) \<longleftrightarrow> (\<exists>y. x = Some (Inr y) \<and> f y = Some (Inr z))"
  by (cases x) (auto simp: bindo_def split: sum.splits)

section \<open>Buffers\<close>

definition sizeof_Message :: nat where "sizeof_Message = 184"

definition InitBuffer :: "adbus_Buffer \<Rightarrow> adbus_Buffer" where
  "InitBuffer b =
     adbus_buf_align (adbus_buf_append (adbus_buf_reset b) (replicate sizeof_Message NUL)) 8"

text \<open>The message structure is in front of the data; the data starts at this offset.\<close>

definition unpack_off :: nat where
  "unpack_off = align sizeof_Message 8"

definition UnpackBuffer :: "adbus_Buffer \<Rightarrow> mem \<times> nat" where
  "UnpackBuffer b = (drop unpack_off (buf_b b), length (buf_b b) - unpack_off)"

datatype bufsel = MsgBuf | DispatchBuf

definition get_buf :: "bufsel \<Rightarrow> adbus_Remote \<Rightarrow> adbus_Buffer" where
  "get_buf w x = (case w of MsgBuf \<Rightarrow> rm_msg x | DispatchBuf \<Rightarrow> rm_dispatch x)"

definition set_buf :: "bufsel \<Rightarrow> adbus_Buffer \<Rightarrow> adbus_Remote \<Rightarrow> adbus_Remote" where
  "set_buf w b x = (case w of MsgBuf \<Rightarrow> x\<lparr>rm_msg := b\<rparr> | DispatchBuf \<Rightarrow> x\<lparr>rm_dispatch := b\<rparr>)"

section \<open>Routing a complete message\<close>

text \<open>What a message must be to be the first one of a remote.\<close>

definition is_hello :: "adbus_Message \<Rightarrow> bool" where
  "is_hello m \<longleftrightarrow> msg_type m = ADBUS_MSG_METHOD
     \<and> (msg_destination m = None \<or> msg_destination m = Some ''org.freedesktop.DBus'')
     \<and> (msg_interface m = None \<or> msg_interface m = Some ''org.freedesktop.DBus'')
     \<and> (msg_path m = Some ''/'' \<or> msg_path m = Some ''/org/freedesktop/DBus'')
     \<and> msg_member m = Some ''Hello''"

definition DispatchMsg ::
    "nat \<Rightarrow> (adbus_Server \<times> 'v) sender \<Rightarrow> bufsel \<Rightarrow> nat \<Rightarrow> adbus_Server \<times> 'v \<Rightarrow> (int \<times> adbus_Server \<times> 'v) run" where
  "DispatchMsg n send w r st =
     (let (s, v) = st in
      bindo (Some (get_remote s r)) (\<lambda>x.
      let (data, sz) = UnpackBuffer (get_buf w x) in
      case adbus_parse n msg_zero data sz of
        None \<Rightarrow> None
      | Some (Inl Failed) \<Rightarrow> Some (Inr (-1, s, v))
      | Some (Inl e) \<Rightarrow> Some (Inl e)
      | Some (Inr m) \<Rightarrow>
          (case (if msg_signature m \<noteq> None \<and> \<not> rm_native x then flip_args n m else Some (Inr m)) of
             None \<Rightarrow> None
           | Some (Inl Failed) \<Rightarrow> Some (Inr (-1, s, v))
           | Some (Inl e) \<Rightarrow> Some (Inl e)
           | Some (Inr m) \<Rightarrow>
               if \<not> rm_haveHello x \<and> \<not> is_hello m then Some (Inr (-1, s, v))
               else
                 bindo (Some (assertr (rm_haveHello x \<or> sv_helloRemote s = None))) (\<lambda>_.
                 let s = (if rm_haveHello x then s else s\<lparr>sv_helloRemote := Some r\<rparr>) in
                 bindo (Some (adbusI_serv_dispatch send s m (s, v))) (\<lambda>(ret, m, s, v).
                 bindo (Some (upd_remote (s\<lparr>sv_helloRemote := None\<rparr>) r
                   (\<lambda>x. (set_buf w (adbus_buf_reset (get_buf w x)) x)
                          \<lparr>rm_msgSize := 0, rm_headerSize := 0, rm_parsedMsgSize := 0\<rparr>))) (\<lambda>s.
                   Some (Inr (ret, s, v))))))))"

section \<open>The sender field\<close>

text \<open>
  One header field: skipped, and removed if it is a sender field. The field's padding is part of
  it, also behind the last field, where it does not count for the length of the array; the end of the
  array is then at most the iterator, as in the code (where the length wraps around and the end does
  not).
\<close>

definition fix_field ::
    "adbus_Buffer \<Rightarrow> adbus_IterArray \<Rightarrow> adbus_Iterator \<Rightarrow> (adbus_Buffer \<times> adbus_IterArray \<times> adbus_Iterator) res" where
  "fix_field b a i =
     (let mem = buf_b b; fieldbegin = it_data i in
      bindr (adbus_iter_beginstruct i) (\<lambda>i.
      bindr (adbus_iter_u8 i) (\<lambda>(p, i).
      bindr (adbus_iter_beginvariant mem i) (\<lambda>(i, v).
      bindr (adbus_iter_value mem i) (\<lambda>i.
      bindr (adbus_iter_endvariant i v) (\<lambda>(i, v).
      bindr (adbus_iter_endstruct i) (\<lambda>i.
      bindr (adbus_iter_align i 8) (\<lambda>i.
      bindr (rd8 mem p) (\<lambda>code.
        if code = HEADER_SENDER then
          let fieldsz = it_data i - fieldbegin in
          bindr (adbus_buf_remove b fieldbegin fieldsz) (\<lambda>b.
            Inr (b, a\<lparr>ia_size := ia_size a - fieldsz\<rparr>, i\<lparr>it_data := it_data i - fieldsz\<rparr>))
        else Inr (b, a, i))))))))))"

lemma iter_align_sizes: "adbus_iter_align i n = Inr j \<Longrightarrow> it_size j \<le> it_size i"
  by (auto simp: adbus_iter_align_def Let_def split: if_splits)

lemma fix_field_shrinks:
  assumes "fix_field b a i = Inr (b', a', j)" shows "it_size j < it_size i"
proof -
  from assms obtain i1 p i2 i3 v i4 i5 v5 i6 i7 where
    s: "adbus_iter_beginstruct i = Inr i1" "adbus_iter_u8 i1 = Inr (p, i2)"
       "adbus_iter_beginvariant (buf_b b) i2 = Inr (i3, v)" "adbus_iter_value (buf_b b) i3 = Inr i4"
       "adbus_iter_endvariant i4 v = Inr (i5, v5)" "adbus_iter_endstruct i5 = Inr i6"
       "adbus_iter_align i6 8 = Inr i7" "it_size j = it_size i7"
    by (auto simp: fix_field_def bindr_Inr_conv Let_def split: if_splits)
  from begin_sizes(1)[OF s(1)] basic_steps(2)[OF s(2)] beginvariant_sizes[OF s(3)]
    iter_value_step[OF s(4)] endvariant_sizes[OF s(5)] end_sizes(1)[OF s(6)] iter_align_sizes[OF s(7)] s(8)
  show ?thesis by (simp add: steps_over_def)
qed

function fix_fields ::
    "adbus_Buffer \<Rightarrow> adbus_IterArray \<Rightarrow> adbus_Iterator \<Rightarrow> adbus_Buffer res" where
  "fix_fields b a i =
     (let (more, i) = adbus_iter_inarray i a
      in if more then bindr (fix_field b a i) (\<lambda>(b, a, i). fix_fields b a i)
         else Inr b)"
  by pat_completeness auto

termination
  by (relation "measure (\<lambda>(b, a, i). it_size i)")
    (auto simp: adbus_iter_inarray_def split: if_splits dest!: fix_field_shrinks)

declare fix_fields.simps [simp del]

definition append_sender :: "string \<Rightarrow> adbus_Buffer \<Rightarrow> adbus_Buffer res" where
  "append_sender unique b =
     bindr (adbus_buf_setsig b ''(yv)'' 4) (\<lambda>b.
     bindr (adbus_buf_beginstruct b) (\<lambda>b.
     bindr (adbus_buf_u8 b HEADER_SENDER) (\<lambda>b.
     bindr (adbus_buf_beginvariant b ''s'' 1) (\<lambda>(b, v).
     bindr (adbus_buf_string b unique (int (length unique))) (\<lambda>b.
     adbus_buf_endstruct (adbus_buf_endvariant b v))))))"

text \<open>The part of \<^verbatim>\<open>FixHeaders\<close> behind the flip, when the header is in the byte order of the host.\<close>

definition fix_native :: "adbus_Remote \<Rightarrow> adbus_Buffer \<Rightarrow> (adbus_Remote \<times> adbus_Buffer) res" where
  "fix_native x b =
     bindr (rd32 (buf_b b) (unpack_off + 12)) (\<lambda>hfl.
     let i = \<lparr>it_data = unpack_off + sizeof_Header, it_size = 4 + align (unat hfl) 8, it_sig = Some ''a(yv)''\<rparr> in
     bindr (assertr (it_data i + it_size i = length (buf_b b))) (\<lambda>_.
     bindr (adbus_iter_beginarray (buf_b b) i) (\<lambda>(i, a).
     let arraybegin = it_data i in
     bindr (fix_fields b a i) (\<lambda>b.
     bindr (append_sender (rm_unique x) b) (\<lambda>b.
     let hfl = length (buf_b b) - arraybegin;
         b = b\<lparr>buf_b := overwrite (buf_b b) (unpack_off + 12) (le_bytes 4 hfl)\<rparr>;
         b = adbus_buf_align b 8
     in Inr (x\<lparr>rm_parsedMsgSize := rm_msgSize x - rm_headerSize x
                + align (unat (of_nat hfl :: 32 word)) 8 + sizeof_ExtendedHeader\<rparr>, b))))))"

definition FixHeaders :: "nat \<Rightarrow> adbus_Remote \<Rightarrow> adbus_Buffer \<Rightarrow> (adbus_Remote \<times> adbus_Buffer) run" where
  "FixHeaders n x b =
     (let (data, sz) = UnpackBuffer b in
      if sz < sizeof_ExtendedHeader then Some (Inl Fault)
      else
        let x = x\<lparr>rm_native := (data ! 0 = adbusI_nativeEndianness)\<rparr>;
            bs = (buf_b b)[unpack_off := adbusI_nativeEndianness]
        in bindo (if rm_native x then Some (Inr (True, bs))
                  else adbus_flip_data n bs \<lparr>it_data = unpack_off, it_size = sz, it_sig = Some ''yyyyuua(yv)''\<rparr>)
             (\<lambda>(ok, bs). if \<not> ok then Some (Inl Failed) else Some (fix_native x (b\<lparr>buf_b := bs\<rparr>))))"

section \<open>Messages from the bus itself\<close>

definition adbus_remote_dispatch ::
    "nat \<Rightarrow> (adbus_Server \<times> 'v) sender \<Rightarrow> nat \<Rightarrow> adbus_Message \<Rightarrow> adbus_Server \<times> 'v \<Rightarrow> (int \<times> adbus_Server \<times> 'v) run" where
  "adbus_remote_dispatch n send r m st =
     (let (s, v) = st in
      bindo (Some (get_remote s r)) (\<lambda>x.
      bindo (Some (assertr (rm_msgSize x = rm_parsedMsgSize x \<and> rm_msgSize x = rm_headerSize x \<and> rm_msgSize x = 0))) (\<lambda>_.
      if length (msg_data m) < msg_size m - msg_argsize m
         \<or> length (msg_data m) < msg_argdata m + msg_argsize m then Some (Inl Fault)
      else
        let b = adbus_buf_append (InitBuffer (rm_dispatch x)) (take (msg_size m - msg_argsize m) (msg_data m)) in
        case FixHeaders n x b of
          None \<Rightarrow> None
        | Some (Inl Failed) \<Rightarrow> Some (Inr (-1, s, v))
        | Some (Inl e) \<Rightarrow> Some (Inl e)
        | Some (Inr (x, b)) \<Rightarrow>
            let b = adbus_buf_append b (take (msg_argsize m) (drop (msg_argdata m) (msg_data m))) in
            bindo (Some (upd_remote s r (\<lambda>_. x\<lparr>rm_dispatch := b\<rparr>))) (\<lambda>s.
              DispatchMsg n send DispatchBuf r (s, v)))))"

section \<open>The stream\<close>

text \<open>Whether all that is needed was there, the buffer with it, and what is left of the data.\<close>

definition Move :: "adbus_Buffer \<Rightarrow> char list \<Rightarrow> nat \<Rightarrow> bool \<times> adbus_Buffer \<times> char list" where
  "Move dest data need =
     (if length data \<ge> need then (True, adbus_buf_append dest (take need data), drop need data)
      else (False, adbus_buf_append dest data, []))"

text \<open>A round of the loop ends waiting for data, with the remote kicked, or at the next message.\<close>

datatype verdict = Wait | Kick | Again

type_synonym 'v parse_res = "(verdict \<times> char list \<times> adbus_Server \<times> 'v) run"

definition put_remote :: "adbus_Server \<Rightarrow> nat \<Rightarrow> adbus_Remote \<Rightarrow> adbus_Server" where
  "put_remote s r x = s\<lparr>sv_heap := (sv_heap s)[r := x]\<rparr>"

definition parse_data ::
    "nat \<Rightarrow> (adbus_Server \<times> 'v) sender \<Rightarrow> nat \<Rightarrow> adbus_Server \<times> 'v \<Rightarrow> char list \<Rightarrow> 'v parse_res" where
  "parse_data n send r st data =
     (let (s, v) = st in
      bindo (Some (get_remote s r)) (\<lambda>x.
      let x = x\<lparr>rm_parseState := PDATA\<rparr>; msize = snd (UnpackBuffer (rm_msg x)) in
      bindo (Some (assertr (rm_parsedMsgSize x \<ge> msize))) (\<lambda>_.
      let need = rm_parsedMsgSize x - msize;
          (enough, b, data) = (if need > 0 then Move (rm_msg x) data need else (True, rm_msg x, data));
          s = put_remote s r (x\<lparr>rm_msg := b\<rparr>)
      in if \<not> enough then Some (Inr (Wait, data, s, v))
         else bindo (DispatchMsg n send MsgBuf r (s, v)) (\<lambda>(ret, s, v).
                Some (Inr (if ret \<noteq> 0 then Kick else Again, data, s, v))))))"

definition parse_hdr ::
    "nat \<Rightarrow> (adbus_Server \<times> 'v) sender \<Rightarrow> nat \<Rightarrow> adbus_Server \<times> 'v \<Rightarrow> char list \<Rightarrow> 'v parse_res" where
  "parse_hdr n send r st data =
     (let (s, v) = st in
      bindo (Some (get_remote s r)) (\<lambda>x.
      let x = x\<lparr>rm_parseState := PHEADER\<rparr>; msize = snd (UnpackBuffer (rm_msg x)) in
      bindo (Some (assertr (rm_headerSize x > msize))) (\<lambda>_.
      let need = rm_headerSize x - msize;
          (enough, b, data) = Move (rm_msg x) data need;
          x = x\<lparr>rm_msg := b\<rparr>
      in if \<not> enough then Some (Inr (Wait, data, put_remote s r x, v))
         else case FixHeaders n x b of
                None \<Rightarrow> None
              | Some (Inl Failed) \<Rightarrow> Some (Inr (Kick, data, put_remote s r x, v))
              | Some (Inl e) \<Rightarrow> Some (Inl e)
              | Some (Inr (x, b)) \<Rightarrow> parse_data n send r (put_remote s r (x\<lparr>rm_msg := b\<rparr>), v) data)))"

definition parse_begin ::
    "nat \<Rightarrow> (adbus_Server \<times> 'v) sender \<Rightarrow> nat \<Rightarrow> adbus_Server \<times> 'v \<Rightarrow> char list \<Rightarrow> 'v parse_res" where
  "parse_begin n send r st data =
     (let (s, v) = st in
      bindo (Some (get_remote s r)) (\<lambda>x.
      let x = x\<lparr>rm_parseState := PBEGIN\<rparr> in
      if length data < sizeof_ExtendedHeader then Some (Inr (Wait, data, put_remote s r x, v))
      else
        let e = data ! 0;
            hsize = sizeof_ExtendedHeader + unat (Get32 e (drop 12 data));
            headerSize = align hsize 8;
            x = x\<lparr>rm_headerSize := headerSize,
                  rm_msgSize := headerSize + unat (Get32 e (drop 4 data)), rm_msg := InitBuffer (rm_msg x)\<rparr>
        in parse_hdr n send r (put_remote s r x, v) data))"

lemma Move_length: "Move b data need = (e, b', rest) \<Longrightarrow> length rest \<le> length data
    \<and> (e \<longrightarrow> length rest + need = length data)"
  by (auto simp: Move_def split: if_splits)

lemma bindo_cong [fundef_cong]:
  "x = x' \<Longrightarrow> (\<And>y. x' = Some (Inr y) \<Longrightarrow> f y = g y) \<Longrightarrow> bindo x f = bindo x' g"
  by (cases x') (auto simp: bindo_def split: sum.splits)

lemma Move_zero [simp]: "Move b data 0 = (True, b, data)"
  by (simp add: Move_def adbus_buf_append_def)

lemma parse_data_eq:
  assumes "get_remote s r = Inr x" and "Move (rm_msg x) data (rm_parsedMsgSize x - snd (UnpackBuffer (rm_msg x))) = (enough, b, rest)"
  shows "parse_data n send r (s, v) data =
     (if rm_parsedMsgSize x < snd (UnpackBuffer (rm_msg x)) then Some (Inl Abort)
      else if \<not> enough then Some (Inr (Wait, rest, put_remote s r (x\<lparr>rm_parseState := PDATA, rm_msg := b\<rparr>), v))
      else bindo (DispatchMsg n send MsgBuf r (put_remote s r (x\<lparr>rm_parseState := PDATA, rm_msg := b\<rparr>), v)) (\<lambda>(ret, s, v).
             Some (Inr (if ret \<noteq> 0 then Kick else Again, rest, s, v))))"
proof (cases "rm_parsedMsgSize x \<le> snd (UnpackBuffer (rm_msg x))")
  case True
  with assms(2) have "(enough, b, rest) = (True, rm_msg x, data)" by simp
  with True assms(1) show ?thesis by (simp add: parse_data_def assertr_def)
next
  case False
  with assms show ?thesis by (simp add: parse_data_def assertr_def)
qed

lemma parse_data_shorter:
  assumes "parse_data n send r (s, v) data = Some (Inr (c, rest, st'))" shows "length rest \<le> length data"
proof -
  from assms obtain x where x: "get_remote s r = Inr x"
    by (auto simp: parse_data_def bindo_Inr)
  obtain e b d1 where m: "Move (rm_msg x) data (rm_parsedMsgSize x - snd (UnpackBuffer (rm_msg x))) = (e, b, d1)"
    by (metis prod_cases3)
  from assms Move_length[OF m] show ?thesis
    by (auto simp: parse_data_eq[OF x m] bindo_Inr split: if_splits)
qed

lemma parse_hdr_shorter:
  assumes "parse_hdr n send r st data = Some (Inr (Again, rest, st'))" shows "length rest < length data"
proof -
  obtain s v where st: "st = (s, v)" by (cases st)
  from assms obtain x where x: "get_remote s r = Inr x"
    and h: "rm_headerSize x > snd (UnpackBuffer (rm_msg x))"
    by (auto simp: parse_hdr_def st bindo_Inr Let_def)
  let ?need = "rm_headerSize x - snd (UnpackBuffer (rm_msg x))"
  obtain e b d1 where m: "Move (rm_msg x) data ?need = (e, b, d1)" by (metis prod_cases3)
  with assms x h obtain s1 where "parse_data n send r (s1, v) d1 = Some (Inr (Again, rest, st'))" and e
    by (auto simp: parse_hdr_def st Let_def split: if_splits option.splits sum.splits fail.splits)
  from parse_data_shorter[OF this(1)] Move_length[OF m] \<open>e\<close> h show ?thesis by auto
qed

lemma parse_begin_shorter:
  assumes "parse_begin n send r st data = Some (Inr (Again, rest, st'))" shows "length rest < length data"
proof -
  obtain s v where st: "st = (s, v)" by (cases st)
  from assms show ?thesis
    by (auto simp: parse_begin_def st bindo_Inr Let_def split: if_splits dest!: parse_hdr_shorter)
qed

function parse_loop ::
    "nat \<Rightarrow> (adbus_Server \<times> 'v) sender \<Rightarrow> nat \<Rightarrow> adbus_Server \<times> 'v \<Rightarrow> char list \<Rightarrow> (int \<times> char list \<times> adbus_Server \<times> 'v) run" where
  "parse_loop n send r st data =
     bindo (parse_begin n send r st data) (\<lambda>(c, rest, st).
       case c of
         Again \<Rightarrow> parse_loop n send r st rest
       | Wait \<Rightarrow> Some (Inr (0, rest, st))
       | Kick \<Rightarrow> Some (Inr (-1, rest, st)))"
  by pat_completeness auto

termination parse_loop
  by (relation "measure (\<lambda>(n, send, r, st, data). length data)")
    (auto dest!: parse_begin_shorter)

declare parse_loop.simps [simp del]

text \<open>
  \<^verbatim>\<open>adbus_remote_parse\<close> goes on where it stopped. The result has what is left in the buffer; when the
  remote is to be kicked, the buffer is left as it was.
\<close>

definition parse_from ::
    "ParseState \<Rightarrow> nat \<Rightarrow> (adbus_Server \<times> 'v) sender \<Rightarrow> nat \<Rightarrow> adbus_Server \<times> 'v \<Rightarrow> char list \<Rightarrow> 'v parse_res" where
  "parse_from p = (case p of PBEGIN \<Rightarrow> parse_begin | PHEADER \<Rightarrow> parse_hdr | PDATA \<Rightarrow> parse_data)"

definition adbus_remote_parse ::
    "nat \<Rightarrow> (adbus_Server \<times> 'v) sender \<Rightarrow> nat \<Rightarrow> adbus_Server \<times> 'v \<Rightarrow> char list \<Rightarrow> (int \<times> char list \<times> adbus_Server \<times> 'v) run" where
  "adbus_remote_parse n send r st data =
     bindo (Some (get_remote (fst st) r)) (\<lambda>x.
     bindo (parse_from (rm_parseState x) n send r st data) (\<lambda>(c, rest, st).
       case c of
         Again \<Rightarrow> bindo (parse_loop n send r st rest) (\<lambda>(ret, rest, st).
                    Some (Inr (ret, if ret \<noteq> 0 then data else rest, st)))
       | Wait \<Rightarrow> Some (Inr (0, rest, st))
       | Kick \<Rightarrow> Some (Inr (-1, data, st))))"

section \<open>Streams in pieces\<close>

lemma remove_length:
  "adbus_buf_remove b off num = Inr b' \<Longrightarrow> off \<le> length (buf_b b')"
  by (auto simp: adbus_buf_remove_def res_convs assertr_def split: if_splits)

lemma SIG_bytes: "SIG b c = Inr b' \<Longrightarrow> buf_b b' = buf_b b"
  by (auto simp: SIG_def res_convs split: if_splits)

lemma append_sender_grows:
  assumes "append_sender u b = Inr b'" shows "length (buf_b b) \<le> length (buf_b b')"
proof -
  have s: "adbus_buf_setsig b t z = Inr c \<Longrightarrow> buf_b c = buf_b b" for b t z c
    by (auto simp: adbus_buf_setsig_def copy_sig_def Let_def split: if_splits)
  have bs: "adbus_buf_beginstruct b = Inr c \<Longrightarrow> length (buf_b b) \<le> length (buf_b c)" for b c
    by (auto simp: adbus_buf_beginstruct_def res_convs Align_def dest: SIG_bytes)
  have u8: "adbus_buf_u8 b w = Inr c \<Longrightarrow> length (buf_b b) \<le> length (buf_b c)" for b w c
    by (auto simp: adbus_buf_u8_def res_convs Append8_def adbus_buf_append_def dest: SIG_bytes)
  have str: "adbus_buf_string b t z = Inr c \<Longrightarrow> length (buf_b b) \<le> length (buf_b c)" for b t z c
    by (auto simp: adbus_buf_string_def res_convs Append32_def Align_def append_str_def adbus_buf_append_def Let_def dest: SIG_bytes split: if_splits)
  have bv: "adbus_buf_beginvariant b t z = Inr (c, v) \<Longrightarrow> length (buf_b b) \<le> length (buf_b c)" for b t z c v
    by (auto simp: adbus_buf_beginvariant_def res_convs Append8_def append_str_def adbus_buf_append_def Let_def dest: SIG_bytes split: if_splits)
  have es: "adbus_buf_endstruct b = Inr c \<Longrightarrow> buf_b c = buf_b b" for b c
    by (auto simp: adbus_buf_endstruct_def dest: SIG_bytes)
  have ev: "buf_b (adbus_buf_endvariant b v) = buf_b b" for b v
    by (simp add: adbus_buf_endvariant_def)
  from assms show ?thesis unfolding append_sender_def
    by (auto simp: res_convs ev dest!: s bs u8 str bv es)
qed

lemma fix_field_room:
  assumes "fix_field b a i = Inr (b', a', j)" and "k \<le> it_data i" and "k \<le> length (buf_b b)"
  shows "k \<le> it_data j \<and> k \<le> length (buf_b b')"
proof -
  from assms(1) obtain i1 p i2 i3 v i4 i5 v5 i6 i7 where
    s: "adbus_iter_beginstruct i = Inr i1" "adbus_iter_u8 i1 = Inr (p, i2)"
       "adbus_iter_beginvariant (buf_b b) i2 = Inr (i3, v)" "adbus_iter_value (buf_b b) i3 = Inr i4"
       "adbus_iter_endvariant i4 v = Inr (i5, v5)" "adbus_iter_endstruct i5 = Inr i6"
       "adbus_iter_align i6 8 = Inr i7"
    and r: "b' = b \<and> j = i7 \<or> adbus_buf_remove b (it_data i) (it_data i7 - it_data i) = Inr b'
              \<and> it_data j = it_data i7 - (it_data i7 - it_data i)"
    by (auto simp: fix_field_def bindr_Inr_conv Let_def split: if_splits)
  from begin_sizes(1)[OF s(1)] basic_steps(2)[OF s(2)] beginvariant_sizes[OF s(3)]
    iter_value_step[OF s(4)] endvariant_sizes[OF s(5)] end_sizes(1)[OF s(6)] align_sizes[OF s(7)]
  have "it_data i \<le> it_data i7" by (simp add: steps_over_def)
  with r assms(2,3) remove_length show ?thesis by fastforce
qed

lemma fix_fields_room:
  assumes "fix_fields b a i = Inr b'" and "k \<le> it_data i" and "k \<le> length (buf_b b)"
  shows "k \<le> length (buf_b b')"
  using assms
proof (induction b a i rule: fix_fields.induct)
  case (1 b a i)
  obtain more i0 where m: "adbus_iter_inarray i a = (more, i0)" by (cases "adbus_iter_inarray i a")
  then have d: "it_data i0 = it_data i" by (auto simp: adbus_iter_inarray_def split: if_splits)
  show ?case
  proof (cases more)
    case True
    with "1.prems"(1) m obtain b1 a1 i1 where f: "fix_field b a i0 = Inr (b1, a1, i1)" "fix_fields b1 a1 i1 = Inr b'"
      by (auto simp: fix_fields.simps[of b a i] res_convs)
    from fix_field_room[OF f(1)] d "1.prems"(2,3) have r: "k \<le> it_data i1" "k \<le> length (buf_b b1)" by auto
    show ?thesis using "1.IH"[OF m[symmetric] refl True f(1)] f(2) r by simp
  next
    case False
    with "1.prems" m show ?thesis by (simp add: fix_fields.simps[of b a i])
  qed
qed

lemma fix_native_room:
  assumes "fix_native x b = Inr (x', b')"
  shows "unpack_off \<le> length (buf_b b')"
proof -
  from assms obtain hfl i a b1 b2 where
    f: "unpack_off + sizeof_Header + (4 + align (unat hfl) 8) = length (buf_b b)"
       "adbus_iter_beginarray (buf_b b) \<lparr>it_data = unpack_off + sizeof_Header, it_size = 4 + align (unat (hfl :: 32 word)) 8,
                          it_sig = Some ''a(yv)''\<rparr> = Inr (i, a)"
       "fix_fields b a i = Inr b1" "append_sender (rm_unique x) b1 = Inr b2"
       "b' = adbus_buf_align (b2\<lparr>buf_b := overwrite (buf_b b2) (unpack_off + 12) (le_bytes 4 (length (buf_b b2) - it_data i))\<rparr>) 8"
    by (auto simp: fix_native_def Let_def res_convs assertr_def split: if_splits)
  from f(2) have "unpack_off \<le> it_data i"
    by (fastforce simp: adbus_iter_beginarray_def res_convs Let_def split: option.splits
        dest: iter_sig_sizes get_sizes alignfield_sizes)
  with fix_fields_room[OF f(3)] f(1) have "unpack_off \<le> length (buf_b b1)" by simp
  with append_sender_grows[OF f(4)] have "unpack_off \<le> length (buf_b b2)" by simp
  then show ?thesis unfolding f(5) by (simp add: adbus_buf_align_def Align_def overwrite_def)
qed

lemma FixHeaders_native:
  assumes "FixHeaders n x b = Some (Inr (x', b'))"
  shows "\<exists>nat bs. fix_native (x\<lparr>rm_native := nat\<rparr>) (b\<lparr>buf_b := bs\<rparr>) = Inr (x', b')"
  using assms by (auto simp: FixHeaders_def Let_def bindo_Inr split: prod.splits if_splits)

lemma FixHeaders_room: "FixHeaders n x b = Some (Inr (x', b')) \<Longrightarrow> unpack_off \<le> length (buf_b b')"
  using FixHeaders_native fix_native_room by blast

lemma get_put: "get_remote s r = Inr y \<Longrightarrow> \<not> rm_freed x \<Longrightarrow> get_remote (put_remote s r x) r = Inr x"
  by (auto simp: get_remote_def live_def put_remote_def split: if_splits)

lemma put_put [simp]: "put_remote (put_remote s r x) r y = put_remote s r y"
  by (simp add: put_remote_def)

lemma get_live: "get_remote s r = Inr x \<Longrightarrow> \<not> rm_freed x"
  by (auto simp: get_remote_def live_def split: if_splits)

lemma Move_more: "Move b d1 need = (True, b', rest) \<Longrightarrow> Move b (d1 @ d2) need = (True, b', rest @ d2)"
  by (auto simp: Move_def split: if_splits)

lemma Move_wait:
  "Move b d1 need = (False, b', rest) \<Longrightarrow> rest = [] \<and> b' = adbus_buf_append b d1 \<and> length d1 < need
     \<and> Move b (d1 @ d2) need = Move b' d2 (need - length d1)"
  by (auto simp: Move_def adbus_buf_append_def split: if_splits)

definition room :: "adbus_Remote \<Rightarrow> bool" where
  "room x \<longleftrightarrow> unpack_off \<le> length (buf_b (rm_msg x))"

lemma unpack_append:
  "unpack_off \<le> length (buf_b b) \<Longrightarrow> snd (UnpackBuffer (adbus_buf_append b d)) = snd (UnpackBuffer b) + length d"
  by (simp add: UnpackBuffer_def adbus_buf_append_def)

lemma FixHeaders_freed: "FixHeaders n x b = Some (Inr (x', b')) \<Longrightarrow> rm_freed x' = rm_freed x"
  by (auto simp: fix_native_def Let_def res_convs dest!: FixHeaders_native)

lemma InitBuffer_room: "length (buf_b (InitBuffer b)) = unpack_off"
  by (simp add: InitBuffer_def adbus_buf_align_def Align_def adbus_buf_append_def adbus_buf_reset_def
      unpack_off_def sizeof_Message_def align_def)

lemma parse_data_more:
  assumes "parse_data n send r (s, v) d1 = Some (Inr (c, rest, st'))" and "c \<noteq> Wait"
  shows "parse_data n send r (s, v) (d1 @ d2) = Some (Inr (c, rest @ d2, st'))"
proof -
  from assms(1) obtain x where x: "get_remote s r = Inr x" by (auto simp: parse_data_def bindo_Inr)
  obtain e b r1 where m: "Move (rm_msg x) d1 (rm_parsedMsgSize x - snd (UnpackBuffer (rm_msg x))) = (e, b, r1)"
    by (metis prod_cases3)
  note p = assms(1)[unfolded parse_data_eq[OF x m]]
  from p assms(2) have e by (auto split: if_splits)
  with m have m: "Move (rm_msg x) d1 (rm_parsedMsgSize x - snd (UnpackBuffer (rm_msg x))) = (True, b, r1)" by simp
  show ?thesis using p \<open>e\<close> by (auto simp: parse_data_eq[OF x Move_more[OF m]] bindo_Inr split: if_splits)
qed

lemma parse_data_wait:
  assumes "parse_data n send r (s, v) d1 = Some (Inr (Wait, rest, st'))" and "get_remote s r = Inr x" and "room x"
  shows "rest = [] \<and> (\<exists>x'. get_remote (fst st') r = Inr x' \<and> room x' \<and> rm_parseState x' = PDATA
     \<and> parse_data n send r (s, v) (d1 @ d2) = parse_data n send r st' d2)"
proof -
  note x = assms(2)
  let ?z = "snd (UnpackBuffer (rm_msg x))"
  obtain e b r1 where m: "Move (rm_msg x) d1 (rm_parsedMsgSize x - ?z) = (e, b, r1)"
    by (metis prod_cases3)
  note p = assms(1)[unfolded parse_data_eq[OF x m]]
  from p have e: "\<not> e" and st': "st' = (put_remote s r (x\<lparr>rm_parseState := PDATA, rm_msg := b\<rparr>), v)" "rest = r1"
    and z: "\<not> rm_parsedMsgSize x < ?z" by (auto simp: bindo_Inr split: if_splits)
  from m e have m: "Move (rm_msg x) d1 (rm_parsedMsgSize x - ?z) = (False, b, r1)" by simp
  note w = Move_wait[OF m, of d2]
  have b: "snd (UnpackBuffer b) = ?z + length d1" using w unpack_append assms(3) by (auto simp: room_def)
  let ?x = "x\<lparr>rm_parseState := PDATA, rm_msg := b\<rparr>"
  have gx: "get_remote (put_remote s r ?x) r = Inr ?x" using get_put[OF x] get_live[OF x] by simp
  obtain e2 b2 r2 where m2: "Move b d2 (rm_parsedMsgSize x - ?z - length d1) = (e2, b2, r2)" by (metis prod_cases3)
  have m3: "Move (rm_msg x) (d1 @ d2) (rm_parsedMsgSize x - ?z) = (e2, b2, r2)" using w m2 by simp
  have m4: "Move (rm_msg ?x) d2 (rm_parsedMsgSize ?x - snd (UnpackBuffer (rm_msg ?x))) = (e2, b2, r2)"
    using m2 b by simp
  have lt: "\<not> rm_parsedMsgSize x < ?z + length d1" using w by auto
  have "parse_data n send r (s, v) (d1 @ d2) = parse_data n send r (put_remote s r ?x, v) d2"
    unfolding parse_data_eq[OF x m3] parse_data_eq[OF gx m4] using z lt b by simp
  moreover have "room ?x" using w assms(3) by (auto simp: room_def adbus_buf_append_def)
  ultimately show ?thesis using st' w gx by auto
qed

lemma parse_hdr_eq:
  assumes "get_remote s r = Inr x" and "Move (rm_msg x) data (rm_headerSize x - snd (UnpackBuffer (rm_msg x))) = (enough, b, rest)"
  shows "parse_hdr n send r (s, v) data =
     (if rm_headerSize x \<le> snd (UnpackBuffer (rm_msg x)) then Some (Inl Abort)
      else if \<not> enough then Some (Inr (Wait, rest, put_remote s r (x\<lparr>rm_parseState := PHEADER, rm_msg := b\<rparr>), v))
      else case FixHeaders n (x\<lparr>rm_parseState := PHEADER, rm_msg := b\<rparr>) b of
             None \<Rightarrow> None
           | Some (Inl Failed) \<Rightarrow> Some (Inr (Kick, rest, put_remote s r (x\<lparr>rm_parseState := PHEADER, rm_msg := b\<rparr>), v))
           | Some (Inl e) \<Rightarrow> Some (Inl e)
           | Some (Inr (x, b)) \<Rightarrow> parse_data n send r (put_remote s r (x\<lparr>rm_msg := b\<rparr>), v) rest)"
  using assms by (simp add: parse_hdr_def assertr_def Let_def)

lemma parse_hdr_more:
  assumes "parse_hdr n send r (s, v) d1 = Some (Inr (c, rest, st'))" and "c \<noteq> Wait"
  shows "parse_hdr n send r (s, v) (d1 @ d2) = Some (Inr (c, rest @ d2, st'))"
proof -
  from assms(1) obtain x where x: "get_remote s r = Inr x" by (auto simp: parse_hdr_def bindo_Inr)
  obtain e b r1 where m: "Move (rm_msg x) d1 (rm_headerSize x - snd (UnpackBuffer (rm_msg x))) = (e, b, r1)"
    by (metis prod_cases3)
  note p = assms(1)[unfolded parse_hdr_eq[OF x m]]
  from p assms(2) have e by (auto split: if_splits)
  with m have m: "Move (rm_msg x) d1 (rm_headerSize x - snd (UnpackBuffer (rm_msg x))) = (True, b, r1)" by simp
  show ?thesis using p \<open>e\<close> assms(2) unfolding parse_hdr_eq[OF x Move_more[OF m]]
    by (auto split: if_splits option.splits sum.splits fail.splits dest: parse_data_more)
qed

lemma parse_hdr_wait:
  assumes "parse_hdr n send r (s, v) d1 = Some (Inr (Wait, rest, st'))" and "get_remote s r = Inr x" and "room x"
  shows "rest = [] \<and> (\<exists>x'. get_remote (fst st') r = Inr x' \<and> room x' \<and> rm_parseState x' \<noteq> PBEGIN
     \<and> parse_hdr n send r (s, v) (d1 @ d2) = parse_from (rm_parseState x') n send r st' d2)"
proof -
  note x = assms(2)
  let ?z = "snd (UnpackBuffer (rm_msg x))"
  obtain e b r1 where m: "Move (rm_msg x) d1 (rm_headerSize x - ?z) = (e, b, r1)"
    by (metis prod_cases3)
  note p = assms(1)[unfolded parse_hdr_eq[OF x m]]
  show ?thesis
  proof (cases e)
    case False
    then have st': "st' = (put_remote s r (x\<lparr>rm_parseState := PHEADER, rm_msg := b\<rparr>), v)" "rest = r1"
      and z: "\<not> rm_headerSize x \<le> ?z" using p by (auto split: if_splits)
    from m False have m: "Move (rm_msg x) d1 (rm_headerSize x - ?z) = (False, b, r1)" by simp
    note w = Move_wait[OF m, of d2]
    have b: "snd (UnpackBuffer b) = ?z + length d1" using w unpack_append assms(3) by (auto simp: room_def)
    let ?x = "x\<lparr>rm_parseState := PHEADER, rm_msg := b\<rparr>"
    have gx: "get_remote (put_remote s r ?x) r = Inr ?x" using get_put[OF x] get_live[OF x] by simp
    obtain e2 b2 r2 where m2: "Move b d2 (rm_headerSize x - ?z - length d1) = (e2, b2, r2)" by (metis prod_cases3)
    have m3: "Move (rm_msg x) (d1 @ d2) (rm_headerSize x - ?z) = (e2, b2, r2)" using w m2 by simp
    have m4: "Move (rm_msg ?x) d2 (rm_headerSize ?x - snd (UnpackBuffer (rm_msg ?x))) = (e2, b2, r2)"
      using m2 b by simp
    have lt: "\<not> rm_headerSize x \<le> ?z + length d1" using w by auto
    have "parse_hdr n send r (s, v) (d1 @ d2) = parse_hdr n send r (put_remote s r ?x, v) d2"
      unfolding parse_hdr_eq[OF x m3] parse_hdr_eq[OF gx m4] put_put using z lt b
      by (simp split: option.split sum.split fail.split)
    moreover have "room ?x" using w assms(3) by (auto simp: room_def adbus_buf_append_def)
    ultimately show ?thesis using st' w gx by (auto simp: parse_from_def)
  next
    case True
    with m have m: "Move (rm_msg x) d1 (rm_headerSize x - ?z) = (True, b, r1)" by simp
    from p True obtain y b2 where f: "FixHeaders n (x\<lparr>rm_parseState := PHEADER, rm_msg := b\<rparr>) b = Some (Inr (y, b2))"
      "parse_data n send r (put_remote s r (y\<lparr>rm_msg := b2\<rparr>), v) r1 = Some (Inr (Wait, rest, st'))"
      and z: "\<not> rm_headerSize x \<le> ?z"
      by (auto split: if_splits option.splits sum.splits fail.splits)
    have "\<not> rm_freed (y\<lparr>rm_msg := b2\<rparr>)" using FixHeaders_freed[OF f(1)] get_live[OF x] by simp
    from get_put[OF x this] have g: "get_remote (put_remote s r (y\<lparr>rm_msg := b2\<rparr>)) r = Inr (y\<lparr>rm_msg := b2\<rparr>)" .
    have "room (y\<lparr>rm_msg := b2\<rparr>)" using FixHeaders_room[OF f(1)] by (simp add: room_def)
    from parse_data_wait[OF f(2) g this, of d2] obtain x' where
      x': "rest = []" "get_remote (fst st') r = Inr x'" "room x'" "rm_parseState x' = PDATA"
      "parse_data n send r (put_remote s r (y\<lparr>rm_msg := b2\<rparr>), v) (r1 @ d2) = parse_data n send r st' d2" by blast
    have "parse_hdr n send r (s, v) (d1 @ d2) = parse_data n send r st' d2"
      unfolding parse_hdr_eq[OF x Move_more[OF m]] using z f(1) x'(5) by simp
    with x' show ?thesis by (auto simp: parse_from_def)
  qed
qed

lemma Get32_append: "4 \<le> length xs \<Longrightarrow> Get32 e (xs @ ys) = Get32 e xs"
  by (cases xs) (auto simp: Get32_def nth_append)

lemma parse_begin_more:
  assumes "parse_begin n send r (s, v) d1 = Some (Inr (c, rest, st'))" and "c \<noteq> Wait"
  shows "parse_begin n send r (s, v) (d1 @ d2) = Some (Inr (c, rest @ d2, st'))"
proof -
  from assms have l: "\<not> length d1 < sizeof_ExtendedHeader" by (auto simp: parse_begin_def bindo_Inr Let_def split: if_splits)
  then have s: "(d1 @ d2) ! 0 = d1 ! 0" "drop 12 (d1 @ d2) = drop 12 d1 @ d2" "drop 4 (d1 @ d2) = drop 4 d1 @ d2"
    by (auto simp: sizeof_ExtendedHeader_def nth_append)
  show ?thesis using assms l unfolding parse_begin_def
    by (auto simp: s Get32_append sizeof_ExtendedHeader_def bindo_Inr Let_def dest: parse_hdr_more)
qed

lemma parse_begin_wait:
  assumes "parse_begin n send r (s, v) d1 = Some (Inr (Wait, rest, st'))"
  shows "\<exists>x'. get_remote (fst st') r = Inr x' \<and> (rm_parseState x' = PBEGIN \<or> room x')
     \<and> parse_begin n send r (s, v) (d1 @ d2) = parse_from (rm_parseState x') n send r st' (rest @ d2)"
proof -
  from assms obtain x where x: "get_remote s r = Inr x" by (auto simp: parse_begin_def bindo_Inr)
  show ?thesis
  proof (cases "length d1 < sizeof_ExtendedHeader")
    case True
    let ?x = "x\<lparr>rm_parseState := PBEGIN\<rparr>"
    have g: "get_remote (put_remote s r ?x) r = Inr ?x" using get_put[OF x] get_live[OF x] by simp
    from assms x True have "rest = d1" "st' = (put_remote s r ?x, v)" by (simp_all add: parse_begin_def)
    moreover have "parse_begin n send r (s, v) d = parse_begin n send r (put_remote s r ?x, v) d" for d
      using x g by (simp add: parse_begin_def Let_def)
    ultimately show ?thesis using g by (auto simp: parse_from_def)
  next
    case False
    then have s: "(d1 @ d2) ! 0 = d1 ! 0" "drop 12 (d1 @ d2) = drop 12 d1 @ d2" "drop 4 (d1 @ d2) = drop 4 d1 @ d2"
      by (auto simp: sizeof_ExtendedHeader_def nth_append)
    obtain y where y: "y = x\<lparr>rm_parseState := PBEGIN, rm_headerSize := align (sizeof_ExtendedHeader + unat (Get32 (d1 ! 0) (drop 12 d1))) 8,
         rm_msgSize := align (sizeof_ExtendedHeader + unat (Get32 (d1 ! 0) (drop 12 d1))) 8 + unat (Get32 (d1 ! 0) (drop 4 d1)),
         rm_msg := InitBuffer (rm_msg x)\<rparr>" by blast
    have e: "parse_begin n send r (s, v) d1 = parse_hdr n send r (put_remote s r y, v) d1"
      "parse_begin n send r (s, v) (d1 @ d2) = parse_hdr n send r (put_remote s r y, v) (d1 @ d2)"
      using x False s Get32_append by (simp_all add: parse_begin_def y Let_def sizeof_ExtendedHeader_def)
    have gy: "get_remote (put_remote s r y) r = Inr y" using get_put[OF x] get_live[OF x] by (simp add: y)
    have "room y" by (simp add: room_def y InitBuffer_room)
    from parse_hdr_wait[OF assms[unfolded e] gy this, of d2] e show ?thesis by auto
  qed
qed

lemma parse_from_more:
  "parse_from p n send r st d1 = Some (Inr (c, rest, st')) \<Longrightarrow> c \<noteq> Wait \<Longrightarrow>
   parse_from p n send r st (d1 @ d2) = Some (Inr (c, rest @ d2, st'))"
  by (cases st; cases p) (auto simp: parse_from_def dest: parse_begin_more parse_hdr_more parse_data_more)

lemma parse_from_wait:
  assumes "parse_from p n send r st d1 = Some (Inr (Wait, rest, st'))" and "get_remote (fst st) r = Inr x"
    and "p = PBEGIN \<or> room x"
  shows "\<exists>x'. get_remote (fst st') r = Inr x' \<and> (rm_parseState x' = PBEGIN \<or> room x')
     \<and> parse_from p n send r st (d1 @ d2) = parse_from (rm_parseState x') n send r st' (rest @ d2)"
proof (cases p)
  case PBEGIN
  then show ?thesis using assms(1) parse_begin_wait[of n send r "fst st" "snd st" d1 rest st' d2]
    by (simp add: parse_from_def)
next
  case PHEADER
  then show ?thesis using assms parse_hdr_wait[of n send r "fst st" "snd st" d1 rest st' x d2]
    by (auto simp: parse_from_def)
next
  case PDATA
  then show ?thesis using assms parse_data_wait[of n send r "fst st" "snd st" d1 rest st' x d2]
    by (auto simp: parse_from_def)
qed

text \<open>One round from a given point of the loop, and then the loop.\<close>

definition parse_go ::
    "ParseState \<Rightarrow> nat \<Rightarrow> (adbus_Server \<times> 'v) sender \<Rightarrow> nat \<Rightarrow> adbus_Server \<times> 'v \<Rightarrow> char list \<Rightarrow> (int \<times> char list \<times> adbus_Server \<times> 'v) run" where
  "parse_go p n send r st data =
     bindo (parse_from p n send r st data) (\<lambda>(c, rest, st).
       case c of
         Again \<Rightarrow> parse_loop n send r st rest
       | Wait \<Rightarrow> Some (Inr (0, rest, st))
       | Kick \<Rightarrow> Some (Inr (-1, rest, st)))"

lemma parse_loop_go: "parse_loop n send r st data = parse_go PBEGIN n send r st data"
  by (subst parse_loop.simps) (simp add: parse_go_def parse_from_def)

lemma parse_go_split:
  assumes "parse_go p n send r st d1 = Some (Inr (0, rest, st'))" and "get_remote (fst st) r = Inr x"
    and "p = PBEGIN \<or> room x"
    and "\<And>st1 r1. parse_from p n send r st d1 = Some (Inr (Again, r1, st1)) \<Longrightarrow>
           parse_loop n send r st1 r1 = Some (Inr (0, rest, st')) \<Longrightarrow>
           \<exists>x'. get_remote (fst st') r = Inr x' \<and> (rm_parseState x' = PBEGIN \<or> room x')
             \<and> parse_loop n send r st1 (r1 @ d2) = parse_go (rm_parseState x') n send r st' (rest @ d2)"
  shows "\<exists>x'. get_remote (fst st') r = Inr x' \<and> (rm_parseState x' = PBEGIN \<or> room x')
     \<and> parse_go p n send r st (d1 @ d2) = parse_go (rm_parseState x') n send r st' (rest @ d2)"
proof -
  from assms(1) obtain c r1 st1 where f: "parse_from p n send r st d1 = Some (Inr (c, r1, st1))"
    "(case c of Again \<Rightarrow> parse_loop n send r st1 r1 | Wait \<Rightarrow> Some (Inr (0, r1, st1))
       | Kick \<Rightarrow> Some (Inr (-1, r1, st1))) = Some (Inr (0, rest, st'))"
    by (auto simp: parse_go_def bindo_Inr)
  show ?thesis
  proof (cases c)
    case Wait
    with f parse_from_wait[of p n send r st d1 rest st' x d2] assms(2,3) show ?thesis
      by (auto simp: parse_go_def)
  next
    case Kick
    with f show ?thesis by simp
  next
    case Again
    with f have l: "parse_loop n send r st1 r1 = Some (Inr (0, rest, st'))" by simp
    from Again f(1) have m: "parse_from p n send r st (d1 @ d2) = Some (Inr (Again, r1 @ d2, st1))"
      using parse_from_more[of p n send r st d1 Again r1 st1 d2] by simp
    from assms(4)[OF f(1)[unfolded Again] l] show ?thesis by (auto simp: parse_go_def[of p] m)
  qed
qed

lemma parse_loop_pieces:
  assumes "parse_loop n send r st d1 = Some (Inr (0, rest, st'))"
  shows "\<exists>x'. get_remote (fst st') r = Inr x' \<and> (rm_parseState x' = PBEGIN \<or> room x')
     \<and> parse_loop n send r st (d1 @ d2) = parse_go (rm_parseState x') n send r st' (rest @ d2)"
  using assms
proof (induction "length d1" arbitrary: st d1 rule: less_induct)
  case less
  from less.prems obtain x where x: "get_remote (fst st) r = Inr x"
    by (cases st) (auto simp: parse_loop.simps parse_begin_def bindo_Inr)
  show ?case unfolding parse_loop_go
  proof (rule parse_go_split[OF less.prems[unfolded parse_loop_go] x])
    fix st1 r1
    assume a: "parse_from PBEGIN n send r st d1 = Some (Inr (Again, r1, st1))"
      "parse_loop n send r st1 r1 = Some (Inr (0, rest, st'))"
    then have "length r1 < length d1" using parse_begin_shorter[of n send r st d1] by (simp add: parse_from_def)
    from less.hyps[OF this a(2)] show "\<exists>x'. get_remote (fst st') r = Inr x' \<and> (rm_parseState x' = PBEGIN \<or> room x')
             \<and> parse_loop n send r st1 (r1 @ d2) = parse_go (rm_parseState x') n send r st' (rest @ d2)" .
  qed simp
qed

text \<open>The outcome without the contents of a buffer that is thrown away with the remote.\<close>

definition outcome :: "(int \<times> char list \<times> adbus_Server \<times> 'v) run \<Rightarrow> (int \<times> char list \<times> adbus_Server \<times> 'v) run" where
  "outcome o1 = bindo o1 (\<lambda>(ret, rest, st). Some (Inr (ret, if ret \<noteq> 0 then [] else rest, st)))"

lemma outcome_go:
  "get_remote (fst st) r = Inr x \<Longrightarrow>
   outcome (adbus_remote_parse n send r st data) = outcome (parse_go (rm_parseState x) n send r st data)"
  by (auto simp: adbus_remote_parse_def parse_go_def outcome_def bindo_def
      split: option.splits sum.splits verdict.splits)

lemma remote_parse_go:
  assumes "adbus_remote_parse n send r st data = Some (Inr (0, rest, st'))" and "get_remote (fst st) r = Inr x"
  shows "parse_go (rm_parseState x) n send r st data = Some (Inr (0, rest, st'))"
  using assms by (auto simp: adbus_remote_parse_def parse_go_def bindo_Inr split: verdict.splits if_splits)

text \<open>C9: How a stream is cut into pieces does not matter: when \<open>adbus_remote_parse\<close> has taken the first
  piece, going on with the rest of it and the second piece has the same effect (return value, messages
  sent, state of the server, data left) as parsing both pieces at once. The buffer of a remote in
  the middle of a message has the message structure in front.\<close>

theorem remote_parse_pieces:
  assumes "live s r" and "rm_parseState (sv_heap s ! r) = PBEGIN \<or> unpack_off \<le> length (buf_b (rm_msg (sv_heap s ! r)))"
    and "adbus_remote_parse n send r (s, v) d1 = Some (Inr (0, rest, s', v'))"
  shows "outcome (adbus_remote_parse n send r (s, v) (d1 @ d2)) = outcome (adbus_remote_parse n send r (s', v') (rest @ d2))"
proof -
  let ?x = "sv_heap s ! r"
  have x: "get_remote (fst (s, v)) r = Inr ?x" using assms(1) by (simp add: get_remote_def)
  have "\<exists>x'. get_remote (fst (s', v')) r = Inr x' \<and> (rm_parseState x' = PBEGIN \<or> room x')
      \<and> parse_go (rm_parseState ?x) n send r (s, v) (d1 @ d2) = parse_go (rm_parseState x') n send r (s', v') (rest @ d2)"
  proof (rule parse_go_split[OF remote_parse_go[OF assms(3) x] x])
    show "rm_parseState ?x = PBEGIN \<or> room ?x" using assms(2) by (simp add: room_def)
  qed (rule parse_loop_pieces)
  then obtain x' where x': "get_remote (fst (s', v')) r = Inr x'"
    "parse_go (rm_parseState ?x) n send r (s, v) (d1 @ d2) = parse_go (rm_parseState x') n send r (s', v') (rest @ d2)" by blast
  show ?thesis unfolding outcome_go[OF x] outcome_go[OF x'(1)] x'(2) ..
qed

definition sample_head :: "char list" where
  "sample_head = [CHR ''l'', CHR 0x01, CHR 0x00, CHR 0x01, CHR 0x00, CHR 0x00, CHR 0x00, CHR 0x00,
     CHR 0x05, CHR 0x00, CHR 0x00, CHR 0x00, CHR 0x08, CHR 0x00, CHR 0x00, CHR 0x00]"

theorem remote_parse_pieces_witness:
  "\<exists>s'. adbus_remote_parse 1 (\<lambda>_ m w. (int (msg_size m), w)) 1 (sample_bus, ()) sample_head = Some (Inr (0, [], s', ()))
     \<and> outcome (adbus_remote_parse 1 (\<lambda>_ m w. (int (msg_size m), w)) 1 (sample_bus, ()) (sample_head @ ''xyz''))
       = outcome (adbus_remote_parse 1 (\<lambda>_ m w. (int (msg_size m), w)) 1 (s', ()) ''xyz'')"
proof -
  have "case adbus_remote_parse 1 (\<lambda>_ m w. (int (msg_size m), w)) 1 (sample_bus, ()) sample_head of
      Some (Inr (c, [], _)) \<Rightarrow> c = 0 | _ \<Rightarrow> False" by code_simp
  then obtain s' where s': "adbus_remote_parse 1 (\<lambda>_ m w. (int (msg_size m), w)) 1 (sample_bus, ()) sample_head = Some (Inr (0, [], s', ()))"
    by (auto split: option.splits sum.splits list.splits prod.splits)
  have "rm_parseState (sv_heap sample_bus ! 1) = PBEGIN" by code_simp
  with remote_parse_pieces[OF sample_bus_facts(1) _ s', of "''xyz''"] s' show ?thesis by auto
qed

end
