(* ===== verification/Sender_Field.thy ===== *)
theory Sender_Field
  imports Server_Parse
begin

text \<open>
  What \<^verbatim>\<open>FixHeaders\<close> of \<^verbatim>\<open>adbus/server-parse.c\<close> does to a message whose header fields are
  well-formed: every sender field is removed, the remote's own is added, and the parser then finds
  it there.
\<close>

section \<open>Encodings at aligned offsets\<close>

lemma align_shift: "a dvd 8 \<Longrightarrow> align (off + 8 * k) a = align off a + 8 * k"
proof -
  assume "a dvd 8"
  then obtain d where d: "8 = a * d" by (auto simp: dvd_def)
  then have a: "0 < a" by (cases a) auto
  have "(off + 8 * k + (a - 1)) div a = ((off + (a - 1)) + (d * k) * a) div a" unfolding d by (simp add: mult_ac add_ac)
  also have "\<dots> = (off + (a - 1)) div a + d * k" using div_mult_self1[of a "off + (a - 1)" "d * k"] a by linarith
  finally have "(off + 8 * k + (a - 1)) div a = (off + (a - 1)) div a + d * k" .
  then show ?thesis unfolding align_def d by (simp add: algebra_simps)
qed

lemma sig_align_dvd: "adbus_nextarg s = Some r \<Longrightarrow> sig_align s dvd 8"
proof (cases s)
  case (Cons c t)
  assume "adbus_nextarg s = Some r"
  then show ?thesis using Cons by (auto simp: sig_align_def sRequiredAlignment_def basic_codes_def split: if_splits)
qed simp

lemma pad_shift: "a dvd 8 \<Longrightarrow> pad (off + 8 * k) a = pad off a"
  by (simp add: pad_def align_shift)

lemma enc_shift:
  "wf_dval v \<Longrightarrow> enc (off + 8 * k) v = enc off v"
  "list_all wf_dval vs \<Longrightarrow> encs (off + 8 * k) vs = encs off vs"
proof (induction off v and off vs rule: enc_encs.induct)
  case (8 off s vs)
  then have s: "sig_align s dvd 8" "list_all wf_dval vs" by (auto simp: list_all_iff dest: sig_align_dvd)
  have b: "array_body (off + 8 * k) s = array_body off s + 8 * k"
    using align_shift[OF s(1), of "align off 4 + 4" k] align_shift[of 4 off k]
    by (simp add: array_body_def add_ac)
  have p: "pad (align (off + 8 * k) 4 + 4) (sig_align s) = pad (align off 4 + 4) (sig_align s)"
    using pad_shift[OF s(1), of "align off 4 + 4" k] align_shift[of 4 off k] by (simp add: add_ac)
  show ?case using 8 s b p by (simp add: Let_def pad_shift)
next
  case (7 off v)
  then show ?case using 7(1) by (simp add: add_ac)
next
  case (10 off k' v)
  then show ?case
    by (simp add: Let_def pad_shift align_shift add_ac)
qed (auto simp: pad_shift align_shift Let_def add_ac)

lemma fits_shift:
  "wf_dval v \<Longrightarrow> fits (off + 8 * k) v = fits off v"
  "list_all wf_dval vs \<Longrightarrow> fitss (off + 8 * k) vs = fitss off vs"
proof (induction off v and off vs rule: enc_encs.induct)
  case (8 off s vs)
  then have s: "sig_align s dvd 8" "list_all wf_dval vs" by (auto simp: list_all_iff dest: sig_align_dvd)
  have b: "array_body (off + 8 * k) s = array_body off s + 8 * k"
    using align_shift[OF s(1), of "align off 4 + 4" k] align_shift[of 4 off k]
    by (simp add: array_body_def add_ac)
  show ?case using 8 s b by (simp add: enc_shift)
next
  case (7 off v)
  then show ?case using 7(1) by (simp add: add_ac)
next
  case (10 off k' v)
  then show ?case by (simp add: Let_def align_shift add_ac) (metis add.assoc add.commute align_shift dvd_refl enc_shift(1))
qed (auto simp: align_shift Let_def add_ac enc_shift)

section \<open>Header fields\<close>

text \<open>A header field as a value, and its bytes with the padding behind it.\<close>

type_synonym hfield = "8 word \<times> dval"

definition fval :: "hfield \<Rightarrow> dval" where
  "fval f = VStruct [VByte (fst f), VVariant (snd f)]"

definition wf_field :: "hfield \<Rightarrow> bool" where
  "wf_field f \<longleftrightarrow> wf_dval (snd f) \<and> length (vsig (snd f)) < 255 \<and> fits 0 (fval f)"

definition fbytes :: "hfield \<Rightarrow> char list" where
  "fbytes f = enc 0 (fval f) @ pad (length (enc 0 (fval f))) 8"

lemma wf_fval: "wf_field f \<Longrightarrow> wf_dval (fval f) \<and> vsig (fval f) = ''(yv)''"
  by (simp add: wf_field_def fval_def)

lemma fval_nonempty: "wf_field f \<Longrightarrow> 0 < length (enc off (fval f))"
  using enc_nonempty wf_fval by blast

lemma enc_fval: "wf_field f \<Longrightarrow> 8 dvd off \<Longrightarrow> enc off (fval f) = enc 0 (fval f)"
  using enc_shift(1)[of "fval f" 0] wf_fval by (auto simp: dvd_def)

lemma enc_fval_pad: "wf_field f \<Longrightarrow> enc off (fval f) = pad off 8 @ enc 0 (fval f)"
proof -
  assume f: "wf_field f"
  have e: "enc off (fval f) = pad off 8 @ enc (align off 8) (fval f)" by (simp add: fval_def)
  show ?thesis unfolding enc_fval[OF f dvd_align, of off, symmetric] by (rule e)
qed

lemma dvd_fbytes: "8 dvd length (fbytes f)"
  by (simp add: fbytes_def dvd_align)

lemma dvd_fields: "8 dvd length (concat (map fbytes fs))"
  by (induction fs) (simp_all add: dvd_fbytes)

lemma pad_dvd: "8 dvd off \<Longrightarrow> pad (off + n) 8 = pad n 8"
proof -
  assume "8 dvd off"
  then obtain k where "off = 8 * k" by (auto simp: dvd_def)
  then show ?thesis using pad_shift[of 8 n k] by (simp only: add.commute dvd_refl)
qed

lemma encs_Cons_fields:
  assumes "wf_field f" "list_all wf_field fs" "8 dvd off" "fs \<noteq> []"
  shows "encs off (map fval (f # fs)) = fbytes f @ encs (off + length (fbytes f)) (map fval fs)"
proof -
  let ?o = "off + length (fbytes f)"
  have d: "8 dvd ?o" using assms(3) dvd_fbytes by simp
  obtain g gs where g: "fs = g # gs" "wf_field g" using assms(2,4) by (cases fs) auto
  let ?e = "enc 0 (fval f)"
  let ?q = "off + length ?e"
  have e: "enc off (fval f) = ?e" using enc_fval assms by blast
  have al: "?q + length (pad ?q 8) = ?o" and fb: "?e @ pad ?q 8 = fbytes f"
    using pad_dvd[OF assms(3), of "length ?e"] by (simp_all add: fbytes_def)
  have "encs ?q (map fval fs) = pad ?q 8 @ enc ?o (fval g) @ encs (?q + length (pad ?q 8) + length (enc ?o (fval g))) (map fval gs)"
    using enc_fval_pad[OF g(2), of ?q] enc_fval[OF g(2) d]
    by (simp add: g(1) Let_def add.assoc del: length_pad length_pad_add)
  then have "encs ?q (map fval fs) = pad ?q 8 @ encs ?o (map fval fs)" unfolding al by (simp add: g(1) Let_def)
  then show ?thesis using fb by (simp add: Let_def e)
qed

text \<open>The array of header fields with the padding behind it is the padded fields in a row.\<close>

lemma encs_fields:
  assumes "list_all wf_field fs" and "8 dvd off"
  shows "encs off (map fval fs) @ pad (off + length (encs off (map fval fs))) 8 = concat (map fbytes fs)"
  using assms
proof (induction fs arbitrary: off)
  case Nil
  then show ?case using pad_dvd[of off 0] by (simp add: pad_def align_def)
next
  case (Cons f fs)
  have f: "wf_field f" "list_all wf_field fs" using Cons.prems by simp_all
  have d: "8 dvd off + length (fbytes f)" using Cons.prems(2) dvd_fbytes by simp
  show ?case
  proof (cases "fs = []")
    case True
    have "enc off (fval f) = enc 0 (fval f)" using enc_fval f(1) Cons.prems(2) by blast
    then show ?thesis using True pad_dvd[OF Cons.prems(2), of "length (enc 0 (fval f))"]
      by (simp add: Let_def fbytes_def)
  next
    case False
    show ?thesis unfolding encs_Cons_fields[OF f Cons.prems(2) False]
      using Cons.IH[OF f(2) d] by (simp add: add.assoc)
  qed
qed

section \<open>Removing the sender fields\<close>

text \<open>Skipping a field goes through the steps of \<open>fix_field\<close>.\<close>

lemma field_walk:
  assumes "wf_field f" and "at_value mem i (fval f) r"
  shows "\<exists>i1 p i2 i3 v i4 i5 v5 j. adbus_iter_beginstruct i = Inr i1 \<and> adbus_iter_u8 i1 = Inr (p, i2)
     \<and> adbus_iter_beginvariant mem i2 = Inr (i3, v) \<and> adbus_iter_value mem i3 = Inr i4
     \<and> adbus_iter_endvariant i4 v = Inr (i5, v5) \<and> adbus_iter_endstruct i5 = Inr j
     \<and> rd8 mem p = Inr (fst f) \<and> reads (fval f) i r j"
proof -
  obtain c x where f: "f = (c, x)" by (cases f)
  have w: "wf_dval x" "length (vsig x) < 255" using assms(1) by (simp_all add: f wf_field_def)
  have "at_value mem i (VStruct [VByte c, VVariant x]) r" using assms(2) by (simp add: f fval_def)
  from field_at[OF w this] obtain i1 p i2 k y where
    s: "adbus_iter_beginstruct i = Inr i1" "adbus_iter_u8 i1 = Inr (p, i2)" "rd8 mem p = Inr c"
    "adbus_iter_beginvariant mem i2 = Inr (k, y)" "at_value mem k x []"
    and e: "\<forall>j. reads x k [] j \<longrightarrow> (\<exists>w'. adbus_iter_endvariant j y = Inr (j\<lparr>it_sig := Some ('')'' @ r)\<rparr>, w'))
          \<and> adbus_iter_endstruct (j\<lparr>it_sig := Some ('')'' @ r)\<rparr>) = Inr (j\<lparr>it_sig := Some r\<rparr>)
          \<and> reads (VStruct [VByte c, VVariant x]) i r (j\<lparr>it_sig := Some r\<rparr>)" by blast
  from skip_okD[OF skip_ok_all[OF w(1)] s(5)] obtain j where j: "adbus_iter_value mem k = Inr j" "reads x k [] j" by blast
  with s e show ?thesis unfolding f fval_def fst_conv snd_conv by blast
qed

lemma fits_fval: "wf_field f \<Longrightarrow> 8 dvd off \<Longrightarrow> fits off (fval f)"
  using fits_shift(1)[of "fval f" 0] wf_fval by (auto simp: dvd_def wf_field_def)

lemma fix_field_at:
  assumes f: "wf_field f" and b: "buf_b b = A @ fbytes f @ C" and i: "it_data i = length A" "8 dvd length A"
    "length (fbytes f) \<le> it_size i" "it_sig i = Some (''(yv)'' @ r)"
  shows "\<exists>j. fix_field b a i = Inr (if fst f = HEADER_SENDER
        then (b\<lparr>buf_b := A @ C\<rparr>, a\<lparr>ia_size := ia_size a - length (fbytes f)\<rparr>, j\<lparr>it_data := length A\<rparr>) else (b, a, j))
     \<and> it_data j = length A + length (fbytes f) \<and> it_size i \<le> it_size j + length (fbytes f)"
proof -
  let ?e = "enc 0 (fval f)"
  have e: "enc (length A) (fval f) = ?e" using enc_fval[OF f] i(2) by blast
  have l: "length ?e \<le> length (fbytes f)" by (simp add: fbytes_def align_ge)
  have "at_value (buf_b b) i (fval f) r"
    using f i l by (simp add: at_value_def e b wf_fval fits_fval holds_def fbytes_def)
  from field_walk[OF f this] obtain i1 p i2 i3 v i4 i5 v5 j where
    s: "adbus_iter_beginstruct i = Inr i1" "adbus_iter_u8 i1 = Inr (p, i2)"
     "adbus_iter_beginvariant (buf_b b) i2 = Inr (i3, v)" "adbus_iter_value (buf_b b) i3 = Inr i4"
     "adbus_iter_endvariant i4 v = Inr (i5, v5)" "adbus_iter_endstruct i5 = Inr j"
     "rd8 (buf_b b) p = Inr (fst f)" "reads (fval f) i r j" by blast
  have j: "it_data j = length A + length ?e" "it_size i \<le> it_size j + length ?e"
    using s(8) e i(1) by (simp_all add: reads_def)
  have p: "pad (it_data j) 8 = pad (length ?e) 8" using pad_dvd[OF i(2)] j(1) by simp
  have fl: "length (fbytes f) = length ?e + length (pad (length ?e) 8)" by (simp add: fbytes_def)
  let ?k = "adv j (length (pad (length ?e) 8))"
  have "adbus_iter_align j 8 = Inr ?k" using align_adv[of 8 j] p j(2) i(3) fl by simp
  moreover have k: "it_data ?k = length A + length (fbytes f)" "it_size i \<le> it_size ?k + length (fbytes f)"
    using j fl i(3) unfolding adv_simps by linarith+
  moreover have "adbus_buf_remove b (length A) (length (fbytes f)) = Inr (b\<lparr>buf_b := A @ C\<rparr>)"
    by (simp add: adbus_buf_remove_def b assertr_def)
  ultimately show ?thesis using s(1-7) i(1)
    by (intro exI[of _ ?k]) (simp add: fix_field_def Let_def)
qed

text \<open>Where the array ends, before the fields that are left.\<close>

definition array_at :: "adbus_IterArray \<Rightarrow> nat \<Rightarrow> hfield list \<Rightarrow> bool" where
  "array_at a off fs \<longleftrightarrow> ia_sig a = ''(yv)'' \<and> ia_data a \<le> off
     \<and> (if fs = [] then ia_data a + ia_size a \<le> off
        else ia_data a + ia_size a = off + length (encs off (map fval fs)))"

lemma encs_fields_shift: "list_all wf_field fs \<Longrightarrow> 8 dvd k \<Longrightarrow> encs (off + k) (map fval fs) = encs off (map fval fs)"
  using enc_shift(2)[of "map fval fs"] wf_fval by (fastforce simp: dvd_def list_all_iff)

lemma array_at_step:
  assumes "array_at a off (f # fs)" and "wf_field f" "list_all wf_field fs" "8 dvd off"
  shows "array_at a (off + length (fbytes f)) fs"
    and "array_at (a\<lparr>ia_size := ia_size a - length (fbytes f)\<rparr>) off fs"
proof -
  let ?L = "length (fbytes f)"
  have l: "length (enc 0 (fval f)) \<le> ?L" by (simp add: fbytes_def align_ge)
  have a: "ia_sig a = ''(yv)''" "ia_data a \<le> off" "ia_data a + ia_size a = off + length (encs off (map fval (f # fs)))"
    using assms(1) by (simp_all add: array_at_def)
  have e: "length (encs off (map fval (f # fs))) = (if fs = [] then length (enc 0 (fval f))
      else ?L + length (encs off (map fval fs)))"
  proof (cases "fs = []")
    case True
    then show ?thesis using enc_fval[OF assms(2,4)] by (simp add: Let_def)
  next
    case False
    then show ?thesis using encs_Cons_fields[OF assms(2-4)] encs_fields_shift[OF assms(3) dvd_fbytes, of off f] by simp
  qed
  show "array_at a (off + ?L) fs" "array_at (a\<lparr>ia_size := ia_size a - ?L\<rparr>) off fs"
    using a e l encs_fields_shift[OF assms(3) dvd_fbytes, of off f] by (auto simp: array_at_def)
qed

lemma fix_fields_at:
  assumes "list_all wf_field fs" and "buf_b b = A @ concat (map fbytes fs)" and "it_data i = length A" "8 dvd length A"
    and "length (concat (map fbytes fs)) \<le> it_size i" and "array_at a (length A) fs"
  shows "fix_fields b a i = Inr (b\<lparr>buf_b := A @ concat (map fbytes (filter (\<lambda>f. fst f \<noteq> HEADER_SENDER) fs))\<rparr>)"
  using assms
proof (induction fs arbitrary: A b a i)
  case Nil
  then show ?case by (simp add: fix_fields.simps[of b a i] adbus_iter_inarray_def array_at_def)
next
  case (Cons f fs)
  have f: "wf_field f" "list_all wf_field fs" using Cons.prems(1) by simp_all
  let ?i = "i\<lparr>it_sig := Some (''(yv)'' @ [])\<rparr>" and ?C = "concat (map fbytes fs)"
  have "0 < length (enc (length A) (fval f))" using fval_nonempty[OF f(1)] .
  then have inarr: "adbus_iter_inarray i a = (True, ?i)"
    using Cons.prems(3,6) by (simp add: adbus_iter_inarray_def array_at_def Let_def)
  obtain j where j: "fix_field b a ?i = Inr (if fst f = HEADER_SENDER
        then (b\<lparr>buf_b := A @ ?C\<rparr>, a\<lparr>ia_size := ia_size a - length (fbytes f)\<rparr>, j\<lparr>it_data := length A\<rparr>) else (b, a, j))"
      "it_data j = length A + length (fbytes f)" "it_size i \<le> it_size j + length (fbytes f)"
    using fix_field_at[OF f(1), of b A ?C ?i "[]" a] Cons.prems by auto
  note st = array_at_step[OF Cons.prems(6) f Cons.prems(4)]
  show ?case
  proof (cases "fst f = HEADER_SENDER")
    case True
    have "fix_fields (b\<lparr>buf_b := A @ ?C\<rparr>) (a\<lparr>ia_size := ia_size a - length (fbytes f)\<rparr>) (j\<lparr>it_data := length A\<rparr>)
        = Inr ((b\<lparr>buf_b := A @ ?C\<rparr>)\<lparr>buf_b := A @ concat (map fbytes (filter (\<lambda>f. fst f \<noteq> HEADER_SENDER) fs))\<rparr>)"
      by (rule Cons.IH[OF f(2)]) (use Cons.prems j(3) st(2) in auto)
    with True inarr j(1) show ?thesis by (simp add: fix_fields.simps[of b a i])
  next
    case False
    have "fix_fields b a j = Inr (b\<lparr>buf_b := (A @ fbytes f) @ concat (map fbytes (filter (\<lambda>f. fst f \<noteq> HEADER_SENDER) fs))\<rparr>)"
      by (rule Cons.IH[OF f(2)]) (use Cons.prems j(2,3) st(1) dvd_fbytes in auto)
    with False inarr j(1) show ?thesis by (simp add: fix_fields.simps[of b a i])
  qed
qed

section \<open>Adding the sender\<close>

abbreviation sender_field :: "string \<Rightarrow> hfield" where
  "sender_field u \<equiv> (HEADER_SENDER, VStr CHR ''s'' u)"

lemma wf_sender: "NUL \<notin> set u \<Longrightarrow> length u < 2 ^ 32 \<Longrightarrow> wf_field (sender_field u)"
  by (simp add: wf_field_def fval_def)

lemma append_sender_put:
  assumes "NUL \<notin> set u"
  shows "append_sender u b = bindr (adbus_buf_setsig b ''(yv)'' 4) (\<lambda>b. put b (fval (sender_field u)))"
proof -
  have "adbus_buf_beginvariant b ''s'' 1 = adbus_buf_beginvariant b ''s'' (-1)" for b
    by (simp add: adbus_buf_beginvariant_def arg_size_def c_strlen_def)
  moreover have "arg_size u (int (length u)) = arg_size u (-1)" using assms by (simp add: arg_size_def c_strlen_no_nul)
  then have "adbus_buf_string b u (int (length u)) = adbus_buf_string b u (-1)" for b by (simp add: adbus_buf_string_def)
  ultimately show ?thesis by (simp add: append_sender_def fval_def bindr_assoc split_def)
qed

lemma append_sender_at:
  assumes "NUL \<notin> set u" "length u < 2 ^ 32" and "buf_sigp b = InSig 0" "length (buf_sig b) = 256"
  shows "\<exists>b'. append_sender u b = Inr b' \<and> buf_b b' = buf_b b @ enc (length (buf_b b)) (fval (sender_field u))"
proof -
  let ?v = "fval (sender_field u)"
  let ?b = "b\<lparr>buf_b := []\<rparr>"
  have "fresh_buf ?b" using assms by (simp add: fresh_buf_def)
  from setsig_fresh[OF this, of "''(yv)''" 4] obtain c where
    c: "adbus_buf_setsig ?b ''(yv)'' 4 = Inr c" "sigp_str c (buf_sigp c) = Some ''(yv)''" by auto
  let ?c = "c\<lparr>buf_b := buf_b b\<rparr>"
  have s: "adbus_buf_setsig b ''(yv)'' 4 = Inr ?c"
    using c(1) by (auto simp: adbus_buf_setsig_def copy_sig_def Let_def split: if_splits)
  have p: "sigp_str ?c (buf_sigp ?c) = Some ''(yv)''" using c(2) by (simp add: sigp_str_def split: sigptr.splits)
  have w: "wf_dval ?v" "dict_free ?v" "vsig ?v = ''(yv)''" using assms(1,2) by (simp_all add: fval_def)
  have "fits (length (buf_b ?c)) ?v" by (simp add: fval_def)
  then have "put ?c ?v = Inr (emit ?c (enc (length (buf_b ?c)) ?v) (length (vsig ?v)))"
    using put_okD[OF put_ok_all[OF w(1,2)], of ?c "[]"] p w(3) by simp
  then show ?thesis using s by (simp add: append_sender_put[OF assms(1)] emit_def)
qed

lemma encs_snoc_fields:
  assumes "list_all wf_field fs" "wf_field g" "8 dvd off"
  shows "encs off (map fval (fs @ [g])) = concat (map fbytes fs) @ enc 0 (fval g)"
  using assms
proof (induction fs arbitrary: off)
  case Nil
  then show ?case using enc_fval[of g off] by (simp add: Let_def)
next
  case (Cons f fs)
  have f: "wf_field f" "list_all wf_field (fs @ [g])" using Cons.prems by simp_all
  have d: "8 dvd off + length (fbytes f)" using Cons.prems(3) dvd_fbytes by simp
  show ?case
    using encs_Cons_fields[OF f Cons.prems(3)] Cons.IH[OF _ Cons.prems(2) d] Cons.prems(1) by simp
qed

text \<open>A message header with these fields, up to the padding behind them.\<close>

definition header_of :: "char list \<Rightarrow> hfield list \<Rightarrow> char list" where
  "header_of h fs = h @ le_bytes 4 (length (encs 16 (map fval fs))) @ concat (map fbytes fs)"

definition fields_fit :: "hfield list \<Rightarrow> bool" where
  "fields_fit fs \<longleftrightarrow> list_all wf_field fs \<and> length (encs 16 (map fval fs)) \<le> ADBUS_MAXIMUM_ARRAY_LENGTH"

lemma encs_at: "list_all wf_field fs \<Longrightarrow> 8 dvd k \<Longrightarrow> encs (16 + k) (map fval fs) = encs 16 (map fval fs)"
  using encs_fields_shift by blast

lemma length_header: "list_all wf_field fs \<Longrightarrow> length (concat (map fbytes fs)) = align (length (encs 16 (map fval fs))) 8"
proof -
  assume w: "list_all wf_field fs"
  let ?n = "length (encs 16 (map fval fs))"
  have "pad (16 + ?n) 8 = pad ?n 8" by (rule pad_dvd) simp
  with encs_fields[OF w, of 16] have "concat (map fbytes fs) = encs 16 (map fval fs) @ pad ?n 8" by simp
  then show ?thesis by simp
qed

lemma fitss_fields: "list_all wf_field fs \<Longrightarrow> 8 dvd off \<Longrightarrow> fitss off (map fval fs)"
proof (induction fs arbitrary: off)
  case (Cons f fs)
  let ?e = "enc off (fval f)"
  have "fitss (off + length ?e) (map fval fs)"
  proof (cases fs)
    case (Cons g gs)
    let ?o = "off + length ?e"
    have g: "wf_field g" using Cons.prems(1) Cons by simp
    have x: "fits ?o (fval g) = fits (align ?o 8) (fval g)" by (simp add: fval_def)
    have y: "?o + length (enc ?o (fval g)) = align ?o 8 + length (enc (align ?o 8) (fval g))"
      unfolding enc_fval_pad[OF g, of ?o] enc_fval[OF g dvd_align, of ?o] length_append by simp
    have "fitss (align ?o 8) (map fval fs)" using Cons.IH dvd_align Cons.prems by simp
    then show ?thesis unfolding Cons list.map fitss.simps x y .
  qed simp
  then show ?case using fits_fval[of f off] Cons.prems by simp
qed simp

lemma fields_array_at:
  assumes "fields_fit fs" and "mem = P @ header_of h fs @ rest" and "length h = 12" "8 dvd length P"
    and "4 + length (encs 16 (map fval fs)) \<le> n"
  shows "\<exists>k a. adbus_iter_beginarray mem \<lparr>it_data = length P + 12, it_size = n, it_sig = Some ''a(yv)''\<rparr> = Inr (k, a)
     \<and> ia_sig a = ''(yv)'' \<and> ia_data a = it_data k \<and> it_data k = length P + 16
     \<and> ia_size a = length (encs (it_data k) (map fval fs)) \<and> it_data k + it_size k = length P + 12 + n
     \<and> holds mem (it_data k) (encs (it_data k) (map fval fs))
     \<and> length (encs (it_data k) (map fval fs)) \<le> it_size k \<and> fitss (it_data k) (map fval fs)"
proof -
  have w: "list_all wf_field fs" using assms(1) by (simp add: fields_fit_def)
  let ?p = "length P" and ?vs = "map fval fs"
  let ?v = "VArr ''(yv)'' ?vs" and ?i = "\<lparr>it_data = ?p + 12, it_size = n, it_sig = Some ''a(yv)''\<rparr>"
  have sa: "sig_align ''(yv)'' = 8" by (simp add: sig_align_def sRequiredAlignment_def)
  have al: "align (?p + 12) 4 = ?p + 12" by (rule align_id) (use assms(4) in \<open>auto intro: dvd_trans[of 4 8]\<close>)
  have al8: "align (?p + 16) 8 = ?p + 16" by (rule align_id) (use assms(4) in auto)
  have e: "encs (?p + 16) ?vs = encs 16 ?vs" using encs_at[OF w assms(4)] by (simp add: add.commute)
  have ab: "array_body (?p + 12) ''(yv)'' = ?p + 16" unfolding array_body_def al sa using al8 by (simp add: add.commute)
  have en: "enc (?p + 12) ?v = le_bytes 4 (length (encs 16 ?vs)) @ encs 16 ?vs"
  proof -
    have "pad (align (?p + 12) 4 + 4) (sig_align ''(yv)'') = []" "pad (?p + 12) 4 = []"
      using al al8 sa by (simp_all add: pad_def add.commute)
    then show ?thesis by (simp only: enc.simps Let_def ab e append_Nil)
  qed
  have nx: "adbus_nextarg ''(yv)'' = Some []" by code_simp
  have wf: "wf_dval ?v" using w wf_fval nx by (auto simp: list_all_iff simp del: adbus_nextarg.simps)
  have q: "concat (map fbytes fs) = encs 16 ?vs @ pad (16 + length (encs 16 ?vs)) 8" using encs_fields[OF w, of 16] by simp
  have "fitss (?p + 16) ?vs" using fitss_fields[OF w] assms(4) by simp
  then have ft: "fits (?p + 12) ?v" using assms(1) by (simp add: ab e fields_fit_def)
  have "at_value mem ?i ?v []"
    unfolding at_value_def using ft assms(3,5)
    by (simp add: en assms(2) header_of_def q holds_def del: le_bytes.simps enc.simps fits.simps)
  from beginarray_at[OF wf this] show ?thesis unfolding adbus_Iterator.simps ab by auto
qed

definition kept :: "hfield list \<Rightarrow> hfield list" where
  "kept fs = filter (\<lambda>f. fst f \<noteq> HEADER_SENDER) fs"

lemma kept_wf: "list_all wf_field fs \<Longrightarrow> list_all wf_field (kept fs)"
  by (auto simp: kept_def list_all_iff)

lemma unat_small: "n \<le> ADBUS_MAXIMUM_ARRAY_LENGTH \<Longrightarrow> unat (of_nat n :: 32 word) = n \<and> n < 2 ^ 32"
  by (simp add: unat_of_nat take_bit_nat_eq_self ADBUS_MAXIMUM_ARRAY_LENGTH_def)

lemma rd_length:
  assumes "mem = P @ header_of h fs @ rest" and "length h = 12" and "fields_fit fs"
  shows "rd32 mem (length P + 12) = Inr (of_nat (length (encs 16 (map fval fs))))"
proof (rule rd_lens(2))
  show "holds mem (length P + 12) (le_bytes 4 (length (encs 16 (map fval fs))))"
    using assms(2) by (simp add: assms(1) holds_def header_of_def del: le_bytes.simps)
  show "length (encs 16 (map fval fs)) < 2 ^ 32" using unat_small assms(3) by (simp add: fields_fit_def)
qed

lemma length_le4: "length (le_bytes 4 n) = 4"
  by simp

lemma unpack_off_val: "unpack_off = 184"
  by (simp add: unpack_off_def sizeof_Message_def align_def)

lemma fix_native_at:
  assumes fs: "fields_fit fs" and new: "fields_fit (kept fs @ [sender_field (rm_unique x)])" and h: "length h = 12"
    and P: "length P = unpack_off" and b: "buf_b b = P @ header_of h fs" "buf_sigp b = InSig 0" "length (buf_sig b) = 256"
  shows "\<exists>b'. fix_native x b = Inr (x\<lparr>rm_parsedMsgSize := rm_msgSize x - rm_headerSize x
       + length (concat (map fbytes (kept fs @ [sender_field (rm_unique x)]))) + 16\<rparr>, b')
     \<and> buf_b b' = P @ header_of h (kept fs @ [sender_field (rm_unique x)])"
proof -
  let ?n = "length (encs 16 (map fval fs))" and ?u = "rm_unique x"
  let ?K = "concat (map fbytes (kept fs))" and ?s = "sender_field ?u"
  let ?A = "P @ h @ le_bytes 4 ?n" and ?n' = "length (encs 16 (map fval (kept fs @ [?s])))"
  have w: "list_all wf_field fs" "list_all wf_field (kept fs @ [?s])" "wf_field ?s"
    using fs new by (simp_all add: fields_fit_def)
  have u: "NUL \<notin> set ?u" "length ?u < 2 ^ 32" using w(3) by (simp_all add: wf_field_def)
  have p8: "8 dvd length P" by (simp add: P unpack_off_val)
  have rd: "rd32 (buf_b b) (unpack_off + 12) = Inr (of_nat ?n)"
    using rd_length[of "buf_b b" P h fs "[]"] b(1) h fs P by simp
  have n: "unat (of_nat ?n :: 32 word) = ?n" "unat (of_nat ?n' :: 32 word) = ?n'"
    using unat_small fs new by (simp_all add: fields_fit_def)
  have len: "unpack_off + 12 + (4 + align ?n 8) = length (buf_b b)"
    using h P length_header[OF w(1)] by (simp add: b(1) header_of_def)
  have "4 + ?n \<le> 4 + align ?n 8" by (simp add: align_ge)
  from fields_array_at[OF fs, of "buf_b b" P h "[]", OF _ h p8 this] b(1) P obtain k a where
    k: "adbus_iter_beginarray (buf_b b) \<lparr>it_data = unpack_off + 12, it_size = 4 + align ?n 8, it_sig = Some ''a(yv)''\<rparr> = Inr (k, a)"
    "ia_sig a = ''(yv)''" "ia_data a = it_data k" "it_data k = unpack_off + 16"
    "ia_size a = length (encs (it_data k) (map fval fs))" "it_data k + it_size k = unpack_off + 12 + (4 + align ?n 8)"
    by auto
  have A: "length ?A = unpack_off + 16" "8 dvd length ?A" by (simp_all add: h P unpack_off_val)
  have "fix_fields b a k = Inr (b\<lparr>buf_b := ?A @ ?K\<rparr>)" unfolding kept_def
  proof (rule fix_fields_at[OF w(1)])
    show "array_at a (length ?A) fs" unfolding A(1) using k(2-5) by (simp add: array_at_def)
  qed (use b(1) k A length_header[OF w(1)] in \<open>simp_all add: header_of_def\<close>)
  moreover
  have d: "8 dvd length (?A @ ?K)" using A(2) dvd_fields by (simp only: length_append dvd_add)
  from append_sender_at[OF u, of "b\<lparr>buf_b := ?A @ ?K\<rparr>"] b(2,3) obtain b2 where
    b2: "append_sender ?u (b\<lparr>buf_b := ?A @ ?K\<rparr>) = Inr b2" "buf_b b2 = (?A @ ?K) @ enc 0 (fval ?s)"
    unfolding enc_fval[OF w(3) d, symmetric] by auto
  have e: "encs 16 (map fval (kept fs @ [?s])) = ?K @ enc 0 (fval ?s)"
    by (rule encs_snoc_fields) (use w kept_wf in simp_all)
  have "length (buf_b b2) - (unpack_off + 16) = ?n'" unfolding e b2(2) using h P by simp
  moreover have "overwrite (buf_b b2) (unpack_off + 12) (le_bytes 4 ?n') = P @ h @ le_bytes 4 ?n' @ encs 16 (map fval (kept fs @ [?s]))"
    unfolding e b2(2) using h P by (simp add: overwrite_def del: le_bytes.simps)
  moreover have "pad (unpack_off + 16 + ?n') 8 = pad (16 + ?n') 8"
    using pad_dvd[of unpack_off "16 + ?n'"] by (simp add: add.assoc unpack_off_val)
  then have "buf_b (adbus_buf_align (b2\<lparr>buf_b := P @ h @ le_bytes 4 ?n' @ encs 16 (map fval (kept fs @ [?s]))\<rparr>) 8)
      = P @ header_of h (kept fs @ [?s])"
    using encs_fields[OF w(2), of 16] h P
    by (simp add: adbus_buf_align_def Align_def header_of_def pad_def add.assoc del: le_bytes.simps)
  ultimately show ?thesis using rd n len k(1,4) b2(1) length_header[OF w(2)]
    by (simp add: fix_native_def sizeof_Header_def sizeof_ExtendedHeader_def assertr_def Let_def
        del: le_bytes.simps map_append concat_append)
qed

section \<open>The parser finds the sender\<close>

text \<open>What a header field says of the message, if it has the type its code asks for.\<close>

definition str_of :: "char \<Rightarrow> dval \<Rightarrow> string option" where
  "str_of c x = (case x of VStr t s \<Rightarrow> if t = c then Some s else None | _ \<Rightarrow> None)"

definition field_eff :: "hfield \<Rightarrow> (adbus_Message \<Rightarrow> adbus_Message) option" where
  "field_eff f =
     (let (c, x) = f
      in if c = HEADER_INVALID then None
         else if c = HEADER_INTERFACE then map_option (\<lambda>s m. m\<lparr>msg_interface := Some s\<rparr>) (str_of CHR ''s'' x)
         else if c = HEADER_MEMBER then map_option (\<lambda>s m. m\<lparr>msg_member := Some s\<rparr>) (str_of CHR ''s'' x)
         else if c = HEADER_ERROR_NAME then map_option (\<lambda>s m. m\<lparr>msg_error := Some s\<rparr>) (str_of CHR ''s'' x)
         else if c = HEADER_DESTINATION then map_option (\<lambda>s m. m\<lparr>msg_destination := Some s\<rparr>) (str_of CHR ''s'' x)
         else if c = HEADER_SENDER then map_option (\<lambda>s m. m\<lparr>msg_sender := Some s\<rparr>) (str_of CHR ''s'' x)
         else if c = HEADER_OBJECT_PATH then map_option (\<lambda>s m. m\<lparr>msg_path := Some s\<rparr>) (str_of CHR ''o'' x)
         else if c = HEADER_SIGNATURE then (case x of VSig s \<Rightarrow> Some (\<lambda>m. m\<lparr>msg_signature := Some s\<rparr>) | _ \<Rightarrow> None)
         else if c = HEADER_REPLY_SERIAL then
           (case x of V32 t w \<Rightarrow> if t = CHR ''u'' then Some (\<lambda>m. m\<lparr>msg_replySerial := Some w\<rparr>) else None | _ \<Rightarrow> None)
         else Some (\<lambda>m. m))"

lemma str_of_Some: "str_of c x = Some s \<longleftrightarrow> x = VStr c s"
  by (cases x) (auto simp: str_of_def)

lemma parse_string_at:
  assumes "wf_dval (VStr CHR ''s'' s)" and "at_value mem k (VStr CHR ''s'' s) []"
  shows "\<exists>j. parse_string mem k upd = Inr (j, upd s) \<and> reads (VStr CHR ''s'' s) k [] j"
  using iter_read_string[OF assms] at_sig_is[OF assms(2)] by (auto simp: parse_string_def)

lemma parse_switch_eff:
  assumes "field_eff (c, x) = Some e" and "wf_dval x" and "at_value mem k x []"
  shows "\<exists>j. parse_switch mem c k m = Inr (j, e m) \<and> reads x k [] j"
proof -
  have str: "(\<exists>s. x = VStr CHR ''s'' s \<and> parse_switch mem c k m = parse_string mem k (\<lambda>s. u s m) \<and> e = u s) \<Longrightarrow> ?thesis" for u
    using parse_string_at[of _ mem k "\<lambda>s. u s m"] assms(2,3) by auto
  have "c \<noteq> 0" using assms(1) by (cases "c = 0") (simp_all add: field_eff_def)
  then consider "c = HEADER_INTERFACE" | "c = HEADER_MEMBER" | "c = HEADER_ERROR_NAME" | "c = HEADER_DESTINATION"
    | "c = HEADER_SENDER" | "c = HEADER_OBJECT_PATH" | "c = HEADER_SIGNATURE" | "c = HEADER_REPLY_SERIAL"
    | "c \<notin> {0, 1, 2, 3, 4, 5, 6, 7, 8}" by blast
  then show ?thesis
  proof cases
    case 1
    show ?thesis by (rule str[of "\<lambda>s m. m\<lparr>msg_interface := Some s\<rparr>"]) (use 1 assms(1) in \<open>auto simp: field_eff_def parse_switch_def str_of_Some\<close>)
  next
    case 2
    show ?thesis by (rule str[of "\<lambda>s m. m\<lparr>msg_member := Some s\<rparr>"]) (use 2 assms(1) in \<open>auto simp: field_eff_def parse_switch_def str_of_Some\<close>)
  next
    case 3
    show ?thesis by (rule str[of "\<lambda>s m. m\<lparr>msg_error := Some s\<rparr>"]) (use 3 assms(1) in \<open>auto simp: field_eff_def parse_switch_def str_of_Some\<close>)
  next
    case 4
    show ?thesis by (rule str[of "\<lambda>s m. m\<lparr>msg_destination := Some s\<rparr>"]) (use 4 assms(1) in \<open>auto simp: field_eff_def parse_switch_def str_of_Some\<close>)
  next
    case 5
    show ?thesis by (rule str[of "\<lambda>s m. m\<lparr>msg_sender := Some s\<rparr>"]) (use 5 assms(1) in \<open>auto simp: field_eff_def parse_switch_def str_of_Some\<close>)
  next
    case 6
    then obtain s where s: "x = VStr CHR ''o'' s" "e = (\<lambda>m. m\<lparr>msg_path := Some s\<rparr>)"
      using assms(1) by (auto simp: field_eff_def str_of_Some)
    with 6 iter_read_path[of s mem k "[]"] at_sig_is[OF assms(3)] assms(2,3) show ?thesis by (auto simp: parse_switch_def)
  next
    case 7
    then obtain s where s: "x = VSig s" "e = (\<lambda>m. m\<lparr>msg_signature := Some s\<rparr>)"
      using assms(1) by (auto simp: field_eff_def split: dval.splits)
    with 7 iter_read_signature[of s mem k "[]"] at_sig_is[OF assms(3)] assms(2,3) show ?thesis by (auto simp: parse_switch_def)
  next
    case 8
    then obtain w where w: "x = V32 CHR ''u'' w" "e = (\<lambda>m. m\<lparr>msg_replySerial := Some w\<rparr>)"
      using assms(1) by (auto simp: field_eff_def split: dval.splits if_splits)
    with iter_read_u32[of mem k w "[]"] assms(3) obtain p j where
      "adbus_iter_u32 k = Inr (p, j)" "rd32 mem p = Inr w" "reads x k [] j" by auto
    with 8 w at_sig_is[OF assms(3)] show ?thesis by (auto simp: parse_switch_def)
  next
    case 9
    then have "e = (\<lambda>m. m)" using assms(1) by (auto simp: field_eff_def)
    with 9 skip_okD[OF skip_ok_all[OF assms(2)] assms(3)] show ?thesis by (auto simp: parse_switch_def)
  qed
qed

lemma field_ok_eff:
  assumes "wf_field f" and "field_eff f = Some e"
  shows "field_ok (fval f) e"
proof (cases f)
  case (Pair c x)
  have w: "wf_dval x" "length (vsig x) < 255" using assms(1) by (simp_all add: Pair wf_field_def)
  show ?thesis unfolding Pair fval_def fst_conv snd_conv
    by (rule field_ok_intro[OF w]) (rule parse_switch_eff[OF assms(2)[unfolded Pair] w(1)])
qed

definition apply_fields :: "hfield list \<Rightarrow> adbus_Message \<Rightarrow> adbus_Message" where
  "apply_fields fs m = fold (\<lambda>f m. (case field_eff f of None \<Rightarrow> m | Some e \<Rightarrow> e m)) fs m"

lemma fold_effs:
  "list_all (\<lambda>f. field_eff f \<noteq> None) fs \<Longrightarrow> fold (\<lambda>f x. f x) (map (\<lambda>f. the (field_eff f)) fs) m = apply_fields fs m"
  unfolding apply_fields_def by (induction fs arbitrary: m) auto

lemma parse_fields_header:
  assumes "fields_fit fs" and "list_all (\<lambda>f. field_eff f \<noteq> None) fs" and "length h = 12"
    and "data = header_of h fs @ args"
  shows "\<exists>k a j. adbus_iter_beginarray data \<lparr>it_data = 12, it_size = length data - 12, it_sig = Some ''a(yv)''\<rparr> = Inr (k, a)
     \<and> parse_fields data a k m = Inr (j, apply_fields fs m)"
proof -
  have w: "list_all wf_field fs" using assms(1) by (simp add: fields_fit_def)
  have "4 + length (encs 16 (map fval fs)) \<le> length data - 12"
    using assms(3) length_header[OF w] align_ge[of 8 "length (encs 16 (map fval fs))"] by (simp add: assms(4) header_of_def)
  from fields_array_at[OF assms(1), of data "[]" h args, OF _ assms(3) _ this] assms(4) obtain k a where
    k: "adbus_iter_beginarray data \<lparr>it_data = 12, it_size = length data - 12, it_sig = Some ''a(yv)''\<rparr> = Inr (k, a)"
    "ia_sig a = ''(yv)''" "ia_data a = it_data k" "ia_size a = length (encs (it_data k) (map fval fs))"
    "holds data (it_data k) (encs (it_data k) (map fval fs))" "length (encs (it_data k) (map fval fs)) \<le> it_size k"
    "fitss (it_data k) (map fval fs)" by auto
  have "list_all2 field_ok (map fval fs) (map (\<lambda>f. the (field_eff f)) fs)"
    using w assms(2) field_ok_eff by (auto simp: list_all2_conv_all_nth list_all_length)
  moreover have "\<And>v. v \<in> set (map fval fs) \<Longrightarrow> wf_dval v \<and> vsig v = ''(yv)''"
    using w wf_fval by (auto simp: list_all_iff)
  ultimately obtain j where "parse_fields data a k m = Inr (j, fold (\<lambda>f x. f x) (map (\<lambda>f. the (field_eff f)) fs) m)"
    using parse_fields_list[of "map fval fs" "map (\<lambda>f. the (field_eff f)) fs" "''(yv)''" data k a "[]" m] k by auto
  then show ?thesis using k(1) fold_effs[OF assms(2), of m] by auto
qed

text \<open>What the parser takes from the fixed header; nothing else of the message is set by it.\<close>

definition fixed_header :: "char list \<Rightarrow> adbus_Message \<Rightarrow> bool" where
  "fixed_header h m \<longleftrightarrow> m = msg_zero\<lparr>msg_data := msg_data m, msg_size := msg_size m, msg_argsize := msg_argsize m,
       msg_argdata := msg_argdata m, msg_type := msg_type m, msg_flags := msg_flags m, msg_serial := msg_serial m\<rparr>
     \<and> msg_type m = of_char (h ! 1) \<and> msg_flags m = of_char (h ! 2)
     \<and> rd32 h 4 = Inr (of_nat (msg_argsize m)) \<and> msg_argsize m < 2 ^ 32 \<and> rd32 h 8 = Inr (msg_serial m)"

lemma rd32_in: "off + 4 \<le> length mem \<Longrightarrow> \<exists>w. rd32 mem off = Inr w \<and> (\<forall>rest. rd32 (mem @ rest) off = Inr w)"
  by (simp add: rd32_def rd_def)

lemma parse_header_at:
  assumes "length h = 12" and "16 \<le> length (header_of h fs @ args)"
  shows "\<exists>m0. parse_header (header_of h fs @ args) = Inr m0 \<and> fixed_header h m0"
proof -
  obtain r where r: "header_of h fs @ args = h @ r" by (simp add: header_of_def)
  obtain w4 w8 where w: "rd32 h 4 = Inr w4" "rd32 (h @ r) 4 = Inr w4" "rd32 h 8 = Inr w8" "rd32 (h @ r) 8 = Inr w8"
    using rd32_in[of 4 h] rd32_in[of 8 h] assms(1) by auto
  obtain w12 where "rd32 (h @ r) 12 = Inr w12" using rd32_in[of 12 "h @ r"] assms(2) unfolding r by auto
  moreover have "unat w4 < 2 ^ 32" using unsigned_less[of w4] by simp
  ultimately show ?thesis using w assms(1) unfolding r
    by (simp add: parse_header_def fixed_header_def Let_def nth_append)
qed

lemma parse_header_fields:
  assumes "fields_fit fs" and "list_all (\<lambda>f. field_eff f \<noteq> None) fs" and "length h = 12" and "fs \<noteq> []"
    and "h ! 0 = adbusI_nativeEndianness" and "of_char (h ! 1) \<in> {1..4 :: nat}"
  shows "\<exists>m0. fixed_header h m0
     \<and> adbus_parse n m (header_of h fs @ args) (length (header_of h fs @ args))
       = Some (if required_fields (apply_fields fs m0) then Inr (apply_fields fs m0) else Inl Failed)"
proof -
  let ?d = "header_of h fs @ args"
  have w: "list_all wf_field fs" using assms(1) by (simp add: fields_fit_def)
  obtain f fs' where f: "fs = f # fs'" using assms(4) by (cases fs) auto
  then have "0 < length (encs 16 (map fval fs))" using fval_nonempty[of f 16] w by (simp add: Let_def)
  then have "0 < length (concat (map fbytes fs))"
    using length_header[OF w] align_ge[of 8 "length (encs 16 (map fval fs))"] by linarith
  then have l: "16 < length ?d" using assms(3) by (simp add: header_of_def del: length_concat)
  from parse_header_at[OF assms(3), of fs args] l obtain m0 where m0: "parse_header ?d = Inr m0" "fixed_header h m0" by auto
  from parse_fields_header[OF assms(1-3) refl, of args m0] obtain k a j where
    k: "adbus_iter_beginarray ?d \<lparr>it_data = 12, it_size = length ?d - 12, it_sig = Some ''a(yv)''\<rparr> = Inr (k, a)"
    "parse_fields ?d a k m0 = Inr (j, apply_fields fs m0)" by blast
  have b: "parse_body ?d (length ?d) = (if required_fields (apply_fields fs m0) then Inr (apply_fields fs m0) else Inl Failed)"
    using m0(1) k by (simp add: parse_body_def sizeof_Header_def checkr_def)
  have h: "?d ! 0 = adbusI_nativeEndianness" "?d ! 1 = h ! 1" using assms(3,5) by (simp_all add: header_of_def nth_append)
  show ?thesis using m0(2) l h b assms(6) by (intro exI[of _ m0]) (simp add: adbus_parse_def sizeof_ExtendedHeader_def Let_def)
qed

text \<open>C3: A remote cannot choose its sender. For a message in the byte order of the host with well-formed header
  fields of the right types (any number of sender fields among them), \<open>FixHeaders\<close> succeeds; the parser
  finds in the result, whatever arguments follow, the fixed header, all the fields of the message but those
  sender fields, and the remote's unique name as the sender.\<close>

theorem sender_is_stamped:
  assumes "fields_fit fs" and "fields_fit (kept fs @ [sender_field (rm_unique x)])"
    and "list_all (\<lambda>f. field_eff f \<noteq> None) (kept fs)" and "length h = 12"
    and "h ! 0 = adbusI_nativeEndianness" and "of_char (h ! 1) \<in> {1..4 :: nat}"
    and "buf_b b = buf_b (InitBuffer b0) @ header_of h fs" "buf_sigp b = InSig 0" "length (buf_sig b) = 256"
  shows "\<exists>x' b'. FixHeaders n x b = Some (Inr (x', b')) \<and> rm_native x'
     \<and> (\<forall>args n m. \<exists>m0. fixed_header h m0
          \<and> adbus_parse n m (fst (UnpackBuffer b') @ args) (length (fst (UnpackBuffer b') @ args))
            = Some (let m' = (apply_fields (kept fs) m0)\<lparr>msg_sender := Some (rm_unique x)\<rparr>
                    in if required_fields m' then Inr m' else Inl Failed))"
proof -
  let ?s = "sender_field (rm_unique x)" and ?P = "buf_b (InitBuffer b0)"
  have P: "length ?P = unpack_off" by (rule InitBuffer_room)
  have d: "drop unpack_off (buf_b b) = header_of h fs" using assms(7) P by simp
  have upd: "(buf_b b)[unpack_off := adbusI_nativeEndianness] = buf_b b"
    using assms(4,5) P by (intro list_update_same_conv[THEN iffD2]) (simp_all add: assms(7) header_of_def nth_append)
  have hd: "drop unpack_off (buf_b b) ! 0 = adbusI_nativeEndianness" unfolding d using assms(4,5) by (simp add: header_of_def nth_append)
  let ?x = "x\<lparr>rm_native := True\<rparr>"
  have "\<exists>b'. fix_native ?x b = Inr (?x\<lparr>rm_parsedMsgSize := rm_msgSize ?x - rm_headerSize ?x
       + length (concat (map fbytes (kept fs @ [sender_field (rm_unique ?x)]))) + 16\<rparr>, b')
     \<and> buf_b b' = ?P @ header_of h (kept fs @ [sender_field (rm_unique ?x)])"
    by (rule fix_native_at[OF assms(1) _ assms(4) P assms(7-9)]) (use assms(2) in simp)
  then obtain x' b' where f: "fix_native ?x b = Inr (x', b')" "rm_native x'" "buf_b b' = ?P @ header_of h (kept fs @ [?s])" by auto
  have "length (buf_b b) - unpack_off = length (header_of h fs)" using assms(7) P by simp
  moreover have "16 \<le> length (header_of h fs)" using assms(4) by (simp add: header_of_def)
  ultimately have "FixHeaders n x b = Some (Inr (x', b'))"
    using hd upd f(1) by (simp add: FixHeaders_def UnpackBuffer_def sizeof_ExtendedHeader_def)
  moreover have u: "fst (UnpackBuffer b') = header_of h (kept fs @ [?s])" using f(3) P by (simp add: UnpackBuffer_def)
  have e: "list_all (\<lambda>f. field_eff f \<noteq> None) (kept fs @ [?s])" using assms(3) by (simp add: field_eff_def str_of_def)
  have a: "apply_fields (kept fs @ [?s]) m0 = (apply_fields (kept fs) m0)\<lparr>msg_sender := Some (rm_unique x)\<rparr>" for m0
    by (simp add: apply_fields_def field_eff_def str_of_def)
  have "\<forall>args n m. \<exists>m0. fixed_header h m0
          \<and> adbus_parse n m (fst (UnpackBuffer b') @ args) (length (fst (UnpackBuffer b') @ args))
            = Some (let m' = (apply_fields (kept fs) m0)\<lparr>msg_sender := Some (rm_unique x)\<rparr>
                    in if required_fields m' then Inr m' else Inl Failed)"
    unfolding u Let_def a[symmetric]
    by (intro allI, rule parse_header_fields[OF assms(2) e assms(4) _ assms(5,6)]) simp
  ultimately show ?thesis using f(2) by blast
qed

definition sample_fields :: "hfield list" where
  "sample_fields = [(HEADER_OBJECT_PATH, VStr CHR ''o'' ''/''), (HEADER_SENDER, VStr CHR ''s'' ''org.a''),
     (HEADER_MEMBER, VStr CHR ''s'' ''M'')]"

theorem sender_is_stamped_witness:
  "\<exists>x' b'. FixHeaders 0 (new_remote '':1.5'') (adbus_buf_append (InitBuffer adbus_buf_new) (header_of (take 12 sample_head) sample_fields))
       = Some (Inr (x', b'))
     \<and> (\<exists>m. adbus_parse 0 msg_zero (fst (UnpackBuffer b')) (length (fst (UnpackBuffer b'))) = Some (Inr m)
          \<and> msg_sender m = Some '':1.5'' \<and> msg_path m = Some ''/'' \<and> msg_member m = Some ''M'')"
proof -
  let ?x = "new_remote '':1.5''" and ?h = "take 12 sample_head"
  let ?b = "adbus_buf_append (InitBuffer adbus_buf_new) (header_of ?h sample_fields)"
  have u: "rm_unique ?x = '':1.5''" by (simp add: new_remote_def)
  have k: "kept sample_fields = [(HEADER_OBJECT_PATH, VStr CHR ''o'' ''/''), (HEADER_MEMBER, VStr CHR ''s'' ''M'')]"
    by (simp add: kept_def sample_fields_def)
  have f: "fields_fit sample_fields" "fields_fit (kept sample_fields @ [sender_field (rm_unique ?x)])"
    unfolding k u by (simp_all add: fields_fit_def sample_fields_def wf_field_def fval_def Let_def pad_def align_def
        ADBUS_MAXIMUM_ARRAY_LENGTH_def)
  have e: "list_all (\<lambda>f. field_eff f \<noteq> None) (kept sample_fields)" unfolding k by (simp add: field_eff_def str_of_def)
  have h: "length ?h = 12" "?h ! 0 = adbusI_nativeEndianness" "of_char (?h ! 1) \<in> {1..4 :: nat}"
    by (simp_all add: sample_head_def adbusI_nativeEndianness_def)
  have b: "buf_b ?b = buf_b (InitBuffer adbus_buf_new) @ header_of ?h sample_fields" "buf_sigp ?b = InSig 0" "length (buf_sig ?b) = 256"
    by (simp_all add: adbus_buf_append_def InitBuffer_def adbus_buf_align_def Align_def adbus_buf_reset_def adbus_buf_new_def)
  from sender_is_stamped[OF f e h b, of 0] obtain x' b' where
    s: "FixHeaders 0 ?x ?b = Some (Inr (x', b'))"
    "\<forall>args n m. \<exists>m0. fixed_header ?h m0
          \<and> adbus_parse n m (fst (UnpackBuffer b') @ args) (length (fst (UnpackBuffer b') @ args))
            = Some (let m' = (apply_fields (kept sample_fields) m0)\<lparr>msg_sender := Some (rm_unique ?x)\<rparr>
                    in if required_fields m' then Inr m' else Inl Failed)" by blast
  from s(2)[rule_format, of 0 msg_zero "[]"] obtain m0 where
    m0: "fixed_header ?h m0"
    "adbus_parse 0 msg_zero (fst (UnpackBuffer b')) (length (fst (UnpackBuffer b')))
            = Some (let m' = (apply_fields (kept sample_fields) m0)\<lparr>msg_sender := Some (rm_unique ?x)\<rparr>
                    in if required_fields m' then Inr m' else Inl Failed)" unfolding append_Nil2 by blast
  have "rd32 ?h 4 = Inr 0" by code_simp
  with m0(1) have "msg_argsize m0 = 0"
    by (auto simp: fixed_header_def word_of_nat_eq_0_iff dest: nat_dvd_not_less)
  moreover have "msg_type m0 = 1" using m0(1) by (simp add: fixed_header_def sample_head_def)
  ultimately have "required_fields ((apply_fields (kept sample_fields) m0)\<lparr>msg_sender := Some (rm_unique ?x)\<rparr>)"
    unfolding k by (simp add: required_fields_def apply_fields_def field_eff_def str_of_def)
  with m0(2) s(1) u k show ?thesis by (auto simp: apply_fields_def field_eff_def str_of_def)
qed

end
