(* ===== verification/Hello_First.thy ===== *)
theory Hello_First
  imports Sender_Field
begin

text \<open>
  What a remote of \<^verbatim>\<open>adbus/server-parse.c\<close> can do before it has said hello, over whole streams.
\<close>

section \<open>What the dispatch passes on\<close>

text \<open>
  An invariant of the state of the send callbacks that every send of the message keeps, whether or not
  the arguments have been parsed.
\<close>

definition sends_keep :: "('w \<Rightarrow> bool) \<Rightarrow> 'w sender \<Rightarrow> adbus_Message \<Rightarrow> bool" where
  "sends_keep P send m \<longleftrightarrow> (\<forall>k vs w. P w \<longrightarrow> P (snd (send k (m\<lparr>msg_arguments := vs\<rparr>) w)))"

lemma sends_keep_args: "sends_keep P send (m\<lparr>msg_arguments := vs\<rparr>) = sends_keep P send m"
  by (simp add: sends_keep_def)

lemma sends_keepD:
  assumes "sends_keep P send m" and "P w" and "send k m w = (n, w')"
  shows "P w'"
proof -
  have "P (snd (send k (m\<lparr>msg_arguments := msg_arguments m\<rparr>) w))" using assms(1,2) unfolding sends_keep_def by blast
  then show ?thesis using assms(3) by simp
qed

lemma same_args: "\<exists>vs. m = m\<lparr>msg_arguments := vs\<rparr>"
  by (rule exI[of _ "msg_arguments m"]) simp

lemma parseargs_args: "adbus_parseargs m = Inr m' \<Longrightarrow> \<exists>vs. m' = m\<lparr>msg_arguments := vs\<rparr>"
  using same_args[of m] by (cases "msg_arguments m") (auto simp: adbus_parseargs_def res_convs)

lemma match_msg_args: "match_msg x m = Inr (hit, m') \<Longrightarrow> \<exists>vs. m' = m\<lparr>msg_arguments := vs\<rparr>"
  using same_args[of m] by (auto simp: match_msg_def res_convs dest!: parseargs_args split: if_splits)

lemma match_any_args: "match_any xs m = Inr (hit, m') \<Longrightarrow> \<exists>vs. m' = m\<lparr>msg_arguments := vs\<rparr>"
proof (induction xs arbitrary: m)
  case Nil
  then show ?case using same_args[of m] by simp
next
  case (Cons x xs)
  from Cons.prems obtain h m1 where m1: "match_msg x m = Inr (h, m1)" and
    "h \<and> m' = m1 \<or> match_any xs m1 = Inr (hit, m')" by (auto simp: res_convs split: if_splits)
  with Cons.IH[of m1] match_msg_args[OF m1] show ?case by auto
qed

lemma RemoteDispatchMatch_keeps:
  assumes "RemoteDispatchMatch send s r m w = Inr (ret, m', w')" and "sends_keep P send m" and "P w"
  shows "P w' \<and> sends_keep P send m'"
proof -
  from assms(1) obtain x where x: "get_remote s r = Inr x" by (auto simp: RemoteDispatchMatch_def res_convs)
  show ?thesis
  proof (cases "match_any (rm_matches x) m")
    case (Inl e)
    with assms x show ?thesis by (cases e) (auto simp: RemoteDispatchMatch_def)
  next
    case (Inr p)
    obtain hit m1 where p: "p = (hit, m1)" by (cases p)
    have k: "sends_keep P send m1" using match_any_args[OF Inr[unfolded p]] assms(2) by (auto simp: sends_keep_args)
    obtain n w1 where "send r m1 w = (n, w1)" by (cases "send r m1 w")
    with sends_keepD[OF k assms(3) this] assms(1,3) x Inr p k show ?thesis
      by (auto simp: RemoteDispatchMatch_def split: if_splits)
  qed
qed

lemma dispatch_remotes_keeps:
  assumes "dispatch_remotes send s d rs m w = Inr (ret, m', w')" and "sends_keep P send m" and "P w"
  shows "P w' \<and> sends_keep P send m'"
  using assms
proof (induction rs arbitrary: m w)
  case (Cons r rs)
  show ?case
  proof (cases "Some r = d")
    case True
    with Cons show ?thesis by simp
  next
    case False
    with Cons.prems(1) obtain c m1 w1 where r: "RemoteDispatchMatch send s r m w = Inr (c, m1, w1)"
      and "c \<noteq> 0 \<and> m' = m1 \<and> w' = w1 \<or> dispatch_remotes send s d rs m1 w1 = Inr (ret, m', w')"
      by (auto simp: res_convs split: if_splits)
    with Cons.IH[of m1 w1] RemoteDispatchMatch_keeps[OF r Cons.prems(2,3)] show ?thesis by auto
  qed
qed simp

lemma serv_dispatch_keeps:
  assumes "adbusI_serv_dispatch send s m w = Inr (ret, m', w')" and "sends_keep P send m" and "P w"
  shows "P w'"
proof -
  from assms(1) obtain c m1 w1 where d: "dispatch_remotes send s (direct_remote s m) (sv_remotes s) m w = Inr (c, m1, w1)"
    by (auto simp: adbusI_serv_dispatch_def res_convs Let_def)
  from dispatch_remotes_keeps[OF d assms(2,3)] have k: "P w1" "sends_keep P send m1" by auto
  show ?thesis
  proof (cases "direct_remote s m")
    case None
    with assms(1) d k show ?thesis by (auto simp: adbusI_serv_dispatch_def Let_def split: if_splits)
  next
    case (Some r)
    obtain n w2 where "send r m1 w1 = (n, w2)" by (cases "send r m1 w1")
    with sends_keepD[OF k(2,1) this] assms(1) d k Some show ?thesis
      by (auto simp: adbusI_serv_dispatch_def Let_def res_convs split: if_splits)
  qed
qed

section \<open>Watching a stream\<close>

text \<open>
  Send callbacks that do what they like to the server, with a log that tells for each message whether the remote
  had said hello when it was sent.
\<close>

definition watched ::
    "nat \<Rightarrow> (nat \<Rightarrow> adbus_Message \<Rightarrow> adbus_Server \<Rightarrow> int \<times> adbus_Server) \<Rightarrow> (adbus_Server \<times> (bool \<times> adbus_Message) list) sender" where
  "watched r act k m st =
     (case st of (s, log) \<Rightarrow> case act k m s of (n, s') \<Rightarrow> (n, s', log @ [(rm_haveHello (sv_heap s ! r), m)]))"

abbreviation said_hello :: "nat \<Rightarrow> adbus_Server \<Rightarrow> bool" where
  "said_hello r s \<equiv> rm_haveHello (sv_heap s ! r)"

definition hello_log :: "(bool \<times> adbus_Message) list \<Rightarrow> bool" where
  "hello_log log \<longleftrightarrow> (\<forall>(h, m) \<in> set log. h \<or> is_hello m)"

definition keeps_hello :: "nat \<Rightarrow> (nat \<Rightarrow> adbus_Message \<Rightarrow> adbus_Server \<Rightarrow> int \<times> adbus_Server) \<Rightarrow> bool" where
  "keeps_hello r act \<longleftrightarrow> (\<forall>k m s. said_hello r s \<longrightarrow> said_hello r (snd (act k m s)))"

lemma watched_keeps:
  assumes "keeps_hello r act"
  shows "sends_keep (\<lambda>(s, log). said_hello r s \<and> hello_log log) (watched r act) m"
    and "is_hello m \<Longrightarrow> sends_keep (\<lambda>(s, log). hello_log log) (watched r act) m"
  using assms by (auto simp: sends_keep_def watched_def keeps_hello_def hello_log_def is_hello_def split: prod.splits)
    (metis snd_conv)

lemma serv_dispatch_log:
  assumes "keeps_hello r act" and "hello_log log" and "said_hello r s \<or> is_hello m"
    and "adbusI_serv_dispatch (watched r act) s0 m (s, log) = Inr (c, m', s', log')"
  shows "hello_log log'"
  using assms(3)
proof
  assume "said_hello r s"
  with serv_dispatch_keeps[OF assms(4) watched_keeps(1)[OF assms(1)]] assms(2) show ?thesis by simp
next
  assume "is_hello m"
  from serv_dispatch_keeps[OF assms(4) watched_keeps(2)[OF assms(1) this]] assms(2) show ?thesis by simp
qed

lemma DispatchMsg_log:
  assumes "keeps_hello r act" and "hello_log log"
    and "DispatchMsg n (watched r act) w r (s, log) = Some (Inr (ret, s', log'))"
  shows "hello_log log'"
proof -
  from assms(3) obtain x where x: "get_remote s r = Inr x" by (auto simp: DispatchMsg_def bindo_Inr)
  then have h: "rm_haveHello x = said_hello r s" by (auto simp: get_remote_def split: if_splits)
  show ?thesis using assms(2,3) x h
    by (auto simp: DispatchMsg_def bindo_Inr Let_def split: option.splits sum.splits fail.splits if_splits prod.splits
        elim!: serv_dispatch_log[OF assms(1,2), rotated])
qed

lemma parse_data_log:
  assumes "keeps_hello r act" and "hello_log log"
    and "parse_data n (watched r act) r (s, log) data = Some (Inr (c, rest, s', log'))"
  shows "hello_log log'"
  using assms(2,3) by (auto simp: parse_data_def bindo_Inr Let_def split: if_splits prod.splits
      dest!: DispatchMsg_log[OF assms(1,2)])

lemma parse_hdr_log:
  assumes "keeps_hello r act" and "hello_log log"
    and "parse_hdr n (watched r act) r (s, log) data = Some (Inr (c, rest, s', log'))"
  shows "hello_log log'"
proof -
  from assms(3) obtain x where x: "get_remote s r = Inr x"
    and h: "rm_headerSize x > snd (UnpackBuffer (rm_msg x))"
    by (auto simp: parse_hdr_def bindo_Inr Let_def)
  obtain e b d1 where m: "Move (rm_msg x) data (rm_headerSize x - snd (UnpackBuffer (rm_msg x))) = (e, b, d1)"
    by (metis prod_cases3)
  from assms(2,3) x h m show ?thesis
    by (auto simp: parse_hdr_def Let_def split: if_splits option.splits sum.splits fail.splits
        dest!: parse_data_log[OF assms(1,2)])
qed

lemma parse_begin_log:
  assumes "keeps_hello r act" and "hello_log log"
    and "parse_begin n (watched r act) r (s, log) data = Some (Inr (c, rest, s', log'))"
  shows "hello_log log'"
  using assms(2,3) by (auto simp: parse_begin_def bindo_Inr Let_def split: if_splits
      dest!: parse_hdr_log[OF assms(1,2)])

lemma parse_loop_log:
  assumes "keeps_hello r act" and "hello_log log"
    and "parse_loop n (watched r act) r (s, log) data = Some (Inr (ret, rest, s', log'))"
  shows "hello_log log'"
  using assms(2,3)
proof (induction "length data" arbitrary: data s log rule: less_induct)
  case less
  from less.prems(2)[unfolded parse_loop.simps[of n "watched r act" r "(s, log)" data]] obtain c rest1 s1 log1 where
    b: "parse_begin n (watched r act) r (s, log) data = Some (Inr (c, rest1, s1, log1))"
    and c: "c = Again \<longrightarrow> parse_loop n (watched r act) r (s1, log1) rest1 = Some (Inr (ret, rest, s', log'))"
      "c \<noteq> Again \<longrightarrow> log' = log1"
    by (auto simp: bindo_Inr split: verdict.splits) (use verdict.exhaust in blast)
  from parse_begin_log[OF assms(1) less.prems(1) b] have k: "hello_log log1" .
  show ?case
  proof (cases "c = Again")
    case True
    with less.hyps[OF _ k] parse_begin_shorter b c(1) show ?thesis by blast
  qed (use c k in simp)
qed

lemma remote_parse_log:
  assumes "keeps_hello r act" and "hello_log log"
    and "adbus_remote_parse n (watched r act) r (s, log) data = Some (Inr (ret, rest, s', log'))"
  shows "hello_log log'"
proof -
  from assms(3) obtain p c rest1 s1 log1 where
    b: "parse_from p n (watched r act) r (s, log) data = Some (Inr (c, rest1, s1, log1))"
    and c: "log' = log1 \<or> (\<exists>ret1 rest2. parse_loop n (watched r act) r (s1, log1) rest1 = Some (Inr (ret1, rest2, s', log')))"
    by (auto simp: adbus_remote_parse_def bindo_Inr split: verdict.splits) (use verdict.exhaust in blast) 
  from b have "hello_log log1"
    using parse_begin_log[OF assms(1,2)] parse_hdr_log[OF assms(1,2)] parse_data_log[OF assms(1,2)]
    by (cases p) (auto simp: parse_from_def)
  with c parse_loop_log[OF assms(1)] show ?thesis by auto
qed

section \<open>Only Hello before hello\<close>

text \<open>C10: A remote that has not said hello can do nothing but that. Whatever data it sends, cut as it may be, and
  whatever the receivers do to the server (except that they do not take the hello back): every
  message of it that \<open>adbus_remote_parse\<close> passes on to anybody while the remote has not said hello
  is a call of \<^verbatim>\<open>Hello\<close> on the bus.\<close>

theorem hello_first:
  assumes "\<forall>k m s. rm_haveHello (sv_heap s ! r) \<longrightarrow> rm_haveHello (sv_heap (snd (act k m s)) ! r)"
    and "adbus_remote_parse n (watched r act) r (s, []) data = Some (Inr (ret, rest, s', log))"
  shows "\<forall>(h, m) \<in> set log. h \<or> is_hello m"
  using remote_parse_log[OF _ _ assms(2)] assms(1) by (simp add: keeps_hello_def hello_log_def)

text \<open>A new remote of the sample bus that has sent a call of \<^verbatim>\<open>Hello\<close>, up to the dispatch.\<close>

definition hello_fields :: "hfield list" where
  "hello_fields = [(HEADER_OBJECT_PATH, VStr CHR ''o'' ''/''), (HEADER_MEMBER, VStr CHR ''s'' ''Hello'')]"

definition hello_bus :: adbus_Server where
  "hello_bus = put_remote (snd (adbus_serv_connect sample_bus)) 3
     ((new_remote '':1.2'')\<lparr>rm_native := True, rm_parseState := PDATA,
        rm_parsedMsgSize := length (header_of (take 12 sample_head) hello_fields),
        rm_msg := adbus_buf_append (InitBuffer adbus_buf_new) (header_of (take 12 sample_head) hello_fields)\<rparr>)"

lemma hello_bus_facts:
  "length (sv_heap hello_bus) = 4" "sv_busRemote hello_bus = Some 0" "sv_helloRemote hello_bus = None"
  "list_all (\<lambda>x. rm_matches x = []) (sv_heap hello_bus)" "list_all (\<lambda>r. live hello_bus r) (0 # sv_remotes hello_bus)"
  "live hello_bus 3"
  by code_simp+

lemma dispatch_no_rules:
  "list_all (\<lambda>r. live s r \<and> rm_matches (sv_heap s ! r) = []) rs \<Longrightarrow> dispatch_remotes send s d rs m w = Inr (0, m, w)"
  by (induction rs) (simp_all add: RemoteDispatchMatch_def get_remote_def)

lemma hello_msg:
  "\<exists>m. is_hello m \<and> msg_destination m = None \<and> msg_type m = ADBUS_MSG_METHOD
     \<and> adbus_parse 0 msg_zero (header_of (take 12 sample_head) hello_fields)
         (length (header_of (take 12 sample_head) hello_fields)) = Some (Inr m)"
proof -
  let ?h = "take 12 sample_head"
  have f: "fields_fit hello_fields" by (simp add: fields_fit_def hello_fields_def wf_field_def fval_def Let_def pad_def align_def
        ADBUS_MAXIMUM_ARRAY_LENGTH_def)
  have e: "list_all (\<lambda>f. field_eff f \<noteq> None) hello_fields" by (simp add: hello_fields_def field_eff_def str_of_def)
  have h: "length ?h = 12" "hello_fields \<noteq> []" "?h ! 0 = adbusI_nativeEndianness" "of_char (?h ! 1) \<in> {1..4 :: nat}"
    by (simp_all add: sample_head_def adbusI_nativeEndianness_def hello_fields_def)
  from parse_header_fields[OF f e h, of 0 msg_zero "[]"] obtain m0 where
    m0: "fixed_header ?h m0"
    "adbus_parse 0 msg_zero (header_of ?h hello_fields) (length (header_of ?h hello_fields))
            = Some (if required_fields (apply_fields hello_fields m0) then Inr (apply_fields hello_fields m0) else Inl Failed)"
    unfolding append_Nil2 by blast
  have n: "msg_destination m0 = None" "msg_interface m0 = None"
    using m0(1) by (auto simp: fixed_header_def msg_zero_def dest: arg_cong[of _ _ msg_destination] arg_cong[of _ _ msg_interface])
  have "rd32 ?h 4 = Inr 0" by code_simp
  with m0(1) have z: "msg_argsize m0 = 0"
    by (auto simp: fixed_header_def word_of_nat_eq_0_iff dest: nat_dvd_not_less)
  moreover have t: "msg_type m0 = 1" using m0(1) by (simp add: fixed_header_def sample_head_def)
  ultimately have "required_fields (apply_fields hello_fields m0)"
    by (simp add: required_fields_def apply_fields_def hello_fields_def field_eff_def str_of_def)
  then show ?thesis using m0(2) t
    by (intro exI[of _ "apply_fields hello_fields m0"])
      (simp add: apply_fields_def hello_fields_def field_eff_def str_of_def is_hello_def n)
qed

theorem hello_first_witness:
  "\<exists>s' m. adbus_remote_parse 0 (watched 3 (\<lambda>k m s. (int (msg_size m), s))) 3 (hello_bus, []) []
       = Some (Inr (0, [], s', [(False, m)])) \<and> is_hello m"
proof -
  let ?send = "watched 3 (\<lambda>k m s. (int (msg_size m), s))"
  let ?d = "header_of (take 12 sample_head) hello_fields" and ?x = "sv_heap hello_bus ! 3"
  obtain m where m: "msg_destination m = None" "msg_type m = ADBUS_MSG_METHOD" "is_hello m"
    "adbus_parse 0 msg_zero ?d (length ?d) = Some (Inr m)" using hello_msg by blast
  have l: "length (sv_heap (snd (adbus_serv_connect sample_bus))) = 4" using sample_bus_facts(5) by (simp add: connect_eq)
  then have x: "rm_parseState ?x = PDATA" "rm_haveHello ?x = False" "rm_native ?x" "rm_parsedMsgSize ?x = length ?d"
    "UnpackBuffer (rm_msg ?x) = (?d, length ?d)" "get_remote hello_bus 3 = Inr ?x"
    using hello_bus_facts(6)
    by (simp_all add: hello_bus_def put_remote_def new_remote_def get_remote_def UnpackBuffer_def adbus_buf_append_def
        InitBuffer_room) 
  let ?s = "hello_bus\<lparr>sv_helloRemote := Some 3\<rparr>"
  have nr: "list_all (\<lambda>r. live ?s r \<and> rm_matches (sv_heap ?s ! r) = []) (sv_remotes ?s)"
    using hello_bus_facts(4,5) by (simp add: list_all_iff live_def)
  have d: "adbusI_serv_dispatch ?send ?s m (?s, []) = Inr (0, m, ?s, [(False, m)])"
    using hello_bus_facts(2,5) m(1,2) x(2)
    by (simp add: adbusI_serv_dispatch_def direct_remote_def dispatch_no_rules[OF nr, simplified] watched_def live_def get_remote_def)
  let ?up = "\<lambda>x. (set_buf MsgBuf (adbus_buf_reset (get_buf MsgBuf x)) x)\<lparr>rm_msgSize := 0, rm_headerSize := 0, rm_parsedMsgSize := 0\<rparr>"
  let ?s1 = "put_remote hello_bus 3 (?up ?x)"
  have self: "put_remote hello_bus 3 (?x\<lparr>rm_parseState := PDATA, rm_msg := rm_msg ?x\<rparr>) = hello_bus"
    unfolding x(1)[symmetric] by (simp add: put_remote_def)
  have none: "hello_bus\<lparr>sv_helloRemote := None\<rparr> = hello_bus" unfolding hello_bus_facts(3)[symmetric] by simp
  have "upd_remote hello_bus 3 ?up = Inr ?s1" using x(6) by (simp add: upd_remote_def put_remote_def)
  then have "DispatchMsg 0 ?send MsgBuf 3 (hello_bus, []) = Some (Inr (0, ?s1, [(False, m)]))"
    using x m d hello_bus_facts(3) by (simp add: DispatchMsg_def get_buf_def assertr_def none)
  then have "parse_data 0 ?send 3 (hello_bus, []) [] = Some (Inr (Again, [], ?s1, [(False, m)]))"
    using parse_data_eq[OF x(6), of "[]" True "rm_msg ?x" "[]" 0 ?send "[]"] x(4,5) self by simp
  moreover have "parse_loop 0 ?send 3 (?s1, [(False, m)]) [] = Some (Inr (0, [], put_remote ?s1 3 ((?up ?x)\<lparr>rm_parseState := PBEGIN\<rparr>), [(False, m)]))"
    using hello_bus_facts(6)
    by (simp add: parse_loop.simps[of _ _ _ _ "[]"] parse_begin_def sizeof_ExtendedHeader_def get_remote_def put_remote_def
        live_def set_buf_def)
  ultimately have p: "adbus_remote_parse 0 ?send 3 (hello_bus, []) []
      = Some (Inr (0, [], put_remote ?s1 3 ((?up ?x)\<lparr>rm_parseState := PBEGIN\<rparr>), [(False, m)]))"
    using x(1,6) by (simp add: adbus_remote_parse_def parse_from_def)
  from hello_first[OF _ p] p show ?thesis by simp
qed

end
