(* ===== verification/Interface.thy ===== *)
theory Interface
  imports Misc "HOL-Library.AList"
begin

text \<open>
  \<^verbatim>\<open>adbus/interface.c\<close> without its callbacks: interfaces and their members, and the introspection
  document of an object.

  A function pointer is a number, and so is the user data that goes with it. A hash table is an
  association list; its order stands for that of the buckets. A member is known by its name in the table of its
  interface.
\<close>

section \<open>Members\<close>

datatype adbusI_MemberType = ADBUSI_METHOD | ADBUSI_SIGNAL | ADBUSI_PROPERTY

record adbus_Member =
  mb_name :: string
  mb_type :: adbusI_MemberType
  mb_propertyType :: string
  mb_arguments :: "string list"
  mb_returns :: "string list"
  mb_argsig :: string
  mb_retsig :: string
  mb_annotations :: "(string \<times> string) list"
  mb_methodCallback :: "nat option"
  mb_getPropertyCallback :: "nat option"
  mb_setPropertyCallback :: "nat option"
  mb_release :: "(nat \<times> nat) list"
  mb_methodData :: nat
  mb_getPropertyData :: nat
  mb_setPropertyData :: nat

record adbus_Interface =
  if_ref :: int
  if_name :: string
  if_members :: "(string \<times> adbus_Member) list"
  if_freed :: bool

definition adbus_iface_new :: "string \<Rightarrow> int \<Rightarrow> adbus_Interface" where
  "adbus_iface_new name sz = \<lparr>if_ref = 1, if_name = sized name sz, if_members = [], if_freed = False\<rparr>"

definition adbus_iface_ref :: "adbus_Interface \<Rightarrow> adbus_Interface" where
  "adbus_iface_ref i = i\<lparr>if_ref := if_ref i + 1\<rparr>"

text \<open>The members are freed with the interface; the result has the release callbacks that run then.\<close>

definition FreeMember :: "adbus_Member \<Rightarrow> (nat \<times> nat) list" where
  "FreeMember m = mb_release m"

definition adbus_iface_deref :: "adbus_Interface \<Rightarrow> (nat \<times> nat) list \<times> adbus_Interface" where
  "adbus_iface_deref i =
     (let i = i\<lparr>if_ref := if_ref i - 1\<rparr> in
      if if_ref i = 0 then (concat (map (FreeMember \<circ> snd) (if_members i)), i\<lparr>if_members := [], if_freed := True\<rparr>)
      else ([], i))"

definition new_member :: "adbusI_MemberType \<Rightarrow> string \<Rightarrow> adbus_Member" where
  "new_member ty name = \<lparr>mb_name = name, mb_type = ty, mb_propertyType = [], mb_arguments = [], mb_returns = [],
     mb_argsig = [], mb_retsig = [], mb_annotations = [], mb_methodCallback = None, mb_getPropertyCallback = None,
     mb_setPropertyCallback = None, mb_release = [], mb_methodData = 0, mb_getPropertyData = 0, mb_setPropertyData = 0\<rparr>"

text \<open>A member that was there under the name is freed.\<close>

definition AddMethod :: "adbus_Interface \<Rightarrow> adbusI_MemberType \<Rightarrow> string \<Rightarrow> int \<Rightarrow> (nat \<times> nat) list \<times> adbus_Interface" where
  "AddMethod i ty name sz =
     (let name = sized name sz in
      (case map_of (if_members i) name of None \<Rightarrow> [] | Some m \<Rightarrow> FreeMember m,
       i\<lparr>if_members := AList.update name (new_member ty name) (if_members i)\<rparr>))"

definition adbus_iface_addmethod :: "adbus_Interface \<Rightarrow> string \<Rightarrow> int \<Rightarrow> (nat \<times> nat) list \<times> adbus_Interface" where
  "adbus_iface_addmethod i name sz = AddMethod i ADBUSI_METHOD name sz"

definition adbus_iface_addsignal :: "adbus_Interface \<Rightarrow> string \<Rightarrow> int \<Rightarrow> (nat \<times> nat) list \<times> adbus_Interface" where
  "adbus_iface_addsignal i name sz = AddMethod i ADBUSI_SIGNAL name sz"

text \<open>Changing a member through the pointer that was returned for it.\<close>

definition upd_member :: "string \<Rightarrow> (adbus_Member \<Rightarrow> adbus_Member res) \<Rightarrow> adbus_Interface \<Rightarrow> adbus_Interface res" where
  "upd_member name f i =
     (case map_of (if_members i) name of
        None \<Rightarrow> Inl Fault
      | Some m \<Rightarrow> bindr (f m) (\<lambda>m. Inr (i\<lparr>if_members := AList.update name m (if_members i)\<rparr>)))"

definition adbus_iface_addproperty ::
    "adbus_Interface \<Rightarrow> string \<Rightarrow> int \<Rightarrow> string \<Rightarrow> int \<Rightarrow> ((nat \<times> nat) list \<times> adbus_Interface) res" where
  "adbus_iface_addproperty i name namesize sig sigsize =
     (let (rel, i) = AddMethod i ADBUSI_PROPERTY name namesize in
      bindr (upd_member (sized name namesize) (\<lambda>m. Inr (m\<lparr>mb_propertyType := sized sig sigsize\<rparr>)) i) (\<lambda>i. Inr (rel, i)))"

definition GetMethod :: "adbus_Interface \<Rightarrow> adbusI_MemberType \<Rightarrow> string \<Rightarrow> int \<Rightarrow> adbus_Member option" where
  "GetMethod i ty name sz =
     (case map_of (if_members i) (sized name sz) of
        None \<Rightarrow> None
      | Some m \<Rightarrow> if mb_type m \<noteq> ty then None else Some m)"

definition adbus_iface_method :: "adbus_Interface \<Rightarrow> string \<Rightarrow> int \<Rightarrow> adbus_Member option" where
  "adbus_iface_method i name sz = GetMethod i ADBUSI_METHOD name sz"

definition adbus_iface_signal :: "adbus_Interface \<Rightarrow> string \<Rightarrow> int \<Rightarrow> adbus_Member option" where
  "adbus_iface_signal i name sz = GetMethod i ADBUSI_SIGNAL name sz"

definition adbus_iface_property :: "adbus_Interface \<Rightarrow> string \<Rightarrow> int \<Rightarrow> adbus_Member option" where
  "adbus_iface_property i name sz = GetMethod i ADBUSI_PROPERTY name sz"

definition adbus_mbr_argsig :: "adbus_Member \<Rightarrow> string \<Rightarrow> int \<Rightarrow> adbus_Member res" where
  "adbus_mbr_argsig m sig sz =
     bindr (assertr (mb_type m = ADBUSI_METHOD \<or> mb_type m = ADBUSI_SIGNAL)) (\<lambda>_.
       Inr (m\<lparr>mb_argsig := mb_argsig m @ sized sig sz\<rparr>))"

definition adbus_mbr_argname :: "adbus_Member \<Rightarrow> string \<Rightarrow> int \<Rightarrow> adbus_Member res" where
  "adbus_mbr_argname m name sz =
     bindr (assertr (mb_type m = ADBUSI_METHOD \<or> mb_type m = ADBUSI_SIGNAL)) (\<lambda>_.
       Inr (m\<lparr>mb_arguments := mb_arguments m @ [sized name sz]\<rparr>))"

definition adbus_mbr_retsig :: "adbus_Member \<Rightarrow> string \<Rightarrow> int \<Rightarrow> adbus_Member res" where
  "adbus_mbr_retsig m sig sz =
     bindr (assertr (mb_type m = ADBUSI_METHOD)) (\<lambda>_. Inr (m\<lparr>mb_retsig := mb_retsig m @ sized sig sz\<rparr>))"

definition adbus_mbr_retname :: "adbus_Member \<Rightarrow> string \<Rightarrow> int \<Rightarrow> adbus_Member res" where
  "adbus_mbr_retname m name sz =
     bindr (assertr (mb_type m = ADBUSI_METHOD)) (\<lambda>_. Inr (m\<lparr>mb_returns := mb_returns m @ [sized name sz]\<rparr>))"

definition adbus_mbr_annotate :: "adbus_Member \<Rightarrow> string \<Rightarrow> int \<Rightarrow> string \<Rightarrow> int \<Rightarrow> adbus_Member" where
  "adbus_mbr_annotate m name nameSize val valueSize =
     m\<lparr>mb_annotations := AList.update (sized name nameSize) (sized val valueSize) (mb_annotations m)\<rparr>"

text \<open>Up to two release callbacks.\<close>

definition adbus_mbr_addrelease :: "adbus_Member \<Rightarrow> nat \<Rightarrow> nat \<Rightarrow> adbus_Member res" where
  "adbus_mbr_addrelease m release ruser =
     bindr (assertr (length (mb_release m) < 2)) (\<lambda>_. Inr (m\<lparr>mb_release := mb_release m @ [(release, ruser)]\<rparr>))"

definition adbus_mbr_setmethod :: "adbus_Member \<Rightarrow> nat option \<Rightarrow> nat \<Rightarrow> adbus_Member" where
  "adbus_mbr_setmethod m callback user1 = m\<lparr>mb_methodCallback := callback, mb_methodData := user1\<rparr>"

definition adbus_mbr_setgetter :: "adbus_Member \<Rightarrow> nat option \<Rightarrow> nat \<Rightarrow> adbus_Member" where
  "adbus_mbr_setgetter m callback user1 = m\<lparr>mb_getPropertyCallback := callback, mb_getPropertyData := user1\<rparr>"

definition adbus_mbr_setsetter :: "adbus_Member \<Rightarrow> nat option \<Rightarrow> nat \<Rightarrow> adbus_Member" where
  "adbus_mbr_setsetter m callback user1 = m\<lparr>mb_setPropertyCallback := callback, mb_setPropertyData := user1\<rparr>"

section \<open>Introspection\<close>

text \<open>
  The double quote and the characters of \<^verbatim>\<open>\n\<close> and \<^verbatim>\<open>\t\<close> in the string literals.
\<close>

abbreviation dq :: char where "dq \<equiv> CHR 0x22"

definition nl :: string where "nl = [CHR 0x0A]"

definition tabs :: "nat \<Rightarrow> string" where "tabs n = replicate n CHR 0x09"

text \<open>
  The loop over a signature, once for the arguments and once for the results. A type that is not complete makes
  \<^verbatim>\<open>adbus_nextarg\<close> return a null pointer, from which the pointer to the type is subtracted: the code then copies
  from the signature without end.
\<close>

function introspect_args :: "string \<Rightarrow> string \<Rightarrow> string list \<Rightarrow> nat \<Rightarrow> string \<Rightarrow> (nat \<times> string) res" where
  "introspect_args close arg names argi out =
     (if arg = [] then Inr (argi, out)
      else case adbus_nextarg arg of
             None \<Rightarrow> Inl Fault
           | Some next \<Rightarrow>
               let out = out @ tabs 3 @ ''<arg type='' @ [dq] @ take (length arg - length next) arg;
                   out = (if argi < length names then out @ [dq] @ '' name='' @ [dq] @ names ! argi else out);
                   out = out @ [dq] @ close
               in introspect_args close next names (argi + 1) out)"
  by pat_completeness auto

lemma nextarg_less: "adbus_nextarg s = Some r \<Longrightarrow> length r < length s"
  using nextarg_sound(1)[of s r] by (metis add_less_same_cancel2 length_append length_greater_0_conv less_add_same_cancel2 list.discI sig_of_Cons)

termination introspect_args
  by (relation "measure (\<lambda>(close, arg, names, argi, out). length arg)") (auto dest: nextarg_less)

declare introspect_args.simps [simp del]

definition IntrospectArguments :: "adbus_Member \<Rightarrow> string \<Rightarrow> string res" where
  "IntrospectArguments m out =
     bindr (introspect_args (''/>'' @ nl) (mb_argsig m) (mb_arguments m) 0 out) (\<lambda>(argi, out).
     bindr (assertr (argi \<ge> length (mb_arguments m))) (\<lambda>_.
     bindr (introspect_args ('' direction='' @ [dq] @ ''out'' @ [dq] @ ''/>'' @ nl) (mb_retsig m) (mb_returns m) 0 out) (\<lambda>(argi, out).
     bindr (assertr (argi \<ge> length (mb_returns m))) (\<lambda>_. Inr out))))"

definition IntrospectAnnotations :: "adbus_Member \<Rightarrow> string \<Rightarrow> string" where
  "IntrospectAnnotations m out =
     out @ concat (map (\<lambda>(name, val). tabs 3 @ ''<annotation name='' @ [dq] @ name @ [dq] @ '' value='' @ [dq] @ val @ [dq] @ ''/>'' @ nl)
                       (mb_annotations m))"

definition access_of :: "adbus_Member \<Rightarrow> string res" where
  "access_of m =
     (if mb_getPropertyCallback m \<noteq> None \<and> mb_setPropertyCallback m \<noteq> None then Inr ''readwrite''
      else if mb_getPropertyCallback m \<noteq> None then Inr ''read''
      else if mb_setPropertyCallback m \<noteq> None then Inr ''write''
      else Inl Abort)"

definition IntrospectMember :: "adbus_Member \<Rightarrow> string \<Rightarrow> string res" where
  "IntrospectMember m out =
     (case mb_type m of
        ADBUSI_PROPERTY \<Rightarrow>
          let out = out @ tabs 2 @ ''<property name='' @ [dq] @ mb_name m @ [dq] @ '' type='' @ [dq] @ mb_propertyType m
                        @ [dq] @ '' access='' @ [dq] in
          bindr (access_of m) (\<lambda>acc.
            let out = out @ acc in
            if length (mb_annotations m) = 0 then Inr (out @ [dq] @ ''/>'' @ nl)
            else Inr (IntrospectAnnotations m (out @ [dq] @ ''>'' @ nl) @ tabs 2 @ ''</property>'' @ nl))
      | ADBUSI_METHOD \<Rightarrow>
          let out = out @ tabs 2 @ ''<method name='' @ [dq] @ mb_name m @ [dq] @ ''>'' @ nl in
          bindr (IntrospectArguments m (IntrospectAnnotations m out)) (\<lambda>out.
            Inr (out @ tabs 2 @ ''</method>'' @ nl))
      | ADBUSI_SIGNAL \<Rightarrow>
          let out = out @ tabs 2 @ ''<signal name='' @ [dq] @ mb_name m @ [dq] @ ''>'' @ nl in
          bindr (IntrospectArguments m (IntrospectAnnotations m out)) (\<lambda>out.
            Inr (out @ tabs 2 @ ''</signal>'' @ nl)))"

primrec introspect_members :: "(string \<times> adbus_Member) list \<Rightarrow> string \<Rightarrow> string res" where
  "introspect_members [] out = Inr out"
| "introspect_members (m # ms) out = bindr (IntrospectMember (snd m) out) (introspect_members ms)"

text \<open>The interfaces of an object, in the order of its table.\<close>

primrec IntrospectInterfaces :: "adbus_Interface list \<Rightarrow> string \<Rightarrow> string res" where
  "IntrospectInterfaces [] out = Inr out"
| "IntrospectInterfaces (i # is) out =
     bindr (introspect_members (if_members i) (out @ tabs 1 @ ''<interface name='' @ [dq] @ if_name i @ [dq] @ ''>'' @ nl)) (\<lambda>out.
       IntrospectInterfaces is (out @ tabs 1 @ ''</interface>'' @ nl))"

text \<open>The document of an object with this path, these interfaces and these children.\<close>

definition IntrospectNode :: "string \<Rightarrow> adbus_Interface list \<Rightarrow> string list \<Rightarrow> string \<Rightarrow> string res" where
  "IntrospectNode path ifaces children out =
     bindr (IntrospectInterfaces ifaces (out
       @ ''<!DOCTYPE node PUBLIC '' @ [dq] @ ''-//freedesktop/DTD D-BUS Object Introspection 1.0//EN'' @ [dq] @ nl
       @ [dq] @ ''http://www.freedesktop.org/standards/dbus/1.0/introspect.dtd'' @ [dq] @ ''>'' @ nl
       @ ''<node>'' @ nl)) (\<lambda>out.
       Inr (out @ concat (map (\<lambda>child. tabs 1 @ ''<node name='' @ [dq]
                 @ drop (length path + (if length path > 1 then 1 else 0)) child @ [dq] @ ''/>'' @ nl) children)
            @ ''</node>'' @ nl))"

section \<open>What is printed of a signature\<close>

text \<open>One argument of the document.\<close>

definition arg_line :: "string \<Rightarrow> string option \<Rightarrow> string \<Rightarrow> string" where
  "arg_line close name ty = tabs 3 @ ''<arg type='' @ [dq] @ ty
     @ (case name of None \<Rightarrow> [] | Some n \<Rightarrow> [dq] @ '' name='' @ [dq] @ n) @ [dq] @ close"

definition name_at :: "string list \<Rightarrow> nat \<Rightarrow> string option" where
  "name_at names k = (if k < length names then Some (names ! k) else None)"

lemma introspect_args_step:
  assumes "adbus_nextarg arg = Some next" "arg \<noteq> []"
  shows "introspect_args close arg names k out
     = introspect_args close next names (k + 1)
         (out @ arg_line close (name_at names k) (take (length arg - length next) arg))"
  using assms by (subst introspect_args.simps) (simp add: arg_line_def name_at_def)

lemma introspect_args_sig:
  "list_all wf_dtype ts \<Longrightarrow> introspect_args close (concat (map sig_of ts)) names k out
     = Inr (k + length ts, out @ concat (map (\<lambda>(i, t). arg_line close (name_at names (k + i)) (sig_of t)) (enumerate 0 ts)))"
proof (induction ts arbitrary: k out)
  case Nil
  show ?case by (simp add: introspect_args.simps)
next
  case (Cons t ts)
  then have w: "wf_dtype t" "list_all wf_dtype ts" by simp_all
  obtain c cs where c: "sig_of t = c # cs" using sig_of_Cons[OF w(1)] by blast
  have n: "adbus_nextarg (sig_of t @ concat (map sig_of ts)) = Some (concat (map sig_of ts))" by (rule nextarg_sig_of[OF w(1)])
  have e: "enumerate (Suc 0) ts = map (\<lambda>(i, t). (Suc i, t)) (enumerate 0 ts)"
    by (auto simp: enumerate_Suc_eq apfst_def map_prod_def)
  show ?case
    using Cons.IH[OF w(2), of "k + 1"] n
    by (simp add: introspect_args_step c e comp_def split_def)
qed

definition arg_lines :: "string \<Rightarrow> string list \<Rightarrow> dtype list \<Rightarrow> string" where
  "arg_lines close names ts = concat (map (\<lambda>(i, t). arg_line close (name_at names i) (sig_of t)) (enumerate 0 ts))"

text \<open>A member that is added is found under its name and kind; other names are not affected.\<close>

lemma AddMethod_GetMethod:
  "GetMethod (snd (AddMethod i ty name sz)) ty' name' sz' =
     (if sized name' sz' = sized name sz then (if ty' = ty then Some (new_member ty (sized name sz)) else None)
      else GetMethod i ty' name' sz')"
  by (auto simp: AddMethod_def GetMethod_def Let_def update_conv' new_member_def)

text \<open>The introspection of the arguments of a method prints one line per complete type of the signature, arguments
  before results, with the names the application gave as far as they go; more names than types trip an assert.\<close>

theorem introspect_arguments:
  assumes "mb_argsig m = concat (map sig_of ts)" "list_all wf_dtype ts"
    and "mb_retsig m = concat (map sig_of us)" "list_all wf_dtype us"
  shows "IntrospectArguments m out =
    (if length (mb_arguments m) \<le> length ts \<and> length (mb_returns m) \<le> length us
     then Inr (out @ arg_lines (''/>'' @ nl) (mb_arguments m) ts
                   @ arg_lines ('' direction='' @ [dq] @ ''out'' @ [dq] @ ''/>'' @ nl) (mb_returns m) us)
     else Inl Abort)"
  using introspect_args_sig[OF assms(2), of "''/>'' @ nl" "mb_arguments m" 0 out]
    introspect_args_sig[OF assms(4), of "'' direction='' @ [dq] @ ''out'' @ [dq] @ ''/>'' @ nl" "mb_returns m" 0]
  by (simp add: IntrospectArguments_def assms(1,3) arg_lines_def assertr_def)

definition sample_member :: adbus_Member where
  "sample_member = (new_member ADBUSI_METHOD ''Get'')\<lparr>mb_argsig := ''sas'', mb_retsig := ''v'', mb_arguments := [''name'']\<rparr>"

theorem introspect_arguments_witness:
  "\<exists>out. IntrospectArguments sample_member [] = Inr out
     \<and> out = arg_line (''/>'' @ nl) (Some ''name'') ''s'' @ arg_line (''/>'' @ nl) None ''as''
             @ arg_line ('' direction='' @ [dq] @ ''out'' @ [dq] @ ''/>'' @ nl) None ''v''"
proof -
  have "list_all wf_dtype [Basic CHR ''s'', Arr (Basic CHR ''s'')]" "list_all wf_dtype [Basic CHR ''v'']"
    by (simp_all add: basic_codes_def)
  from introspect_arguments[of sample_member, OF _ this(1) _ this(2), of "[]"] show ?thesis
    by (simp add: sample_member_def new_member_def arg_lines_def name_at_def)
qed

end
