(* ===== verification/Object_Tree.thy ===== *)
theory Object_Tree
  imports Interface
begin

text \<open>
  \<^verbatim>\<open>adbus/bind.c\<close>: the tree of objects of a connection and the interfaces bound to them.

  The heap is in the state: interfaces and binds are known by their address, a number, and objects by their path,
  which is the key of the table of the connection. An object is in the table from its creation until it is freed,
  and no operation creates an object after it has freed one, so a path stands for one object as long as no
  pointer to a freed object is kept; that none is kept is part of the invariant below. A use of freed memory is a
  \<^term>\<open>Fault\<close>. The table of interfaces of an object is an association list. The release callbacks, of binds and of the
  members of interfaces, are recorded in the order of their calls.
\<close>

section \<open>State\<close>

text \<open>The user data of a bind is that of the application, or the object itself for the built-in interfaces.\<close>

datatype user_data = User nat | Object string

record adbus_Bind =
  bi_path :: string
  bi_pathSize :: int
  bi_interface :: nat
  bi_cuser2 :: user_data
  bi_proxy :: "(nat \<times> nat) option"
  bi_release0 :: "(nat \<times> nat) option"
  bi_release1 :: "(nat \<times> nat) option"
  bi_relproxy :: "(nat \<times> nat) option"

record adbus_ConnBind =
  bd_path :: "string option"
  bd_interface :: nat
  bd_cuser2 :: user_data
  bd_proxy :: "(nat \<times> nat) option"
  bd_release0 :: "(nat \<times> nat) option"
  bd_release1 :: "(nat \<times> nat) option"
  bd_relproxy :: "(nat \<times> nat) option"

record ObjectPath =
  op_interfaces :: "(string \<times> nat) list"
  op_children :: "string list"
  op_parent :: "string option"

record adbus_Connection =
  cn_paths :: "string \<rightharpoonup> ObjectPath"
  cn_binds :: "nat \<rightharpoonup> adbus_ConnBind"
  cn_nextBind :: nat
  cn_ifaces :: "nat \<rightharpoonup> adbus_Interface"
  cn_introspectable :: nat
  cn_properties :: nat
  cn_released :: "((nat \<times> nat) option \<times> nat \<times> nat) list"

definition adbus_bind_init :: "nat \<Rightarrow> user_data \<Rightarrow> adbus_Bind" where
  "adbus_bind_init i u = \<lparr>bi_path = [], bi_pathSize = -1, bi_interface = i, bi_cuser2 = u, bi_proxy = None,
     bi_release0 = None, bi_release1 = None, bi_relproxy = None\<rparr>"

definition get_obj :: "string \<Rightarrow> adbus_Connection \<Rightarrow> ObjectPath res" where
  "get_obj p c = (case cn_paths c p of None \<Rightarrow> Inl Fault | Some ob \<Rightarrow> Inr ob)"

definition get_bind :: "nat \<Rightarrow> adbus_Connection \<Rightarrow> adbus_ConnBind res" where
  "get_bind k c = (case cn_binds c k of None \<Rightarrow> Inl Fault | Some b \<Rightarrow> Inr b)"

definition get_iface :: "nat \<Rightarrow> adbus_Connection \<Rightarrow> adbus_Interface res" where
  "get_iface a c = (case cn_ifaces c a of
     None \<Rightarrow> Inl Fault | Some i \<Rightarrow> if if_freed i then Inl Fault else Inr i)"

definition set_obj :: "string \<Rightarrow> ObjectPath \<Rightarrow> adbus_Connection \<Rightarrow> adbus_Connection" where
  "set_obj p ob c = c\<lparr>cn_paths := (cn_paths c)(p \<mapsto> ob)\<rparr>"

definition set_iface :: "nat \<Rightarrow> adbus_Interface \<Rightarrow> adbus_Connection \<Rightarrow> adbus_Connection" where
  "set_iface a i c = c\<lparr>cn_ifaces := (cn_ifaces c)(a \<mapsto> i)\<rparr>"

section \<open>Binding\<close>

definition DoBind :: "string \<Rightarrow> adbus_Bind \<Rightarrow> adbus_Connection \<Rightarrow> (nat option \<times> adbus_Connection) res" where
  "DoBind p b c =
     bindr (get_obj p c) (\<lambda>ob.
     bindr (get_iface (bi_interface b) c) (\<lambda>i.
       if map_of (op_interfaces ob) (if_name i) \<noteq> None then Inr (None, c)
       else
         let c = set_iface (bi_interface b) (adbus_iface_ref i) c;
             k = cn_nextBind c;
             bd = \<lparr>bd_path = Some p, bd_interface = bi_interface b, bd_cuser2 = bi_cuser2 b, bd_proxy = bi_proxy b,
                   bd_release0 = bi_release0 b, bd_release1 = bi_release1 b, bd_relproxy = bi_relproxy b\<rparr>;
             c = set_obj p (ob\<lparr>op_interfaces := op_interfaces ob @ [(if_name i, k)]\<rparr>) c
         in Inr (Some k, c\<lparr>cn_binds := (cn_binds c)(k \<mapsto> bd), cn_nextBind := k + 1\<rparr>)))"

text \<open>The object of a path, made with its built-in interfaces and its parents if it does not exist.\<close>

definition new_object :: "string \<Rightarrow> adbus_Connection \<Rightarrow> adbus_Connection res" where
  "new_object path c =
     (let c = set_obj path \<lparr>op_interfaces = [], op_children = [], op_parent = None\<rparr> c in
      bindr (DoBind path (adbus_bind_init (cn_introspectable c) (Object path)) c) (\<lambda>(_, c).
      bindr (DoBind path (adbus_bind_init (cn_properties c) (Object path)) c) (\<lambda>(_, c). Inr c)))"

definition link_parent :: "string \<Rightarrow> string \<Rightarrow> adbus_Connection \<Rightarrow> adbus_Connection res" where
  "link_parent path q c =
     bindr (get_obj path c) (\<lambda>ob.
       let c = set_obj path (ob\<lparr>op_parent := Some q\<rparr>) c in
       bindr (get_obj q c) (\<lambda>par.
         Inr (set_obj q (par\<lparr>op_children := op_children par @ [path]\<rparr>) c)))"

lemma parent_size_le: "parent_size p n \<le> n"
  by (induction p n rule: parent_size.induct) auto

lemma parentPath_shorter: "adbusI_parentPath p = Inr (Some q) \<Longrightarrow> length q < length p"
  using parent_size_le[of p "length p - 1"]
  by (auto simp: adbusI_parentPath_def res_convs Let_def split: if_splits)

function GetObject :: "string \<Rightarrow> adbus_Connection \<Rightarrow> adbus_Connection res" where
  "GetObject path c =
     bindr (assertr (adbusI_isValidObjectPath (Some path))) (\<lambda>_.
       if cn_paths c path \<noteq> None then Inr c
       else
         bindr (new_object path c) (\<lambda>c.
         bindr (adbusI_parentPath path) (\<lambda>parent.
           case parent of
             None \<Rightarrow> Inr c
           | Some q \<Rightarrow> bindr (GetObject q c) (link_parent path q))))"
  by pat_completeness auto
termination GetObject
  by (relation "measure (\<lambda>(path, c). length path)") (auto simp: parentPath_shorter)

declare GetObject.simps [simp del]

definition adbus_conn_bind :: "adbus_Bind \<Rightarrow> adbus_Connection \<Rightarrow> (nat option \<times> adbus_Connection) res" where
  "adbus_conn_bind b c =
     (let path = sized (bi_path b) (bi_pathSize b) in bindr (GetObject path c) (DoBind path b))"

section \<open>Unbinding\<close>

definition clear_path :: "nat \<Rightarrow> adbus_Connection \<Rightarrow> adbus_Connection res" where
  "clear_path k c = bindr (get_bind k c) (\<lambda>b. Inr (c\<lparr>cn_binds := (cn_binds c)(k \<mapsto> b\<lparr>bd_path := None\<rparr>)\<rparr>))"

primrec clear_paths :: "nat list \<Rightarrow> adbus_Connection \<Rightarrow> adbus_Connection res" where
  "clear_paths [] c = Inr c"
| "clear_paths (k # ks) c = bindr (clear_path k c) (clear_paths ks)"

definition adbusI_freeObjectPath :: "string \<Rightarrow> adbus_Connection \<Rightarrow> adbus_Connection res" where
  "adbusI_freeObjectPath p c =
     bindr (get_obj p c) (\<lambda>ob.
       clear_paths (map snd (op_interfaces ob)) (c\<lparr>cn_paths := (cn_paths c)(p := None)\<rparr>))"

definition release_calls :: "adbus_ConnBind \<Rightarrow> ((nat \<times> nat) option \<times> nat \<times> nat) list" where
  "release_calls b =
     (case bd_release0 b of None \<Rightarrow> [] | Some r \<Rightarrow> [(bd_relproxy b, r)])
     @ (case bd_release1 b of None \<Rightarrow> [] | Some r \<Rightarrow> [(bd_relproxy b, r)])"

text \<open>\<open>adbusI_freeBind\<close> of a bind that has no object: its release callbacks run, its interface is released.\<close>

definition release_bind :: "nat \<Rightarrow> adbus_Connection \<Rightarrow> adbus_Connection res" where
  "release_bind k c =
     bindr (get_bind k c) (\<lambda>b.
     bindr (get_iface (bd_interface b) c) (\<lambda>i.
       let (rel, i) = adbus_iface_deref i;
           c = set_iface (bd_interface b) i c
       in Inr (c\<lparr>cn_released := cn_released c @ release_calls b @ map (Pair None) rel,
                 cn_binds := (cn_binds c)(k := None)\<rparr>)))"

definition del_iface :: "string \<Rightarrow> string \<Rightarrow> adbus_Connection \<Rightarrow> adbus_Connection res" where
  "del_iface p n c =
     bindr (get_obj p c) (\<lambda>ob. Inr (set_obj p (ob\<lparr>op_interfaces := AList.delete n (op_interfaces ob)\<rparr>) c))"

primrec remove_builtins :: "string \<Rightarrow> (string \<times> nat) list \<Rightarrow> adbus_Connection \<Rightarrow> adbus_Connection res" where
  "remove_builtins p [] c = Inr c"
| "remove_builtins p (nk # is) c =
     bindr (clear_path (snd nk) c) (\<lambda>c.
     bindr (release_bind (snd nk) c) (\<lambda>c.
     bindr (del_iface p (fst nk) c) (remove_builtins p is)))"

definition unlink_parent :: "string \<Rightarrow> string option \<Rightarrow> adbus_Connection \<Rightarrow> adbus_Connection res" where
  "unlink_parent p parent c =
     (case parent of
        None \<Rightarrow> Inr c
      | Some q \<Rightarrow> bindr (get_obj q c) (\<lambda>par. Inr (set_obj q (par\<lparr>op_children := remove1 p (op_children par)\<rparr>) c)))"

text \<open>
  The recursion follows the pointers to the parents; \<^term>\<open>None\<close> would be a recursion that does not end.
\<close>

partial_function (option) CheckRemoveObject :: "string \<Rightarrow> adbus_Connection \<Rightarrow> adbus_Connection res option" where
  "CheckRemoveObject p c =
     (case get_obj p c of
        Inl e \<Rightarrow> Some (Inl e)
      | Inr ob \<Rightarrow>
          if length (op_interfaces ob) > 2 \<or> length (op_children ob) > 0 then Some (Inr c)
          else case bindr (remove_builtins p (op_interfaces ob) c) (unlink_parent p (op_parent ob)) of
                 Inl e \<Rightarrow> Some (Inl e)
               | Inr c \<Rightarrow>
                   (case op_parent ob of
                      None \<Rightarrow> Some (adbusI_freeObjectPath p c)
                    | Some q \<Rightarrow> Option.bind (CheckRemoveObject q c) (\<lambda>r. Some (bindr r (adbusI_freeObjectPath p)))))"

definition adbusI_freeBind :: "nat \<Rightarrow> adbus_Connection \<Rightarrow> adbus_Connection res option" where
  "adbusI_freeBind k c =
     (case get_bind k c of
        Inl e \<Rightarrow> Some (Inl e)
      | Inr b \<Rightarrow>
          (case bd_path b of
             None \<Rightarrow> Some (release_bind k c)
           | Some p \<Rightarrow>
               (case bindr (get_iface (bd_interface b) c) (\<lambda>i. del_iface p (if_name i) c) of
                  Inl e \<Rightarrow> Some (Inl e)
                | Inr c \<Rightarrow> Option.bind (CheckRemoveObject p c) (\<lambda>r. Some (bindr r (release_bind k))))))"

definition adbus_conn_unbind :: "nat \<Rightarrow> adbus_Connection \<Rightarrow> adbus_Connection res option" where
  "adbus_conn_unbind k c = adbusI_freeBind k c"

section \<open>Lookup\<close>

text \<open>The result has the bind that is found and its interface.\<close>

definition adbus_conn_interface ::
    "string \<Rightarrow> int \<Rightarrow> string \<Rightarrow> int \<Rightarrow> adbus_Connection \<Rightarrow> (nat \<times> nat) option res" where
  "adbus_conn_interface path pathSize interface interfaceSize c =
     (case cn_paths c (sized path pathSize) of
        None \<Rightarrow> Inr None
      | Some ob \<Rightarrow>
          (case map_of (op_interfaces ob) (sized interface interfaceSize) of
             None \<Rightarrow> Inr None
           | Some k \<Rightarrow> bindr (get_bind k c) (\<lambda>b. Inr (Some (k, bd_interface b)))))"

primrec find_method :: "string \<Rightarrow> int \<Rightarrow> (string \<times> nat) list \<Rightarrow> adbus_Connection \<Rightarrow> (nat \<times> adbus_Member) option res" where
  "find_method name sz [] c = Inr None"
| "find_method name sz (nk # is) c =
     bindr (get_bind (snd nk) c) (\<lambda>b.
     bindr (get_iface (bd_interface b) c) (\<lambda>i.
       case adbus_iface_method i name sz of
         Some m \<Rightarrow> Inr (Some (snd nk, m))
       | None \<Rightarrow> find_method name sz is c))"

definition adbus_conn_method ::
    "string \<Rightarrow> int \<Rightarrow> string \<Rightarrow> int \<Rightarrow> adbus_Connection \<Rightarrow> (nat \<times> adbus_Member) option res" where
  "adbus_conn_method path pathSize name methodSize c =
     (case cn_paths c (sized path pathSize) of
        None \<Rightarrow> Inr None
      | Some ob \<Rightarrow> find_method name methodSize (op_interfaces ob) c)"

end
