(* ===== verification/Object_Inv.thy ===== *)
theory Object_Inv
  imports Object_Tree
begin

text \<open>
  The invariant of the object tree of a connection and what every step of \<^verbatim>\<open>adbus/bind.c\<close> does to it: binds and tables
  point at each other and interfaces are counted (\<open>links\<close>), parents and children agree (\<open>tree\<close>), nothing is kept
  that is not needed (\<open>all_busy\<close>). Making an object and pruning one are proved by induction along the path; the
  results are \<open>conn_bind_ok\<close> and \<open>freeBind_ok\<close>, and \<open>object_reason\<close> says why an object exists.
\<close>

section \<open>The invariant of binds and tables\<close>

text \<open>
  \<open>Z\<close> are the objects that are being removed, \<open>K\<close> the binds that are being freed; both are empty between the
  operations. \<open>ext a\<close> counts the references to the interface \<open>a\<close> that are not those of binds.
\<close>

definition users :: "adbus_Connection \<Rightarrow> nat \<Rightarrow> nat set" where
  "users c a = {k. \<exists>b. cn_binds c k = Some b \<and> bd_interface b = a}"

definition iname :: "adbus_Connection \<Rightarrow> nat \<Rightarrow> string option" where
  "iname c a = map_option if_name (cn_ifaces c a)"

definition ifaces_ok :: "(nat \<Rightarrow> nat) \<Rightarrow> adbus_Connection \<Rightarrow> bool" where
  "ifaces_ok ext c \<longleftrightarrow> (\<forall>a i. cn_ifaces c a = Some i \<longrightarrow>
     if_ref i = int (ext a + card (users c a)) \<and> (if_freed i \<longleftrightarrow> if_ref i = 0))"

definition bind_ok :: "string set \<Rightarrow> nat set \<Rightarrow> adbus_Connection \<Rightarrow> nat \<Rightarrow> adbus_ConnBind \<Rightarrow> bool" where
  "bind_ok Z K c k b \<longleftrightarrow> k < cn_nextBind c \<and> (\<exists>n. iname c (bd_interface b) = Some n
     \<and> (k \<notin> K \<longrightarrow> (\<exists>p ob. bd_path b = Some p \<and> p \<notin> Z \<and> cn_paths c p = Some ob \<and> (n, k) \<in> set (op_interfaces ob))))"

definition table_ok :: "nat set \<Rightarrow> adbus_Connection \<Rightarrow> string \<Rightarrow> ObjectPath \<Rightarrow> bool" where
  "table_ok K c p ob \<longleftrightarrow> distinct (map fst (op_interfaces ob))
     \<and> (\<forall>n k. (n, k) \<in> set (op_interfaces ob) \<longrightarrow> k \<notin> K
          \<and> (\<exists>b. cn_binds c k = Some b \<and> bd_path b = Some p \<and> iname c (bd_interface b) = Some n))"

definition links :: "(nat \<Rightarrow> nat) \<Rightarrow> string set \<Rightarrow> nat set \<Rightarrow> adbus_Connection \<Rightarrow> bool" where
  "links ext Z K c \<longleftrightarrow> ifaces_ok ext c \<and> finite (dom (cn_binds c)) \<and> K \<subseteq> dom (cn_binds c)
     \<and> (\<forall>k b. cn_binds c k = Some b \<longrightarrow> bind_ok Z K c k b)
     \<and> (\<forall>p ob. cn_paths c p = Some ob \<longrightarrow> p \<notin> Z \<longrightarrow> table_ok K c p ob)
     \<and> (\<forall>p\<in>Z. \<exists>ob. cn_paths c p = Some ob \<and> op_interfaces ob = [])"

lemma finite_users: "finite (dom (cn_binds c)) \<Longrightarrow> finite (users c a)"
  by (rule finite_subset[of _ "dom (cn_binds c)"]) (auto simp: users_def)

lemma linksD:
  assumes "links ext Z K c"
  shows "ifaces_ok ext c" "finite (dom (cn_binds c))" "K \<subseteq> dom (cn_binds c)"
    "\<And>k b. cn_binds c k = Some b \<Longrightarrow> bind_ok Z K c k b"
    "\<And>p ob. cn_paths c p = Some ob \<Longrightarrow> p \<notin> Z \<Longrightarrow> table_ok K c p ob"
    "\<And>p. p \<in> Z \<Longrightarrow> \<exists>ob. cn_paths c p = Some ob \<and> op_interfaces ob = []"
  using assms by (auto simp: links_def)

text \<open>The tables only matter up to what is in them.\<close>

lemma links_same_tables:
  assumes l: "links ext Z K c"
    and same: "cn_binds c' = cn_binds c" "cn_ifaces c' = cn_ifaces c" "cn_nextBind c' = cn_nextBind c"
    and t: "\<And>p. map_option op_interfaces (cn_paths c' p) = map_option op_interfaces (cn_paths c p)"
  shows "links ext Z K c'"
proof -
  have to: "\<exists>ob'. cn_paths c' p = Some ob' \<and> op_interfaces ob' = op_interfaces ob" if "cn_paths c p = Some ob" for p ob
    using t[of p] that by (auto simp: map_option_case split: option.splits)
  have fro: "\<exists>ob'. cn_paths c p = Some ob' \<and> op_interfaces ob' = op_interfaces ob" if "cn_paths c' p = Some ob" for p ob
    using t[of p] that by (auto simp: map_option_case split: option.splits)
  have n: "iname c' = iname c" by (rule ext) (simp add: iname_def same)
  have i: "ifaces_ok ext c'" using linksD(1)[OF l] by (simp add: ifaces_ok_def same users_def)
  have b: "bind_ok Z K c' k b" if "cn_binds c' k = Some b" for k b
    using linksD(4)[OF l, of k b] that to by (simp add: bind_ok_def n same) metis
  have tb: "table_ok K c' p ob" if "cn_paths c' p = Some ob" "p \<notin> Z" for p ob
    using fro[OF that(1)] linksD(5)[OF l _ that(2)] by (auto simp: table_ok_def n same)
  have z: "\<exists>ob. cn_paths c' p = Some ob \<and> op_interfaces ob = []" if "p \<in> Z" for p
    using linksD(6)[OF l that] to by fastforce
  show ?thesis using i b tb z linksD(2,3)[OF l] by (simp add: links_def same)
qed

lemma linksI:
  assumes "ifaces_ok ext c" "finite (dom (cn_binds c))" "K \<subseteq> dom (cn_binds c)"
    "\<And>k b. cn_binds c k = Some b \<Longrightarrow> bind_ok Z K c k b"
    "\<And>p ob. cn_paths c p = Some ob \<Longrightarrow> p \<notin> Z \<Longrightarrow> table_ok K c p ob"
    "\<And>p. p \<in> Z \<Longrightarrow> \<exists>ob. cn_paths c p = Some ob \<and> op_interfaces ob = []"
  shows "links ext Z K c"
  using assms by (auto simp: links_def)

lemma set_obj_simps [simp]:
  "cn_paths (set_obj p ob c) = (cn_paths c)(p \<mapsto> ob)" "cn_binds (set_obj p ob c) = cn_binds c"
  "cn_ifaces (set_obj p ob c) = cn_ifaces c" "cn_nextBind (set_obj p ob c) = cn_nextBind c"
  "cn_introspectable (set_obj p ob c) = cn_introspectable c" "cn_properties (set_obj p ob c) = cn_properties c"
  "cn_released (set_obj p ob c) = cn_released c"
  "iname (set_obj p ob c) = iname c" "users (set_obj p ob c) = users c"
  by (simp_all add: set_obj_def iname_def users_def fun_eq_iff)

lemma ifaces_ok_set_obj [simp]: "ifaces_ok ext (set_obj p ob c) = ifaces_ok ext c"
  by (simp add: ifaces_ok_def)

lemma links_new_object:
  assumes l: "links ext Z K c" and p: "cn_paths c p = None" and e: "op_interfaces ob = []"
  shows "links ext Z K (set_obj p ob c)"
proof (rule linksI)
  have z: "p \<notin> Z" using linksD(6)[OF l, of p] p by auto
  show "bind_ok Z K (set_obj p ob c) k b" if "cn_binds (set_obj p ob c) k = Some b" for k b
  proof -
    have "q \<noteq> p" if "cn_paths c q = Some x" for q x using that p by auto
    moreover have "bind_ok Z K c k b" using linksD(4)[OF l, of k b] that by simp
    ultimately show ?thesis unfolding bind_ok_def set_obj_simps by (metis fun_upd_other)
  qed
  show "table_ok K (set_obj p ob c) q x" if "cn_paths (set_obj p ob c) q = Some x" "q \<notin> Z" for q x
    using that e linksD(5)[OF l, of q x] by (auto simp: table_ok_def split: if_splits)
  show "\<exists>x. cn_paths (set_obj p ob c) q = Some x \<and> op_interfaces x = []" if "q \<in> Z" for q
    using that z linksD(6)[OF l that] by auto
qed (use linksD(1-3)[OF l] in simp_all)

text \<open>The state after a bind.\<close>

definition conn_bind :: "string \<Rightarrow> adbus_Bind \<Rightarrow> adbus_ConnBind" where
  "conn_bind p b = \<lparr>bd_path = Some p, bd_interface = bi_interface b, bd_cuser2 = bi_cuser2 b, bd_proxy = bi_proxy b,
     bd_release0 = bi_release0 b, bd_release1 = bi_release1 b, bd_relproxy = bi_relproxy b\<rparr>"

lemma conn_bind_simps [simp]: "bd_path (conn_bind p b) = Some p" "bd_interface (conn_bind p b) = bi_interface b"
  by (simp_all add: conn_bind_def)

definition bound :: "string \<Rightarrow> adbus_Bind \<Rightarrow> ObjectPath \<Rightarrow> adbus_Interface \<Rightarrow> adbus_Connection \<Rightarrow> adbus_Connection" where
  "bound p b ob i c = c\<lparr>cn_paths := (cn_paths c)(p \<mapsto> ob\<lparr>op_interfaces := op_interfaces ob @ [(if_name i, cn_nextBind c)]\<rparr>),
     cn_binds := (cn_binds c)(cn_nextBind c \<mapsto> conn_bind p b), cn_nextBind := cn_nextBind c + 1,
     cn_ifaces := (cn_ifaces c)(bi_interface b \<mapsto> adbus_iface_ref i)\<rparr>"

lemma bound_simps [simp]:
  "cn_paths (bound p b ob i c) = (cn_paths c)(p \<mapsto> ob\<lparr>op_interfaces := op_interfaces ob @ [(if_name i, cn_nextBind c)]\<rparr>)"
  "cn_binds (bound p b ob i c) = (cn_binds c)(cn_nextBind c \<mapsto> conn_bind p b)"
  "cn_nextBind (bound p b ob i c) = Suc (cn_nextBind c)"
  "cn_ifaces (bound p b ob i c) = (cn_ifaces c)(bi_interface b \<mapsto> adbus_iface_ref i)"
  "cn_introspectable (bound p b ob i c) = cn_introspectable c" "cn_properties (bound p b ob i c) = cn_properties c"
  "cn_released (bound p b ob i c) = cn_released c"
  by (simp_all add: bound_def)

lemma DoBind_eq:
  "cn_paths c p = Some ob \<Longrightarrow> get_iface (bi_interface b) c = Inr i \<Longrightarrow>
   DoBind p b c = (if map_of (op_interfaces ob) (if_name i) \<noteq> None then Inr (None, c)
                   else Inr (Some (cn_nextBind c), bound p b ob i c))"
  by (simp add: DoBind_def get_obj_def bound_def conn_bind_def set_obj_def set_iface_def Let_def)

lemma get_iface_eq: "get_iface a c = Inr i \<longleftrightarrow> cn_ifaces c a = Some i \<and> \<not> if_freed i"
  by (auto simp: get_iface_def split: option.splits)

lemma iname_bound [simp]: "get_iface (bi_interface b) c = Inr i \<Longrightarrow> iname (bound p b ob i c) = iname c"
  by (auto simp: iname_def get_iface_eq adbus_iface_ref_def fun_eq_iff)

lemma users_bound:
  assumes "links ext Z K c"
  shows "card (users (bound p b ob i c) a) = card (users c a) + (if a = bi_interface b then 1 else 0)"
proof -
  have n: "cn_nextBind c \<notin> users c a" "cn_binds c (cn_nextBind c) = None"
    using linksD(4)[OF assms] by (auto simp: users_def bind_ok_def) (metis less_irrefl not_None_eq)+
  have "users (bound p b ob i c) a = (if a = bi_interface b then insert (cn_nextBind c) (users c a) else users c a)"
    using n(2) by (auto simp: users_def)
  then show ?thesis using n(1) finite_users[OF linksD(2)[OF assms], of a] by (cases "a = bi_interface b") simp_all
qed

lemma links_bound:
  assumes l: "links ext Z K c" and p: "cn_paths c p = Some ob" "p \<notin> Z"
    and i: "get_iface (bi_interface b) c = Inr i" and n: "map_of (op_interfaces ob) (if_name i) = None"
  shows "links ext Z K (bound p b ob i c)"
proof (rule linksI)
  let ?c = "bound p b ob i c" and ?k = "cn_nextBind c"
  have names: "iname ?c = iname c" using i by simp
  have fresh: "cn_binds c k = Some x \<Longrightarrow> k \<noteq> ?k" for k x using linksD(4)[OF l, of k x] by (auto simp: bind_ok_def)
  have iface: "cn_ifaces c (bi_interface b) = Some i" "\<not> if_freed i" using i by (auto simp: get_iface_eq)
  then have iname_i: "iname c (bi_interface b) = Some (if_name i)" by (simp add: iname_def)
  show "ifaces_ok ext ?c"
    unfolding ifaces_ok_def
  proof (intro allI impI)
    fix a j
    assume j: "cn_ifaces ?c a = Some j"
    have old: "if_ref x = int (ext a + card (users c a)) \<and> (if_freed x = (if_ref x = 0))" if "cn_ifaces c a = Some x" for x
      using linksD(1)[OF l] that by (auto simp: ifaces_ok_def)
    show "if_ref j = int (ext a + card (users ?c a)) \<and> (if_freed j = (if_ref j = 0))"
      using j old iface by (auto simp: users_bound[OF l] adbus_iface_ref_def split: if_splits)
  qed
  show "finite (dom (cn_binds ?c))" using linksD(2)[OF l] by simp
  show "K \<subseteq> dom (cn_binds ?c)" using linksD(3)[OF l] by auto
  show "bind_ok Z K ?c k x" if x: "cn_binds ?c k = Some x" for k x
  proof (cases "k = ?k")
    case True
    with x p iface show ?thesis by (auto simp: bind_ok_def names) (simp add: iname_def)
  next
    case False
    with x have "bind_ok Z K c k x" using linksD(4)[OF l] by simp
    with p show ?thesis by (fastforce simp: bind_ok_def names)
  qed
  show "table_ok K ?c q x" if q: "cn_paths ?c q = Some x" "q \<notin> Z" for q x
  proof -
    have K: "?k \<notin> K" using linksD(3)[OF l] fresh by blast
    have old: "table_ok K ?c q y" if "cn_paths c q = Some y" for y
      using linksD(5)[OF l that q(2)] fresh unfolding table_ok_def names bound_simps
      by (metis fun_upd_other)
    have "if_name i \<notin> fst ` set (op_interfaces ob)" using n by (simp add: map_of_eq_None_iff)
    moreover have "cn_binds ?c ?k = Some (conn_bind p b)" by simp
    ultimately show ?thesis
      using q old p K iname_i by (cases "q = p") (auto simp: table_ok_def names simp del: bound_simps(2))
  qed
  show "\<exists>x. cn_paths ?c q = Some x \<and> op_interfaces x = []" if "q \<in> Z" for q
    using linksD(6)[OF l that] that p(2) by auto
qed

text \<open>Taking a bind out of the table of its object, and freeing it.\<close>

lemma links_del:
  assumes l: "links ext Z K c" and p: "cn_paths c p = Some ob" "p \<notin> Z" and n: "(n, k) \<in> set (op_interfaces ob)"
  shows "links ext Z (insert k K) (set_obj p (ob\<lparr>op_interfaces := AList.delete n (op_interfaces ob)\<rparr>) c)"
    (is "links ext Z ?K ?c")
proof (rule linksI)
  have t: "table_ok K c p ob" by (rule linksD(5)[OF l p])
  have d: "set (AList.delete n (op_interfaces ob)) = set (op_interfaces ob) - {(n, k)}"
    using t n by (auto simp: AList.delete_eq table_ok_def dest: eq_key_imp_eq_value)
  have one: "q = p \<and> m = n" if "cn_paths c q = Some x" "q \<notin> Z" "(m, k) \<in> set (op_interfaces x)" for q x m
    using linksD(5)[OF l that(1,2)] that(3) t n unfolding table_ok_def by (metis option.inject)
  have "\<exists>b. cn_binds c k = Some b" using t n unfolding table_ok_def by blast
  then show "?K \<subseteq> dom (cn_binds ?c)" using linksD(3)[OF l] by auto
  show "bind_ok Z ?K ?c j x" if x: "cn_binds ?c j = Some x" for j x
  proof -
    have "bind_ok Z K c j x" using x linksD(4)[OF l] by simp
    then show ?thesis using d p unfolding bind_ok_def
      by (cases "j = k") (auto, metis option.inject)
  qed
  show "table_ok ?K ?c q x" if q: "cn_paths ?c q = Some x" "q \<notin> Z" for q x
  proof (cases "q = p")
    case True
    with q t d one[OF p] show ?thesis
      by (auto simp: table_ok_def AList.distinct_delete)
  next
    case False
    with q linksD(5)[OF l, of q x] one[of q x] show ?thesis by (auto simp: table_ok_def)
  qed
  show "\<exists>x. cn_paths ?c q = Some x \<and> op_interfaces x = []" if "q \<in> Z" for q
    using linksD(6)[OF l that] that p(2) by auto
qed (use linksD(1,2)[OF l] in simp_all)

text \<open>The state after a bind is freed.\<close>

definition released_iface :: "adbus_Interface \<Rightarrow> adbus_Interface" where
  "released_iface i = snd (adbus_iface_deref i)"

definition unbound :: "nat \<Rightarrow> adbus_ConnBind \<Rightarrow> adbus_Interface \<Rightarrow> adbus_Connection \<Rightarrow> adbus_Connection" where
  "unbound k b i c = c\<lparr>cn_binds := (cn_binds c)(k := None),
     cn_ifaces := (cn_ifaces c)(bd_interface b \<mapsto> released_iface i),
     cn_released := cn_released c @ release_calls b @ map (Pair None) (fst (adbus_iface_deref i))\<rparr>"

lemma unbound_simps [simp]:
  "cn_paths (unbound k b i c) = cn_paths c" "cn_binds (unbound k b i c) = (cn_binds c)(k := None)"
  "cn_nextBind (unbound k b i c) = cn_nextBind c"
  "cn_ifaces (unbound k b i c) = (cn_ifaces c)(bd_interface b \<mapsto> released_iface i)"
  "cn_introspectable (unbound k b i c) = cn_introspectable c" "cn_properties (unbound k b i c) = cn_properties c"
  by (simp_all add: unbound_def)

lemma released_iface_simps [simp]: "if_name (released_iface i) = if_name i" "if_ref (released_iface i) = if_ref i - 1"
  by (simp_all add: released_iface_def adbus_iface_deref_def Let_def)

lemma released_iface_freed: "if_freed (released_iface i) \<longleftrightarrow> if_ref i = 1 \<or> if_freed i"
  by (auto simp: released_iface_def adbus_iface_deref_def Let_def)

lemma release_bind_eq:
  "cn_binds c k = Some b \<Longrightarrow> get_iface (bd_interface b) c = Inr i \<Longrightarrow> release_bind k c = Inr (unbound k b i c)"
  by (simp add: release_bind_def get_bind_def unbound_def released_iface_def set_iface_def split_def Let_def)

lemma iname_unbound [simp]: "cn_ifaces c (bd_interface b) = Some i \<Longrightarrow> iname (unbound k b i c) = iname c"
  by (auto simp: iname_def fun_eq_iff)

text \<open>The interface of a bind is there.\<close>

lemma links_iface:
  assumes l: "links ext Z K c" and b: "cn_binds c k = Some b"
  shows "\<exists>i. get_iface (bd_interface b) c = Inr i \<and> if_ref i = int (ext (bd_interface b) + card (users c (bd_interface b)))"
proof -
  obtain i where i: "cn_ifaces c (bd_interface b) = Some i"
    using linksD(4)[OF l b] by (auto simp: bind_ok_def iname_def)
  have "k \<in> users c (bd_interface b)" using b by (simp add: users_def)
  then have "card (users c (bd_interface b)) > 0" using finite_users[OF linksD(2)[OF l]] by (auto simp: card_gt_0_iff)
  then show ?thesis using i linksD(1)[OF l] by (simp add: ifaces_ok_def get_iface_eq)
qed

lemma users_unbound:
  assumes "links ext Z K c" "cn_binds c k = Some b"
  shows "card (users (unbound k b i c) a) = card (users c a) - (if a = bd_interface b then 1 else 0)"
proof -
  have "users (unbound k b i c) a = (if a = bd_interface b then users c a - {k} else users c a)"
    using assms(2) by (auto simp: users_def)
  moreover have "k \<in> users c (bd_interface b)" using assms(2) by (simp add: users_def)
  ultimately show ?thesis by (cases "a = bd_interface b") simp_all
qed

lemma links_unbound:
  assumes l: "links ext Z (insert k K) c" and k: "k \<notin> K" and b: "cn_binds c k = Some b"
    and i: "get_iface (bd_interface b) c = Inr i"
  shows "links ext Z K (unbound k b i c)"
proof (rule linksI)
  let ?c = "unbound k b i c"
  have iface: "cn_ifaces c (bd_interface b) = Some i" "\<not> if_freed i" using i by (auto simp: get_iface_eq)
  then have names: "iname ?c = iname c" by simp
  have card: "card (users c (bd_interface b)) > 0"
    using b finite_users[OF linksD(2)[OF l], of "bd_interface b"] by (auto simp: card_gt_0_iff users_def)
  show "ifaces_ok ext ?c"
    unfolding ifaces_ok_def
  proof (intro allI impI)
    fix a j
    assume j: "cn_ifaces ?c a = Some j"
    have old: "if_ref x = int (ext a + card (users c a)) \<and> (if_freed x = (if_ref x = 0))" if "cn_ifaces c a = Some x" for x
      using linksD(1)[OF l] that by (auto simp: ifaces_ok_def)
    show "if_ref j = int (ext a + card (users ?c a)) \<and> (if_freed j = (if_ref j = 0))"
      using j old iface card by (auto simp: users_unbound[OF l b] released_iface_freed split: if_splits)
  qed
  show "finite (dom (cn_binds ?c))" using linksD(2)[OF l] by simp
  show "K \<subseteq> dom (cn_binds ?c)" using linksD(3)[OF l] k by auto
  show "bind_ok Z K ?c j x" if "cn_binds ?c j = Some x" for j x
    using that linksD(4)[OF l, of j x] by (auto simp: bind_ok_def names split: if_splits)
  show "table_ok K ?c q x" if "cn_paths ?c q = Some x" "q \<notin> Z" for q x
    using linksD(5)[OF l, of q x] that by (fastforce simp: table_ok_def names)
qed (use linksD(6)[OF l] in simp)

text \<open>Removing all interfaces of an object.\<close>

lemma clear_release:
  assumes "cn_binds c k = Some b" "get_iface (bd_interface b) c = Inr i"
  shows "bindr (clear_path k c) (release_bind k) = Inr (unbound k b i c)"
  using assms by (simp add: clear_path_def get_bind_def release_bind_eq[of _ k "b\<lparr>bd_path := None\<rparr>" i]
      get_iface_def unbound_def release_calls_def cong: option.case_cong)

lemma set_obj_unbound: "set_obj p ob (unbound k b i c) = unbound k b i (set_obj p ob c)"
  by (rule adbus_Connection.equality) (simp_all add: set_obj_def unbound_def)

definition same_rest :: "adbus_Connection \<Rightarrow> adbus_Connection \<Rightarrow> bool" where
  "same_rest c c' \<longleftrightarrow> iname c' = iname c \<and> cn_nextBind c' = cn_nextBind c
     \<and> cn_introspectable c' = cn_introspectable c \<and> cn_properties c' = cn_properties c"

lemma same_rest_trans: "same_rest c c' \<Longrightarrow> same_rest c' c'' \<Longrightarrow> same_rest c c''"
  by (simp add: same_rest_def)

lemma same_rest_simps [simp]:
  "same_rest c c" "same_rest c (set_obj p ob c)" "cn_ifaces c (bd_interface b) = Some i \<Longrightarrow> same_rest c (unbound k b i c)"
  by (simp_all add: same_rest_def)

lemma remove_builtins_ok:
  assumes "links ext Z K c" "cn_paths c p = Some ob" "p \<notin> Z" "op_interfaces ob = is"
    and "\<forall>k b. k \<in> snd ` set is \<longrightarrow> cn_binds c k = Some b \<longrightarrow> release_calls b = [] \<and> ext (bd_interface b) > 0 \<and> bd_interface b \<in> B"
  shows "\<exists>c'. remove_builtins p is c = Inr c' \<and> links ext Z K c' \<and> same_rest c c' \<and> cn_released c' = cn_released c
     \<and> (\<forall>a. a \<notin> B \<longrightarrow> cn_ifaces c' a = cn_ifaces c a)
     \<and> cn_paths c' = (cn_paths c)(p \<mapsto> ob\<lparr>op_interfaces := []\<rparr>)
     \<and> cn_binds c' = cn_binds c |` (- snd ` set is)"
  using assms
proof (induction "is" arbitrary: c ob)
  case Nil
  then show ?case by (auto intro!: exI[of _ c])
next
  case (Cons nk "is")
  obtain n k where nk: "nk = (n, k)" by fastforce
  have t: "table_ok K c p ob" by (rule linksD(5)[OF Cons.prems(1-3)])
  have m: "(n, k) \<in> set (op_interfaces ob)" using Cons.prems(4) nk by simp
  obtain b where b: "cn_binds c k = Some b" using t m unfolding table_ok_def by blast
  obtain i where i: "get_iface (bd_interface b) c = Inr i" "if_ref i = int (ext (bd_interface b) + card (users c (bd_interface b)))"
    using links_iface[OF Cons.prems(1) b] by blast
  have "card (users c (bd_interface b)) > 0"
    using b finite_users[OF linksD(2)[OF Cons.prems(1)], of "bd_interface b"] by (auto simp: card_gt_0_iff users_def)
  moreover have bq: "release_calls b = []" "ext (bd_interface b) > 0" "bd_interface b \<in> B" using Cons.prems(5) b nk by auto
  ultimately have quiet: "release_calls b = []" "fst (adbus_iface_deref i) = []"
    using i(2) by (simp_all add: adbus_iface_deref_def Let_def)
  have kK: "k \<notin> K" using t m unfolding table_ok_def by blast
  have del: "AList.delete n (op_interfaces ob) = is"
    using t unfolding table_ok_def Cons.prems(4) nk by (force simp: AList.delete_eq filter_id_conv)
  let ?ob = "ob\<lparr>op_interfaces := is\<rparr>"
  have "links ext Z (insert k K) (set_obj p ?ob c)" using links_del[OF Cons.prems(1-3) m] by (simp add: del)
  from links_unbound[OF this kK, of b i] b i(1)
  have l: "links ext Z K (unbound k b i (set_obj p ?ob c))" by (simp add: get_iface_def)
  have step: "remove_builtins p (nk # is) c = remove_builtins p is (unbound k b i (set_obj p ?ob c))"
    using clear_release[OF b i(1)] Cons.prems(2)
    by (simp add: nk bindr_assoc[symmetric])
      (simp add: del_iface_def get_obj_def del set_obj_unbound)
  have p: "cn_paths (unbound k b i (set_obj p ?ob c)) p = Some ?ob" by simp
  have iface: "op_interfaces ?ob = is" by simp
  have q: "\<forall>j x. j \<in> snd ` set is \<longrightarrow> cn_binds (unbound k b i (set_obj p ?ob c)) j = Some x
      \<longrightarrow> release_calls x = [] \<and> ext (bd_interface x) > 0 \<and> bd_interface x \<in> B"
    using Cons.prems(5) by (auto split: if_splits)
  obtain c' where c': "remove_builtins p is (unbound k b i (set_obj p ?ob c)) = Inr c'" "links ext Z K c'"
    "same_rest (unbound k b i (set_obj p ?ob c)) c'" "cn_released c' = cn_released (unbound k b i (set_obj p ?ob c))"
    "cn_paths c' = (cn_paths (unbound k b i (set_obj p ?ob c)))(p \<mapsto> ?ob\<lparr>op_interfaces := []\<rparr>)"
    "\<forall>a. a \<notin> B \<longrightarrow> cn_ifaces c' a = cn_ifaces (unbound k b i (set_obj p ?ob c)) a"
    "cn_binds c' = cn_binds (unbound k b i (set_obj p ?ob c)) |` (- snd ` set is)"
    using Cons.IH[OF l p Cons.prems(3) iface q] by blast
  have "same_rest c c'"
    using c'(3) i(1) by (simp add: same_rest_def get_iface_eq)
  moreover have "cn_binds c' = cn_binds c |` (- snd ` set (nk # is))"
    unfolding c'(7) by (auto simp: restrict_map_def nk fun_eq_iff)
  moreover have "cn_paths c' = (cn_paths c)(p \<mapsto> ob\<lparr>op_interfaces := []\<rparr>)" by (simp add: c'(5))
  moreover have "cn_released c' = cn_released c" by (simp add: c'(4) unbound_def quiet)
  moreover have "\<forall>a. a \<notin> B \<longrightarrow> cn_ifaces c' a = cn_ifaces c a" using c'(6) bq(3) by auto
  ultimately show ?case using c'(1,2) step by metis
qed

text \<open>An object without interfaces on its way out.\<close>

lemma links_zombie:
  assumes l: "links ext Z K c" and p: "cn_paths c p = Some ob" "op_interfaces ob = []"
  shows "links ext (insert p Z) K c"
proof (rule linksI)
  show "bind_ok (insert p Z) K c k b" if "cn_binds c k = Some b" for k b
    using linksD(4)[OF l that] p unfolding bind_ok_def by fastforce
qed (use linksD[OF l] p in auto)

lemma links_free_object:
  assumes l: "links ext (insert p Z) K c" and p: "p \<notin> Z"
  shows "adbusI_freeObjectPath p c = Inr (c\<lparr>cn_paths := (cn_paths c)(p := None)\<rparr>)
    \<and> links ext Z K (c\<lparr>cn_paths := (cn_paths c)(p := None)\<rparr>)" (is "?f \<and> links ext Z K ?c")
proof
  obtain ob where ob: "cn_paths c p = Some ob" "op_interfaces ob = []" using linksD(6)[OF l, of p] by auto
  then show ?f by (simp add: adbusI_freeObjectPath_def get_obj_def)
  have n: "iname ?c = iname c" "users ?c = users c" by (auto simp: iname_def users_def fun_eq_iff)
  show "links ext Z K ?c"
  proof (rule linksI)
    show "ifaces_ok ext ?c" using linksD(1)[OF l] n by (simp add: ifaces_ok_def)
    show "bind_ok Z K ?c k b" if "cn_binds ?c k = Some b" for k b
      using linksD(4)[OF l, of k b] that unfolding bind_ok_def n by fastforce
    show "table_ok K ?c q x" if "cn_paths ?c q = Some x" "q \<notin> Z" for q x
      using linksD(5)[OF l, of q x] that by (auto simp: table_ok_def n split: if_splits)
    show "\<exists>x. cn_paths ?c q = Some x \<and> op_interfaces x = []" if "q \<in> Z" for q
      using linksD(6)[OF l, of q] that p by auto
  qed (use linksD(2,3)[OF l] in simp_all)
qed

section \<open>The invariant of the tree\<close>

text \<open>
  \<open>U\<close> are the objects that are not linked to their parent yet. The two built-in interfaces have different names and a
  reference of the connection.
\<close>

definition builtin_names :: "adbus_Connection \<Rightarrow> string set" where
  "builtin_names c = {n. iname c (cn_introspectable c) = Some n \<or> iname c (cn_properties c) = Some n}"

definition builtins_ok :: "(nat \<Rightarrow> nat) \<Rightarrow> adbus_Connection \<Rightarrow> bool" where
  "builtins_ok ext c \<longleftrightarrow> iname c (cn_introspectable c) \<noteq> None \<and> iname c (cn_properties c) \<noteq> None
     \<and> iname c (cn_introspectable c) \<noteq> iname c (cn_properties c)
     \<and> ext (cn_introspectable c) > 0 \<and> ext (cn_properties c) > 0"

definition place_ok :: "string set \<Rightarrow> string set \<Rightarrow> adbus_Connection \<Rightarrow> string \<Rightarrow> ObjectPath \<Rightarrow> bool" where
  "place_ok Z U c p ob \<longleftrightarrow> adbusI_isValidObjectPath (Some p) \<and> builtin_names c \<subseteq> fst ` set (op_interfaces ob)
     \<and> (if p \<in> U then op_parent ob = None else adbusI_parentPath p = Inr (op_parent ob))
     \<and> distinct (op_children ob)
     \<and> (\<forall>q. q \<in> set (op_children ob) \<longleftrightarrow> q \<notin> Z \<and> (\<exists>x. cn_paths c q = Some x \<and> op_parent x = Some p))
     \<and> (\<forall>q. op_parent ob = Some q \<longrightarrow> q \<notin> Z \<and> q \<in> dom (cn_paths c))"

definition tree :: "string set \<Rightarrow> string set \<Rightarrow> adbus_Connection \<Rightarrow> bool" where
  "tree Z U c \<longleftrightarrow> (\<forall>p ob. cn_paths c p = Some ob \<longrightarrow> p \<notin> Z \<longrightarrow> place_ok Z U c p ob)"

definition busy :: "ObjectPath \<Rightarrow> bool" where
  "busy ob \<longleftrightarrow> length (op_interfaces ob) > 2 \<or> op_children ob \<noteq> []"

text \<open>Every object but those in \<open>D\<close> has an interface that is not built in, or children.\<close>

definition all_busy :: "string set \<Rightarrow> adbus_Connection \<Rightarrow> bool" where
  "all_busy D c \<longleftrightarrow> (\<forall>p ob. cn_paths c p = Some ob \<longrightarrow> p \<notin> D \<longrightarrow> busy ob)"

lemma parent_differs: "adbusI_parentPath p = Inr (Some q) \<Longrightarrow> q \<noteq> p"
  using parentPath_shorter by auto

lemma treeD: "tree Z U c \<Longrightarrow> cn_paths c p = Some ob \<Longrightarrow> p \<notin> Z \<Longrightarrow> place_ok Z U c p ob"
  by (simp add: tree_def)

lemma parent_of_object:
  "tree Z U c \<Longrightarrow> cn_paths c p = Some ob \<Longrightarrow> p \<notin> Z \<Longrightarrow> op_parent ob = Some q \<Longrightarrow> adbusI_parentPath p = Inr (Some q)"
  using treeD[of Z U c p ob] by (simp add: place_ok_def split: if_splits)

lemma builtin_names_cong: "same_rest c c' \<Longrightarrow> builtin_names c' = builtin_names c"
  by (simp add: builtin_names_def same_rest_def)

lemma builtins_ok_cong: "same_rest c c' \<Longrightarrow> builtins_ok ext c' = builtins_ok ext c"
  by (simp add: builtins_ok_def same_rest_def)

lemma tree_new_object:
  assumes t: "tree Z U c" and p: "cn_paths c p = None" "p \<notin> Z" "adbusI_isValidObjectPath (Some p)"
    and c': "cn_paths c' = (cn_paths c)(p \<mapsto> ob)" "builtin_names c' = builtin_names c"
    and ob: "builtin_names c \<subseteq> fst ` set (op_interfaces ob)" "op_children ob = []" "op_parent ob = None"
  shows "tree Z (insert p U) c'"
  unfolding tree_def
proof (intro allI impI)
  fix q x
  assume q: "cn_paths c' q = Some x" "q \<notin> Z"
  have np: "\<not> (\<exists>r y. r \<notin> Z \<and> cn_paths c r = Some y \<and> op_parent y = Some p)"
    using t p unfolding tree_def place_ok_def by blast
  show "place_ok Z (insert p U) c' q x"
  proof (cases "q = p")
    case True
    then show ?thesis using q(1) p ob np unfolding place_ok_def c' by auto
  next
    case False
    with q c' have "place_ok Z U c q x" using t by (simp add: tree_def)
    with False p ob show ?thesis unfolding place_ok_def c' by auto
  qed
qed

lemma tree_cong: "cn_paths c' = cn_paths c \<Longrightarrow> builtin_names c' = builtin_names c \<Longrightarrow> tree Z U c' = tree Z U c"
  by (simp add: tree_def place_ok_def)

text \<open>A change of the tables only.\<close>

lemma tree_same_shape:
  assumes t: "tree Z U c" and bn: "builtin_names c' = builtin_names c"
    and x: "\<And>q x. cn_paths c' q = Some x \<Longrightarrow> \<exists>y. cn_paths c q = Some y \<and> op_children x = op_children y
      \<and> (builtin_names c \<subseteq> fst ` set (op_interfaces y) \<longrightarrow> builtin_names c \<subseteq> fst ` set (op_interfaces x))"
    and par: "\<And>q. map_option op_parent (cn_paths c' q) = map_option op_parent (cn_paths c q)"
  shows "tree Z U c'"
  unfolding tree_def
proof (intro allI impI)
  fix q x
  assume q: "cn_paths c' q = Some x" "q \<notin> Z"
  from assms(3)[OF q(1)] obtain y where y: "cn_paths c q = Some y" "op_children x = op_children y"
    "builtin_names c \<subseteq> fst ` set (op_interfaces y) \<longrightarrow> builtin_names c \<subseteq> fst ` set (op_interfaces x)" by blast
  have p: "op_parent x = op_parent y" using par[of q] q(1) y(1) by simp
  have "(\<exists>z. cn_paths c' s = Some z \<and> op_parent z = r) = (\<exists>z. cn_paths c s = Some z \<and> op_parent z = r)" for s r
    using par[of s] by (cases "cn_paths c s"; cases "cn_paths c' s") auto
  moreover have "dom (cn_paths c') = dom (cn_paths c)" using par unfolding dom_def by (metis option.map_disc_iff)
  ultimately show "place_ok Z U c' q x"
    using treeD[OF t y(1) q(2)] y(2,3) p unfolding place_ok_def bn by auto
qed

lemma tree_root:
  assumes t: "tree Z (insert p U) c" and r: "adbusI_parentPath p = Inr None"
  shows "tree Z U c"
  unfolding tree_def
proof (intro allI impI)
  fix q x
  assume "cn_paths c q = Some x" "q \<notin> Z"
  from treeD[OF t this] r show "place_ok Z U c q x" by (auto simp: place_ok_def split: if_splits)
qed

lemma tree_link:
  assumes t: "tree Z (insert p U) c" and p: "p \<notin> U" "p \<notin> Z" "cn_paths c p = Some ob" and par: "adbusI_parentPath p = Inr (Some q)"
    and q: "cn_paths c q = Some x" "q \<notin> Z"
  shows "\<exists>c'. link_parent p q c = Inr c' \<and> tree Z U c' \<and> same_rest c c'
    \<and> cn_binds c' = cn_binds c \<and> cn_ifaces c' = cn_ifaces c \<and> cn_released c' = cn_released c
    \<and> cn_paths c' = (cn_paths c)(p \<mapsto> ob\<lparr>op_parent := Some q\<rparr>, q \<mapsto> x\<lparr>op_children := op_children x @ [p]\<rparr>)"
proof -
  let ?c = "set_obj q (x\<lparr>op_children := op_children x @ [p]\<rparr>) (set_obj p (ob\<lparr>op_parent := Some q\<rparr>) c)"
  have pq: "q \<noteq> p" by (rule parent_differs[OF par])
  have l: "link_parent p q c = Inr ?c"
    using p(3) q(1) pq by (simp add: link_parent_def get_obj_def)
  have sr: "same_rest c ?c" by (simp add: same_rest_def)
  have none: "op_parent ob = None" using treeD[OF t p(3,2)] by (simp add: place_ok_def)
  then have np: "p \<notin> set (op_children y)" if "cn_paths c r = Some y" "r \<notin> Z" for r y
    using treeD[OF t that] p(3) by (auto simp: place_ok_def)
  have "tree Z U ?c"
    unfolding tree_def
  proof (intro allI impI)
    fix r y
    assume r: "cn_paths ?c r = Some y" "r \<notin> Z"
    obtain y0 where y0: "cn_paths c r = Some y0" "op_interfaces y = op_interfaces y0"
      "op_children y = op_children y0 @ (if r = q then [p] else [])"
      "op_parent y = (if r = p then Some q else op_parent y0)"
      using r p(3) q(1) pq by (auto split: if_splits)
    have ok: "place_ok Z (insert p U) c r y0" by (rule treeD[OF t y0(1) r(2)])
    have par': "if r \<in> U then op_parent y = None else adbusI_parentPath r = Inr (op_parent y)"
      using ok par p(1) unfolding place_ok_def y0(4) by (auto split: if_splits)
    have ch: "(s \<in> set (op_children y)) = (s \<notin> Z \<and> (\<exists>z. cn_paths ?c s = Some z \<and> op_parent z = Some r))" for s
      using ok np[OF y0(1) r(2)] p(2,3) q(1) none pq unfolding place_ok_def y0(3) by (cases "s = p"; cases "s = q") auto
    show "place_ok Z U ?c r y"
      unfolding place_ok_def builtin_names_cong[OF sr]
      using ok par' ch q y0(2) np[OF y0(1) r(2)] unfolding place_ok_def y0(3,4) by (auto split: if_splits)
  qed
  then show ?thesis using l sr by auto
qed

text \<open>The binds of the built-in interfaces have no release callbacks.\<close>

definition quiet :: "adbus_Connection \<Rightarrow> bool" where
  "quiet c \<longleftrightarrow> (\<forall>k b n. cn_binds c k = Some b \<longrightarrow> iname c (bd_interface b) = Some n \<longrightarrow> n \<in> builtin_names c \<longrightarrow>
     release_calls b = [] \<and> bd_interface b \<in> {cn_introspectable c, cn_properties c})"

text \<open>The binds of the application.\<close>

definition user_binds :: "adbus_Connection \<Rightarrow> nat set" where
  "user_binds c = {k. \<exists>b n. cn_binds c k = Some b \<and> iname c (bd_interface b) = Some n \<and> n \<notin> builtin_names c}"

definition conn_inv :: "(nat \<Rightarrow> nat) \<Rightarrow> string set \<Rightarrow> nat set \<Rightarrow> string set \<Rightarrow> adbus_Connection \<Rightarrow> bool" where
  "conn_inv ext Z K U c \<longleftrightarrow> links ext Z K c \<and> tree Z U c \<and> builtins_ok ext c \<and> quiet c"

lemma conn_invD:
  assumes "conn_inv ext Z K U c"
  shows "links ext Z K c" "tree Z U c" "builtins_ok ext c" "quiet c"
  using assms by (simp_all add: conn_inv_def)

lemma quiet_mono:
  assumes q: "quiet c" and sr: "same_rest c c'" and le: "cn_binds c' \<subseteq>\<^sub>m cn_binds c"
  shows "quiet c'"
proof -
  have "cn_binds c k = Some b" if "cn_binds c' k = Some b" for k b using le that by (metis domI map_le_def)
  then show ?thesis
    using q sr unfolding quiet_def builtin_names_cong[OF sr] by (simp add: same_rest_def) blast
qed

lemma builtin_names_card: "builtins_ok ext c \<Longrightarrow> card (builtin_names c) = 2 \<and> finite (builtin_names c)"
proof -
  assume "builtins_ok ext c"
  then obtain m n where mn: "iname c (cn_introspectable c) = Some m" "iname c (cn_properties c) = Some n" "m \<noteq> n"
    by (auto simp: builtins_ok_def)
  then have "builtin_names c = {m, n}" by (auto simp: builtin_names_def)
  then show ?thesis using mn(3) by simp
qed

text \<open>An object that is not busy only has the built-in interfaces.\<close>

lemma idle_builtin:
  assumes inv: "conn_inv ext Z K U c" and p: "cn_paths c p = Some ob" "p \<notin> Z" and i: "\<not> busy ob"
  shows "fst ` set (op_interfaces ob) = builtin_names c"
proof -
  have d: "distinct (map fst (op_interfaces ob))" using linksD(5)[OF conn_invD(1)[OF inv] p] by (simp add: table_ok_def)
  have s: "builtin_names c \<subseteq> fst ` set (op_interfaces ob)" using treeD[OF conn_invD(2)[OF inv] p] by (simp add: place_ok_def)
  have "card (fst ` set (op_interfaces ob)) \<le> 2" using i distinct_card[OF d] by (simp add: busy_def)
  then show ?thesis using s builtin_names_card[OF conn_invD(3)[OF inv]] by (metis List.finite_set card_seteq finite_imageI)
qed

lemma idle_quiet:
  assumes inv: "conn_inv ext Z K U c" and p: "cn_paths c p = Some ob" "p \<notin> Z" "\<not> busy ob"
    and k: "k \<in> snd ` set (op_interfaces ob)" "cn_binds c k = Some b"
  shows "release_calls b = [] \<and> ext (bd_interface b) > 0 \<and> bd_interface b \<in> {cn_introspectable c, cn_properties c}"
    "k \<notin> user_binds c" "k \<notin> K"
proof -
  obtain n where n: "(n, k) \<in> set (op_interfaces ob)" using k(1) by auto
  then have nb: "n \<in> builtin_names c" using idle_builtin[OF inv p] by force
  have t: "table_ok K c p ob" by (rule linksD(5)[OF conn_invD(1)[OF inv] p(1,2)])
  then have i: "iname c (bd_interface b) = Some n" using n k(2) unfolding table_ok_def by (metis option.inject)
  show "k \<notin> K" using t n unfolding table_ok_def by blast
  show "k \<notin> user_binds c" using i nb k(2) by (simp add: user_binds_def)
  show "release_calls b = [] \<and> ext (bd_interface b) > 0 \<and> bd_interface b \<in> {cn_introspectable c, cn_properties c}"
    using conn_invD(3,4)[OF inv] i nb k(2) unfolding quiet_def builtins_ok_def by fastforce
qed

lemma tree_kill:
  assumes t: "tree Z {} c" and p: "cn_paths c p = Some ob" "p \<notin> Z" "op_children ob = []"
    and c1: "cn_paths c1 = (cn_paths c)(p \<mapsto> ob\<lparr>op_interfaces := []\<rparr>)" "same_rest c c1"
  shows "\<exists>c'. unlink_parent p (op_parent ob) c1 = Inr c' \<and> tree (insert p Z) {} c' \<and> same_rest c1 c'
     \<and> cn_binds c' = cn_binds c1 \<and> cn_ifaces c' = cn_ifaces c1 \<and> cn_released c' = cn_released c1
     \<and> (\<forall>q. map_option op_interfaces (cn_paths c' q) = map_option op_interfaces (cn_paths c1 q))
     \<and> (\<forall>q. Some q \<noteq> op_parent ob \<longrightarrow> cn_paths c' q = cn_paths c1 q)"
proof -
  let ?rm = "\<lambda>q x. x\<lparr>op_children := if Some q = op_parent ob then remove1 p (op_children x) else op_children x\<rparr>"
  have ok: "place_ok Z {} c p ob" by (rule treeD[OF t p(1,2)])
  have pq: "Some p \<noteq> op_parent ob" using parent_of_object[OF t p(1,2), of p] parent_differs[of p p] by auto
  obtain c' where c': "unlink_parent p (op_parent ob) c1 = Inr c'" "same_rest c1 c'" "cn_binds c' = cn_binds c1"
    "cn_ifaces c' = cn_ifaces c1" "cn_released c' = cn_released c1"
    "\<And>q. cn_paths c' q = map_option (?rm q) (cn_paths c1 q)"
  proof (cases "op_parent ob")
    case None
    then show ?thesis using that[of c1] by (simp add: unlink_parent_def option.map_ident)
  next
    case (Some q)
    then obtain x where x: "cn_paths c1 q = Some x" using ok pq c1 by (auto simp: place_ok_def)
    then show ?thesis using that[of "set_obj q (x\<lparr>op_children := remove1 p (op_children x)\<rparr>) c1"] Some
      by (simp add: unlink_parent_def get_obj_def option.map_ident)
  qed
  have "tree (insert p Z) {} c'"
    unfolding tree_def
  proof (intro allI impI)
    fix r y
    assume r: "cn_paths c' r = Some y" "r \<notin> insert p Z"
    then obtain y0 where y0: "cn_paths c r = Some y0" "y = ?rm r y0" using c'(6)[of r] c1(1) by auto
    have okr: "place_ok Z {} c r y0" using treeD[OF t y0(1)] r(2) by simp
    then have d: "distinct (op_children y0)" by (simp add: place_ok_def)
    have old: "(\<exists>z. cn_paths c' s = Some z \<and> op_parent z = Some r) \<longleftrightarrow> (\<exists>z. cn_paths c s = Some z \<and> op_parent z = Some r)" for s
      using p(1) unfolding c'(6) c1(1) by (cases "s = p"; cases "cn_paths c s") auto
    have mem: "(s \<in> set (op_children y)) = (s \<notin> insert p Z \<and> (\<exists>z. cn_paths c' s = Some z \<and> op_parent z = Some r))" for s
      using okr d p(1,2) unfolding old y0(2) place_ok_def by (cases "s = p") auto
    have dom: "dom (cn_paths c') = dom (cn_paths c)" using p(1) c1(1) by (auto simp: c'(6) split: if_splits)
    have np: "op_parent y0 \<noteq> Some p" using ok p(3) y0(1) r(2) by (auto simp: place_ok_def)
    show "place_ok (insert p Z) {} c' r y"
      unfolding place_ok_def builtin_names_cong[OF same_rest_trans[OF c1(2) c'(2)]] dom
      using okr mem d np unfolding y0(2) place_ok_def by auto
  qed
  moreover have "map_option op_interfaces (cn_paths c' q) = map_option op_interfaces (cn_paths c1 q)" for q
    by (simp add: c'(6) option.map_comp comp_def)
  moreover have "cn_paths c' q = cn_paths c1 q" if "Some q \<noteq> op_parent ob" for q
    using that by (simp add: c'(6) option.map_ident)
  ultimately show ?thesis using c'(1-5) by blast
qed

text \<open>Taking an idle object out of the tree.\<close>

lemma strip_ok:
  assumes inv: "conn_inv ext Z K {} c" and p: "cn_paths c p = Some ob" "p \<notin> Z" and idle: "\<not> busy ob"
    and b: "all_busy (insert p Z) c"
  shows "\<exists>c'. bindr (remove_builtins p (op_interfaces ob) c) (unlink_parent p (op_parent ob)) = Inr c'
     \<and> conn_inv ext (insert p Z) K {} c' \<and> same_rest c c' \<and> cn_released c' = cn_released c
     \<and> (\<forall>a. a \<notin> {cn_introspectable c, cn_properties c} \<longrightarrow> cn_ifaces c' a = cn_ifaces c a)
     \<and> cn_binds c' = cn_binds c |` (- snd ` set (op_interfaces ob))
     \<and> all_busy (insert p Z \<union> set_option (op_parent ob)) c' \<and> dom (cn_paths c') = dom (cn_paths c)"
proof -
  note l = conn_invD(1)[OF inv] and t = conn_invD(2)[OF inv]
  have ch: "op_children ob = []" using idle by (simp add: busy_def)
  have q: "\<forall>k b. k \<in> snd ` set (op_interfaces ob) \<longrightarrow> cn_binds c k = Some b \<longrightarrow>
      release_calls b = [] \<and> ext (bd_interface b) > 0 \<and> bd_interface b \<in> {cn_introspectable c, cn_properties c}"
    using idle_quiet(1)[OF inv p idle] by blast
  obtain c1 where c1: "remove_builtins p (op_interfaces ob) c = Inr c1" "links ext Z K c1" "same_rest c c1"
    "cn_released c1 = cn_released c" "cn_paths c1 = (cn_paths c)(p \<mapsto> ob\<lparr>op_interfaces := []\<rparr>)"
    "cn_binds c1 = cn_binds c |` (- snd ` set (op_interfaces ob))"
    "\<forall>a. a \<notin> {cn_introspectable c, cn_properties c} \<longrightarrow> cn_ifaces c1 a = cn_ifaces c a"
    using remove_builtins_ok[OF l p refl q] by blast
  obtain c' where c': "unlink_parent p (op_parent ob) c1 = Inr c'" "tree (insert p Z) {} c'" "same_rest c1 c'"
    "cn_binds c' = cn_binds c1" "cn_ifaces c' = cn_ifaces c1" "cn_released c' = cn_released c1"
    "\<And>q. map_option op_interfaces (cn_paths c' q) = map_option op_interfaces (cn_paths c1 q)"
    "\<And>q. Some q \<noteq> op_parent ob \<Longrightarrow> cn_paths c' q = cn_paths c1 q"
    using tree_kill[OF t p ch c1(5,3)] by blast
  have sr: "same_rest c c'" by (rule same_rest_trans[OF c1(3) c'(3)])
  have "links ext Z K c'"
    using links_same_tables[OF c1(2) c'(4,5) _ c'(7)] c'(3) by (simp add: same_rest_def)
  moreover obtain x where "cn_paths c' p = Some x" "op_interfaces x = []" using c'(7)[of p] c1(5) by auto
  ultimately have "links ext (insert p Z) K c'" by (rule links_zombie)
  moreover have "builtins_ok ext c'" using conn_invD(3)[OF inv] builtins_ok_cong[OF sr] by simp
  moreover have "quiet c'"
    using quiet_mono[OF conn_invD(4)[OF inv] sr] c'(4) c1(6) by (simp add: map_le_def)
  ultimately have "conn_inv ext (insert p Z) K {} c'" using c'(2) by (simp add: conn_inv_def)
  moreover have "all_busy (insert p Z \<union> set_option (op_parent ob)) c'"
    using b c'(8) c1(5) by (force simp: all_busy_def)
  moreover have "dom (cn_paths c') = dom (cn_paths c)"
  proof -
    have "(cn_paths c' q = None) = (cn_paths c1 q = None)" for q using c'(7)[of q] by (metis option.map_disc_iff)
    then show ?thesis using p(1) c1(5) by (auto simp: dom_def)
  qed
  ultimately show ?thesis using c1(1,4,6,7) c'(1,4,5,6) sr by auto
qed

lemma conn_inv_free_object:
  assumes inv: "conn_inv ext (insert p Z) K {} c" and p: "p \<notin> Z" and b: "all_busy (insert p Z) c"
  defines "c' \<equiv> c\<lparr>cn_paths := (cn_paths c)(p := None)\<rparr>"
  shows "adbusI_freeObjectPath p c = Inr c' \<and> conn_inv ext Z K {} c' \<and> all_busy Z c'"
proof -
  have sr: "same_rest c c'" by (auto simp: same_rest_def c'_def iname_def)
  have "tree Z {} c'"
    unfolding tree_def
  proof (intro allI impI)
    fix q x
    assume q: "cn_paths c' q = Some x" "q \<notin> Z"
    then have "place_ok (insert p Z) {} c q x"
      using treeD[OF conn_invD(2)[OF inv]] by (auto simp: c'_def split: if_splits)
    then show "place_ok Z {} c' q x"
      unfolding place_ok_def builtin_names_cong[OF sr] by (auto simp: c'_def)
  qed
  moreover have "quiet c'" using quiet_mono[OF conn_invD(4)[OF inv] sr] by (simp add: c'_def)
  moreover have "builtins_ok ext c'" using conn_invD(3)[OF inv] builtins_ok_cong[OF sr] by simp
  moreover have "all_busy Z c'" using b by (auto simp: all_busy_def c'_def)
  ultimately show ?thesis
    using links_free_object[OF conn_invD(1)[OF inv] p] by (auto simp: conn_inv_def c'_def)
qed

text \<open>Pruning ends and leaves a tree of busy objects. It frees binds of built-in interfaces only.\<close>

definition keeps :: "nat set \<Rightarrow> adbus_Connection \<Rightarrow> adbus_Connection \<Rightarrow> bool" where
  "keeps K c c' \<longleftrightarrow> same_rest c c' \<and> cn_released c' = cn_released c \<and> cn_binds c' \<subseteq>\<^sub>m cn_binds c
     \<and> (\<forall>a. a \<notin> {cn_introspectable c, cn_properties c} \<longrightarrow> cn_ifaces c' a = cn_ifaces c a)
     \<and> (\<forall>k \<in> user_binds c \<union> K. cn_binds c' k = cn_binds c k)"

lemma keeps_refl [simp]: "keeps K c c"
  by (simp add: keeps_def)

lemma keeps_trans:
  assumes "keeps K c c'" "keeps K c' c''"
  shows "keeps K c c''"
proof -
  have "user_binds c \<subseteq> user_binds c'"
    using assms(1) builtin_names_cong[of c c'] by (auto simp: keeps_def user_binds_def same_rest_def)
  then show ?thesis
    using assms unfolding keeps_def by (auto intro: same_rest_trans map_le_trans simp: same_rest_def)
qed

lemma keeps_user_binds:
  assumes "keeps K c c'"
  shows "user_binds c' = user_binds c"
proof (rule set_eqI)
  fix k
  have n: "builtin_names c' = builtin_names c" "iname c' = iname c"
    using assms builtin_names_cong[of c c'] by (simp_all add: keeps_def same_rest_def)
  have le: "cn_binds c k = Some b" if "cn_binds c' k = Some b" for b
    using assms that unfolding keeps_def map_le_def by (metis domI)
  have ge: "cn_binds c' k = Some b" if "cn_binds c k = Some b" "k \<in> user_binds c" for b
    using assms that by (simp add: keeps_def)
  show "k \<in> user_binds c' \<longleftrightarrow> k \<in> user_binds c"
    using le ge unfolding user_binds_def mem_Collect_eq n by metis
qed

lemma CheckRemoveObject_ok:
  assumes "conn_inv ext Z K {} c" "p \<notin> Z" "p \<in> dom (cn_paths c)" "all_busy (insert p Z) c"
  shows "\<exists>c'. CheckRemoveObject p c = Some (Inr c') \<and> conn_inv ext Z K {} c' \<and> all_busy Z c' \<and> keeps K c c'"
  using assms
proof (induction "length p" arbitrary: p Z c rule: less_induct)
  case less
  note inv = less.prems(1)
  obtain ob where ob: "cn_paths c p = Some ob" using less.prems(3) by auto
  show ?case
  proof (cases "busy ob")
    case True
    then have "all_busy Z c" using less.prems(4) ob unfolding all_busy_def by (metis insertE option.inject)
    moreover have "CheckRemoveObject p c = Some (Inr c)"
      using True ob by (subst CheckRemoveObject.simps) (auto simp: get_obj_def busy_def)
    ultimately show ?thesis using inv by auto
  next
    case False
    obtain c1 where c1: "bindr (remove_builtins p (op_interfaces ob) c) (unlink_parent p (op_parent ob)) = Inr c1"
      "conn_inv ext (insert p Z) K {} c1" "same_rest c c1" "cn_released c1 = cn_released c"
      "cn_binds c1 = cn_binds c |` (- snd ` set (op_interfaces ob))"
      "all_busy (insert p Z \<union> set_option (op_parent ob)) c1" "dom (cn_paths c1) = dom (cn_paths c)"
      "\<forall>a. a \<notin> {cn_introspectable c, cn_properties c} \<longrightarrow> cn_ifaces c1 a = cn_ifaces c a"
      using strip_ok[OF inv ob less.prems(2) False less.prems(4)] by blast
    have "cn_binds c1 k = cn_binds c k" if k: "k \<in> user_binds c \<union> K" for k
    proof -
      obtain b where "cn_binds c k = Some b"
        using k linksD(3)[OF conn_invD(1)[OF inv]] by (auto simp: user_binds_def)
      then have "k \<notin> snd ` set (op_interfaces ob)"
        using idle_quiet(2,3)[OF inv ob less.prems(2) False] k by blast
      then show ?thesis by (simp add: c1(5))
    qed
    then have k1: "keeps K c c1" using c1(3-5,8) by (simp add: keeps_def map_le_def)
    have up: "\<exists>c2. (case op_parent ob of None \<Rightarrow> Some (Inr c1) | Some q \<Rightarrow> CheckRemoveObject q c1) = Some (Inr c2)
        \<and> conn_inv ext (insert p Z) K {} c2 \<and> all_busy (insert p Z) c2 \<and> keeps K c1 c2"
    proof (cases "op_parent ob")
      case None
      then show ?thesis using c1(2,6) by simp
    next
      case (Some q)
      have q: "adbusI_parentPath p = Inr (Some q)" by (rule parent_of_object[OF conn_invD(2)[OF inv] ob less.prems(2) Some])
      have "q \<notin> Z" "q \<in> dom (cn_paths c)"
        using treeD[OF conn_invD(2)[OF inv] ob less.prems(2)] Some by (auto simp: place_ok_def)
      then show ?thesis
        using less.hyps[OF parentPath_shorter[OF q] c1(2)] parent_differs[OF q] c1(6,7) Some by (simp add: insert_commute)
    qed
    then obtain c2 where c2: "(case op_parent ob of None \<Rightarrow> Some (Inr c1) | Some q \<Rightarrow> CheckRemoveObject q c1) = Some (Inr c2)"
      "conn_inv ext (insert p Z) K {} c2" "all_busy (insert p Z) c2" "keeps K c1 c2" by blast
    note f = conn_inv_free_object[OF c2(2) less.prems(2) c2(3)]
    have "CheckRemoveObject p c = Some (adbusI_freeObjectPath p c2)"
      using ob False c1(1) c2(1)
      by (subst CheckRemoveObject.simps) (auto simp: get_obj_def busy_def split: option.splits)
    moreover have "keeps K c2 (c2\<lparr>cn_paths := (cn_paths c2)(p := None)\<rparr>)"
      by (auto simp: keeps_def same_rest_def iname_def)
    ultimately show ?thesis using f keeps_trans[OF keeps_trans[OF k1 c2(4)]] by auto
  qed
qed

section \<open>What bind and unbind do to the tree\<close>

text \<open>The invariant between the operations.\<close>

definition conn_ok :: "(nat \<Rightarrow> nat) \<Rightarrow> adbus_Connection \<Rightarrow> bool" where
  "conn_ok ext c \<longleftrightarrow> conn_inv ext {} {} {} c \<and> all_busy {} c"

lemma user_bind_linked:
  assumes "links ext Z K c" "cn_binds c k = Some b" "k \<notin> K"
  shows "\<exists>p ob i. bd_path b = Some p \<and> p \<notin> Z \<and> cn_paths c p = Some ob \<and> get_iface (bd_interface b) c = Inr i
    \<and> (if_name i, k) \<in> set (op_interfaces ob)"
  using linksD(4)[OF assms(1,2)] links_iface[OF assms(1,2)] assms(3)
  by (auto simp: bind_ok_def iname_def get_iface_eq)

lemma freeBind_ok:
  assumes ok: "conn_ok ext c" and k: "k \<in> user_binds c"
  shows "\<exists>c' b i. adbusI_freeBind k c = Some (Inr c') \<and> conn_ok ext c'
     \<and> cn_binds c k = Some b \<and> get_iface (bd_interface b) c = Inr i
     \<and> user_binds c' = user_binds c - {k} \<and> (\<forall>j \<in> user_binds c - {k}. cn_binds c' j = cn_binds c j)
     \<and> same_rest c c' \<and> cn_released c' = cn_released c @ release_calls b @ map (Pair None) (fst (adbus_iface_deref i))"
proof -
  have inv: "conn_inv ext {} {} {} c" and busy: "all_busy {} c" using ok by (simp_all add: conn_ok_def)
  note l = conn_invD(1)[OF inv]
  obtain b n where b: "cn_binds c k = Some b" "iname c (bd_interface b) = Some n" "n \<notin> builtin_names c"
    using k by (auto simp: user_binds_def)
  obtain p ob i where p: "bd_path b = Some p" "cn_paths c p = Some ob" "get_iface (bd_interface b) c = Inr i"
    "(if_name i, k) \<in> set (op_interfaces ob)" using user_bind_linked[OF l b(1)] by auto
  let ?ob = "ob\<lparr>op_interfaces := AList.delete (if_name i) (op_interfaces ob)\<rparr>" and ?c = "set_obj p"
  let ?c = "set_obj p ?ob c"
  have n: "n = if_name i" using b(2) p(3) by (simp add: iname_def get_iface_eq)
  have bn: "builtin_names c \<subseteq> fst ` set (AList.delete (if_name i) (op_interfaces ob))"
    if "builtin_names c \<subseteq> fst ` set (op_interfaces ob)" using that b(3) n by (force simp: AList.delete_eq)
  have "links ext {} {k} ?c" using links_del[OF l p(2) _ p(4)] by simp
  moreover have "tree {} {} ?c"
    by (rule tree_same_shape[OF conn_invD(2)[OF inv]])
      (use p(2) bn builtin_names_cong[of c ?c] in \<open>auto split: if_splits\<close>)
  moreover have "builtins_ok ext ?c" "quiet ?c"
    using conn_invD(3,4)[OF inv] builtins_ok_cong[of c ?c] quiet_mono[of c ?c] by simp_all
  ultimately have inv1: "conn_inv ext {} {k} {} ?c" by (simp add: conn_inv_def)
  have busy1: "all_busy (insert p {}) ?c" using busy by (simp add: all_busy_def)
  obtain c1 where c1: "CheckRemoveObject p ?c = Some (Inr c1)" "conn_inv ext {} {k} {} c1" "all_busy {} c1" "keeps {k} ?c c1"
    using CheckRemoveObject_ok[OF inv1 _ _ busy1] by auto
  have ub: "user_binds ?c = user_binds c" using builtin_names_cong[of c ?c] by (simp add: user_binds_def)
  have kb: "cn_binds c1 k = Some b" using c1(4) b(1) by (simp add: keeps_def)
  have "bd_interface b \<notin> {cn_introspectable c, cn_properties c}" using b(2,3) by (auto simp: builtin_names_def)
  then have i1: "get_iface (bd_interface b) c1 = Inr i" using c1(4) p(3) by (simp add: keeps_def get_iface_def)
  let ?c2 = "unbound k b i c1"
  have iface: "cn_ifaces c1 (bd_interface b) = Some i" using i1 by (simp add: get_iface_eq)
  have sr2: "same_rest c1 ?c2" using iface by simp
  have "links ext {} {} ?c2" using links_unbound[OF conn_invD(1)[OF c1(2)] _ kb i1] by simp
  moreover have "tree {} {} ?c2" using tree_cong[of ?c2 c1] conn_invD(2)[OF c1(2)] builtin_names_cong[OF sr2] by simp
  moreover have "quiet ?c2" using quiet_mono[OF conn_invD(4)[OF c1(2)] sr2] by (simp add: map_le_def)
  moreover have "builtins_ok ext ?c2" using conn_invD(3)[OF c1(2)] builtins_ok_cong[OF sr2] by simp
  moreover have "all_busy {} ?c2" using c1(3) by (simp add: all_busy_def)
  ultimately have ok2: "conn_ok ext ?c2" by (simp add: conn_ok_def conn_inv_def)
  have sr1: "same_rest c c1" using c1(4) by (simp add: keeps_def same_rest_def)
  have sr: "same_rest c ?c2" by (rule same_rest_trans[OF sr1 sr2])
  have kept: "cn_binds ?c2 j = cn_binds c j" if "j \<in> user_binds c - {k}" for j
    using that c1(4) ub by (simp add: keeps_def)
  have "user_binds ?c2 = user_binds c - {k}"
  proof -
    have "user_binds ?c2 = user_binds c1 - {k}"
      using builtin_names_cong[OF sr2] iface by (auto simp: user_binds_def)
    then show ?thesis using keeps_user_binds[OF c1(4)] ub by simp
  qed
  moreover have "adbusI_freeBind k c = Some (Inr ?c2)"
    using b(1) p c1(1) release_bind_eq[OF kb i1]
    by (simp add: adbusI_freeBind_def get_bind_def del_iface_def get_obj_def)
  moreover have "cn_released ?c2 = cn_released c @ release_calls b @ map (Pair None) (fst (adbus_iface_deref i))"
    using c1(4) by (simp add: unbound_def keeps_def)
  ultimately show ?thesis using ok2 kept b(1) p(3) sr by blast
qed

text \<open>What making objects leaves as it is.\<close>

definition grows :: "adbus_Connection \<Rightarrow> adbus_Connection \<Rightarrow> bool" where
  "grows c c' \<longleftrightarrow> iname c' = iname c \<and> cn_introspectable c' = cn_introspectable c \<and> cn_properties c' = cn_properties c
     \<and> cn_released c' = cn_released c \<and> cn_binds c \<subseteq>\<^sub>m cn_binds c' \<and> user_binds c' = user_binds c
     \<and> (\<forall>p ob. cn_paths c p = Some ob \<longrightarrow> (\<exists>ob'. cn_paths c' p = Some ob' \<and> op_interfaces ob' = op_interfaces ob))
     \<and> (\<forall>a i. get_iface a c = Inr i \<longrightarrow> (\<exists>i'. get_iface a c' = Inr i'))"

lemma grows_refl [simp]: "grows c c"
  by (simp add: grows_def)

lemma grows_trans:
  assumes "grows c c'" "grows c' c''"
  shows "grows c c''"
proof -
  have "\<exists>ob'. cn_paths c'' p = Some ob' \<and> op_interfaces ob' = op_interfaces ob" if ob: "cn_paths c p = Some ob" for p ob
  proof -
    obtain ob1 where "cn_paths c' p = Some ob1" "op_interfaces ob1 = op_interfaces ob"
      using assms(1) ob unfolding grows_def by blast
    then show ?thesis using assms(2) unfolding grows_def by metis
  qed
  moreover have "\<exists>i'. get_iface a c'' = Inr i'" if "get_iface a c = Inr i" for a i
    using assms that unfolding grows_def by blast
  moreover have "cn_binds c \<subseteq>\<^sub>m cn_binds c''" using assms map_le_trans unfolding grows_def by blast
  ultimately show ?thesis using assms by (simp add: grows_def)
qed

lemma grows_builtin: "grows c c' \<Longrightarrow> builtin_names c' = builtin_names c \<and> builtins_ok ext c' = builtins_ok ext c"
  by (simp add: grows_def builtin_names_def builtins_ok_def)

lemma builtin_live:
  assumes "links ext Z K c" "builtins_ok ext c" "a \<in> {cn_introspectable c, cn_properties c}"
  shows "\<exists>i. get_iface a c = Inr i \<and> iname c a = Some (if_name i)"
  using assms linksD(1)[OF assms(1)] by (auto simp: builtins_ok_def iname_def ifaces_ok_def get_iface_eq)

lemma get_iface_bound:
  assumes "get_iface (bi_interface b) c = Inr i" "links ext Z K c"
  shows "get_iface a (bound p b ob i c) = (if a = bi_interface b then Inr (adbus_iface_ref i) else get_iface a c)"
  using assms by (auto simp: get_iface_def adbus_iface_ref_def split: option.splits if_splits)

text \<open>A bind of a built-in interface to a new object.\<close>

lemma bind_builtin:
  assumes l: "links ext Z K c" and bt: "builtins_ok ext c" and q: "quiet c"
    and p: "cn_paths c p = Some ob" "p \<notin> Z" and a: "a \<in> {cn_introspectable c, cn_properties c}" "iname c a = Some n"
    and n: "n \<notin> fst ` set (op_interfaces ob)"
  shows "\<exists>c' k. DoBind p (adbus_bind_init a u) c = Inr (Some k, c') \<and> links ext Z K c' \<and> quiet c' \<and> builtins_ok ext c'
    \<and> cn_paths c' = (cn_paths c)(p \<mapsto> ob\<lparr>op_interfaces := op_interfaces ob @ [(n, k)]\<rparr>)
    \<and> iname c' = iname c \<and> cn_introspectable c' = cn_introspectable c \<and> cn_properties c' = cn_properties c
    \<and> cn_released c' = cn_released c \<and> cn_binds c \<subseteq>\<^sub>m cn_binds c' \<and> user_binds c' = user_binds c
    \<and> (\<forall>a i. get_iface a c = Inr i \<longrightarrow> (\<exists>i'. get_iface a c' = Inr i'))"
proof -
  let ?b = "adbus_bind_init a u"
  obtain i where i: "get_iface a c = Inr i" "n = if_name i" using builtin_live[OF l bt a(1)] a(2) by auto
  have bi: "bi_interface ?b = a" by (simp add: adbus_bind_init_def)
  have g: "get_iface (bi_interface ?b) c = Inr i" using i bi by simp
  have m: "map_of (op_interfaces ob) (if_name i) = None" using n i(2) by (simp add: map_of_eq_None_iff)
  let ?c = "bound p ?b ob i c"
  have d: "DoBind p ?b c = Inr (Some (cn_nextBind c), ?c)" using DoBind_eq[OF p(1) g] m by simp
  have nm: "iname ?c = iname c" using g by simp
  then have bn: "builtin_names ?c = builtin_names c" by (simp add: builtin_names_def)
  have nb: "n \<in> builtin_names c" using a by (auto simp: builtin_names_def)
  have fresh: "cn_binds c (cn_nextBind c) = None"
    using linksD(4)[OF l] by (metis bind_ok_def less_irrefl not_None_eq)
  have quiet: "quiet ?c"
    using q a(1) unfolding quiet_def bn nm
    by (auto simp: adbus_bind_init_def conn_bind_def release_calls_def)
  have ub: "user_binds ?c = user_binds c"
    using fresh nb a(2) bi unfolding user_binds_def bn nm by auto
  have "builtins_ok ext ?c" using bt by (simp add: builtins_ok_def nm)
  moreover have "cn_binds c \<subseteq>\<^sub>m cn_binds ?c" using fresh by (auto simp: map_le_def)
  moreover have "\<exists>i'. get_iface a ?c = Inr i'" if "get_iface a c = Inr i" for a i
    using that g by (simp add: get_iface_bound[OF g l])
  ultimately show ?thesis
    using d links_bound[OF l p g m] quiet ub nm i(2)
    by (intro exI[of _ ?c] exI[of _ "cn_nextBind c"]) simp
qed

lemma new_object_ok:
  assumes inv: "conn_inv ext {} {} U c" and p: "cn_paths c p = None" "adbusI_isValidObjectPath (Some p)"
  shows "\<exists>c' ob. new_object p c = Inr c' \<and> conn_inv ext {} {} (insert p U) c' \<and> grows c c'
    \<and> cn_paths c' = (cn_paths c)(p \<mapsto> ob)"
proof -
  let ?o = "\<lparr>op_interfaces = [], op_children = [], op_parent = None\<rparr>"
  let ?c = "set_obj p ?o c"
  obtain m n where mn: "iname c (cn_introspectable c) = Some m" "iname c (cn_properties c) = Some n" "m \<noteq> n"
    using conn_invD(3)[OF inv] by (auto simp: builtins_ok_def)
  have l0: "links ext {} {} ?c" using links_new_object[OF conn_invD(1)[OF inv] p(1)] by simp
  have b0: "builtins_ok ext ?c" using conn_invD(3)[OF inv] builtins_ok_cong[of c ?c] by simp
  have q0: "quiet ?c" using conn_invD(4)[OF inv] quiet_mono[of c ?c] by simp
  obtain c1 k1 where c1: "DoBind p (adbus_bind_init (cn_introspectable ?c) (Object p)) ?c = Inr (Some k1, c1)"
    "links ext {} {} c1" "quiet c1" "builtins_ok ext c1"
    "cn_paths c1 = (cn_paths ?c)(p \<mapsto> ?o\<lparr>op_interfaces := op_interfaces ?o @ [(m, k1)]\<rparr>)"
    "iname c1 = iname ?c" "cn_introspectable c1 = cn_introspectable ?c" "cn_properties c1 = cn_properties ?c"
    "cn_released c1 = cn_released ?c" "cn_binds ?c \<subseteq>\<^sub>m cn_binds c1" "user_binds c1 = user_binds ?c"
    "\<forall>a i. get_iface a ?c = Inr i \<longrightarrow> (\<exists>i'. get_iface a c1 = Inr i')"
    using bind_builtin[OF l0 b0 q0, of p ?o "cn_introspectable ?c" m "Object p"] mn by auto
  let ?o1 = "?o\<lparr>op_interfaces := op_interfaces ?o @ [(m, k1)]\<rparr>"
  have o1: "cn_paths c1 p = Some ?o1" by (simp add: c1(5))
  have n1: "n \<notin> fst ` set (op_interfaces ?o1)" "iname c1 (cn_properties c1) = Some n" using mn c1(6,8) by auto
  obtain c2 k2 where c2: "DoBind p (adbus_bind_init (cn_properties c1) (Object p)) c1 = Inr (Some k2, c2)"
    "links ext {} {} c2" "quiet c2" "builtins_ok ext c2"
    "cn_paths c2 = (cn_paths c1)(p \<mapsto> ?o1\<lparr>op_interfaces := op_interfaces ?o1 @ [(n, k2)]\<rparr>)"
    "iname c2 = iname c1" "cn_introspectable c2 = cn_introspectable c1" "cn_properties c2 = cn_properties c1"
    "cn_released c2 = cn_released c1" "cn_binds c1 \<subseteq>\<^sub>m cn_binds c2" "user_binds c2 = user_binds c1"
    "\<forall>a i. get_iface a c1 = Inr i \<longrightarrow> (\<exists>i'. get_iface a c2 = Inr i')"
    using bind_builtin[OF c1(2,4,3) o1 _ _ n1(2,1), of "Object p"] by auto
  let ?o2 = "?o1\<lparr>op_interfaces := op_interfaces ?o1 @ [(n, k2)]\<rparr>"
  have paths: "cn_paths c2 = (cn_paths c)(p \<mapsto> ?o2)" using c1(5) c2(5) by simp
  have names: "iname c2 = iname c" "cn_introspectable c2 = cn_introspectable c" "cn_properties c2 = cn_properties c"
    using c1(6-8) c2(6-8) by simp_all
  have bn: "builtin_names c2 = builtin_names c" by (simp add: builtin_names_def names)
  have "builtin_names c \<subseteq> fst ` set (op_interfaces ?o2)" using mn by (auto simp: builtin_names_def)
  then have "tree {} (insert p U) c2"
    using tree_new_object[OF conn_invD(2)[OF inv] p(1) _ p(2) paths bn] by simp
  then have inv2: "conn_inv ext {} {} (insert p U) c2" using c2(2-4) by (simp add: conn_inv_def)
  have "user_binds ?c = user_binds c" using builtin_names_cong[of c ?c] by (simp add: user_binds_def)
  moreover have "\<exists>i'. get_iface a c2 = Inr i'" if "get_iface a c = Inr i" for a i
    using that c1(12) c2(12) by (auto simp: get_iface_def)
  moreover have "cn_binds c \<subseteq>\<^sub>m cn_binds c2" using map_le_trans[OF _ c2(10)] c1(10) by simp
  moreover have "cn_paths c q \<noteq> None \<Longrightarrow> q \<noteq> p" for q using p(1) by auto
  ultimately have "grows c c2" using c1(9,11) c2(9,11) names paths by (auto simp: grows_def)
  moreover have "new_object p c = Inr c2" using c1(1) c2(1) c1(8) by (simp add: new_object_def)
  ultimately show ?thesis using inv2 paths by blast
qed

lemma GetObject_ok:
  assumes "conn_inv ext {} {} U c" "adbusI_isValidObjectPath (Some p)" "\<And>u. u \<in> U \<Longrightarrow> length p < length u" "all_busy D c"
  shows "\<exists>c'. GetObject p c = Inr c' \<and> conn_inv ext {} {} U c' \<and> grows c c' \<and> p \<in> dom (cn_paths c')
    \<and> all_busy (if p \<in> dom (cn_paths c) then D else insert p D) c'"
  using assms
proof (induction "length p" arbitrary: p U c D rule: less_induct)
  case less
  show ?case
  proof (cases "p \<in> dom (cn_paths c)")
    case True
    then show ?thesis using less.prems by (subst GetObject.simps) auto
  next
    case False
    then have new: "cn_paths c p = None" by auto
    obtain c1 ob where c1: "new_object p c = Inr c1" "conn_inv ext {} {} (insert p U) c1" "grows c c1"
      "cn_paths c1 = (cn_paths c)(p \<mapsto> ob)"
      using new_object_ok[OF less.prems(1) new less.prems(2)] by blast
    have busy1: "all_busy (insert p D) c1" using less.prems(4) c1(4) by (auto simp: all_busy_def)
    have step: "GetObject p c = bindr (adbusI_parentPath p) (\<lambda>parent. case parent of None \<Rightarrow> Inr c1
        | Some q \<Rightarrow> bindr (GetObject q c1) (link_parent p q))"
      using less.prems(2) new c1(1) by (subst GetObject.simps) simp
    show ?thesis
    proof (cases "p = ''/''")
      case True
      then have par: "adbusI_parentPath p = Inr None" using parentPath_valid[OF less.prems(2)] by simp
      have "conn_inv ext {} {} U c1" using c1(2) tree_root[OF _ par] by (simp add: conn_inv_def)
      then show ?thesis using step par busy1 c1(3,4) False by simp
    next
      case False
      then obtain q where par: "adbusI_parentPath p = Inr (Some q)" "adbusI_isValidObjectPath (Some q)"
        using parentPath_valid[OF less.prems(2)] by auto
      have len: "length q < length p" by (rule parentPath_shorter[OF par(1)])
      have "\<exists>c2. GetObject q c1 = Inr c2 \<and> conn_inv ext {} {} (insert p U) c2 \<and> grows c1 c2 \<and> q \<in> dom (cn_paths c2)
          \<and> all_busy (if q \<in> dom (cn_paths c1) then insert p D else insert q (insert p D)) c2"
        by (rule less.hyps[OF len c1(2) par(2) _ busy1]) (use len less.prems(3) in fastforce)
      then obtain c2 where c2: "GetObject q c1 = Inr c2" "conn_inv ext {} {} (insert p U) c2" "grows c1 c2"
        "q \<in> dom (cn_paths c2)" "all_busy (insert q (insert p D)) c2" by (auto simp: all_busy_def split: if_splits)
      have "cn_paths c1 p = Some ob" by (simp add: c1(4))
      then obtain x y where xy: "cn_paths c2 p = Some x" "cn_paths c2 q = Some y"
        using c2(3,4) unfolding grows_def by blast
      have "p \<notin> U" using less.prems(3) by auto
      from tree_link[OF conn_invD(2)[OF c2(2)] this _ xy(1) par(1) xy(2)] obtain c3 where
        c3: "link_parent p q c2 = Inr c3" "tree {} U c3" "same_rest c2 c3" "cn_binds c3 = cn_binds c2" "cn_ifaces c3 = cn_ifaces c2"
          "cn_released c3 = cn_released c2" "cn_paths c3 = (cn_paths c2)(p \<mapsto> x\<lparr>op_parent := Some q\<rparr>, q \<mapsto> y\<lparr>op_children := op_children y @ [p]\<rparr>)" by auto
      have pq: "q \<noteq> p" by (rule parent_differs[OF par(1)])
      have tables: "map_option op_interfaces (cn_paths c3 r) = map_option op_interfaces (cn_paths c2 r)" for r
        using xy pq by (simp add: c3(7))
      have l3: "links ext {} {} c3"
        by (rule links_same_tables[OF conn_invD(1)[OF c2(2)] c3(4,5) _ tables]) (use c3(3) in \<open>simp add: same_rest_def\<close>)
      have "conn_inv ext {} {} U c3"
        using l3 c3(2,4) conn_invD(3,4)[OF c2(2)] builtins_ok_cong[OF c3(3)] quiet_mono[OF _ c3(3)] by (simp add: conn_inv_def)
      moreover have "grows c2 c3"
        using c3(3-6) tables builtin_names_cong[OF c3(3)]
        by (auto simp: grows_def same_rest_def user_binds_def get_iface_def) (metis map_option_eq_Some)
      then have "grows c c3" using grows_trans[OF c1(3) grows_trans[OF c2(3)]] by blast
      moreover have "all_busy (insert p D) c3" using c2(5) pq by (auto simp: all_busy_def c3(7) busy_def)
      moreover have "p \<in> dom (cn_paths c3)" by (simp add: c3(7))
      ultimately show ?thesis using step par(1) c2(1) c3(1) new by auto
    qed
  qed
qed

text \<open>The contents of the tree: the binds of the application by path and name.\<close>

definition bindings :: "adbus_Connection \<Rightarrow> string \<times> string \<rightharpoonup> nat" where
  "bindings c pn = (case cn_paths c (fst pn) of
     None \<Rightarrow> None
   | Some ob \<Rightarrow> if snd pn \<in> builtin_names c then None else map_of (op_interfaces ob) (snd pn))"

lemma option_eq_if: "(\<And>k. x = Some k \<longleftrightarrow> y = Some k) \<Longrightarrow> x = y"
  by (metis not_None_eq)

lemma bindings_iff:
  assumes l: "links ext {} {} c"
  shows "bindings c (p, n) = Some k \<longleftrightarrow> k \<in> user_binds c \<and> (\<exists>b. cn_binds c k = Some b \<and> bd_path b = Some p
     \<and> iname c (bd_interface b) = Some n)"
proof
  assume "bindings c (p, n) = Some k"
  then obtain ob where ob: "cn_paths c p = Some ob" "n \<notin> builtin_names c" "(n, k) \<in> set (op_interfaces ob)"
    by (auto simp: bindings_def dest: map_of_SomeD split: option.splits if_splits)
  then obtain b where "cn_binds c k = Some b" "bd_path b = Some p" "iname c (bd_interface b) = Some n"
    using linksD(5)[OF l ob(1)] unfolding table_ok_def by blast
  then show "k \<in> user_binds c \<and> (\<exists>b. cn_binds c k = Some b \<and> bd_path b = Some p \<and> iname c (bd_interface b) = Some n)"
    using ob(2) by (auto simp: user_binds_def)
next
  assume "k \<in> user_binds c \<and> (\<exists>b. cn_binds c k = Some b \<and> bd_path b = Some p \<and> iname c (bd_interface b) = Some n)"
  then obtain b where b: "cn_binds c k = Some b" "bd_path b = Some p" "iname c (bd_interface b) = Some n" "n \<notin> builtin_names c"
    by (auto simp: user_binds_def)
  then obtain ob where ob: "cn_paths c p = Some ob" "(n, k) \<in> set (op_interfaces ob)"
    using linksD(4)[OF l b(1)] by (auto simp: bind_ok_def)
  then have "map_of (op_interfaces ob) n = Some k" using linksD(5)[OF l ob(1)] by (simp add: table_ok_def)
  then show "bindings c (p, n) = Some k" using ob(1) b(4) by (simp add: bindings_def)
qed

lemma busy_with:
  assumes inv: "conn_inv ext Z K U c" and p: "p \<notin> Z" "cn_paths c p = Some ob" and n: "n \<in> fst ` set (op_interfaces ob)" "n \<notin> builtin_names c"
  shows "busy ob"
  using idle_builtin[OF inv p(2,1)] n by auto

lemma conn_bind_ok:
  assumes ok: "conn_ok ext c" and path: "sized (bi_path b) (bi_pathSize b) = p" "adbusI_isValidObjectPath (Some p)"
    and i: "get_iface (bi_interface b) c = Inr i" and n: "if_name i \<notin> builtin_names c"
  shows "\<exists>r c'. adbus_conn_bind b c = Inr (r, c') \<and> conn_ok ext c' \<and> cn_released c' = cn_released c
     \<and> iname c' = iname c \<and> builtin_names c' = builtin_names c
     \<and> (if bindings c (p, if_name i) \<noteq> None then r = None \<and> c' = c
        else \<exists>k. r = Some k \<and> k \<notin> dom (cn_binds c) \<and> user_binds c' = insert k (user_binds c)
               \<and> cn_binds c \<subseteq>\<^sub>m cn_binds c' \<and> cn_binds c' k = Some (conn_bind p b))"
proof -
  have inv: "conn_inv ext {} {} {} c" and busy: "all_busy {} c" using ok by (simp_all add: conn_ok_def)
  obtain c1 where c1: "GetObject p c = Inr c1" "conn_inv ext {} {} {} c1" "grows c c1" "p \<in> dom (cn_paths c1)" "all_busy {p} c1"
    using GetObject_ok[OF inv path(2) _ busy] by (auto simp: all_busy_def split: if_splits)
  note l1 = conn_invD(1)[OF c1(2)]
  obtain ob where ob: "cn_paths c1 p = Some ob" using c1(4) by auto
  obtain i1 where i1: "get_iface (bi_interface b) c1 = Inr i1" using c1(3) i unfolding grows_def by blast
  have nm: "iname c1 = iname c" "builtin_names c1 = builtin_names c" "user_binds c1 = user_binds c" "cn_binds c \<subseteq>\<^sub>m cn_binds c1"
    using c1(3) grows_builtin[OF c1(3)] by (simp_all add: grows_def)
  have name: "if_name i1 = if_name i" using i i1 nm(1) unfolding get_iface_eq iname_def by (metis option.inject option.simps(9))
  have bs: "bindings c1 (p, if_name i) = bindings c (p, if_name i)"
  proof (rule option_eq_if)
    show "bindings c1 (p, if_name i) = Some k \<longleftrightarrow> bindings c (p, if_name i) = Some k" for k
      unfolding bindings_iff[OF l1] bindings_iff[OF conn_invD(1)[OF inv]] nm
      using nm(4) unfolding map_le_def user_binds_def by (auto simp: dom_def)
  qed
  have m: "bindings c1 (p, if_name i) = map_of (op_interfaces ob) (if_name i1)"
    using ob n nm(2) name by (simp add: bindings_def)
  note db = DoBind_eq[OF ob i1]
  show ?thesis
  proof (cases "bindings c (p, if_name i) = None")
    case False
    then have "p \<in> dom (cn_paths c)" by (auto simp: bindings_def split: option.splits)
    then have "c1 = c" using c1(1) path(2) by (subst (asm) GetObject.simps) auto
    then show ?thesis using False c1(1) db m bs ok path(1) by (auto simp: adbus_conn_bind_def)
  next
    case True
    let ?c = "bound p b ob i1 c1"
    have free: "map_of (op_interfaces ob) (if_name i1) = None" using True m bs by simp
    have nm2: "iname ?c = iname c1" using i1 by simp
    then have bn2: "builtin_names ?c = builtin_names c1" by (simp add: builtin_names_def)
    have fresh: "cn_binds c1 (cn_nextBind c1) = None" using linksD(4)[OF l1] by (metis bind_ok_def less_irrefl not_None_eq)
    have iface: "iname c1 (bi_interface b) = Some (if_name i1)" using i1 by (simp add: get_iface_eq iname_def)
    have "tree {} {} ?c"
      by (rule tree_same_shape[OF conn_invD(2)[OF c1(2)] bn2]) (use ob in \<open>auto split: if_splits\<close>)
    moreover have "quiet ?c"
      using conn_invD(4)[OF c1(2)] iface n name nm(2) unfolding quiet_def bn2 nm2 by auto
    moreover have "builtins_ok ext ?c" using conn_invD(3)[OF c1(2)] by (simp add: builtins_ok_def nm2)
    ultimately have inv2: "conn_inv ext {} {} {} ?c" using links_bound[OF l1 ob _ i1 free] by (simp add: conn_inv_def)
    have "busy (ob\<lparr>op_interfaces := op_interfaces ob @ [(if_name i1, cn_nextBind c1)]\<rparr>)"
      by (rule busy_with[OF inv2, of p _ "if_name i1"]) (use n name nm(2) bn2 in simp_all)
    then have "all_busy {} ?c" using c1(5) by (auto simp: all_busy_def)
    moreover have "user_binds ?c = insert (cn_nextBind c1) (user_binds c1)"
      using fresh iface n name nm(2) unfolding user_binds_def bn2 nm2 by auto
    moreover have "cn_binds c \<subseteq>\<^sub>m cn_binds ?c" "cn_nextBind c1 \<notin> dom (cn_binds c)"
      using fresh nm(4) by (auto simp: map_le_def dom_def)
    ultimately show ?thesis
      using True c1(1,3) db free path(1) inv2 nm nm2 bn2 by (auto simp: adbus_conn_bind_def conn_ok_def grows_def)
  qed
qed

section \<open>Which objects there are\<close>

text \<open>\<open>above p q\<close>: the object \<open>p\<close> is \<open>q\<close> or one of its ancestors.\<close>

inductive above :: "string \<Rightarrow> string \<Rightarrow> bool" where
  above_refl: "above p p"
| above_step: "adbusI_parentPath q = Inr (Some r) \<Longrightarrow> above p r \<Longrightarrow> above p q"

inductive_simps above_iff: "above p q"

lemma above_trans: "above q r \<Longrightarrow> above p q \<Longrightarrow> above p r"
  by (induction rule: above.induct) (auto intro: above_step)

lemma above_object:
  assumes inv: "conn_inv ext {} {} {} c" and "above p q" "q \<in> dom (cn_paths c)"
  shows "p \<in> dom (cn_paths c)"
  using assms(2,3)
proof (induction rule: above.induct)
  case (above_step q r p)
  then obtain ob where "cn_paths c q = Some ob" by auto
  from treeD[OF conn_invD(2)[OF inv] this] above_step show ?case by (simp add: place_ok_def)
qed

lemma finite_objects:
  assumes inv: "conn_inv ext {} {} {} c"
  shows "finite (dom (cn_paths c))"
proof -
  have "dom (cn_paths c) \<subseteq> (\<lambda>k. the (bd_path (the (cn_binds c k)))) ` dom (cn_binds c)"
  proof
    fix p
    assume "p \<in> dom (cn_paths c)"
    then obtain ob where ob: "cn_paths c p = Some ob" by auto
    have "builtin_names c \<noteq> {}" using builtin_names_card[OF conn_invD(3)[OF inv]] by auto
    then have "op_interfaces ob \<noteq> []" using treeD[OF conn_invD(2)[OF inv] ob] by (auto simp: place_ok_def)
    then obtain n k where "(n, k) \<in> set (op_interfaces ob)" by (metis list.set_intros(1) neq_Nil_conv surj_pair)
    then obtain b where "cn_binds c k = Some b" "bd_path b = Some p"
      using linksD(5)[OF conn_invD(1)[OF inv] ob] unfolding table_ok_def by blast
    then show "p \<in> (\<lambda>k. the (bd_path (the (cn_binds c k)))) ` dom (cn_binds c)" by force
  qed
  then show ?thesis using finite_subset linksD(2)[OF conn_invD(1)[OF inv]] by blast
qed

lemma object_child:
  assumes inv: "conn_inv ext {} {} {} c" and p: "cn_paths c p = Some ob"
  shows "q \<in> set (op_children ob) \<longleftrightarrow> q \<in> dom (cn_paths c) \<and> adbusI_parentPath q = Inr (Some p)"
proof -
  have "q \<in> set (op_children ob) \<longleftrightarrow> (\<exists>x. cn_paths c q = Some x \<and> op_parent x = Some p)"
    using treeD[OF conn_invD(2)[OF inv] p] by (simp add: place_ok_def)
  moreover have "adbusI_parentPath q = Inr (op_parent x)" if "cn_paths c q = Some x" for x
    using treeD[OF conn_invD(2)[OF inv] that] by (simp add: place_ok_def)
  ultimately show ?thesis by auto
qed

lemma object_reason:
  assumes ok: "conn_ok ext c" and "p \<in> dom (cn_paths c)"
  shows "\<exists>q n. (q, n) \<in> dom (bindings c) \<and> above p q"
proof -
  have inv: "conn_inv ext {} {} {} c" and busy: "all_busy {} c" using ok by (simp_all add: conn_ok_def)
  define M where "M = Max (length ` dom (cn_paths c))"
  have M: "length q \<le> M" if "q \<in> dom (cn_paths c)" for q
    unfolding M_def using that finite_objects[OF inv] by (intro Max_ge) simp_all
  show ?thesis
    using assms(2)
  proof (induction "M - length p" arbitrary: p rule: less_induct)
    case less
    then obtain ob where ob: "cn_paths c p = Some ob" by auto
    show ?case
    proof (cases "op_children ob")
      case Nil
      then have "length (op_interfaces ob) > 2" using busy ob by (auto simp: all_busy_def busy_def)
      moreover have d: "distinct (map fst (op_interfaces ob))"
        using linksD(5)[OF conn_invD(1)[OF inv] ob] by (simp add: table_ok_def)
      ultimately have "card (fst ` set (op_interfaces ob)) > 2" using distinct_card[OF d] by simp
      then obtain n where "n \<in> fst ` set (op_interfaces ob)" "n \<notin> builtin_names c"
        using builtin_names_card[OF conn_invD(3)[OF inv]] by (metis card_mono not_le subsetI)
      then have "bindings c (p, n) \<noteq> None" using ob by (simp add: bindings_def map_of_eq_None_iff)
      then show ?thesis using above_refl by blast
    next
      case (Cons q qs)
      then have q: "q \<in> dom (cn_paths c)" "adbusI_parentPath q = Inr (Some p)" using object_child[OF inv ob, of q] by auto
      have "M - length q < M - length p" using parentPath_shorter[OF q(2)] M[OF q(1)] by simp
      from less.hyps[OF this q(1)] above_step[OF q(2) above_refl] above_trans show ?thesis by blast
    qed
  qed
qed

end
