(* ===== verification/Registration.thy ===== *)
theory Registration
  imports Prelude
begin

text \<open>
  What the application relies on when it registers something with a connection, a bind or a reply: the locale
  \<open>registry\<close>. A registration has an address, by which it is removed, and a key, under which the connection
  finds it when a message arrives.
\<close>

primrec unreg_list :: "(nat \<Rightarrow> 's \<Rightarrow> 's res option) \<Rightarrow> nat list \<Rightarrow> 's \<Rightarrow> 's res option" where
  "unreg_list unreg [] s = Some (Inr s)"
| "unreg_list unreg (k # ks) s =
     (case unreg k s of None \<Rightarrow> None | Some (Inl e) \<Rightarrow> Some (Inl e) | Some (Inr s) \<Rightarrow> unreg_list unreg ks s)"

locale registry =
  fixes reg :: "'r \<Rightarrow> 's \<Rightarrow> (nat option \<times> 's) res" and unreg :: "nat \<Rightarrow> 's \<Rightarrow> 's res option"
    and ok :: "'s \<Rightarrow> bool" and can :: "'r \<Rightarrow> 's \<Rightarrow> bool" and key :: "'r \<Rightarrow> 's \<Rightarrow> 'k" and contents :: "'s \<Rightarrow> 'k \<rightharpoonup> nat"
  assumes reg_ok: "ok s \<Longrightarrow> can r s \<Longrightarrow> contents s (key r s) = None \<Longrightarrow>
      \<exists>k s'. reg r s = Inr (Some k, s') \<and> ok s' \<and> k \<notin> ran (contents s) \<and> contents s' = (contents s)(key r s \<mapsto> k)"
    and unreg_ok: "ok s \<Longrightarrow> contents s x = Some k \<Longrightarrow>
      \<exists>s'. unreg k s = Some (Inr s') \<and> ok s' \<and> contents s' = (contents s)(x := None)"
    and finite_contents: "ok s \<Longrightarrow> finite (dom (contents s))"
begin

lemma reg_unreg:
  assumes "ok s" "can r s" "contents s (key r s) = None"
  shows "\<exists>k s1 s2. reg r s = Inr (Some k, s1) \<and> unreg k s1 = Some (Inr s2) \<and> ok s2 \<and> contents s2 = contents s"
proof -
  obtain k s1 where s1: "reg r s = Inr (Some k, s1)" "ok s1" "contents s1 = (contents s)(key r s \<mapsto> k)"
    using reg_ok[OF assms] by blast
  obtain s2 where "unreg k s1 = Some (Inr s2)" "ok s2" "contents s2 = (contents s1)(key r s := None)"
    using unreg_ok[OF s1(2), of "key r s" k] s1(3) by auto
  with s1 assms(3) show ?thesis by (metis fun_upd_triv fun_upd_upd)
qed

text \<open>Whatever is registered, in any order the keys are listed, can be removed.\<close>

lemma unreg_all:
  assumes "ok s" "distinct xs" "set xs = dom (contents s)"
  shows "\<exists>s'. unreg_list unreg (map (\<lambda>x. the (contents s x)) xs) s = Some (Inr s') \<and> ok s' \<and> contents s' = Map.empty"
  using assms
proof (induction xs arbitrary: s)
  case Nil
  then show ?case by auto
next
  case (Cons x xs)
  then obtain k where k: "contents s x = Some k" by auto
  from unreg_ok[OF Cons.prems(1) k] obtain s1 where
    s1: "unreg k s = Some (Inr s1)" "ok s1" "contents s1 = (contents s)(x := None)" by blast
  have m: "map (\<lambda>x. the (contents s x)) xs = map (\<lambda>x. the (contents s1 x)) xs" using Cons.prems(2) s1(3) by auto
  have "set xs = dom (contents s1)" using Cons.prems(2,3) s1(3) by auto
  with Cons.IH[OF s1(2)] Cons.prems(2) k s1(1) show ?case by (simp add: m del: map_eq_conv)
qed

end

end
