(* ===== verification/Object_Map.thy ===== *)
theory Object_Map
  imports Object_Inv Registration
begin

text \<open>
  The object tree as the application sees it: a map from paths and interface names to binds, and an instance of
  the locale \<open>registry\<close>.
\<close>

section \<open>The tree as a registry\<close>

lemma bindings_unbound:
  assumes ok: "conn_ok ext c" "conn_ok ext c'" and ub: "user_binds c' = user_binds c - {k}"
    and same: "\<forall>j \<in> user_binds c - {k}. cn_binds c' j = cn_binds c j" "iname c' = iname c"
    and x: "bindings c x = Some k"
  shows "bindings c' = (bindings c)(x := None)"
proof
  fix y :: "string \<times> string"
  obtain p n q m where xy: "x = (p, n)" "y = (q, m)" by (cases x, cases y)
  have l: "links ext {} {} c" "links ext {} {} c'" using ok by (simp_all add: conn_ok_def conn_inv_def)
  show "bindings c' y = ((bindings c)(x := None)) y"
  proof (rule option_eq_if)
    fix j
    have "bindings c' y = Some j \<longleftrightarrow> j \<noteq> k \<and> bindings c y = Some j"
      unfolding xy bindings_iff[OF l(1)] bindings_iff[OF l(2)] using ub same by auto
    moreover have "bindings c y = Some k \<longleftrightarrow> y = x"
      using x unfolding xy bindings_iff[OF l(1)] by auto
    ultimately show "bindings c' y = Some j \<longleftrightarrow> ((bindings c)(x := None)) y = Some j" using x by auto
  qed
qed

lemma bindings_bound:
  assumes ok: "conn_ok ext c" "conn_ok ext c'" and ub: "user_binds c' = insert k (user_binds c)" "k \<notin> dom (cn_binds c)"
    and same: "cn_binds c \<subseteq>\<^sub>m cn_binds c'" "iname c' = iname c" and b: "cn_binds c' k = Some (conn_bind p b)"
    "iname c (bi_interface b) = Some n" and free: "bindings c (p, n) = None"
  shows "bindings c' = (bindings c)((p, n) \<mapsto> k)"
proof
  fix y :: "string \<times> string"
  obtain q m where y: "y = (q, m)" by (cases y)
  have l: "links ext {} {} c" "links ext {} {} c'" using ok by (simp_all add: conn_ok_def conn_inv_def)
  have old: "cn_binds c' j = cn_binds c j" if "j \<in> user_binds c" for j
    using that same(1) by (auto simp: user_binds_def map_le_def dom_def)
  have nk: "k \<notin> user_binds c" using ub(2) by (auto simp: user_binds_def)
  show "bindings c' y = ((bindings c)((p, n) \<mapsto> k)) y"
  proof (rule option_eq_if)
    fix j
    have "bindings c' y = Some j \<longleftrightarrow> j = k \<and> y = (p, n) \<or> bindings c y = Some j"
      unfolding y bindings_iff[OF l(1)] bindings_iff[OF l(2)] using ub old nk same(2) b by auto
    then show "bindings c' y = Some j \<longleftrightarrow> ((bindings c)((p, n) \<mapsto> k)) y = Some j" using free by auto
  qed
qed

text \<open>The binds an application can make: to a valid path, of a live interface that is not named like a built-in one.\<close>

definition can_bind :: "adbus_Bind \<Rightarrow> adbus_Connection \<Rightarrow> bool" where
  "can_bind b c \<longleftrightarrow> adbusI_isValidObjectPath (Some (sized (bi_path b) (bi_pathSize b)))
     \<and> (case get_iface (bi_interface b) c of Inl e \<Rightarrow> False | Inr i \<Rightarrow> if_name i \<notin> builtin_names c)"

definition bind_key :: "adbus_Bind \<Rightarrow> adbus_Connection \<Rightarrow> string \<times> string" where
  "bind_key b c = (sized (bi_path b) (bi_pathSize b), the (iname c (bi_interface b)))"

lemma can_bindE:
  assumes "can_bind b c"
  obtains i where "adbusI_isValidObjectPath (Some (sized (bi_path b) (bi_pathSize b)))" "get_iface (bi_interface b) c = Inr i"
    "if_name i \<notin> builtin_names c" "bind_key b c = (sized (bi_path b) (bi_pathSize b), if_name i)"
    "iname c (bi_interface b) = Some (if_name i)"
  using assms by (auto simp: can_bind_def bind_key_def iname_def get_iface_eq split: sum.splits)

lemma ran_bindings: "conn_ok ext c \<Longrightarrow> ran (bindings c) \<subseteq> dom (cn_binds c)"
  using bindings_iff[of ext c] by (fastforce simp: ran_def conn_ok_def conn_inv_def)

interpretation tree: registry adbus_conn_bind adbus_conn_unbind "conn_ok ext" can_bind bind_key bindings
  for ext
proof
  fix c b
  assume ok: "conn_ok ext c" and can: "can_bind b c" and free: "bindings c (bind_key b c) = None"
  from can obtain i where i: "adbusI_isValidObjectPath (Some (sized (bi_path b) (bi_pathSize b)))"
    "get_iface (bi_interface b) c = Inr i" "if_name i \<notin> builtin_names c"
    "bind_key b c = (sized (bi_path b) (bi_pathSize b), if_name i)" "iname c (bi_interface b) = Some (if_name i)"
    by (rule can_bindE)
  obtain k c' where c': "adbus_conn_bind b c = Inr (Some k, c')" "conn_ok ext c'" "iname c' = iname c" "k \<notin> dom (cn_binds c)"
    "user_binds c' = insert k (user_binds c)" "cn_binds c \<subseteq>\<^sub>m cn_binds c'"
    "cn_binds c' k = Some (conn_bind (sized (bi_path b) (bi_pathSize b)) b)"
    using conn_bind_ok[OF ok refl i(1-3)] free i(4) by auto
  have "bindings c' = (bindings c)(bind_key b c \<mapsto> k)"
    using bindings_bound[OF ok c'(2,5,4,6,3,7) i(5)] free i(4) by simp
  then show "\<exists>k c'. adbus_conn_bind b c = Inr (Some k, c') \<and> conn_ok ext c' \<and> k \<notin> ran (bindings c)
      \<and> bindings c' = (bindings c)(bind_key b c \<mapsto> k)"
    using c'(1,2,4) ran_bindings[OF ok] by blast
next
  fix c x k
  assume ok: "conn_ok ext c" and x: "bindings c x = Some k"
  then have k: "k \<in> user_binds c"
    using bindings_iff[of ext c "fst x" "snd x" k] by (simp add: conn_ok_def conn_inv_def)
  obtain c' where c': "adbusI_freeBind k c = Some (Inr c')" "conn_ok ext c'" "user_binds c' = user_binds c - {k}"
    "\<forall>j \<in> user_binds c - {k}. cn_binds c' j = cn_binds c j" "same_rest c c'" using freeBind_ok[OF ok k] by blast
  then show "\<exists>c'. adbus_conn_unbind k c = Some (Inr c') \<and> conn_ok ext c' \<and> bindings c' = (bindings c)(x := None)"
    using bindings_unbound[OF ok c'(2-4) _ x] by (auto simp: adbus_conn_unbind_def same_rest_def)
next
  fix c
  assume ok: "conn_ok ext c"
  then have inv: "conn_inv ext {} {} {} c" by (simp add: conn_ok_def)
  have "dom (bindings c) \<subseteq> (\<Union>p \<in> dom (cn_paths c). Pair p ` fst ` set (op_interfaces (the (cn_paths c p))))"
    by (force simp: bindings_def dest: map_of_SomeD split: option.splits if_splits)
  then show "finite (dom (bindings c))" by (rule finite_subset) (use finite_objects[OF inv] in auto)
qed

section \<open>Connections in use\<close>

text \<open>
  A connection without objects: the built-in interfaces exist under different names and have a reference of the
  connection, and \<open>ext\<close> counts the references to every interface.
\<close>

definition conn_start :: "(nat \<Rightarrow> nat) \<Rightarrow> adbus_Connection \<Rightarrow> bool" where
  "conn_start ext c \<longleftrightarrow> cn_paths c = Map.empty \<and> cn_binds c = Map.empty \<and> builtins_ok ext c
     \<and> (\<forall>a i. cn_ifaces c a = Some i \<longrightarrow> if_ref i = int (ext a) \<and> (if_freed i \<longleftrightarrow> if_ref i = 0))"

inductive conn_reach :: "adbus_Connection \<Rightarrow> adbus_Connection \<Rightarrow> bool" for c0 where
  reach_start: "conn_reach c0 c0"
| reach_bind: "conn_reach c0 c \<Longrightarrow> can_bind b c \<Longrightarrow> adbus_conn_bind b c = Inr (r, c') \<Longrightarrow> conn_reach c0 c'"
| reach_unbind: "conn_reach c0 c \<Longrightarrow> k \<in> ran (bindings c) \<Longrightarrow> adbus_conn_unbind k c = Some (Inr c') \<Longrightarrow> conn_reach c0 c'"

lemma start_ok: "conn_start ext c \<Longrightarrow> conn_ok ext c"
  by (simp add: conn_start_def conn_ok_def conn_inv_def links_def ifaces_ok_def users_def tree_def quiet_def all_busy_def)

lemma reach_ok: "conn_reach c0 c \<Longrightarrow> conn_start ext c0 \<Longrightarrow> conn_ok ext c"
proof (induction rule: conn_reach.induct)
  case reach_start
  then show ?case by (rule start_ok)
next
  case (reach_bind c b r c')
  from reach_bind.hyps(2) obtain i where i: "adbusI_isValidObjectPath (Some (sized (bi_path b) (bi_pathSize b)))"
    "get_iface (bi_interface b) c = Inr i" "if_name i \<notin> builtin_names c" by (rule can_bindE)
  from conn_bind_ok[OF reach_bind.IH[OF reach_bind.prems] refl i] reach_bind.hyps(3) show ?case by auto
next
  case (reach_unbind c k c')
  then obtain x where "bindings c x = Some k" by (auto simp: ran_def)
  from tree.unreg_ok[OF reach_unbind.IH[OF reach_unbind.prems] this] reach_unbind.hyps(3) show ?case by auto
qed

text \<open>A connection with the interface \<^verbatim>\<open>x.Y\<close> of the application.\<close>

definition sample_conn :: adbus_Connection where
  "sample_conn = \<lparr>cn_paths = Map.empty, cn_binds = Map.empty, cn_nextBind = 0,
     cn_ifaces = [0 \<mapsto> adbus_iface_new ''org.freedesktop.DBus.Introspectable'' (-1),
                  1 \<mapsto> adbus_iface_new ''org.freedesktop.DBus.Properties'' (-1),
                  2 \<mapsto> adbus_iface_new ''x.Y'' (-1)],
     cn_introspectable = 0, cn_properties = 1, cn_released = []\<rparr>"

definition sample_bind :: adbus_Bind where
  "sample_bind = (adbus_bind_init 2 (User 7))\<lparr>bi_path := ''/a/b'', bi_release0 := Some (3, 4)\<rparr>"

lemma sample_start: "conn_start (\<lambda>a. 1) sample_conn"
  by (auto simp: conn_start_def builtins_ok_def iname_def sample_conn_def adbus_iface_new_def sized_def)

lemma sample_can: "can_bind sample_bind sample_conn" "bind_key sample_bind sample_conn = (''/a/b'', ''x.Y'')"
proof -
  have v: "adbusI_isValidObjectPath (Some ''/a/b'')" by code_simp
  show "can_bind sample_bind sample_conn" "bind_key sample_bind sample_conn = (''/a/b'', ''x.Y'')"
    using v by (simp_all add: can_bind_def bind_key_def sample_bind_def adbus_bind_init_def sized_def get_iface_def
        sample_conn_def adbus_iface_new_def builtin_names_def iname_def)
qed

lemma sample_bound:
  "\<exists>k c. adbus_conn_bind sample_bind sample_conn = Inr (Some k, c) \<and> bindings c = [(''/a/b'', ''x.Y'') \<mapsto> k]
     \<and> conn_reach sample_conn c"
proof -
  have e: "bindings sample_conn = Map.empty" by (auto simp: bindings_def sample_conn_def)
  then have "bindings sample_conn (bind_key sample_bind sample_conn) = None" by simp
  from tree.reg_ok[OF start_ok[OF sample_start] sample_can(1) this] obtain k c where
    c: "adbus_conn_bind sample_bind sample_conn = Inr (Some k, c)" "bindings c = [(''/a/b'', ''x.Y'') \<mapsto> k]"
    by (auto simp: e sample_can(2))
  then show ?thesis using reach_bind[OF reach_start sample_can(1) c(1)] by blast
qed

text \<open>C13: The objects of a connection are exactly the paths that have binds of the application and the ancestors of
  those paths; the children of an object are exactly the objects of which it is the parent, each once. This holds in
  every state that binds and unbinds lead to.\<close>

theorem objects_are_ancestors:
  assumes "conn_start ext c0" "conn_reach c0 c"
  shows "(\<forall>p. p \<in> dom (cn_paths c) \<longleftrightarrow> (\<exists>q n. (q, n) \<in> dom (bindings c) \<and> above p q))
     \<and> (\<forall>p ob. cn_paths c p = Some ob \<longrightarrow> distinct (op_children ob)
          \<and> set (op_children ob) = {q \<in> dom (cn_paths c). adbusI_parentPath q = Inr (Some p)})"
proof -
  have ok: "conn_ok ext c" by (rule reach_ok[OF assms(2,1)])
  then have inv: "conn_inv ext {} {} {} c" by (simp add: conn_ok_def)
  have "p \<in> dom (cn_paths c)" if "(q, n) \<in> dom (bindings c)" "above p q" for p q n
  proof -
    have "q \<in> dom (cn_paths c)" using that(1) by (auto simp: bindings_def split: option.splits)
    then show ?thesis by (rule above_object[OF inv that(2)])
  qed
  moreover have "distinct (op_children ob)" if "cn_paths c p = Some ob" for p ob
    using treeD[OF conn_invD(2)[OF inv] that] by (simp add: place_ok_def)
  moreover have "set (op_children ob) = {q \<in> dom (cn_paths c). adbusI_parentPath q = Inr (Some p)}"
    if "cn_paths c p = Some ob" for p ob
    using object_child[OF inv that] by blast
  ultimately show ?thesis using object_reason[OF ok] by blast
qed

theorem objects_are_ancestors_witness:
  "\<exists>k c. adbus_conn_bind sample_bind sample_conn = Inr (Some k, c) \<and> ''/a'' \<in> dom (cn_paths c) \<and> ''/b'' \<notin> dom (cn_paths c)"
proof -
  obtain k c where c: "adbus_conn_bind sample_bind sample_conn = Inr (Some k, c)" "bindings c = [(''/a/b'', ''x.Y'') \<mapsto> k]"
    "conn_reach sample_conn c" using sample_bound by blast
  have p: "adbusI_parentPath ''/a/b'' = Inr (Some ''/a'')" "adbusI_parentPath ''/a'' = Inr (Some ''/'')"
    "adbusI_parentPath ''/'' = Inr None" by code_simp+
  have "above ''/a'' ''/a/b''" by (rule above_step[OF p(1) above_refl])
  moreover have "\<not> above ''/b'' ''/''" by (subst above_iff) (simp add: p)
  then have "\<not> above ''/b'' ''/a''" by (subst above_iff) (simp add: p)
  then have "\<not> above ''/b'' ''/a/b''" by (subst above_iff) (simp add: p)
  ultimately show ?thesis using objects_are_ancestors[OF sample_start c(3)] c(1,2) by auto
qed

text \<open>C12: For the application the tree is a map from path and interface name to binds: binding adds an entry, and is
  refused without effect when there is one; unbinding ends, removes the entry and calls the release callbacks of the bind,
  and those of the interface when this was its last reference; a lookup finds the entry.\<close>

theorem bind_refines_map:
  assumes "conn_start ext c0" "conn_reach c0 c"
  shows "(\<forall>b. can_bind b c \<longrightarrow> (\<exists>r c'. adbus_conn_bind b c = Inr (r, c')
            \<and> bindings c' = (case r of None \<Rightarrow> bindings c | Some k \<Rightarrow> (bindings c)(bind_key b c \<mapsto> k))
            \<and> (r = None \<longleftrightarrow> bind_key b c \<in> dom (bindings c))))
     \<and> (\<forall>x k. bindings c x = Some k \<longrightarrow> (\<exists>c' b i. adbus_conn_unbind k c = Some (Inr c')
            \<and> bindings c' = (bindings c)(x := None) \<and> cn_binds c k = Some b \<and> get_iface (bd_interface b) c = Inr i
            \<and> cn_released c' = cn_released c @ release_calls b @ map (Pair None) (fst (adbus_iface_deref i))))
     \<and> (\<forall>p n k. bindings c (p, n) = Some k \<longrightarrow>
            (\<exists>a. adbus_conn_interface p (int (length p)) n (int (length n)) c = Inr (Some (k, a)) \<and> iname c a = Some n))"
proof (intro conjI allI impI)
  have ok: "conn_ok ext c" by (rule reach_ok[OF assms(2,1)])
  then have l: "links ext {} {} c" by (simp add: conn_ok_def conn_inv_def)
  show "\<exists>r c'. adbus_conn_bind b c = Inr (r, c')
      \<and> bindings c' = (case r of None \<Rightarrow> bindings c | Some k \<Rightarrow> (bindings c)(bind_key b c \<mapsto> k))
      \<and> (r = None \<longleftrightarrow> bind_key b c \<in> dom (bindings c))" if can: "can_bind b c" for b
  proof (cases "bindings c (bind_key b c)")
    case None
    with tree.reg_ok[OF ok can] show ?thesis by fastforce
  next
    case (Some k)
    from can obtain i where "adbusI_isValidObjectPath (Some (sized (bi_path b) (bi_pathSize b)))"
      "get_iface (bi_interface b) c = Inr i" "if_name i \<notin> builtin_names c"
      "bind_key b c = (sized (bi_path b) (bi_pathSize b), if_name i)" by (rule can_bindE)
    with conn_bind_ok[OF ok refl, of b i] Some show ?thesis by auto
  qed
  show "\<exists>c' b i. adbus_conn_unbind k c = Some (Inr c')
      \<and> bindings c' = (bindings c)(x := None) \<and> cn_binds c k = Some b \<and> get_iface (bd_interface b) c = Inr i
      \<and> cn_released c' = cn_released c @ release_calls b @ map (Pair None) (fst (adbus_iface_deref i))"
    if x: "bindings c x = Some k" for x k
  proof -
    have "k \<in> user_binds c" using x bindings_iff[OF l, of "fst x" "snd x" k] by simp
    from freeBind_ok[OF ok this] tree.unreg_ok[OF ok x] show ?thesis by (auto simp: adbus_conn_unbind_def)
  qed
  show "\<exists>a. adbus_conn_interface p (int (length p)) n (int (length n)) c = Inr (Some (k, a)) \<and> iname c a = Some n"
    if "bindings c (p, n) = Some k" for p n k
    using that bindings_iff[OF l, of p n k]
    by (auto simp: adbus_conn_interface_def bindings_def sized_def get_bind_def split: option.splits if_splits)
qed

theorem bind_refines_map_witness:
  "\<exists>k c c'. adbus_conn_bind sample_bind sample_conn = Inr (Some k, c) \<and> adbus_conn_unbind k c = Some (Inr c')
     \<and> bindings c' = Map.empty"
proof -
  obtain k c where c: "adbus_conn_bind sample_bind sample_conn = Inr (Some k, c)" "bindings c = [(''/a/b'', ''x.Y'') \<mapsto> k]"
    "conn_reach sample_conn c" using sample_bound by blast
  have "bindings c (''/a/b'', ''x.Y'') = Some k" by (simp add: c(2))
  with conjunct1[OF conjunct2[OF bind_refines_map[OF sample_start c(3)]]] obtain c' where
    "adbus_conn_unbind k c = Some (Inr c')" "bindings c' = (bindings c)((''/a/b'', ''x.Y'') := None)" by blast
  with c show ?thesis by auto
qed

text \<open>C14: When every bind of the application has been removed, in whatever order, no object is left.\<close>

theorem unbind_all_empties:
  assumes "conn_start ext c0" "conn_reach c0 c" "distinct xs" "set xs = dom (bindings c)"
  shows "\<exists>c'. unreg_list adbus_conn_unbind (map (\<lambda>x. the (bindings c x)) xs) c = Some (Inr c') \<and> cn_paths c' = Map.empty"
proof -
  have ok: "conn_ok ext c" by (rule reach_ok[OF assms(2,1)])
  from tree.unreg_all[OF ok assms(3,4)] obtain c' where
    c': "unreg_list adbus_conn_unbind (map (\<lambda>x. the (bindings c x)) xs) c = Some (Inr c')" "conn_ok ext c'" "bindings c' = Map.empty"
    by blast
  have "dom (cn_paths c') = {}" using object_reason[OF c'(2)] c'(3) by auto
  then show ?thesis using c'(1) by auto
qed

theorem unbind_all_empties_witness:
  "\<exists>k c c'. adbus_conn_bind sample_bind sample_conn = Inr (Some k, c)
     \<and> unreg_list adbus_conn_unbind [k] c = Some (Inr c') \<and> cn_paths c' = Map.empty"
proof -
  obtain k c where c: "adbus_conn_bind sample_bind sample_conn = Inr (Some k, c)" "bindings c = [(''/a/b'', ''x.Y'') \<mapsto> k]"
    "conn_reach sample_conn c" using sample_bound by blast
  from unbind_all_empties[OF sample_start c(3), of "[(''/a/b'', ''x.Y'')]"] c show ?thesis by simp
qed

end
