(* ===== verification/Replies.thy ===== *)
theory Replies
  imports Callback Registration "HOL-Library.AList"
begin

text \<open>
  \<^verbatim>\<open>adbus/reply.c\<close>, and \<^verbatim>\<open>MoveReplies\<close> of \<^verbatim>\<open>adbus/client-service.c\<close>: the replies a connection waits for, by the
  remote they come from and the serial of the call.

  Replies are known by their address, a number, and remotes by their name, the key of the table of the connection. Function pointers
  and user data are numbers. The lookup of the service, which may send requests to the bus, is an argument of
  \<open>adbus_conn_addreply\<close>.
\<close>

section \<open>State\<close>

record adbus_Reply =
  re_remote :: string
  re_remoteSize :: int
  re_serial :: int
  re_callback :: "nat option"
  re_cuser :: nat
  re_error :: "nat option"
  re_euser :: nat
  re_proxy :: "(nat \<times> nat) option"
  re_release0 :: "(nat \<times> nat) option"
  re_release1 :: "(nat \<times> nat) option"
  re_relproxy :: "(nat \<times> nat) option"

record adbus_ConnReply =
  rp_remote :: "string option"
  rp_serial :: "32 word"
  rp_callback :: "nat option"
  rp_cuser :: nat
  rp_error :: "nat option"
  rp_euser :: nat
  rp_proxy :: "(nat \<times> nat) option"
  rp_release0 :: "(nat \<times> nat) option"
  rp_release1 :: "(nat \<times> nat) option"
  rp_relproxy :: "(nat \<times> nat) option"

text \<open>The part of \<^verbatim>\<open>adbus_Connection\<close> that belongs to replies. \<open>cr_iter\<close> is the iterator of the list of replies.\<close>

record conn_replies =
  cr_remotes :: "string \<rightharpoonup> (32 word \<times> nat) list"
  cr_replies :: "nat \<rightharpoonup> adbus_ConnReply"
  cr_nextReply :: nat
  cr_iter :: "nat option"
  cr_released :: "((nat \<times> nat) option \<times> nat \<times> nat) list"

definition get_remote_of :: "string \<Rightarrow> conn_replies \<Rightarrow> (32 word \<times> nat) list res" where
  "get_remote_of n s = (case cr_remotes s n of None \<Rightarrow> Inl Fault | Some t \<Rightarrow> Inr t)"

definition get_reply :: "nat \<Rightarrow> conn_replies \<Rightarrow> adbus_ConnReply res" where
  "get_reply k s = (case cr_replies s k of None \<Rightarrow> Inl Fault | Some r \<Rightarrow> Inr r)"

definition adbus_reply_init :: adbus_Reply where
  "adbus_reply_init = \<lparr>re_remote = [], re_remoteSize = -1, re_serial = 0, re_callback = None, re_cuser = 0, re_error = None,
     re_euser = 0, re_proxy = None, re_release0 = None, re_release1 = None, re_relproxy = None\<rparr>"

section \<open>Adding and removing replies\<close>

text \<open>
  \<open>service\<close> is the result of \<^verbatim>\<open>adbusI_lookupService\<close>: null for unique names and the bus, or a service with its
  unique name, if that is known.
\<close>

definition adbus_conn_addreply ::
    "string option option \<Rightarrow> adbus_Reply \<Rightarrow> conn_replies \<Rightarrow> (nat option \<times> conn_replies) res" where
  "adbus_conn_addreply service reg s =
     (let name = sized (re_remote reg) (re_remoteSize reg) in
      bindr (assertr (re_callback reg \<noteq> None)) (\<lambda>_.
        if length name = 0 then Inr (None, s)
        else
          let name = (case service of Some (Some unique) \<Rightarrow> unique | _ \<Rightarrow> name);
              s = (if cr_remotes s name = None then s\<lparr>cr_remotes := (cr_remotes s)(name \<mapsto> [])\<rparr> else s);
              serial = word_of_int (re_serial reg) :: 32 word
          in bindr (get_remote_of name s) (\<lambda>t.
             bindr (assertr (map_of t serial = None)) (\<lambda>_.
               let k = cr_nextReply s;
                   r = \<lparr>rp_remote = Some name, rp_serial = serial, rp_callback = re_callback reg, rp_cuser = re_cuser reg,
                        rp_error = re_error reg, rp_euser = re_euser reg, rp_proxy = re_proxy reg,
                        rp_release0 = re_release0 reg, rp_release1 = re_release1 reg, rp_relproxy = re_relproxy reg\<rparr>
               in Inr (Some k, s\<lparr>cr_remotes := (cr_remotes s)(name \<mapsto> t @ [(serial, k)]),
                                 cr_replies := (cr_replies s)(k \<mapsto> r), cr_nextReply := k + 1\<rparr>)))))"

primrec clear_remotes :: "nat list \<Rightarrow> conn_replies \<Rightarrow> conn_replies res" where
  "clear_remotes [] s = Inr s"
| "clear_remotes (k # ks) s =
     bindr (get_reply k s) (\<lambda>r. clear_remotes ks (s\<lparr>cr_replies := (cr_replies s)(k \<mapsto> r\<lparr>rp_remote := None\<rparr>)\<rparr>))"

definition adbusI_freeRemote :: "string \<Rightarrow> conn_replies \<Rightarrow> conn_replies res" where
  "adbusI_freeRemote n s =
     bindr (get_remote_of n s) (\<lambda>t. clear_remotes (map snd t) (s\<lparr>cr_remotes := (cr_remotes s)(n := None)\<rparr>))"

definition reply_release_calls :: "adbus_ConnReply \<Rightarrow> ((nat \<times> nat) option \<times> nat \<times> nat) list" where
  "reply_release_calls r =
     (case rp_release0 r of None \<Rightarrow> [] | Some f \<Rightarrow> [(rp_relproxy r, f)])
     @ (case rp_release1 r of None \<Rightarrow> [] | Some f \<Rightarrow> [(rp_relproxy r, f)])"

definition adbusI_freeReply :: "nat \<Rightarrow> conn_replies \<Rightarrow> conn_replies res" where
  "adbusI_freeReply k s =
     bindr (get_reply k s) (\<lambda>r.
     bindr (case rp_remote r of
              None \<Rightarrow> Inr s
            | Some n \<Rightarrow>
                bindr (get_remote_of n s) (\<lambda>t.
                  let t = AList.delete (rp_serial r) t;
                      s = s\<lparr>cr_remotes := (cr_remotes s)(n \<mapsto> t)\<rparr>
                  in if length t = 0 then adbusI_freeRemote n s else Inr s)) (\<lambda>s.
       Inr (s\<lparr>cr_released := cr_released s @ reply_release_calls r,
              cr_iter := (if cr_iter s = Some k then None else cr_iter s),
              cr_replies := (cr_replies s)(k := None)\<rparr>)))"

definition adbus_conn_removereply :: "nat \<Rightarrow> conn_replies \<Rightarrow> conn_replies res option" where
  "adbus_conn_removereply k s = Some (adbusI_freeReply k s)"

section \<open>Dispatch\<close>

text \<open>
  \<open>call f u\<close> is the message callback \<open>f\<close> with the user data \<open>u\<close>; \<open>proxy f u cb\<close> the proxy function \<open>f\<close> with the user data
  \<open>u\<close>, which gets the callback and its user data. Calling a null pointer is a fault.
\<close>

definition call_dispatch ::
    "(nat \<Rightarrow> nat \<Rightarrow> ('s, int) cbm) \<Rightarrow> (nat \<times> nat) option \<Rightarrow> adbus_CbData \<times> 's \<Rightarrow> (int \<times> adbus_CbData \<times> 's) res" where
  "call_dispatch call cb st = (case cb of None \<Rightarrow> Inl Fault | Some (f, u) \<Rightarrow> adbus_dispatch (call f u) st)"

text \<open>The reply for a message, taken out of the tables.\<close>

definition take_reply :: "adbus_Message \<Rightarrow> conn_replies \<Rightarrow> ((nat \<times> adbus_ConnReply) option \<times> conn_replies) res" where
  "take_reply m s =
     (if msg_type m \<noteq> ADBUS_MSG_RETURN \<and> msg_type m \<noteq> ADBUS_MSG_ERROR then Inr (None, s)
      else case (msg_replySerial m, msg_sender m) of
             (Some serial, Some sender) \<Rightarrow>
               (case cr_remotes s sender of
                  None \<Rightarrow> Inr (None, s)
                | Some t \<Rightarrow>
                    (case map_of t serial of
                       None \<Rightarrow> Inr (None, s)
                     | Some k \<Rightarrow>
                         bindr (get_reply k s) (\<lambda>r.
                         bindr (assertr (rp_remote r = Some sender)) (\<lambda>_.
                           let t = AList.delete serial t
                           in Inr (Some (k, r),
                               s\<lparr>cr_iter := Some k,
                                 cr_replies := (cr_replies s)(k \<mapsto> r\<lparr>rp_remote := None\<rparr>),
                                 cr_remotes := (if length t = 0 then (cr_remotes s)(sender := None)
                                                else (cr_remotes s)(sender \<mapsto> t))\<rparr>)))))
           | _ \<Rightarrow> Inr (None, s))"

definition reply_callback :: "adbus_Message \<Rightarrow> adbus_ConnReply \<Rightarrow> (nat \<times> nat) option" where
  "reply_callback m r =
     (if msg_type m = ADBUS_MSG_RETURN \<and> rp_callback r \<noteq> None then Some (the (rp_callback r), rp_cuser r)
      else if msg_type m = ADBUS_MSG_ERROR \<and> rp_error r \<noteq> None then Some (the (rp_error r), rp_euser r)
      else None)"

definition finish_reply :: "nat \<Rightarrow> conn_replies \<Rightarrow> conn_replies res" where
  "finish_reply k s =
     (let reply2 = cr_iter s;
          s = s\<lparr>cr_iter := None\<rparr>
      in if Some k = reply2 then adbusI_freeReply k s else Inr s)"

definition adbusI_dispatchReply ::
    "(nat \<Rightarrow> nat \<Rightarrow> (conn_replies \<times> 'w, int) cbm)
     \<Rightarrow> (nat \<Rightarrow> nat \<Rightarrow> (nat \<times> nat) option \<Rightarrow> adbus_CbData \<times> conn_replies \<times> 'w \<Rightarrow> (int \<times> adbus_CbData \<times> conn_replies \<times> 'w) res)
     \<Rightarrow> adbus_CbData \<times> conn_replies \<times> 'w \<Rightarrow> (int \<times> adbus_CbData \<times> conn_replies \<times> 'w) res" where
  "adbusI_dispatchReply call proxy st =
     (case st of (d, s, w) \<Rightarrow>
        bindr (take_reply (cb_msg d) s) (\<lambda>(hit, s).
          case hit of
            None \<Rightarrow> Inr (0, d, s, w)
          | Some (k, r) \<Rightarrow>
              let cb = reply_callback (cb_msg d) r in
              bindr (case rp_proxy r of
                       Some (f, u) \<Rightarrow> proxy f u cb (d, s, w)
                     | None \<Rightarrow> call_dispatch call cb (d, s, w)) (\<lambda>(ret, d, s, w).
              bindr (finish_reply k s) (\<lambda>s. Inr (ret, d, s, w)))))"

section \<open>A service gets its unique name\<close>

text \<open>\<open>move_replies\<close> is the loop over the replies of the service.\<close>

primrec move_replies :: "string \<Rightarrow> (32 word \<times> nat) list \<Rightarrow> conn_replies \<Rightarrow> conn_replies res" where
  "move_replies unique [] s = Inr s"
| "move_replies unique (e # es) s =
     bindr (get_reply (snd e) s) (\<lambda>r.
     bindr (get_remote_of unique s) (\<lambda>t.
     bindr (assertr (map_of t (rp_serial r) = None)) (\<lambda>_.
       move_replies unique es
         (s\<lparr>cr_remotes := (cr_remotes s)(unique \<mapsto> t @ [(rp_serial r, snd e)]),
            cr_replies := (cr_replies s)(snd e \<mapsto> r\<lparr>rp_remote := Some unique\<rparr>)\<rparr>))))"

definition MoveReplies :: "string \<Rightarrow> string \<Rightarrow> conn_replies \<Rightarrow> conn_replies res" where
  "MoveReplies service unique s =
     (case cr_remotes s service of
        None \<Rightarrow> Inr s
      | Some t \<Rightarrow>
          let s = (if cr_remotes s unique = None then s\<lparr>cr_remotes := (cr_remotes s)(unique \<mapsto> [])\<rparr> else s)
          in bindr (move_replies unique t s) (\<lambda>s. Inr (s\<lparr>cr_remotes := (cr_remotes s)(service := None)\<rparr>)))"

section \<open>The invariant of the tables\<close>

text \<open>\<open>K\<close> are the replies that have been taken out of the tables and not been freed yet.\<close>

definition reply_ok :: "nat set \<Rightarrow> conn_replies \<Rightarrow> nat \<Rightarrow> adbus_ConnReply \<Rightarrow> bool" where
  "reply_ok K s k r \<longleftrightarrow> k < cr_nextReply s
     \<and> (if k \<in> K then rp_remote r = None
        else \<exists>n t. rp_remote r = Some n \<and> cr_remotes s n = Some t \<and> (rp_serial r, k) \<in> set t)"

definition remote_ok :: "nat set \<Rightarrow> conn_replies \<Rightarrow> string \<Rightarrow> (32 word \<times> nat) list \<Rightarrow> bool" where
  "remote_ok K s n t \<longleftrightarrow> t \<noteq> [] \<and> distinct (map fst t)
     \<and> (\<forall>q k. (q, k) \<in> set t \<longrightarrow> k \<notin> K \<and> (\<exists>r. cr_replies s k = Some r \<and> rp_remote r = Some n \<and> rp_serial r = q))"

definition replies_inv :: "nat set \<Rightarrow> conn_replies \<Rightarrow> bool" where
  "replies_inv K s \<longleftrightarrow> finite (dom (cr_replies s)) \<and> K \<subseteq> dom (cr_replies s)
     \<and> (\<forall>k r. cr_replies s k = Some r \<longrightarrow> reply_ok K s k r)
     \<and> (\<forall>n t. cr_remotes s n = Some t \<longrightarrow> remote_ok K s n t)"

lemma replies_invI:
  assumes "finite (dom (cr_replies s))" "K \<subseteq> dom (cr_replies s)"
    "\<And>k r. cr_replies s k = Some r \<Longrightarrow> reply_ok K s k r" "\<And>n t. cr_remotes s n = Some t \<Longrightarrow> remote_ok K s n t"
  shows "replies_inv K s"
  using assms by (simp add: replies_inv_def)

lemma replies_invD:
  assumes "replies_inv K s"
  shows "finite (dom (cr_replies s))" "K \<subseteq> dom (cr_replies s)"
    "\<And>k r. cr_replies s k = Some r \<Longrightarrow> reply_ok K s k r" "\<And>n t. cr_remotes s n = Some t \<Longrightarrow> remote_ok K s n t"
  using assms by (auto simp: replies_inv_def)

text \<open>The replies that are waited for, by sender and serial.\<close>

definition awaited :: "conn_replies \<Rightarrow> string \<times> 32 word \<rightharpoonup> nat" where
  "awaited s x = (case cr_remotes s (fst x) of None \<Rightarrow> None | Some t \<Rightarrow> map_of t (snd x))"

lemma awaited_iff:
  assumes "replies_inv K s"
  shows "awaited s (n, q) = Some k \<longleftrightarrow> k \<notin> K \<and> (\<exists>r. cr_replies s k = Some r \<and> rp_remote r = Some n \<and> rp_serial r = q)"
proof
  assume "awaited s (n, q) = Some k"
  then obtain t where "cr_remotes s n = Some t" "(q, k) \<in> set t"
    by (auto simp: awaited_def dest: map_of_SomeD split: option.splits)
  then show "k \<notin> K \<and> (\<exists>r. cr_replies s k = Some r \<and> rp_remote r = Some n \<and> rp_serial r = q)"
    using replies_invD(4)[OF assms] unfolding remote_ok_def by blast
next
  assume "k \<notin> K \<and> (\<exists>r. cr_replies s k = Some r \<and> rp_remote r = Some n \<and> rp_serial r = q)"
  then obtain r where r: "k \<notin> K" "cr_replies s k = Some r" "rp_remote r = Some n" "rp_serial r = q" by blast
  then obtain t where t: "cr_remotes s n = Some t" "(q, k) \<in> set t"
    using replies_invD(3)[OF assms r(2)] by (auto simp: reply_ok_def)
  then have "map_of t q = Some k" using replies_invD(4)[OF assms t(1)] by (simp add: remote_ok_def)
  then show "awaited s (n, q) = Some k" using t(1) by (simp add: awaited_def)
qed

text \<open>Taking a reply out of the tables.\<close>

definition unlinked :: "string \<Rightarrow> nat \<Rightarrow> adbus_ConnReply \<Rightarrow> (32 word \<times> nat) list \<Rightarrow> conn_replies \<Rightarrow> conn_replies" where
  "unlinked n k r t s = s\<lparr>cr_replies := (cr_replies s)(k \<mapsto> r\<lparr>rp_remote := None\<rparr>),
     cr_remotes := (cr_remotes s)(n := if AList.delete (rp_serial r) t = [] then None else Some (AList.delete (rp_serial r) t))\<rparr>"

lemma unlinked_inv:
  assumes inv: "replies_inv K s" and k: "cr_replies s k = Some r" "k \<notin> K" "rp_remote r = Some n" "cr_remotes s n = Some t"
  shows "replies_inv (insert k K) (unlinked n k r t s)" (is "replies_inv ?K ?s")
proof (rule replies_invI)
  have t: "remote_ok K s n t" by (rule replies_invD(4)[OF inv k(4)])
  have kt: "(rp_serial r, k) \<in> set t" using replies_invD(3)[OF inv k(1)] k by (auto simp: reply_ok_def)
  have d: "set (AList.delete (rp_serial r) t) = set t - {(rp_serial r, k)}"
    using t kt by (auto simp: AList.delete_eq remote_ok_def dest: eq_key_imp_eq_value)
  have one: "m = n \<and> q = rp_serial r" if "cr_remotes s m = Some u" "(q, k) \<in> set u" for m u q
    using replies_invD(4)[OF inv that(1)] that(2) k(1,3) unfolding remote_ok_def by (metis option.inject)
  show "finite (dom (cr_replies ?s))" using replies_invD(1)[OF inv] by (simp add: unlinked_def)
  show "?K \<subseteq> dom (cr_replies ?s)" using replies_invD(2)[OF inv] by (auto simp: unlinked_def)
  show "reply_ok ?K ?s j x" if j: "cr_replies ?s j = Some x" for j x
  proof (cases "j = k")
    case True
    then show ?thesis using j replies_invD(3)[OF inv k(1)] by (auto simp: reply_ok_def unlinked_def)
  next
    case False
    then have j0: "cr_replies s j = Some x" using j by (simp add: unlinked_def)
    show ?thesis
    proof (cases "j \<in> K")
      case True
      then show ?thesis using replies_invD(3)[OF inv j0] by (simp add: reply_ok_def unlinked_def)
    next
      case jK: False
      then obtain m u where m: "rp_remote x = Some m" "cr_remotes s m = Some u" "(rp_serial x, j) \<in> set u" "j < cr_nextReply s"
        using replies_invD(3)[OF inv j0] by (auto simp: reply_ok_def)
      have "\<exists>u'. cr_remotes ?s m = Some u' \<and> (rp_serial x, j) \<in> set u'"
      proof (cases "m = n")
        case True
        then have "(rp_serial x, j) \<in> set (AList.delete (rp_serial r) t)" using m(2,3) k(4) d False by auto
        then show ?thesis using True by (auto simp: unlinked_def)
      qed (use m(2,3) in \<open>simp add: unlinked_def\<close>)
      then show ?thesis using False jK m(1,4) by (simp add: reply_ok_def unlinked_def)
    qed
  qed
  show "remote_ok ?K ?s m u" if m: "cr_remotes ?s m = Some u" for m u
  proof (cases "m = n")
    case True
    then have u: "u = AList.delete (rp_serial r) t" "u \<noteq> []" using m by (auto simp: unlinked_def split: if_splits)
    have "j \<noteq> k \<and> j \<notin> K \<and> (\<exists>x. cr_replies ?s j = Some x \<and> rp_remote x = Some n \<and> rp_serial x = q)" if qj: "(q, j) \<in> set u" for q j
    proof -
      have "(q, j) \<in> set t" "j \<noteq> k" using qj u(1) d one[OF k(4)] by auto
      then show ?thesis using t unfolding remote_ok_def by (simp add: unlinked_def)
    qed
    then show ?thesis using t u True by (auto simp: remote_ok_def AList.distinct_delete)
  next
    case False
    then have m0: "cr_remotes s m = Some u" using m by (simp add: unlinked_def)
    have nk: "j \<noteq> k" if "(q, j) \<in> set u" for q j using one[OF m0] that False by blast
    show ?thesis using replies_invD(4)[OF inv m0] nk unfolding remote_ok_def by (auto simp: unlinked_def)
  qed
qed

lemma awaited_unlinked:
  assumes inv: "replies_inv K s" and k: "cr_replies s k = Some r" "k \<notin> K" "rp_remote r = Some n" "cr_remotes s n = Some t"
  shows "awaited (unlinked n k r t s) = (awaited s)((n, rp_serial r) := None)"
proof
  fix x :: "string \<times> 32 word"
  let ?t = "AList.delete (rp_serial r) t"
  have m: "map_of ?t = (map_of t)(rp_serial r := None)" by (simp add: AList.delete_conv')
  show "awaited (unlinked n k r t s) x = ((awaited s)((n, rp_serial r) := None)) x"
  proof (cases "fst x = n")
    case True
    then have "awaited (unlinked n k r t s) x = map_of ?t (snd x)" by (simp add: awaited_def unlinked_def)
    also have "\<dots> = (if snd x = rp_serial r then None else map_of t (snd x))" by (simp add: m)
    also have "\<dots> = ((awaited s)((n, rp_serial r) := None)) x" using True k(4) by (simp add: awaited_def prod_eq_iff)
    finally show ?thesis .
  next
    case False
    then show ?thesis by (cases x) (simp add: awaited_def unlinked_def)
  qed
qed

text \<open>Freeing a reply that is out of the tables.\<close>

definition dropped :: "nat \<Rightarrow> adbus_ConnReply \<Rightarrow> conn_replies \<Rightarrow> conn_replies" where
  "dropped k r s = s\<lparr>cr_released := cr_released s @ reply_release_calls r,
     cr_iter := (if cr_iter s = Some k then None else cr_iter s), cr_replies := (cr_replies s)(k := None)\<rparr>"

lemma dropped_inv:
  assumes inv: "replies_inv (insert k K) s" and k: "k \<notin> K"
  shows "replies_inv K (dropped k r s)"
proof (rule replies_invI)
  show "finite (dom (cr_replies (dropped k r s)))" using replies_invD(1)[OF inv] by (simp add: dropped_def)
  show "K \<subseteq> dom (cr_replies (dropped k r s))" using replies_invD(2)[OF inv] k by (auto simp: dropped_def)
  show "reply_ok K (dropped k r s) j x" if "cr_replies (dropped k r s) j = Some x" for j x
    using that replies_invD(3)[OF inv, of j x] by (auto simp: reply_ok_def dropped_def split: if_splits)
  show "remote_ok K (dropped k r s) n t" if "cr_remotes (dropped k r s) n = Some t" for n t
    using that replies_invD(4)[OF inv, of n t] unfolding remote_ok_def by (fastforce simp: dropped_def)
qed

lemma awaited_dropped [simp]: "awaited (dropped k r s) = awaited s"
  by (auto simp: awaited_def dropped_def)

lemma freeReply_pending:
  "cr_replies s k = Some r \<Longrightarrow> rp_remote r = None \<Longrightarrow> adbusI_freeReply k s = Inr (dropped k r s)"
  by (simp add: adbusI_freeReply_def get_reply_def dropped_def)

lemma release_calls_unlink [simp]: "reply_release_calls (r\<lparr>rp_remote := x\<rparr>) = reply_release_calls r"
  by (simp add: reply_release_calls_def cong: option.case_cong)

lemma freeReply_linked:
  assumes "cr_replies s k = Some r" "rp_remote r = Some n" "cr_remotes s n = Some t"
  shows "adbusI_freeReply k s = Inr (dropped k r (unlinked n k r t s))"
  using assms
  by (auto simp: adbusI_freeReply_def get_reply_def get_remote_of_def adbusI_freeRemote_def Let_def dropped_def unlinked_def
      intro!: conn_replies.equality)

lemma freeReply_ok:
  assumes inv: "replies_inv K s" and k: "awaited s x = Some k"
  shows "\<exists>s' r. adbusI_freeReply k s = Inr s' \<and> replies_inv K s' \<and> awaited s' = (awaited s)(x := None)
     \<and> cr_replies s k = Some r \<and> cr_released s' = cr_released s @ reply_release_calls r"
proof -
  obtain n q where x: "x = (n, q)" by (cases x)
  obtain r where r: "k \<notin> K" "cr_replies s k = Some r" "rp_remote r = Some n" "rp_serial r = q"
    using k unfolding x awaited_iff[OF inv] by blast
  obtain t where t: "cr_remotes s n = Some t" using k x by (auto simp: awaited_def split: option.splits)
  have "replies_inv K (dropped k r (unlinked n k r t s))" by (rule dropped_inv[OF unlinked_inv[OF inv r(2,1,3) t] r(1)])
  moreover have "awaited (dropped k r (unlinked n k r t s)) = (awaited s)(x := None)"
    using awaited_unlinked[OF inv r(2,1,3) t] r(4) x by simp
  moreover have "cr_released (dropped k r (unlinked n k r t s)) = cr_released s @ reply_release_calls r"
    by (simp add: dropped_def unlinked_def)
  ultimately show ?thesis using freeReply_linked[OF r(2,3) t] r(2) by blast
qed

text \<open>Adding a reply.\<close>

definition can_reply :: "string option option \<Rightarrow> adbus_Reply \<Rightarrow> bool" where
  "can_reply service reg \<longleftrightarrow> re_callback reg \<noteq> None \<and> sized (re_remote reg) (re_remoteSize reg) \<noteq> []"

definition reply_key :: "string option option \<Rightarrow> adbus_Reply \<Rightarrow> string \<times> 32 word" where
  "reply_key service reg =
     (case service of Some (Some unique) \<Rightarrow> unique | _ \<Rightarrow> sized (re_remote reg) (re_remoteSize reg), word_of_int (re_serial reg))"

lemma addreply_ok:
  assumes inv: "replies_inv K s" and can: "can_reply service reg" and free: "awaited s (reply_key service reg) = None"
  shows "\<exists>k s'. adbus_conn_addreply service reg s = Inr (Some k, s') \<and> replies_inv K s' \<and> k \<notin> dom (cr_replies s)
     \<and> awaited s' = (awaited s)(reply_key service reg \<mapsto> k) \<and> cr_released s' = cr_released s"
proof -
  obtain n q where x: "reply_key service reg = (n, q)" by (cases "reply_key service reg")
  define t where "t = (case cr_remotes s n of None \<Rightarrow> [] | Some t \<Rightarrow> t)"
  define k where "k = cr_nextReply s"
  define r where "r = \<lparr>rp_remote = Some n, rp_serial = q, rp_callback = re_callback reg, rp_cuser = re_cuser reg,
                        rp_error = re_error reg, rp_euser = re_euser reg, rp_proxy = re_proxy reg,
                        rp_release0 = re_release0 reg, rp_release1 = re_release1 reg, rp_relproxy = re_relproxy reg\<rparr>"
  define s' where "s' = s\<lparr>cr_remotes := (cr_remotes s)(n \<mapsto> t @ [(q, k)]), cr_replies := (cr_replies s)(k \<mapsto> r), cr_nextReply := Suc k\<rparr>"
  have new: "map_of t q = None" using free by (simp add: x awaited_def t_def split: option.splits)
  have run: "adbus_conn_addreply service reg s = Inr (Some k, s')"
    using can x new unfolding s'_def r_def
    by (auto simp: adbus_conn_addreply_def can_reply_def reply_key_def Let_def t_def k_def get_remote_of_def split: option.splits
        intro!: conn_replies.equality)
  have lt: "j \<noteq> k" if "cr_replies s j = Some y" for j y using replies_invD(3)[OF inv that] by (auto simp: reply_ok_def k_def)
  have "replies_inv K s'"
  proof (rule replies_invI)
    show "finite (dom (cr_replies s'))" using replies_invD(1)[OF inv] by (simp add: s'_def)
    show "K \<subseteq> dom (cr_replies s')" using replies_invD(2)[OF inv] by (auto simp: s'_def)
    have kK: "k \<notin> K" using replies_invD(2)[OF inv] lt by blast
    show "reply_ok K s' j y" if j: "cr_replies s' j = Some y" for j y
    proof (cases "j = k")
      case True
      then have "y = r" using j by (simp add: s'_def)
      then show ?thesis using True kK by (simp add: reply_ok_def) (simp add: s'_def r_def)
    next
      case False
      then have old: "reply_ok K s j y" using j replies_invD(3)[OF inv] by (simp add: s'_def)
      then have "\<exists>m u. rp_remote y = Some m \<and> cr_remotes s' m = Some u \<and> (rp_serial y, j) \<in> set u" if jK: "j \<notin> K"
      proof -
        obtain m u where m: "rp_remote y = Some m" "cr_remotes s m = Some u" "(rp_serial y, j) \<in> set u"
          using old jK by (auto simp: reply_ok_def)
        then show ?thesis by (cases "m = n") (auto simp: s'_def t_def)
      qed
      then show ?thesis using old by (simp add: reply_ok_def s'_def k_def)
    qed
    show "remote_ok K s' m u" if m: "cr_remotes s' m = Some u" for m u
    proof -
      have old: "(\<forall>p j. (p, j) \<in> set v \<longrightarrow> j \<notin> K \<and> (\<exists>r. cr_replies s' j = Some r \<and> rp_remote r = Some m \<and> rp_serial r = p))
          \<and> distinct (map fst v)"
        if "cr_remotes s m = Some v" for v
        using replies_invD(4)[OF inv that] lt unfolding remote_ok_def s'_def by fastforce
      show ?thesis
      proof (cases "m = n")
        case True
        have "q \<notin> fst ` set t" using new by (simp add: map_of_eq_None_iff)
        moreover have "u = t @ [(q, k)]" "cr_replies s' k = Some r" "rp_remote r = Some n" "rp_serial r = q"
          using True m by (simp_all add: s'_def r_def)
        moreover have "(\<forall>p j. (p, j) \<in> set t \<longrightarrow> j \<notin> K \<and> (\<exists>r. cr_replies s' j = Some r \<and> rp_remote r = Some n \<and> rp_serial r = p))
          \<and> distinct (map fst t)"
          using old True by (cases "cr_remotes s n") (simp_all add: t_def)
        ultimately show ?thesis using True kK by (auto simp: remote_ok_def)
      next
        case False
        then have m0: "cr_remotes s m = Some u" using m by (simp add: s'_def)
        then show ?thesis using old[OF m0] replies_invD(4)[OF inv m0] by (simp add: remote_ok_def)
      qed
    qed
  qed
  moreover have "awaited s' = (awaited s)(reply_key service reg \<mapsto> k)"
    using new unfolding x by (auto simp: awaited_def s'_def t_def map_of_append map_add_def fun_eq_iff split: option.splits)
  moreover have "k \<notin> dom (cr_replies s)" using lt by blast
  ultimately show ?thesis using run by (auto simp: s'_def)
qed

text \<open>The replies as a registry: one that answers to its unique name.\<close>

definition key_of :: "string option option \<times> adbus_Reply \<Rightarrow> conn_replies \<Rightarrow> string \<times> 32 word" where
  "key_of reg s = reply_key (fst reg) (snd reg)"

interpretation replies: registry "\<lambda>reg. adbus_conn_addreply (fst reg) (snd reg)" adbus_conn_removereply "replies_inv {}"
  "\<lambda>reg s. can_reply (fst reg) (snd reg)" key_of awaited
proof
  fix s reg
  assume inv: "replies_inv {} s" and can: "can_reply (fst reg) (snd reg)" and free: "awaited s (key_of reg s) = None"
  have "ran (awaited s) \<subseteq> dom (cr_replies s)" using awaited_iff[OF inv] by (fastforce simp: ran_def)
  with addreply_ok[OF inv can] free
  show "\<exists>k s'. adbus_conn_addreply (fst reg) (snd reg) s = Inr (Some k, s') \<and> replies_inv {} s' \<and> k \<notin> ran (awaited s)
      \<and> awaited s' = (awaited s)(key_of reg s \<mapsto> k)"
    unfolding key_of_def by blast
next
  fix s x k
  assume "replies_inv {} s" "awaited s x = Some k"
  from freeReply_ok[OF this]
  show "\<exists>s'. adbus_conn_removereply k s = Some (Inr s') \<and> replies_inv {} s' \<and> awaited s' = (awaited s)(x := None)"
    by (auto simp: adbus_conn_removereply_def)
next
  fix s
  assume inv: "replies_inv {} s"
  have "dom (awaited s) \<subseteq> (\<lambda>k. (the (rp_remote (the (cr_replies s k))), rp_serial (the (cr_replies s k)))) ` dom (cr_replies s)"
  proof
    fix x
    assume "x \<in> dom (awaited s)"
    then obtain k where "awaited s (fst x, snd x) = Some k" by auto
    then show "x \<in> (\<lambda>k. (the (rp_remote (the (cr_replies s k))), rp_serial (the (cr_replies s k)))) ` dom (cr_replies s)"
      unfolding awaited_iff[OF inv] by (force intro!: image_eqI[of _ _ k])
  qed
  then show "finite (dom (awaited s))" using finite_subset replies_invD(1)[OF inv] by blast
qed

section \<open>What a message does\<close>

definition is_reply :: "adbus_Message \<Rightarrow> string \<Rightarrow> 32 word \<Rightarrow> bool" where
  "is_reply m n q \<longleftrightarrow> (msg_type m = ADBUS_MSG_RETURN \<or> msg_type m = ADBUS_MSG_ERROR)
     \<and> msg_sender m = Some n \<and> msg_replySerial m = Some q"

lemma take_reply_hit:
  assumes inv: "replies_inv {} s" and m: "is_reply m n q" and k: "awaited s (n, q) = Some k" "cr_replies s k = Some r"
  shows "\<exists>t. take_reply m s = Inr (Some (k, r), (unlinked n k r t s)\<lparr>cr_iter := Some k\<rparr>)
    \<and> cr_remotes s n = Some t \<and> rp_remote r = Some n \<and> rp_serial r = q"
proof -
  have r: "rp_remote r = Some n" "rp_serial r = q" using k awaited_iff[OF inv] by auto
  obtain t where t: "cr_remotes s n = Some t" "map_of t q = Some k" using k(1) by (auto simp: awaited_def split: option.splits)
  have "take_reply m s = Inr (Some (k, r), (unlinked n k r t s)\<lparr>cr_iter := Some k\<rparr>)"
    using m t k(2) r
    by (auto simp: take_reply_def is_reply_def get_reply_def unlinked_def Let_def intro!: conn_replies.equality)
  then show ?thesis using r t(1) by blast
qed

lemma take_reply_miss:
  assumes "\<And>n q. is_reply m n q \<Longrightarrow> awaited s (n, q) = None"
  shows "take_reply m s = Inr (None, s)"
proof (cases "\<exists>n q. is_reply m n q")
  case True
  then obtain n q where m: "is_reply m n q" by blast
  from assms[OF m] have "cr_remotes s n = None \<or> (\<exists>t. cr_remotes s n = Some t \<and> map_of t q = None)"
    by (auto simp: awaited_def split: option.splits)
  then show ?thesis using m by (auto simp: take_reply_def is_reply_def)
next
  case False
  then show ?thesis by (auto simp: take_reply_def is_reply_def split: option.splits)
qed

lemma dispatchReply_miss:
  assumes "\<And>n q. is_reply (cb_msg d) n q \<Longrightarrow> awaited s (n, q) = None"
  shows "adbusI_dispatchReply call proxy (d, s, w) = Inr (0, d, s, w)"
  by (simp add: adbusI_dispatchReply_def take_reply_miss[OF assms])

lemma replies_inv_iter: "replies_inv K (s\<lparr>cr_iter := x\<rparr>) = replies_inv K s"
  by (simp add: replies_inv_def reply_ok_def remote_ok_def)

lemma awaited_iter: "awaited (s\<lparr>cr_iter := x\<rparr>) = awaited s"
  by (auto simp: awaited_def)

lemma finish_reply_ok:
  assumes inv: "replies_inv {k} s" and k: "cr_replies s k = Some r" "cr_iter s = Some k"
  shows "\<exists>s'. finish_reply k s = Inr s' \<and> replies_inv {} s' \<and> awaited s' = awaited s
    \<and> cr_released s' = cr_released s @ reply_release_calls r"
proof -
  let ?s = "s\<lparr>cr_iter := None\<rparr>"
  have i: "replies_inv {k} ?s" using inv by (simp add: replies_inv_iter)
  have r: "rp_remote r = None" using replies_invD(3)[OF inv k(1)] by (simp add: reply_ok_def)
  have "finish_reply k s = Inr (dropped k r ?s)"
    using freeReply_pending[of ?s k r] k r by (simp add: finish_reply_def)
  moreover have "replies_inv {} (dropped k r ?s)" using dropped_inv[of k "{}" ?s] i by simp
  moreover have "cr_released (dropped k r ?s) = cr_released s @ reply_release_calls r" by (simp add: dropped_def)
  ultimately show ?thesis by (simp add: awaited_iter)
qed

text \<open>C15: A reply the connection waits for is delivered once: its callback runs when the tables have already forgotten it,
  then the release callbacks run and the reply is freed; the same message again, or a message from another sender or with
  another serial, reaches nobody. (The callback here does not touch the replies of the connection.)\<close>

theorem reply_delivered_once:
  assumes inv: "replies_inv {} s" and k: "awaited s (n, q) = Some k" "cr_replies s k = Some r" "rp_proxy r = None"
    and m: "is_reply (cb_msg d) n q" and f: "reply_callback (cb_msg d) r = Some (f, u)"
    and call: "\<And>s. adbus_dispatch (call f u) (d, s, w) = Inr (ret, d', s, w')"
  shows "\<exists>s'. adbusI_dispatchReply call proxy (d, s, w) = Inr (ret, d', s', w') \<and> replies_inv {} s'
     \<and> awaited s' = (awaited s)((n, q) := None) \<and> cr_released s' = cr_released s @ reply_release_calls r
     \<and> (\<forall>d2 w2. (\<forall>n2 q2. is_reply (cb_msg d2) n2 q2 \<longrightarrow> (n2, q2) = (n, q) \<or> awaited s (n2, q2) = None)
          \<longrightarrow> adbusI_dispatchReply call proxy (d2, s', w2) = Inr (0, d2, s', w2))"
proof -
  obtain t where t: "take_reply (cb_msg d) s = Inr (Some (k, r), (unlinked n k r t s)\<lparr>cr_iter := Some k\<rparr>)"
    "cr_remotes s n = Some t" "rp_remote r = Some n" "rp_serial r = q" using take_reply_hit[OF inv m k(1,2)] by blast
  let ?s1 = "(unlinked n k r t s)\<lparr>cr_iter := Some k\<rparr>"
  have inv1: "replies_inv {k} ?s1" using unlinked_inv[OF inv k(2) _ t(3,2)] by (simp add: replies_inv_iter)
  have a1: "awaited ?s1 = (awaited s)((n, q) := None)"
    using awaited_unlinked[OF inv k(2) _ t(3,2)] t(4) by (simp add: awaited_iter)
  have k1: "cr_replies ?s1 k = Some (r\<lparr>rp_remote := None\<rparr>)" by (simp add: unlinked_def)
  obtain s' where s': "finish_reply k ?s1 = Inr s'" "replies_inv {} s'" "awaited s' = awaited ?s1"
    "cr_released s' = cr_released ?s1 @ reply_release_calls r" using finish_reply_ok[OF inv1 k1] by auto
  have "adbusI_dispatchReply call proxy (d, s, w) = Inr (ret, d', s', w')"
    using t(1) k(3) f call[of ?s1] s'(1) by (simp add: adbusI_dispatchReply_def call_dispatch_def)
  moreover have "adbusI_dispatchReply call proxy (d2, s', w2) = Inr (0, d2, s', w2)"
    if "\<forall>n2 q2. is_reply (cb_msg d2) n2 q2 \<longrightarrow> (n2, q2) = (n, q) \<or> awaited s (n2, q2) = None" for d2 w2
    by (rule dispatchReply_miss) (use that s'(3) a1 in auto)
  ultimately show ?thesis using s' a1 by (auto simp: unlinked_def)
qed

definition sample_reply :: adbus_Reply where
  "sample_reply = adbus_reply_init\<lparr>re_remote := '':1.5'', re_serial := 7, re_callback := Some 3, re_cuser := 4, re_release0 := Some (8, 9)\<rparr>"

definition no_replies :: conn_replies where
  "no_replies = \<lparr>cr_remotes = Map.empty, cr_replies = Map.empty, cr_nextReply = 0, cr_iter = None, cr_released = []\<rparr>"

definition one_reply :: conn_replies where
  "one_reply = (case adbus_conn_addreply None sample_reply no_replies of Inr (_, s) \<Rightarrow> s | Inl e \<Rightarrow> no_replies)"

definition sample_return :: adbus_CbData where
  "sample_return = sample_cb\<lparr>cb_msg := msg_zero\<lparr>msg_type := ADBUS_MSG_RETURN, msg_sender := Some '':1.5'', msg_replySerial := Some 7\<rparr>\<rparr>"

lemma one_reply_eq:
  "one_reply = \<lparr>cr_remotes = ['':1.5'' \<mapsto> [(7, 0)]],
     cr_replies = [0 \<mapsto> \<lparr>rp_remote = Some '':1.5'', rp_serial = 7, rp_callback = Some 3, rp_cuser = 4, rp_error = None, rp_euser = 0,
       rp_proxy = None, rp_release0 = Some (8, 9), rp_release1 = None, rp_relproxy = None\<rparr>],
     cr_nextReply = 1, cr_iter = None, cr_released = []\<rparr>"
  by (simp add: one_reply_def adbus_conn_addreply_def sample_reply_def adbus_reply_init_def sized_def no_replies_def get_remote_of_def Let_def)

lemma one_reply_inv: "replies_inv {} one_reply"
  by (auto simp: one_reply_eq replies_inv_def reply_ok_def remote_ok_def)

theorem reply_delivered_once_witness:
  "\<exists>s d w. adbusI_dispatchReply (\<lambda>f u. retc 0) (\<lambda>f u cb st. Inl Fault) (sample_return, one_reply, ()) = Inr (0, d, s, w)
     \<and> awaited one_reply ('':1.5'', 7) = Some 0 \<and> awaited s ('':1.5'', 7) = None \<and> cr_released s = [(None, 8, 9)]"
proof -
  have a: "awaited one_reply ('':1.5'', 7) = Some 0" by (simp add: awaited_def one_reply_eq)
  let ?d = "sample_return\<lparr>cb_iter := adbus_iter_args (cb_msg sample_return)\<rparr>"
  let ?r = "the (cr_replies one_reply 0)"
  have r: "cr_replies one_reply 0 = Some ?r" "rp_proxy ?r = None" "reply_release_calls ?r = [(None, 8, 9)]" "cr_released one_reply = []"
    by (simp_all add: one_reply_eq reply_release_calls_def)
  have m: "is_reply (cb_msg sample_return) '':1.5'' 7" by (simp add: is_reply_def sample_return_def)
  have f: "reply_callback (cb_msg sample_return) ?r = Some (3, 4)"
    by (simp add: reply_callback_def sample_return_def one_reply_eq)
  have c: "adbus_dispatch (retc 0) (sample_return, s, ()) = Inr (0, ?d, s, ())" for s
    by (simp add: adbus_dispatch_def retc_def)
  from reply_delivered_once[OF one_reply_inv a r(1,2) m f, of "\<lambda>f u. retc 0" "()" 0 ?d "()" "\<lambda>f u cb st. Inl Fault", OF c]
  obtain s where s: "adbusI_dispatchReply (\<lambda>f u. retc 0) (\<lambda>f u cb st. Inl Fault) (sample_return, one_reply, ()) = Inr (0, ?d, s, ())"
    "awaited s = (awaited one_reply)(('':1.5'', 7) := None)" "cr_released s = [(None, 8, 9)]" using r(3,4) by auto
  from s(2) have "awaited s ('':1.5'', 7) = None" by simp
  with s(1,3) a show ?thesis by blast
qed

text \<open>An error reply to a call that was registered without an error callback is dispatched to a null pointer.\<close>

theorem error_reply_faults:
  assumes "replies_inv {} s" "awaited s (n, q) = Some k" "cr_replies s k = Some r" "rp_proxy r = None" "rp_error r = None"
    and "is_reply (cb_msg d) n q" "msg_type (cb_msg d) = ADBUS_MSG_ERROR"
  shows "adbusI_dispatchReply call proxy (d, s, w) = Inl Fault"
  using take_reply_hit[OF assms(1,6,2,3)] assms(4,5,7)
  by (auto simp: adbusI_dispatchReply_def reply_callback_def call_dispatch_def)

theorem error_reply_faults_witness:
  "adbusI_dispatchReply (\<lambda>f u. retc 0) (\<lambda>f u cb st. Inl Fault)
     (sample_return\<lparr>cb_msg := (cb_msg sample_return)\<lparr>msg_type := ADBUS_MSG_ERROR\<rparr>\<rparr>, one_reply, ()) = Inl Fault"
  by (rule error_reply_faults[OF one_reply_inv, of "'':1.5''" 7 0 "the (cr_replies one_reply 0)"])
    (simp_all add: awaited_def one_reply_eq is_reply_def sample_return_def)

section \<open>Moving replies\<close>

definition moved :: "string \<Rightarrow> nat set \<Rightarrow> (nat \<rightharpoonup> adbus_ConnReply) \<Rightarrow> nat \<rightharpoonup> adbus_ConnReply" where
  "moved n K m k = (if k \<in> K then map_option (\<lambda>r. r\<lparr>rp_remote := Some n\<rparr>) (m k) else m k)"

lemma move_replies_eq:
  assumes "cr_remotes s unique = Some u" "distinct (map fst (u @ t))" "distinct (map snd t)"
    and "\<And>q k. (q, k) \<in> set t \<Longrightarrow> \<exists>r. cr_replies s k = Some r \<and> rp_serial r = q"
  shows "move_replies unique t s = Inr (s\<lparr>cr_remotes := (cr_remotes s)(unique \<mapsto> u @ t),
     cr_replies := moved unique (snd ` set t) (cr_replies s)\<rparr>)"
  using assms
proof (induction t arbitrary: s u)
  case Nil
  have "moved unique {} m = m" for m by (rule ext) (simp add: moved_def)
  then show ?case using Nil by (simp add: map_upd_triv)
next
  case (Cons e t)
  obtain q k where e: "e = (q, k)" by (cases e)
  obtain r where r: "cr_replies s k = Some r" "rp_serial r = q" using Cons.prems(4)[of q k] e by auto
  let ?s = "s\<lparr>cr_remotes := (cr_remotes s)(unique \<mapsto> u @ [(q, k)]), cr_replies := (cr_replies s)(k \<mapsto> r\<lparr>rp_remote := Some unique\<rparr>)\<rparr>"
  have new: "map_of u q = None" using Cons.prems(2) e by (auto simp: map_of_eq_None_iff)
  have step: "move_replies unique (e # t) s = move_replies unique t ?s"
    using Cons.prems(1) r new by (simp add: e get_reply_def get_remote_of_def)
  have nk: "k \<notin> snd ` set t" using Cons.prems(3) e by auto
  have old: "\<exists>r. cr_replies ?s j = Some r \<and> rp_serial r = p" if "(p, j) \<in> set t" for p j
  proof -
    have "j \<noteq> k" using that nk by force
    then show ?thesis using Cons.prems(4)[of p j] that by auto
  qed
  have mv: "moved unique (snd ` set t) ((cr_replies s)(k \<mapsto> r\<lparr>rp_remote := Some unique\<rparr>)) = moved unique (snd ` set (e # t)) (cr_replies s)"
    using nk r(1) by (auto simp: moved_def fun_eq_iff e)
  have "move_replies unique t ?s = Inr (?s\<lparr>cr_remotes := (cr_remotes ?s)(unique \<mapsto> (u @ [(q, k)]) @ t),
     cr_replies := moved unique (snd ` set t) (cr_replies ?s)\<rparr>)"
    by (rule Cons.IH) (use Cons.prems(2,3) old e in auto)
  also have "\<dots> = Inr (s\<lparr>cr_remotes := (cr_remotes s)(unique \<mapsto> u @ e # t),
     cr_replies := moved unique (snd ` set (e # t)) (cr_replies s)\<rparr>)"
    using mv by (auto simp: e intro!: conn_replies.equality)
  finally show ?case by (simp only: step)
qed

text \<open>C20: When the unique name of a service becomes known, every reply that waited for the service waits for its unique
  name under the same serial, and the others wait as before. No two replies may share a serial, otherwise an assert trips.\<close>

theorem service_replies_moved:
  assumes inv: "replies_inv {} s" and ne: "service \<noteq> unique"
    and free: "\<And>q. awaited s (service, q) \<noteq> None \<Longrightarrow> awaited s (unique, q) = None"
  shows "\<exists>s'. MoveReplies service unique s = Inr s' \<and> replies_inv {} s'
     \<and> (\<forall>n q. awaited s' (n, q) =
          (if n = service then None
           else if n = unique \<and> awaited s (service, q) \<noteq> None then awaited s (service, q)
           else awaited s (n, q)))"
proof (cases "cr_remotes s service")
  case None
  then have a: "awaited s (service, q) = None" for q by (simp add: awaited_def)
  have "MoveReplies service unique s = Inr s" using None by (simp add: MoveReplies_def)
  then show ?thesis using inv a by auto
next
  case (Some t)
  define u where "u = (case cr_remotes s unique of None \<Rightarrow> [] | Some u \<Rightarrow> u)"
  define s0 where "s0 = (if cr_remotes s unique = None then s\<lparr>cr_remotes := (cr_remotes s)(unique \<mapsto> [])\<rparr> else s)"
  have s0: "cr_remotes s0 = (cr_remotes s)(unique \<mapsto> u)" "cr_replies s0 = cr_replies s" "cr_nextReply s0 = cr_nextReply s"
    by (auto simp: s0_def u_def map_upd_triv)
  have ok: "remote_ok {} s service t" by (rule replies_invD(4)[OF inv Some])
  have ut: "distinct (map fst u) \<and> (\<forall>q k. (q, k) \<in> set u \<longrightarrow> (\<exists>r. cr_replies s k = Some r \<and> rp_remote r = Some unique \<and> rp_serial r = q))"
    using replies_invD(4)[OF inv, of unique] by (auto simp: u_def remote_ok_def split: option.splits)
  have ent: "\<exists>r. cr_replies s k = Some r \<and> rp_remote r = Some service \<and> rp_serial r = q" if "(q, k) \<in> set t" for q k
    using ok that unfolding remote_ok_def by blast
  have dt: "distinct (map fst t)" using ok by (simp add: remote_ok_def)
  have dj: "fst ` set u \<inter> fst ` set t = {}"
  proof -
    have "q \<notin> fst ` set u" if "q \<in> fst ` set t" for q
    proof -
      have "awaited s (service, q) \<noteq> None" using that Some by (simp add: awaited_def map_of_eq_None_iff)
      from free[OF this] show ?thesis by (auto simp: awaited_def u_def map_of_eq_None_iff split: option.splits)
    qed
    then show ?thesis by blast
  qed
  have d: "distinct (map fst (u @ t))" using ut dt dj by simp
  have ds: "distinct (map snd t)"
  proof -
    have "inj_on snd (set t)"
    proof (rule inj_onI)
      fix x y
      assume "x \<in> set t" "y \<in> set t" "snd x = snd y"
      then show "x = y" by (metis ent option.inject prod.collapse)
    qed
    then show ?thesis using dt by (simp add: distinct_map)
  qed
  define s' where "s' = s0\<lparr>cr_remotes := (cr_remotes s)(unique \<mapsto> u @ t, service := None),
     cr_replies := moved unique (snd ` set t) (cr_replies s)\<rparr>"
  have "move_replies unique t s0 = Inr (s0\<lparr>cr_remotes := (cr_remotes s0)(unique \<mapsto> u @ t),
     cr_replies := moved unique (snd ` set t) (cr_replies s0)\<rparr>)"
    by (rule move_replies_eq[OF _ d ds]) (use ent s0 in auto)
  then have run: "MoveReplies service unique s = Inr s'"
    using Some by (simp add: MoveReplies_def s'_def flip: s0_def) (simp add: s0)
  have entk: "\<exists>r. cr_replies s k = Some r \<and> rp_remote r = Some service" if "k \<in> snd ` set t" for k
    using that ent by fastforce
  have ku: "k \<notin> snd ` set t" if "(q, k) \<in> set u" for q k
  proof
    assume "k \<in> snd ` set t"
    with entk[of k] ut that ne show False by fastforce
  qed
  have inv': "replies_inv {} s'"
  proof (rule replies_invI)
    have "dom (cr_replies s') = dom (cr_replies s)" by (auto simp: s'_def moved_def split: if_splits)
    then show "finite (dom (cr_replies s'))" using replies_invD(1)[OF inv] by simp
    show "reply_ok {} s' k x" if x: "cr_replies s' k = Some x" for k x
    proof -
      obtain y where y: "cr_replies s k = Some y" "rp_serial x = rp_serial y"
        "rp_remote x = (if k \<in> snd ` set t then Some unique else rp_remote y)"
        using x by (auto simp: s'_def moved_def split: if_splits)
      obtain n v where n: "k < cr_nextReply s" "rp_remote y = Some n" "cr_remotes s n = Some v" "(rp_serial y, k) \<in> set v"
        using replies_invD(3)[OF inv y(1)] by (auto simp: reply_ok_def)
      have ks: "k \<in> snd ` set t \<longleftrightarrow> n = service"
        using n Some entk[of k] y(1) by (auto simp: image_iff intro: bexI[of _ "(rp_serial y, k)"])
      show ?thesis
        using n y ks ne Some s0(3) by (cases "n = service"; cases "n = unique") (auto simp: reply_ok_def s'_def u_def)
    qed
    show "remote_ok {} s' n v" if v: "cr_remotes s' n = Some v" for n v
    proof (cases "n = unique")
      case True
      then have vu: "v = u @ t" using v ne by (simp add: s'_def)
      have "t \<noteq> []" using ok by (simp add: remote_ok_def)
      moreover have "\<exists>r. cr_replies s' k = Some r \<and> rp_remote r = Some unique \<and> rp_serial r = q" if "(q, k) \<in> set (u @ t)" for q k
      proof (cases "(q, k) \<in> set t")
        case True
        then have "k \<in> snd ` set t" by force
        with ent[OF True] show ?thesis by (auto simp: s'_def moved_def)
      next
        case False
        then have qk: "(q, k) \<in> set u" using that by simp
        with ut ku[OF qk] show ?thesis by (auto simp: s'_def moved_def)
      qed
      ultimately show ?thesis using d True by (auto simp: remote_ok_def vu)
    next
      case False
      then have v0: "cr_remotes s n = Some v" "n \<noteq> service" using v by (auto simp: s'_def split: if_splits)
      have vk: "k \<notin> snd ` set t" if "(q, k) \<in> set v" for q k
        using that replies_invD(4)[OF inv v0(1)] entk[of k] v0(2) unfolding remote_ok_def by fastforce
      show ?thesis using replies_invD(4)[OF inv v0(1)] vk unfolding remote_ok_def by (simp add: s'_def moved_def)
    qed
  qed simp
  have "awaited s' (n, q) = (if n = service then None
       else if n = unique \<and> awaited s (service, q) \<noteq> None then awaited s (service, q) else awaited s (n, q))" for n q
  proof (cases "n = unique")
    case True
    then have "awaited s' (n, q) = map_of (u @ t) q" using ne by (simp add: awaited_def s'_def)
    moreover have "awaited s (service, q) = map_of t q" "awaited s (unique, q) = map_of u q"
      using Some by (auto simp: awaited_def u_def split: option.splits)
    ultimately show ?thesis using True ne free[of q] by (auto simp: map_add_def split: option.splits)
  next
    case False
    then show ?thesis by (simp add: awaited_def s'_def)
  qed
  then show ?thesis using run inv' by blast
qed

theorem service_replies_moved_witness:
  "\<exists>s. MoveReplies '':1.5'' '':1.6'' one_reply = Inr s \<and> awaited s ('':1.6'', 7) = Some 0 \<and> awaited s ('':1.5'', 7) = None"
proof -
  have a: "awaited one_reply ('':1.5'', 7) = Some 0" "\<And>q. awaited one_reply ('':1.6'', q) = None"
    by (simp_all add: awaited_def one_reply_eq)
  have "'':1.5'' \<noteq> '':1.6''" by simp
  from service_replies_moved[OF one_reply_inv this] a(2) obtain s where
    s: "MoveReplies '':1.5'' '':1.6'' one_reply = Inr s"
    "\<forall>n q. awaited s (n, q) = (if n = '':1.5'' then None
       else if n = '':1.6'' \<and> awaited one_reply ('':1.5'', q) \<noteq> None then awaited one_reply ('':1.5'', q)
       else awaited one_reply (n, q))" by blast
  from s(2)[rule_format, of "'':1.6''" 7] s(2)[rule_format, of "'':1.5''" 7] a(1) s(1) show ?thesis by auto
qed

end
