(* ===== verification/Client.thy ===== *)
theory Client
  imports Match_Rules Replies Object_Tree
begin

text \<open>
  How a connection dispatches a message: to the bind of a method call (\<^verbatim>\<open>adbusI_dispatchBind\<close> of \<^verbatim>\<open>adbus/bind.c\<close>,
  \<^verbatim>\<open>adbus_mbr_call\<close> of \<^verbatim>\<open>adbus/interface.c\<close>), to the matches (\<^verbatim>\<open>adbus/match.c\<close>) and to the replies, composed by
  \<^verbatim>\<open>Dispatch\<close> and \<^verbatim>\<open>adbus_conn_dispatch\<close> of \<^verbatim>\<open>adbus/connection.c\<close>.

  The callbacks, the proxies and the send function of the application are the parameters in \<open>client_env\<close>. A callback gets the
  state of the connection and may change it; a proxy gets the function it has to call.
\<close>

section \<open>State\<close>

text \<open>
  \<open>cm_service\<close> is the service the match follows; the table of services has their unique names, as far as known. The matches of a
  connection are known by their address, a number; \<open>cl_released\<close> lists the release callbacks that ran.
\<close>

record adbus_ConnMatch =
  cm_m :: adbus_Match
  cm_callback :: "nat option"
  cm_cuser :: nat
  cm_proxy :: "(nat \<times> nat) option"
  cm_release0 :: "(nat \<times> nat) option"
  cm_release1 :: "(nat \<times> nat) option"
  cm_relproxy :: "(nat \<times> nat) option"
  cm_service :: "string option"

record client =
  cl_objects :: adbus_Connection
  cl_matches :: "(nat \<times> adbus_ConnMatch) list"
  cl_nextMatch :: nat
  cl_released :: "((nat \<times> nat) option \<times> nat \<times> nat) list"
  cl_services :: "string \<rightharpoonup> string option"
  cl_nextSerial :: "32 word"
  cl_returnMessage :: adbus_MsgFactory

type_synonym 'w cstate = "conn_replies \<times> client \<times> 'w"

type_synonym 'w dispatcher = "adbus_CbData \<times> 'w cstate \<Rightarrow> (int \<times> adbus_CbData \<times> 'w cstate) res"

record 'w client_env =
  ce_call :: "nat \<Rightarrow> nat \<Rightarrow> ('w cstate, int) cbm"
  ce_proxy :: "nat \<Rightarrow> nat \<Rightarrow> (nat \<times> nat) option \<Rightarrow> 'w dispatcher"
  ce_method :: "nat \<Rightarrow> nat \<Rightarrow> user_data \<Rightarrow> ('w cstate, int) cbm"
  ce_method_proxy :: "nat \<Rightarrow> nat \<Rightarrow> 'w dispatcher \<Rightarrow> 'w dispatcher"
  ce_send :: "(adbus_Message \<Rightarrow> 'w cstate \<Rightarrow> int \<times> 'w cstate) option"

section \<open>Matches\<close>

definition CloneString :: "(string \<times> int) option \<Rightarrow> (string \<times> int) option" where
  "CloneString from = (case from of None \<Rightarrow> None | Some (s, sz) \<Rightarrow> let t = sized s sz in Some (t, int (length t)))"

definition CloneMatch :: "adbus_Match \<Rightarrow> adbus_Match" where
  "CloneMatch from =
     \<lparr>am_type = am_type from, am_addMatchToBusDaemon = am_addMatchToBusDaemon from, am_replySerial = am_replySerial from,
      am_sender = None, am_destination = CloneString (am_destination from), am_interface = CloneString (am_interface from),
      am_path = (case am_path from of
                   None \<Rightarrow> None
                 | Some (p, sz) \<Rightarrow> let q = adbusI_relativePath p sz [] 0 in Some (q, int (length q))),
      am_member = CloneString (am_member from), am_error = CloneString (am_error from),
      am_arguments = map CloneString (am_arguments from)\<rparr>"

definition Matches :: "(string \<times> int) option \<Rightarrow> string option \<Rightarrow> bool" where
  "Matches match msg =
     (case match of
        None \<Rightarrow> True
      | Some (matchstr, matchsz) \<Rightarrow>
          (case msg of
             None \<Rightarrow> False
           | Some msgstr \<Rightarrow> matchsz = int (length msgstr) \<and> take (nat matchsz) matchstr = take (nat matchsz) msgstr))"

text \<open>\<open>args_match\<close> is the loop over the arguments of the match.\<close>

fun args_match :: "(string \<times> int) option list \<Rightarrow> string option list \<Rightarrow> bool" where
  "args_match [] vs = True"
| "args_match (a # as) [] = False"
| "args_match (a # as) (v # vs) =
     (case a of
        None \<Rightarrow> args_match as vs
      | Some (matchstr, matchsz) \<Rightarrow>
          (case v of
             None \<Rightarrow> False
           | Some msgstr \<Rightarrow>
               if int (length msgstr) \<noteq> matchsz then False
               else if take (nat matchsz) msgstr \<noteq> take (nat matchsz) matchstr then False
               else args_match as vs))"

definition ArgsMatch_client :: "adbus_Match \<Rightarrow> adbus_Message \<Rightarrow> bool" where
  "ArgsMatch_client match msg =
     (let vs = (case msg_arguments msg of None \<Rightarrow> [] | Some vs \<Rightarrow> vs)
      in if length vs < length (am_arguments match) then False else args_match (am_arguments match) vs)"

text \<open>The tests on the header of a message.\<close>

definition header_fits :: "(string \<rightharpoonup> string option) \<Rightarrow> adbus_ConnMatch \<Rightarrow> adbus_Message \<Rightarrow> bool" where
  "header_fits services m msg =
     (let am = cm_m m in
      if am_type am \<noteq> ADBUS_MSG_INVALID \<and> msg_type msg \<noteq> am_type am then False
      else if am_replySerial am \<ge> 0
              \<and> (case msg_replySerial msg of None \<Rightarrow> True | Some r \<Rightarrow> uint r \<noteq> am_replySerial am) then False
      else if (case cm_service m of
                 None \<Rightarrow> False
               | Some s \<Rightarrow>
                   (case services s of
                      Some (Some unique) \<Rightarrow> \<not> Matches (Some (unique, int (length unique))) (msg_sender msg)
                    | _ \<Rightarrow> False))
              \<or> \<not> Matches (am_sender am) (msg_sender msg) \<or> \<not> Matches (am_destination am) (msg_destination msg)
              \<or> \<not> Matches (am_interface am) (msg_interface msg) \<or> \<not> Matches (am_path am) (msg_path msg)
              \<or> \<not> Matches (am_member am) (msg_member msg) \<or> \<not> Matches (am_error am) (msg_error msg) then False
      else True)"

text \<open>
  The loop over the matches ends with the first one that fits. Parsing the arguments is remembered in the message.
\<close>

primrec dispatch_matches :: "'w client_env \<Rightarrow> (string \<rightharpoonup> string option) \<Rightarrow> adbus_ConnMatch list \<Rightarrow> 'w dispatcher" where
  "dispatch_matches env services [] st = Inr (0, st)"
| "dispatch_matches env services (m # ms) st =
     (if \<not> header_fits services m (cb_msg (fst st)) then dispatch_matches env services ms st
      else
        case (if length (am_arguments (cm_m m)) > 0
              then bindr (adbus_parseargs (cb_msg (fst st))) (\<lambda>msg. Inr (ArgsMatch_client (cm_m m) msg, msg))
              else Inr (True, cb_msg (fst st))) of
          Inl Failed \<Rightarrow> Inr (-1, st)
        | Inl e \<Rightarrow> Inl e
        | Inr (hit, msg) \<Rightarrow>
            let st = ((fst st)\<lparr>cb_msg := msg\<rparr>, snd st);
                cb = map_option (\<lambda>f. (f, cm_cuser m)) (cm_callback m)
            in if \<not> hit then dispatch_matches env services ms st
               else case cm_proxy m of
                      Some (f, u) \<Rightarrow> ce_proxy env f u cb st
                    | None \<Rightarrow> call_dispatch (ce_call env) cb st)"

definition adbusI_dispatchMatch :: "'w client_env \<Rightarrow> 'w dispatcher" where
  "adbusI_dispatchMatch env st =
     (case st of (d, s, cl, w) \<Rightarrow> dispatch_matches env (cl_services cl) (map snd (cl_matches cl)) st)"

section \<open>Method calls\<close>

text \<open>An error reply; the functions that make it return zero.\<close>

definition error_return :: "(adbus_CbData \<Rightarrow> adbus_CbData res) \<Rightarrow> 'w dispatcher" where
  "error_return f st = bindr (f (fst st)) (\<lambda>d. Inr (0, d, snd st))"

definition deref_iface :: "nat \<Rightarrow> adbus_Connection \<Rightarrow> adbus_Connection res" where
  "deref_iface a c =
     bindr (get_iface a c) (\<lambda>i.
       let (rel, i) = adbus_iface_deref i
       in Inr ((set_iface a i c)\<lparr>cn_released := cn_released c @ map (Pair None) rel\<rparr>))"

definition DoCall :: "'w client_env \<Rightarrow> nat \<Rightarrow> nat \<Rightarrow> user_data \<Rightarrow> nat \<Rightarrow> 'w dispatcher" where
  "DoCall env f user1 user2 a st =
     bindr (adbus_dispatch (ce_method env f user1 user2) st) (\<lambda>(err, d, s, cl, w).
     bindr (deref_iface a (cl_objects cl)) (\<lambda>c. Inr (err, d, s, cl\<lparr>cl_objects := c\<rparr>, w)))"

definition adbus_mbr_call :: "'w client_env \<Rightarrow> adbus_Member \<Rightarrow> nat \<Rightarrow> 'w dispatcher" where
  "adbus_mbr_call env mbr bind st =
     (case mb_methodCallback mbr of
        None \<Rightarrow> error_return adbusI_methodError st
      | Some f \<Rightarrow>
          (case st of (d, s, cl, w) \<Rightarrow>
             bindr (get_bind bind (cl_objects cl)) (\<lambda>b.
             bindr (get_iface (bd_interface b) (cl_objects cl)) (\<lambda>i.
               let cl = cl\<lparr>cl_objects := set_iface (bd_interface b) (adbus_iface_ref i) (cl_objects cl)\<rparr>;
                   run = DoCall env f (mb_methodData mbr) (bd_cuser2 b) (bd_interface b)
               in case bd_proxy b of
                    Some (g, u) \<Rightarrow> ce_method_proxy env g u run (d, s, cl, w)
                  | None \<Rightarrow> run (d, s, cl, w)))))"

definition adbusI_dispatchBind :: "'w client_env \<Rightarrow> 'w dispatcher" where
  "adbusI_dispatchBind env st =
     (case st of (d, s, cl, w) \<Rightarrow>
        (case (msg_path (cb_msg d), msg_member (cb_msg d)) of
           (Some path, Some member) \<Rightarrow>
             (case msg_interface (cb_msg d) of
                Some interface \<Rightarrow>
                  bindr (adbus_conn_interface path (int (length path)) interface (int (length interface)) (cl_objects cl)) (\<lambda>found.
                    case found of
                      None \<Rightarrow> error_return adbusI_interfaceError st
                    | Some (bind, a) \<Rightarrow>
                        bindr (get_iface a (cl_objects cl)) (\<lambda>i.
                          case adbus_iface_method i member (int (length member)) of
                            None \<Rightarrow> error_return adbusI_methodError st
                          | Some mbr \<Rightarrow> adbus_mbr_call env mbr bind st))
              | None \<Rightarrow>
                  bindr (adbus_conn_method path (int (length path)) member (int (length member)) (cl_objects cl)) (\<lambda>found.
                    case found of
                      None \<Rightarrow> error_return adbusI_methodError st
                    | Some (bind, mbr) \<Rightarrow> adbus_mbr_call env mbr bind st))
         | _ \<Rightarrow> Inl Abort))"

section \<open>Dispatch\<close>

text \<open>\<^verbatim>\<open>!flags & ADBUS_MSG_NO_REPLY\<close> negates before it masks.\<close>

definition wants_reply :: "adbus_Message \<Rightarrow> bool" where
  "wants_reply m \<longleftrightarrow> (if msg_flags m = 0 then 1 else 0) AND ADBUS_MSG_NO_REPLY \<noteq> 0"

text \<open>The fields of the reply that the callback need not set.\<close>

definition return_fields :: "adbus_CbData \<Rightarrow> adbus_CbData res" where
  "return_fields d =
     (case cb_ret d of
        None \<Rightarrow> Inr d
      | Some m \<Rightarrow>
          let m = (if adbus_msg_type m = ADBUS_MSG_INVALID then adbus_msg_settype m ADBUS_MSG_RETURN else m);
              (serial, next) = adbus_conn_serial (cb_nextSerial d);
              (m, next) = (if adbus_msg_serial m = 0 then (adbus_msg_setserial m serial, next) else (m, cb_nextSerial d));
              m = adbus_msg_setflags m (adbus_msg_flags m OR ADBUS_MSG_NO_REPLY);
              m = adbus_msg_setreply m (msg_serial (cb_msg d))
          in bindr (case msg_sender (cb_msg d) of
                      None \<Rightarrow> Inr m
                    | Some sender \<Rightarrow> adbus_msg_setdestination m sender (int (length sender))) (\<lambda>m.
             Inr (d\<lparr>cb_ret := Some m, cb_nextSerial := next\<rparr>)))"

definition Dispatch :: "'w client_env \<Rightarrow> 'w dispatcher" where
  "Dispatch env st =
     (case st of (d, s) \<Rightarrow>
        if msg_size (cb_msg d) = 0 then Inr (0, d, s)
        else
          let d = d\<lparr>cb_ret := (if msg_type (cb_msg d) = ADBUS_MSG_METHOD \<and> wants_reply (cb_msg d)
                              then map_option adbus_msg_reset (cb_ret d) else None)\<rparr>
          in bindr (if msg_type (cb_msg d) = ADBUS_MSG_METHOD then
                      bindr (adbusI_dispatchBind env (d, s)) (\<lambda>(ret, d, s).
                        if ret \<noteq> 0 then Inr (-1, d, s)
                        else bindr (return_fields d) (\<lambda>d. Inr (0, d, s)))
                    else Inr (0, d, s)) (\<lambda>(ret, d, s).
               if ret \<noteq> 0 then Inr (ret, d, s)
               else
                 bindr (adbusI_dispatchMatch env (d\<lparr>cb_ret := None\<rparr>, s)) (\<lambda>(ret, d1, s).
                 bindr (if ret \<noteq> 0 then Inr (1, d1, s)
                        else bindr (adbusI_dispatchReply (ce_call env) (ce_proxy env) (d1, s)) (\<lambda>(ret, d1, s).
                               Inr (if ret \<noteq> 0 then 1 else 0, d1, s))) (\<lambda>(err, d1, s).
                   Inr (err, d1\<lparr>cb_ret := cb_ret d\<rparr>, s)))))"

definition adbus_conn_send :: "'w client_env \<Rightarrow> adbus_Message \<Rightarrow> 'w cstate \<Rightarrow> (int \<times> 'w cstate) res" where
  "adbus_conn_send env msg s =
     bindr (assertr (msg_serial msg \<noteq> 0)) (\<lambda>_.
       case ce_send env of
         None \<Rightarrow> Inr (-1, s)
       | Some send \<Rightarrow> (case send msg s of (sent, s) \<Rightarrow> Inr (if sent \<noteq> int (msg_size msg) then -1 else 0, s)))"

definition adbus_msg_send :: "'w client_env \<Rightarrow> adbus_MsgFactory \<Rightarrow> 'w cstate \<Rightarrow> (int \<times> adbus_MsgFactory \<times> 'w cstate) res" where
  "adbus_msg_send env m s =
     (case s of (r, cl, w) \<Rightarrow>
        let (serial, next) = adbus_conn_serial (cl_nextSerial cl);
            (m, cl) = (if adbus_msg_serial m < 0 then (adbus_msg_setserial m serial, cl\<lparr>cl_nextSerial := next\<rparr>) else (m, cl))
        in case adbus_msg_build m of
             Inl Failed \<Rightarrow> Inr (-1, m, r, cl, w)
           | Inl e \<Rightarrow> Inl e
           | Inr (m, msg) \<Rightarrow> bindr (adbus_conn_send env msg (r, cl, w)) (\<lambda>(ret, s). Inr (ret, m, s)))"

text \<open>
  The serial counter is in the callback data while a message is dispatched; the return message is that of the
  connection. The result of sending the reply is not looked at. The message may come back with its arguments parsed.
\<close>

definition adbus_conn_dispatch ::
    "'w client_env \<Rightarrow> adbus_Message \<Rightarrow> 'w cstate \<Rightarrow> (int \<times> adbus_Message \<times> 'w cstate) res" where
  "adbus_conn_dispatch env message s =
     (if msg_size message = 0 then Inr (0, message, s)
      else case s of (r, cl, w) \<Rightarrow>
        let d = \<lparr>cb_msg = message, cb_ret = Some (cl_returnMessage cl), cb_noreturn = False,
                 cb_iter = \<lparr>it_data = 0, it_size = 0, it_sig = None\<rparr>, cb_nextSerial = cl_nextSerial cl\<rparr>
        in bindr (Dispatch env (d, r, cl, w)) (\<lambda>(ret, d, r, cl, w).
             let cl = cl\<lparr>cl_nextSerial := cb_nextSerial d,
                         cl_returnMessage := (case cb_ret d of None \<Rightarrow> cl_returnMessage cl | Some m \<Rightarrow> m)\<rparr> in
             if ret \<noteq> 0 then Inr (-1, cb_msg d, r, cl, w)
             else case cb_ret d of
                    None \<Rightarrow> Inr (0, cb_msg d, r, cl, w)
                  | Some m \<Rightarrow>
                      bindr (adbus_msg_send env m (r, cl, w)) (\<lambda>(_, m, r, cl, w).
                        Inr (0, cb_msg d, r, cl\<lparr>cl_returnMessage := m\<rparr>, w))))"

section \<open>Who gets a message\<close>

text \<open>The match fits the message whose arguments are parsed in \<open>full\<close>.\<close>

definition match_fits :: "(string \<rightharpoonup> string option) \<Rightarrow> adbus_Message \<Rightarrow> adbus_ConnMatch \<Rightarrow> bool" where
  "match_fits services full m \<longleftrightarrow> header_fits services m full \<and> (am_arguments (cm_m m) = [] \<or> ArgsMatch_client (cm_m m) full)"

lemma header_fits_args: "header_fits services m (msg\<lparr>msg_arguments := vs\<rparr>) = header_fits services m msg"
  by (simp add: header_fits_def Let_def cong: option.case_cong if_cong)

lemma parseargs_full:
  assumes "adbus_parseargs msg = Inr full"
  shows "adbus_parseargs full = Inr full \<and> header_fits services m full = header_fits services m msg"
proof -
  have "full = msg \<and> msg_arguments msg \<noteq> None \<or> (\<exists>vs. full = msg\<lparr>msg_arguments := Some vs\<rparr>)"
    using assms by (auto simp: adbus_parseargs_def res_convs split: if_splits)
  then show ?thesis by (auto simp: adbus_parseargs_def header_fits_args)
qed

lemma dispatch_matches_skip:
  assumes "adbus_parseargs msg = Inr full" "cb_msg d = msg \<or> cb_msg d = full" "\<forall>m \<in> set pre. \<not> match_fits services full m"
  shows "\<exists>x. (x = cb_msg d \<or> x = full)
     \<and> dispatch_matches env services (pre @ ms) (d, s) = dispatch_matches env services ms (d\<lparr>cb_msg := x\<rparr>, s)"
  using assms(2,3)
proof (induction pre arbitrary: d)
  case Nil
  then show ?case by (intro exI[of _ "cb_msg d"]) simp
next
  case (Cons m pre)
  have p: "adbus_parseargs (cb_msg d) = Inr full" "header_fits services m (cb_msg d) = header_fits services m full"
    using Cons.prems(1) assms(1) parseargs_full[OF assms(1)] by auto
  have nf: "\<not> match_fits services full m" "\<forall>m \<in> set pre. \<not> match_fits services full m" using Cons.prems(2) by auto
  show ?case
  proof (cases "header_fits services m full")
    case False
    then show ?thesis using Cons.IH[OF Cons.prems(1) nf(2)] p(2) by simp
  next
    case True
    then have "am_arguments (cm_m m) \<noteq> []" "\<not> ArgsMatch_client (cm_m m) full" using nf(1) by (auto simp: match_fits_def)
    then have "dispatch_matches env services ((m # pre) @ ms) (d, s) = dispatch_matches env services (pre @ ms) (d\<lparr>cb_msg := full\<rparr>, s)"
      using True p by simp
    with Cons.IH[of "d\<lparr>cb_msg := full\<rparr>"] nf(2) show ?thesis by auto
  qed
qed


text \<open>Replies to calls.\<close>

lemma wants_reply_iff: "wants_reply m \<longleftrightarrow> msg_flags m = 0"
  by (simp add: wants_reply_def ADBUS_MSG_NO_REPLY_def)

lemma return_fields_ok:
  assumes "cb_ret d = Some m" "msg_sender (cb_msg d) = Some sender" "NUL \<notin> set sender"
  shows "\<exists>d' m'. return_fields d = Inr d' \<and> cb_ret d' = Some m' \<and> cb_msg d' = cb_msg d
     \<and> mf_messageType m' = (if mf_messageType m = ADBUS_MSG_INVALID then ADBUS_MSG_RETURN else mf_messageType m)
     \<and> mf_error m' = mf_error m \<and> mf_hasReplySerial m' \<and> mf_replySerial m' = msg_serial (cb_msg d) \<and> mf_destination m' = sender
     \<and> mf_argbuf m' = mf_argbuf m \<and> mf_flags m' = (mf_flags m OR ADBUS_MSG_NO_REPLY)"
  using assms field_arg_ok[OF assms(3), of "int (length sender)"]
  by (auto simp: return_fields_def adbus_msg_setdestination_def adbus_msg_setreply_def adbus_msg_setflags_def adbus_msg_setserial_def
      adbus_msg_settype_def adbus_msg_type_def adbus_msg_serial_def adbus_msg_flags_def Let_def adbus_conn_serial_def split: prod.splits)

lemma dispatchReply_method:
  "msg_type (cb_msg d) = ADBUS_MSG_METHOD \<Longrightarrow> adbusI_dispatchReply call proxy (d, s, w) = Inr (0, d, s, w)"
  by (rule dispatchReply_miss) (simp add: is_reply_def)

lemma interfaceError_ok:
  assumes "cb_ret d = Some m" and "length (buf_sig (mf_argbuf m)) = 256" and "plain_msg (cb_msg d)"
  shows "\<exists>d' m'. adbusI_interfaceError d = Inr d' \<and> cb_ret d' = Some m' \<and> cb_msg d' = cb_msg d
     \<and> mf_messageType m' = ADBUS_MSG_ERROR \<and> mf_error m' = ''nz.co.foobar.adbus.InvalidInterface''"
proof -
  let ?t = "''The path '' @ quoted (fmt_s (msg_path (cb_msg d))) @ '' does not export the interface ''
        @ quoted (fmt_s (msg_interface (cb_msg d))) @ ''.''"
  have p: "NUL \<notin> set (fmt_s (msg_interface (cb_msg d)))" "length (fmt_s (msg_interface (cb_msg d))) < 2 ^ 30"
    "NUL \<notin> set (fmt_s (msg_path (cb_msg d)))" "length (fmt_s (msg_path (cb_msg d))) < 2 ^ 30"
    using assms(3) plain_fmt unfolding plain_msg_def by blast+
  have dest: "\<forall>x\<in>set_option (msg_destination (cb_msg d)). NUL \<notin> set x"
    using assms(3) by (auto simp: plain_msg_def plain_str_def split: option.splits)
  have n: "NUL \<notin> set ''nz.co.foobar.adbus.InvalidInterface''" by simp
  have t: "NUL \<notin> set ?t" "length ?t < 2 ^ 32" using p by (simp_all add: quoted_def)
  from errorf_ok[OF assms(1,2) n t dest] show ?thesis unfolding adbusI_interfaceError_def by blast
qed

lemma msg_reset_sig: "length (buf_sig (mf_argbuf m)) = 256 \<Longrightarrow> length (buf_sig (mf_argbuf (adbus_msg_reset m))) = 256"
  by (simp add: adbus_msg_reset_def adbus_buf_reset_def)

lemma dispatch_matches_none:
  "\<forall>m \<in> set ms. \<not> header_fits services m (cb_msg (fst st)) \<Longrightarrow> dispatch_matches env services ms st = Inr (0, st)"
  by (induction ms) auto

text \<open>A method call that only the bind can take.\<close>

lemma Dispatch_method:
  assumes "msg_size (cb_msg d) > 0" "msg_type (cb_msg d) = ADBUS_MSG_METHOD" and "\<forall>m \<in> set (cl_matches cl). \<not> header_fits (cl_services cl) (snd m) (cb_msg d)"
    and "adbusI_dispatchBind env (d\<lparr>cb_ret := if msg_flags (cb_msg d) = 0 then map_option adbus_msg_reset (cb_ret d) else None\<rparr>, s, cl, w)
      = Inr (0, d1, s, cl, w)"
    and "return_fields d1 = Inr d2" "cb_msg d2 = cb_msg d"
  shows "Dispatch env (d, s, cl, w) = Inr (0, d2, s, cl, w)"
  using assms by (simp add: Dispatch_def wants_reply_iff adbusI_dispatchMatch_def dispatchReply_method dispatch_matches_none Let_def)

text \<open>C19: A method call to an interface that its path does not export is answered with an \<^verbatim>\<open>InvalidInterface\<close> error for the
  serial of the call, sent back to the caller, and changes nothing, if no match fits it; but if the call has any flag, also one that does not
  decline a reply, there is no answer.\<close>

theorem unknown_interface_answered:
  assumes m: "msg_size (cb_msg d) > 0" "msg_type (cb_msg d) = ADBUS_MSG_METHOD" "plain_msg (cb_msg d)"
    "msg_path (cb_msg d) = Some path" "msg_member (cb_msg d) = Some member" "msg_interface (cb_msg d) = Some interface"
    "msg_sender (cb_msg d) = Some sender" "NUL \<notin> set sender"
    and ret: "cb_ret d = Some r" "length (buf_sig (mf_argbuf r)) = 256"
    and no: "adbus_conn_interface path (int (length path)) interface (int (length interface)) (cl_objects cl) = Inr None"
    and cl: "\<forall>m \<in> set (cl_matches cl). \<not> header_fits (cl_services cl) (snd m) (cb_msg d)"
  shows "\<exists>d'. Dispatch env (d, s, cl, w) = Inr (0, d', s, cl, w)
     \<and> (if msg_flags (cb_msg d) = 0
        then \<exists>m'. cb_ret d' = Some m' \<and> mf_messageType m' = ADBUS_MSG_ERROR \<and> mf_error m' = ''nz.co.foobar.adbus.InvalidInterface''
               \<and> mf_hasReplySerial m' \<and> mf_replySerial m' = msg_serial (cb_msg d) \<and> mf_destination m' = sender
        else cb_ret d' = None)"
proof -
  let ?d = "d\<lparr>cb_ret := if msg_flags (cb_msg d) = 0 then map_option adbus_msg_reset (cb_ret d) else None\<rparr>"
  have b: "adbusI_dispatchBind env (?d, s, cl, w) = error_return adbusI_interfaceError (?d, s, cl, w)"
    using m(4-6) no by (simp add: adbusI_dispatchBind_def)
  show ?thesis
  proof (cases "msg_flags (cb_msg d) = 0")
    case True
    then have r: "cb_ret ?d = Some (adbus_msg_reset r)" using ret by simp
    have pm: "plain_msg (cb_msg ?d)" using m(3) by simp
    obtain d1 m1 where d1: "adbusI_interfaceError ?d = Inr d1" "cb_ret d1 = Some m1" "cb_msg d1 = cb_msg ?d"
      "mf_messageType m1 = ADBUS_MSG_ERROR" "mf_error m1 = ''nz.co.foobar.adbus.InvalidInterface''"
      using interfaceError_ok[OF r msg_reset_sig[OF ret(2)] pm] by blast
    have sd: "msg_sender (cb_msg d1) = Some sender" using d1(3) m(7) by simp
    obtain d2 m2 where d2: "return_fields d1 = Inr d2" "cb_ret d2 = Some m2" "cb_msg d2 = cb_msg d"
      "mf_messageType m2 = ADBUS_MSG_ERROR" "mf_error m2 = ''nz.co.foobar.adbus.InvalidInterface''" "mf_hasReplySerial m2"
      "mf_replySerial m2 = msg_serial (cb_msg d)" "mf_destination m2 = sender"
      using return_fields_ok[OF d1(2) sd m(8)] d1(3-5) by auto
    have "adbusI_dispatchBind env (?d, s, cl, w) = Inr (0, d1, s, cl, w)" using b d1(1) by (simp add: error_return_def)
    from Dispatch_method[OF m(1,2) cl this d2(1,3)] d2 True show ?thesis by auto
  next
    case False
    then have e: "adbusI_interfaceError ?d = Inr ?d" by (simp add: adbusI_interfaceError_def adbus_errorf_def adbus_error_def)
    then have bd: "adbusI_dispatchBind env (?d, s, cl, w) = Inr (0, ?d, s, cl, w)" using b by (simp add: error_return_def)
    have rf: "return_fields ?d = Inr ?d" using False by (simp add: return_fields_def)
    have "Dispatch env (d, s, cl, w) = Inr (0, ?d, s, cl, w)" by (rule Dispatch_method[OF m(1,2) cl bd rf]) simp
    then show ?thesis using False by auto
  qed
qed

text \<open>A connection with one object, and a call to it.\<close>

definition sample_env :: "unit client_env" where
  "sample_env = \<lparr>ce_call = (\<lambda>f u. retc 0), ce_proxy = (\<lambda>f u cb st. Inl Fault), ce_method = (\<lambda>f u1 u2. retc 0),
     ce_method_proxy = (\<lambda>f u run. run), ce_send = None\<rparr>"

definition sample_client :: client where
  "sample_client = \<lparr>cl_objects = \<lparr>cn_paths = [''/o'' \<mapsto> \<lparr>op_interfaces = [(''x.Y'', 5)], op_children = [], op_parent = None\<rparr>],
       cn_binds = [5 \<mapsto> \<lparr>bd_path = Some ''/o'', bd_interface = 2, bd_cuser2 = User 9, bd_proxy = None, bd_release0 = None,
                        bd_release1 = None, bd_relproxy = None\<rparr>],
       cn_nextBind = 6,
       cn_ifaces = [2 \<mapsto> \<lparr>if_ref = 2, if_name = ''x.Y'',
                         if_members = [(''M'', (new_member ADBUSI_METHOD ''M'')\<lparr>mb_methodCallback := Some 3\<rparr>)], if_freed = False\<rparr>],
       cn_introspectable = 0, cn_properties = 1, cn_released = []\<rparr>,
     cl_matches = [], cl_nextMatch = 0, cl_released = [], cl_services = Map.empty, cl_nextSerial = 1, cl_returnMessage = adbus_msg_new\<rparr>"

definition sample_call_to :: "string \<Rightarrow> nat \<Rightarrow> adbus_CbData" where
  "sample_call_to i flags = sample_cb\<lparr>cb_msg := msg_zero\<lparr>msg_size := 100, msg_type := ADBUS_MSG_METHOD, msg_flags := flags, msg_serial := 7,
     msg_path := Some ''/o'', msg_interface := Some i, msg_member := Some ''M'', msg_sender := Some '':1.5''\<rparr>\<rparr>"

theorem unknown_interface_answered_witness:
  "\<exists>d. Dispatch sample_env (sample_call_to ''x.Z'' 2, no_replies, sample_client, ()) = Inr (0, d, no_replies, sample_client, ())
     \<and> cb_ret d = None"
  using unknown_interface_answered[of "sample_call_to ''x.Z'' 2" "''/o''" "''M''" "''x.Z''" "'':1.5''" adbus_msg_new sample_client
      sample_env no_replies "()"]
  by (simp add: sample_call_to_def sample_cb_def sample_client_def plain_msg_def plain_str_def msg_zero_def adbus_msg_new_def
      adbus_buf_new_def adbus_conn_interface_def sized_def)

text \<open>A reference that is taken for a call and given back.\<close>

lemma deref_ref:
  assumes "get_iface a c = Inr i" "if_ref i > 0"
  shows "deref_iface a (set_iface a (adbus_iface_ref i) c) = Inr c"
proof -
  have "cn_ifaces c a = Some i" "\<not> if_freed i" using assms(1) by (auto simp: get_iface_def split: option.splits if_splits)
  then show ?thesis using assms(2)
    by (auto simp: deref_iface_def get_iface_def set_iface_def adbus_iface_ref_def adbus_iface_deref_def map_upd_triv
        intro!: adbus_Connection.equality)
qed



text \<open>Two matches for the same messages.\<close>

definition any_match :: "nat \<Rightarrow> adbus_ConnMatch" where
  "any_match f = \<lparr>cm_m = \<lparr>am_type = ADBUS_MSG_INVALID, am_addMatchToBusDaemon = False, am_replySerial = -1, am_sender = None,
       am_destination = None, am_interface = None, am_path = None, am_member = None, am_error = None, am_arguments = []\<rparr>,
     cm_callback = Some f, cm_cuser = 0, cm_proxy = None, cm_release0 = None, cm_release1 = None, cm_relproxy = None, cm_service = None\<rparr>"


end
