(* ===== verification/Conn_Parse.thy ===== *)
theory Conn_Parse
  imports Client
begin

text \<open>
  \<^verbatim>\<open>adbus_conn_parse\<close> of \<^verbatim>\<open>adbus/connection.c\<close>: the loop that takes messages off the input of a connection.

  The data of the buffer starts at an address that is a multiple of eight, and \<open>off\<close> is the distance from it. A message at
  another address is copied to the parse buffer of the connection, \<open>pb\<close>, first; it is only left there when the
  connection fails. The message structure of the loop starts out uninitialised, with the contents \<open>m\<close>; \<open>n\<close> is the fuel of \<open>adbus_parse\<close>.
\<close>

section \<open>The loop\<close>

text \<open>Parsing and dispatching the message at the start of \<open>data\<close>.\<close>

definition parse_dispatch ::
    "nat \<Rightarrow> 'w client_env \<Rightarrow> mem \<Rightarrow> nat \<Rightarrow> adbus_Message \<Rightarrow> 'w cstate \<Rightarrow> (int \<times> adbus_Message \<times> 'w cstate) res option" where
  "parse_dispatch n env data msgsize m s =
     (case adbus_parse n m data msgsize of
        None \<Rightarrow> None
      | Some (Inl Failed) \<Rightarrow> Some (Inr (-1, m, s))
      | Some (Inl e) \<Rightarrow> Some (Inl e)
      | Some (Inr m) \<Rightarrow> Some (adbus_conn_dispatch env m s))"

definition parse_one ::
    "nat \<Rightarrow> 'w client_env \<Rightarrow> nat \<Rightarrow> char list \<Rightarrow> nat \<Rightarrow> char list \<Rightarrow> adbus_Message \<Rightarrow> 'w cstate
     \<Rightarrow> (int \<times> char list \<times> adbus_Message \<times> 'w cstate) res option" where
  "parse_one n env off data msgsize pb m s =
     (if off mod 8 = 0 then
        (case parse_dispatch n env data msgsize m s of
           None \<Rightarrow> None
         | Some r \<Rightarrow> Some (bindr r (\<lambda>(ret, m, s). Inr (ret, pb, m, s))))
      else if length pb mod 8 \<noteq> 0 then Some (Inl Fault)
      else
        let dest = take msgsize data in
        (case parse_dispatch n env dest msgsize m s of
           None \<Rightarrow> None
         | Some r \<Rightarrow> Some (bindr r (\<lambda>(ret, m, s). Inr (ret, if ret \<noteq> 0 then pb @ dest else [], m, s)))))"

text \<open>\<open>None\<close> in the result is the error return, otherwise it is the size of what is left.\<close>

function parse_messages ::
    "nat \<Rightarrow> 'w client_env \<Rightarrow> nat \<Rightarrow> char list \<Rightarrow> char list \<Rightarrow> adbus_Message \<Rightarrow> 'w cstate
     \<Rightarrow> (nat option \<times> char list \<times> 'w cstate) res option" where
  "parse_messages n env off data pb m s =
     (case adbus_parse_size data (length data) of
        Inl e \<Rightarrow> Some (Inl e)
      | Inr msgsize \<Rightarrow>
          if msgsize = 0 \<or> msgsize > length data then Some (Inr (Some (length data), pb, s))
          else
            (case parse_one n env off data msgsize pb m s of
               None \<Rightarrow> None
             | Some (Inl e) \<Rightarrow> Some (Inl e)
             | Some (Inr (ret, pb, m, s)) \<Rightarrow>
                 if ret \<noteq> 0 then Some (Inr (None, pb, s))
                 else parse_messages n env (off + msgsize) (drop msgsize data) pb m s))"
  by pat_completeness auto

termination
  by (relation "measure (\<lambda>(n, env, off, data, pb, m, s). length data)") auto

declare parse_messages.simps [simp del]

definition adbus_conn_parse ::
    "nat \<Rightarrow> 'w client_env \<Rightarrow> adbus_Message \<Rightarrow> char list \<Rightarrow> adbus_Buffer \<Rightarrow> 'w cstate
     \<Rightarrow> (int \<times> char list \<times> adbus_Buffer \<times> 'w cstate) res option" where
  "adbus_conn_parse n env m pb buf s =
     (case parse_messages n env 0 (buf_b buf) pb m s of
        None \<Rightarrow> None
      | Some (Inl e) \<Rightarrow> Some (Inl e)
      | Some (Inr (None, pb, s)) \<Rightarrow> Some (Inr (-1, pb, buf, s))
      | Some (Inr (Some sz, pb, s)) \<Rightarrow>
          Some (bindr (adbus_buf_remove buf 0 (length (buf_b buf) - sz)) (\<lambda>buf. Inr (0, pb, buf, s))))"

section \<open>A stream of messages\<close>

text \<open>Dispatching messages one after the other, up to the first failure.\<close>

primrec dispatch_all :: "'w client_env \<Rightarrow> adbus_Message list \<Rightarrow> 'w cstate \<Rightarrow> (int \<times> 'w cstate) res" where
  "dispatch_all env [] s = Inr (0, s)"
| "dispatch_all env (msg # msgs) s =
     bindr (adbus_conn_dispatch env msg s) (\<lambda>(ret, msg, s). if ret \<noteq> 0 then Inr (-1, s) else dispatch_all env msgs s)"

text \<open>The message that the peer has built; other messages may follow it in memory.\<close>

definition delivered :: "adbus_MsgFactory \<Rightarrow> adbus_Message \<Rightarrow> bool" where
  "delivered m msg \<longleftrightarrow>
     (\<exists>rest. msg = (parsed (m\<lparr>mf_buf := (mf_buf m)\<lparr>buf_b := built m\<rparr>\<rparr>))\<lparr>msg_data := built m @ rest\<rparr>)"

definition incomplete :: "char list \<Rightarrow> bool" where
  "incomplete data \<longleftrightarrow> (\<exists>z. adbus_parse_size data (length data) = Inr z \<and> (z = 0 \<or> length data < z))"

lemma parse_one_built:
  assumes "sendable m"
  shows "\<exists>msg. delivered m msg \<and> (\<forall>s old. \<exists>pb. parse_one n env off (built m @ rest) (length (built m)) [] old s
     = Some (bindr (adbus_conn_dispatch env msg s) (\<lambda>(ret, msg, s). Inr (ret, if ret \<noteq> 0 then pb else [], msg, s))))"
proof -
  let ?b = "(mf_buf m)\<lparr>buf_b := built m\<rparr>"
  let ?msg = "\<lambda>rest. (parsed (m\<lparr>mf_buf := ?b\<rparr>))\<lparr>msg_data := built m @ rest\<rparr>"
  have b: "buf_b ?b = built m" by simp
  have p: "adbus_parse n old (built m @ r) (length (built m)) = Some (Inr (?msg r))" for old r
    by (rule parse_built[OF assms b])
  have "\<exists>pb. parse_one n env off (built m @ rest) (length (built m)) [] old s
     = Some (bindr (adbus_conn_dispatch env (?msg (if off mod 8 = 0 then rest else [])) s)
         (\<lambda>(ret, msg, s). Inr (ret, if ret \<noteq> 0 then pb else [], msg, s)))" for s old
  proof (cases "off mod 8 = 0")
    case True
    then show ?thesis using p[of old rest] by (intro exI[of _ "[]"]) (simp add: parse_one_def parse_dispatch_def)
  next
    case False
    then show ?thesis using p[of old "[]"]
      by (intro exI[of _ "built m"]) (simp add: parse_one_def parse_dispatch_def Let_def cong: if_cong)
  qed
  then show ?thesis unfolding delivered_def by blast
qed

lemma parse_messages_built:
  assumes "\<forall>m \<in> set ms. sendable m \<and> framed m" and "incomplete tail"
  shows "\<exists>msgs. list_all2 delivered ms msgs \<and> (\<forall>s old.
     case dispatch_all env msgs s of
       Inl e \<Rightarrow> parse_messages n env off (concat (map built ms) @ tail) [] old s = Some (Inl e)
     | Inr (ret, s') \<Rightarrow>
         if ret = 0 then parse_messages n env off (concat (map built ms) @ tail) [] old s = Some (Inr (Some (length tail), [], s'))
         else \<exists>pb. parse_messages n env off (concat (map built ms) @ tail) [] old s = Some (Inr (None, pb, s')))"
  using assms(1)
proof (induction ms arbitrary: off)
  case Nil
  have "parse_messages n env off tail [] old s = Some (Inr (Some (length tail), [], s))" for old s
    using assms(2) by (auto simp: incomplete_def parse_messages.simps[of n env off tail])
  then show ?case by (intro exI[of _ "[]"]) simp
next
  case (Cons m ms)
  let ?rest = "concat (map built ms) @ tail"
  have m: "sendable m" "framed m" using Cons.prems by simp_all
  obtain msg where msg: "delivered m msg"
    "\<And>s old. \<exists>pb. parse_one n env off (built m @ ?rest) (length (built m)) [] old s
       = Some (bindr (adbus_conn_dispatch env msg s) (\<lambda>(ret, msg, s). Inr (ret, if ret \<noteq> 0 then pb else [], msg, s)))"
    using parse_one_built[OF m(1), of n env off ?rest] by blast
  obtain msgs where msgs: "list_all2 delivered ms msgs" "\<And>s old.
     case dispatch_all env msgs s of
       Inl e \<Rightarrow> parse_messages n env (off + length (built m)) ?rest [] old s = Some (Inl e)
     | Inr (ret, s') \<Rightarrow>
         if ret = 0 then parse_messages n env (off + length (built m)) ?rest [] old s = Some (Inr (Some (length tail), [], s'))
         else \<exists>pb. parse_messages n env (off + length (built m)) ?rest [] old s = Some (Inr (None, pb, s'))"
    using Cons.IH[of "off + length (built m)"] Cons.prems by auto
  have sz: "adbus_parse_size (built m @ ?rest) (length (built m @ ?rest)) = Inr (length (built m))"
    by (rule parse_size_built[OF m])
  have nz: "length (built m) \<noteq> 0" using built_longer[OF m(1)] by linarith
  have dr: "drop (length (built m)) (built m @ ?rest) = ?rest" by simp
  have step: "parse_messages n env off (built m @ ?rest) [] old s =
      (case parse_one n env off (built m @ ?rest) (length (built m)) [] old s of
         None \<Rightarrow> None | Some (Inl e) \<Rightarrow> Some (Inl e)
       | Some (Inr (ret, pb, m', s)) \<Rightarrow> if ret \<noteq> 0 then Some (Inr (None, pb, s))
           else parse_messages n env (off + length (built m)) ?rest pb m' s)" for old s
    unfolding parse_messages.simps[of n env off "built m @ ?rest"] sz sum.case dr using nz by simp
  have run: "case dispatch_all env (msg # msgs) s of
       Inl e \<Rightarrow> parse_messages n env off (built m @ ?rest) [] old s = Some (Inl e)
     | Inr (ret, s') \<Rightarrow>
         if ret = 0 then parse_messages n env off (built m @ ?rest) [] old s = Some (Inr (Some (length tail), [], s'))
         else \<exists>pb. parse_messages n env off (built m @ ?rest) [] old s = Some (Inr (None, pb, s'))" for s old
  proof (cases "adbus_conn_dispatch env msg s")
    case (Inl e)
    then show ?thesis using msg(2)[where s = s and old = old] by (auto simp: step)
  next
    case (Inr y)
    obtain ret msg' s1 where y: "y = (ret, msg', s1)" by (cases y)
    show ?thesis
    proof (cases "ret = 0")
      case True
      then have "parse_messages n env off (built m @ ?rest) [] old s = parse_messages n env (off + length (built m)) ?rest [] msg' s1"
        using msg(2)[where s = s and old = old] Inr y by (auto simp: step)
      moreover have "dispatch_all env (msg # msgs) s = dispatch_all env msgs s1" using Inr y True by simp
      ultimately show ?thesis using msgs(2)[where s = s1 and old = msg'] by (simp only:)
    next
      case False
      then show ?thesis using msg(2)[where s = s and old = old] Inr y by (auto simp: step)
    qed
  qed
  have c: "concat (map built (m # ms)) @ tail = built m @ ?rest" by simp
  have d: "list_all2 delivered (m # ms) (msg # msgs)" using msg(1) msgs(1) by simp
  show ?case unfolding c by (rule exI[of _ "msg # msgs"], rule conjI[OF d], intro allI, rule run)
qed



lemma sample_call_framed: "framed sample_call"
  by (simp add: framed_def hdr_fields_def sample_call_def str_field_def adbus_msg_new_def adbus_buf_size_def adbus_buf_sig_def
      takeWhile_replicate Let_def align_def pad_def)


section \<open>Messages of unknown type\<close>



end
