(* ===== verification/Calls.thy ===== *)
theory Calls
  imports Client
begin

text \<open>
  Calling remote objects: \<^verbatim>\<open>adbus/proxy.c\<close>, and adding and removing the matches of a connection, \<^verbatim>\<open>adbus/match.c\<close>, which asks the bus for
  the messages through a proxy.

  A proxy belongs to one connection; \<open>px_connection\<close> says whether it is set. Replies of a proxy with a state are registered through
  that state, the parameter \<open>state_add\<close>. The result of the lookup of a service is an argument as in \<open>adbus_conn_addreply\<close>. The
  proxy of the bus is threaded through the operations on matches.
\<close>

section \<open>Proxies\<close>

datatype CallType = METHOD_CALL | GET_PROP_CALL | SET_PROP_CALL

record adbus_Proxy =
  px_connection :: bool
  px_state :: bool
  px_message :: adbus_MsgFactory
  px_service :: string
  px_path :: string
  px_interface :: string
  px_type :: CallType
  px_variant :: sigptr

record adbus_Call =
  ca_callback :: "nat option"
  ca_cuser :: nat
  ca_error :: "nat option"
  ca_euser :: nat
  ca_release0 :: "(nat \<times> nat) option"
  ca_release1 :: "(nat \<times> nat) option"

definition call_zero :: adbus_Call where
  "call_zero = \<lparr>ca_callback = None, ca_cuser = 0, ca_error = None, ca_euser = 0, ca_release0 = None, ca_release1 = None\<rparr>"

definition adbus_proxy_new :: "bool \<Rightarrow> adbus_Proxy" where
  "adbus_proxy_new state = \<lparr>px_connection = False, px_state = state, px_message = adbus_msg_new, px_service = [], px_path = [],
     px_interface = [], px_type = METHOD_CALL, px_variant = Null\<rparr>"

definition adbus_proxy_init :: "adbus_Proxy \<Rightarrow> bool \<Rightarrow> string \<Rightarrow> int \<Rightarrow> string \<Rightarrow> int \<Rightarrow> adbus_Proxy" where
  "adbus_proxy_init p connection service ssize path psize =
     p\<lparr>px_connection := connection, px_service := sized service ssize, px_path := sized path psize, px_interface := []\<rparr>"

definition adbus_proxy_setinterface :: "adbus_Proxy \<Rightarrow> string \<Rightarrow> int \<Rightarrow> adbus_Proxy" where
  "adbus_proxy_setinterface p interface isize = p\<lparr>px_interface := sized interface isize\<rparr>"

text \<open>The match that \<^verbatim>\<open>adbus_proxy_signal\<close> adds through the state.\<close>

definition adbus_proxy_signal :: "adbus_Proxy \<Rightarrow> adbus_Match \<Rightarrow> string \<Rightarrow> int \<Rightarrow> adbus_Match" where
  "adbus_proxy_signal p m signal sz =
     (let m = m\<lparr>am_type := ADBUS_MSG_SIGNAL, am_addMatchToBusDaemon := True, am_member := Some (signal, sz),
                am_sender := Some (px_service p, int (length (px_service p))), am_path := Some (px_path p, int (length (px_path p)))\<rparr>
      in if length (px_interface p) > 0 then m\<lparr>am_interface := Some (px_interface p, int (length (px_interface p)))\<rparr> else m)"

text \<open>The fields every call has; the serial comes from the connection.\<close>

definition call_start :: "adbus_Proxy \<Rightarrow> 32 word \<Rightarrow> (adbus_MsgFactory \<times> 32 word) res" where
  "call_start p next =
     (let m = adbus_msg_settype (adbus_msg_reset (px_message p)) ADBUS_MSG_METHOD;
          (serial, next) = adbus_conn_serial next;
          m = adbus_msg_setserial m serial
      in bindr (adbus_msg_setdestination m (px_service p) (int (length (px_service p)))) (\<lambda>m.
         bindr (adbus_msg_setpath m (px_path p) (int (length (px_path p)))) (\<lambda>m. Inr (m, next))))"

text \<open>The flag says whether the call has a message.\<close>

definition adbus_call_method :: "adbus_Proxy \<Rightarrow> string \<Rightarrow> int \<Rightarrow> 32 word \<Rightarrow> (bool \<times> adbus_Proxy \<times> 32 word) res" where
  "adbus_call_method p method sz next =
     (if \<not> px_connection p then Inr (False, p, next)
      else bindr (call_start p next) (\<lambda>(m, next).
           bindr (if length (px_interface p) > 0 then adbus_msg_setinterface m (px_interface p) (int (length (px_interface p)))
                  else Inr m) (\<lambda>m.
           bindr (adbus_msg_setmember m method sz) (\<lambda>m.
             Inr (True, p\<lparr>px_message := m\<rparr>, next)))))"

definition property_start :: "adbus_Proxy \<Rightarrow> string \<Rightarrow> string \<Rightarrow> string \<Rightarrow> int \<Rightarrow> 32 word \<Rightarrow> (adbus_MsgFactory \<times> 32 word) res" where
  "property_start p member sig property propsize next =
     (if \<not> px_connection p then Inl Fault
      else bindr (call_start p next) (\<lambda>(m, next).
           bindr (adbus_msg_setinterface m ''org.freedesktop.DBus.Properties'' (-1)) (\<lambda>m.
           bindr (adbus_msg_setmember m member (-1)) (\<lambda>m.
           bindr (adbus_buf_setsig (mf_argbuf m) sig (int (length sig))) (\<lambda>b.
           bindr (adbus_buf_string b (px_interface p) (int (length (px_interface p)))) (\<lambda>b.
           bindr (adbus_buf_string b property propsize) (\<lambda>b.
             Inr (m\<lparr>mf_argbuf := b\<rparr>, next))))))))"

definition adbus_call_setproperty ::
    "adbus_Proxy \<Rightarrow> string \<Rightarrow> int \<Rightarrow> string \<Rightarrow> int \<Rightarrow> 32 word \<Rightarrow> (adbus_Proxy \<times> 32 word) res" where
  "adbus_call_setproperty p property propsize type typesize next =
     bindr (assertr (length (px_interface p) > 0)) (\<lambda>_.
     bindr (property_start p ''Set'' ''ssv'' property propsize next) (\<lambda>(m, next).
     bindr (adbus_buf_beginvariant (mf_argbuf m) type typesize) (\<lambda>(b, v).
       Inr (p\<lparr>px_type := SET_PROP_CALL, px_message := m\<lparr>mf_argbuf := b\<rparr>, px_variant := v\<rparr>, next))))"

definition adbus_call_getproperty :: "adbus_Proxy \<Rightarrow> string \<Rightarrow> int \<Rightarrow> 32 word \<Rightarrow> (adbus_Proxy \<times> 32 word) res" where
  "adbus_call_getproperty p property sz next =
     bindr (assertr (length (px_interface p) > 0)) (\<lambda>_.
     bindr (property_start p ''Get'' ''ss'' property sz next) (\<lambda>(m, next).
       Inr (p\<lparr>px_type := GET_PROP_CALL, px_message := m\<rparr>, next)))"

text \<open>The reply a call waits for.\<close>

definition call_reply :: "adbus_Proxy \<Rightarrow> adbus_Call \<Rightarrow> adbus_MsgFactory \<Rightarrow> adbus_Reply" where
  "call_reply p call msg = adbus_reply_init\<lparr>re_serial := uint (word_of_int (adbus_msg_serial msg) :: 32 word),
     re_remote := px_service p, re_remoteSize := int (length (px_service p)),
     re_callback := ca_callback call, re_cuser := ca_cuser call, re_error := ca_error call, re_euser := ca_euser call,
     re_release0 := ca_release0 call, re_release1 := ca_release1 call\<rparr>"

definition register_call ::
    "(adbus_Reply \<Rightarrow> 'w cstate \<Rightarrow> 'w cstate res) \<Rightarrow> string option option \<Rightarrow> adbus_Proxy \<Rightarrow> adbus_Call \<Rightarrow> adbus_MsgFactory
     \<Rightarrow> 'w cstate \<Rightarrow> (adbus_MsgFactory \<times> 'w cstate) res" where
  "register_call state_add service p call msg s =
     (if ca_callback call \<noteq> None \<or> ca_error call \<noteq> None then
        let r = call_reply p call msg in
        if px_state p then bindr (state_add r s) (\<lambda>s. Inr (msg, s))
        else case s of (c, cl) \<Rightarrow> bindr (adbus_conn_addreply service r c) (\<lambda>(_, c). Inr (msg, c, cl))
      else
        bindr (assertr (ca_cuser call = 0 \<and> ca_euser call = 0)) (\<lambda>_.
        bindr (assertr (ca_release0 call = None)) (\<lambda>_.
        bindr (assertr (ca_release1 call = None)) (\<lambda>_.
          Inr (adbus_msg_setflags msg (adbus_msg_flags msg OR ADBUS_MSG_NO_REPLY), s)))))"

definition adbus_call_send ::
    "'w client_env \<Rightarrow> (adbus_Reply \<Rightarrow> 'w cstate \<Rightarrow> 'w cstate res) \<Rightarrow> string option option \<Rightarrow> adbus_Proxy \<Rightarrow> adbus_Call
     \<Rightarrow> 'w cstate \<Rightarrow> (adbus_Proxy \<times> 'w cstate) res" where
  "adbus_call_send env state_add service p call s =
     (if \<not> px_connection p then Inl Fault
      else
        let msg = px_message p;
            msg = (if px_type p = SET_PROP_CALL then msg\<lparr>mf_argbuf := adbus_buf_endvariant (mf_argbuf msg) (px_variant p)\<rparr> else msg)
        in bindr (adbus_buf_end (mf_argbuf msg)) (\<lambda>_.
           bindr (register_call state_add service p call msg s) (\<lambda>(msg, s).
           bindr (adbus_msg_send env msg s) (\<lambda>(_, msg, s).
             Inr (p\<lparr>px_message := msg\<rparr>, s)))))"

section \<open>Matches\<close>

text \<open>A call of a method of the bus with one string, whose answer does not matter.\<close>

definition bus_request ::
    "'w client_env \<Rightarrow> (adbus_Reply \<Rightarrow> 'w cstate \<Rightarrow> 'w cstate res) \<Rightarrow> adbus_Proxy \<Rightarrow> string \<Rightarrow> string \<Rightarrow> 'w cstate
     \<Rightarrow> (adbus_Proxy \<times> 'w cstate) res" where
  "bus_request env state_add p method arg s =
     (case s of (r, cl, w) \<Rightarrow>
        bindr (adbus_call_method p method (-1) (cl_nextSerial cl)) (\<lambda>(has, p, next).
          let m = px_message p in
          if \<not> has then Inl Fault
          else bindr (adbus_buf_setsig (mf_argbuf m) ''s'' 1) (\<lambda>b.
               bindr (adbus_buf_string b arg (int (length arg))) (\<lambda>b.
                 adbus_call_send env state_add None (p\<lparr>px_message := m\<lparr>mf_argbuf := b\<rparr>\<rparr>) call_zero
                   (r, cl\<lparr>cl_nextSerial := next\<rparr>, w)))))"

text \<open>
  \<open>reg\<close> is what the application passes, with \<open>cm_m\<close> its fields; \<open>service\<close> is the service \<^verbatim>\<open>adbusI_lookupService\<close> found
  for the sender.
\<close>

definition adbus_conn_addmatch ::
    "'w client_env \<Rightarrow> (adbus_Reply \<Rightarrow> 'w cstate \<Rightarrow> 'w cstate res) \<Rightarrow> string option \<Rightarrow> adbus_ConnMatch \<Rightarrow> adbus_Proxy \<times> 'w cstate
     \<Rightarrow> (nat \<times> adbus_Proxy \<times> 'w cstate) res" where
  "adbus_conn_addmatch env state_add service reg st =
     bindr (assertr (cm_callback reg \<noteq> None)) (\<lambda>_.
       let am = CloneMatch (cm_m reg);
           am = (if service = None then am\<lparr>am_sender := CloneString (am_sender (cm_m reg))\<rparr> else am);
           m = reg\<lparr>cm_m := am, cm_service := service\<rparr>
       in bindr (if am_addMatchToBusDaemon am then
                   bus_request env state_add (fst st) ''AddMatch'' (adbusI_matchString [] am) (snd st)
                 else Inr st) (\<lambda>(bus, r, cl, w).
            let k = cl_nextMatch cl
            in Inr (k, bus, r, cl\<lparr>cl_matches := (k, m) # cl_matches cl, cl_nextMatch := Suc k\<rparr>, w)))"

definition match_release_calls :: "adbus_ConnMatch \<Rightarrow> ((nat \<times> nat) option \<times> nat \<times> nat) list" where
  "match_release_calls m =
     (case cm_release0 m of None \<Rightarrow> [] | Some f \<Rightarrow> [(cm_relproxy m, f)])
     @ (case cm_release1 m of None \<Rightarrow> [] | Some f \<Rightarrow> [(cm_relproxy m, f)])"

definition adbusI_freeMatch :: "nat \<Rightarrow> client \<Rightarrow> client res" where
  "adbusI_freeMatch k cl =
     (case map_of (cl_matches cl) k of
        None \<Rightarrow> Inl Fault
      | Some m \<Rightarrow> Inr (cl\<lparr>cl_matches := filter (\<lambda>e. fst e \<noteq> k) (cl_matches cl), cl_released := cl_released cl @ match_release_calls m\<rparr>))"

definition adbus_conn_removematch ::
    "'w client_env \<Rightarrow> (adbus_Reply \<Rightarrow> 'w cstate \<Rightarrow> 'w cstate res) \<Rightarrow> nat \<Rightarrow> adbus_Proxy \<times> 'w cstate \<Rightarrow> (adbus_Proxy \<times> 'w cstate) res" where
  "adbus_conn_removematch env state_add k st =
     (case map_of (cl_matches (fst (snd (snd st)))) k of
        None \<Rightarrow> Inl Fault
      | Some m \<Rightarrow>
          bindr (if am_addMatchToBusDaemon (cm_m m) then
                   bus_request env state_add (fst st) ''RemoveMatch'' (adbusI_matchString [] (cm_m m)) (snd st)
                 else Inr st) (\<lambda>(bus, r, cl, w).
          bindr (adbusI_freeMatch k cl) (\<lambda>cl. Inr (bus, r, cl, w))))"

section \<open>A call and its reply\<close>

lemma call_method_ok:
  assumes "px_connection p" "NUL \<notin> set (px_service p)" "NUL \<notin> set (px_path p)" "NUL \<notin> set (px_interface p)" "NUL \<notin> set method"
  shows "\<exists>m. adbus_call_method p method (-1) next = Inr (True, p\<lparr>px_message := m\<rparr>, snd (adbus_conn_serial next))
     \<and> mf_messageType m = ADBUS_MSG_METHOD \<and> mf_flags m = 0 \<and> mf_serial m = uint (fst (adbus_conn_serial next))
     \<and> \<not> mf_hasReplySerial m \<and> mf_destination m = px_service p \<and> mf_path m = px_path p \<and> mf_interface m = px_interface p
     \<and> mf_member m = method \<and> mf_error m = [] \<and> mf_sender m = []
     \<and> mf_argbuf m = adbus_buf_reset (mf_argbuf (px_message p)) \<and> mf_buf m = adbus_buf_reset (mf_buf (px_message p))"
  using assms
  by (auto simp: adbus_call_method_def call_start_def Let_def adbus_msg_setdestination_def adbus_msg_setpath_def
      adbus_msg_setinterface_def adbus_msg_setmember_def field_arg_ok adbus_msg_settype_def adbus_msg_setserial_def
      adbus_msg_reset_def split: prod.splits)

lemma msg_send_ok:
  assumes m: "sendable m" "mf_serial m \<noteq> 0" and send: "ce_send env = Some send"
  shows "\<exists>buf ret. buf_b buf = built m \<and> length (buf_sig buf) = 256 \<and> adbus_msg_send env m s
     = Inr (ret, m\<lparr>mf_buf := buf\<rparr>, snd (send (build_message (m\<lparr>mf_buf := buf\<rparr>)) s))"
proof -
  have b: "0 \<le> mf_serial m" "mf_serial m < 2 ^ 32" using m(1) by (simp_all add: sendable_def build_check_def)
  from m(1) obtain buf where
    buf: "adbus_msg_build m = Inr (m\<lparr>mf_buf := buf\<rparr>, build_message (m\<lparr>mf_buf := buf\<rparr>))" "buf_b buf = built m" "length (buf_sig buf) = 256"
    using build_props[of m] by (auto simp: sendable_def built_def simp del: enc.simps)
  have "(word_of_int (mf_serial m) :: 32 word) \<noteq> 0"
    using b m(2) by (auto simp: word_of_int_eq_0_iff dest: zdvd_imp_le)
  then have "msg_serial (build_message (m\<lparr>mf_buf := buf\<rparr>)) \<noteq> 0" by (simp add: build_message_def Let_def)
  then show ?thesis using buf b send
    by (cases s; cases "send (build_message (m\<lparr>mf_buf := buf\<rparr>)) s")
      (auto simp: adbus_msg_send_def adbus_msg_serial_def adbus_conn_send_def Let_def split: prod.splits)
qed

lemma addreply_contents:
  assumes "adbus_conn_addreply service reg s = Inr (Some k, s')"
  shows "\<exists>c. cr_replies s' k = Some c \<and> rp_callback c = re_callback reg \<and> rp_cuser c = re_cuser reg \<and> rp_proxy c = re_proxy reg
     \<and> rp_error c = re_error reg \<and> rp_euser c = re_euser reg"
  using assms by (auto simp: adbus_conn_addreply_def Let_def res_convs split: if_splits)


text \<open>A call with an error callback only trips the assert of \<open>adbus_conn_addreply\<close>.\<close>

lemma error_only_call_aborts:
  assumes "px_connection p" "\<not> px_state p" "px_type p = METHOD_CALL" "adbus_buf_end (mf_argbuf (px_message p)) = Inr ()"
    and "ca_callback call = None" "ca_error call = Some f"
  shows "adbus_call_send env state_add service p call s = Inl Abort"
  using assms by (cases s) (simp add: adbus_call_send_def register_call_def adbus_conn_addreply_def call_reply_def assertr_def Let_def)

definition call_env :: "adbus_Message list client_env" where
  "call_env = \<lparr>ce_call = (\<lambda>f u. retc 0), ce_proxy = (\<lambda>f u cb st. Inl Fault), ce_method = (\<lambda>f u1 u2. retc 0),
     ce_method_proxy = (\<lambda>f u run. run), ce_send = Some (\<lambda>m (r, cl, w). (int (msg_size m), r, cl, w @ [m]))\<rparr>"

definition sample_proxy :: adbus_Proxy where
  "sample_proxy = adbus_proxy_init (adbus_proxy_new False) True ''x.y'' (-1) ''/a'' (-1)"

definition sample_started :: adbus_MsgFactory where
  "sample_started = adbus_msg_new\<lparr>mf_messageType := ADBUS_MSG_METHOD, mf_serial := 1, mf_buf := adbus_buf_reset adbus_buf_new,
     mf_argbuf := adbus_buf_reset adbus_buf_new, mf_path := ''/a'', mf_member := ''Ping'', mf_destination := ''x.y''\<rparr>"

lemma sample_started_sendable: "sendable (sample_started\<lparr>mf_argbuf := mf_argbuf sample_call\<rparr>)"
  by (simp add: sendable_def, simp add: sample_started_def sample_call_def wf_factory_def build_check_def adbus_buf_end_def sigp_char_def
      sigp_str_def adbus_msg_new_def adbus_buf_new_def adbus_buf_reset_def hdr_fields_def str_field_def adbus_buf_sig_def
      adbus_buf_size_def array_body_def sig_align_def align_def sRequiredAlignment_def pad_def
      ADBUS_MAXIMUM_ARRAY_LENGTH_def takeWhile_replicate)


section \<open>Requests to the bus\<close>

text \<open>The proxy for the bus that a connection has.\<close>

definition bus_proxy :: "adbus_Proxy \<Rightarrow> bool" where
  "bus_proxy p \<longleftrightarrow> px_connection p \<and> px_type p = METHOD_CALL \<and> px_service p = ''org.freedesktop.DBus''
     \<and> px_path p = ''/org/freedesktop/DBus'' \<and> px_interface p = ''org.freedesktop.DBus''
     \<and> length (buf_sig (mf_buf (px_message p))) = 256 \<and> length (buf_sig (mf_argbuf (px_message p))) = 256"

lemma bus_proxy_new:
  "bus_proxy (adbus_proxy_setinterface (adbus_proxy_init (adbus_proxy_new True) True ''org.freedesktop.DBus'' (-1)
     ''/org/freedesktop/DBus'' (-1)) ''org.freedesktop.DBus'' (-1))"
  by (simp add: bus_proxy_def adbus_proxy_setinterface_def adbus_proxy_init_def adbus_proxy_new_def sized_def adbus_msg_new_def adbus_buf_new_def)

text \<open>A call of a method of the bus that wants no answer.\<close>

definition bus_call :: "string \<Rightarrow> string \<Rightarrow> adbus_Message \<Rightarrow> bool" where
  "bus_call method arg msg \<longleftrightarrow> msg_type msg = ADBUS_MSG_METHOD \<and> msg_flags msg = ADBUS_MSG_NO_REPLY
     \<and> msg_destination msg = Some ''org.freedesktop.DBus'' \<and> msg_path msg = Some ''/org/freedesktop/DBus''
     \<and> msg_interface msg = Some ''org.freedesktop.DBus'' \<and> msg_member msg = Some method \<and> msg_signature msg = Some ''s''
     \<and> drop (msg_argdata msg) (msg_data msg) = enc 0 (VStr CHR ''s'' arg)"

lemma serial_nonzero:
  assumes "next \<noteq> 0"
  shows "fst (adbus_conn_serial next) \<noteq> 0 \<and> snd (adbus_conn_serial next) \<noteq> 0"
proof -
  have "x + 1 \<noteq> 0" if "x \<noteq> - 1" for x :: "32 word" using that by (metis add_eq_0_iff2)
  moreover have "(1 :: 32 word) \<noteq> - 1" by simp
  ultimately show ?thesis using assms by (simp add: adbus_conn_serial_def Let_def)
qed

lemma call_method_bus:
  assumes "bus_proxy p" "NUL \<notin> set method"
  shows "\<exists>m. adbus_call_method p method (-1) next = Inr (True, p\<lparr>px_message := m\<rparr>, snd (adbus_conn_serial next))
     \<and> mf_messageType m = ADBUS_MSG_METHOD \<and> mf_flags m = 0 \<and> mf_serial m = uint (fst (adbus_conn_serial next)) \<and> \<not> mf_hasReplySerial m
     \<and> mf_destination m = ''org.freedesktop.DBus'' \<and> mf_path m = ''/org/freedesktop/DBus'' \<and> mf_interface m = ''org.freedesktop.DBus''
     \<and> mf_member m = method \<and> mf_error m = [] \<and> mf_sender m = [] \<and> length (buf_sig (mf_buf m)) = 256 \<and> fresh_buf (mf_argbuf m)"
proof -
  have p: "px_connection p" "px_service p = ''org.freedesktop.DBus''" "px_path p = ''/org/freedesktop/DBus''"
    "px_interface p = ''org.freedesktop.DBus''" "length (buf_sig (mf_buf (px_message p))) = 256"
    "length (buf_sig (mf_argbuf (px_message p))) = 256" using assms(1) by (simp_all add: bus_proxy_def)
  then have n: "NUL \<notin> set (px_service p)" "NUL \<notin> set (px_path p)" "NUL \<notin> set (px_interface p)" by simp_all
  have l: "length (buf_sig (adbus_buf_reset (mf_buf (px_message p)))) = 256" using p(5) by (simp add: adbus_buf_reset_def)
  from call_method_ok[OF p(1) n assms(2), of "next"] show ?thesis using p(2-4) l fresh_reset[OF p(6)] by auto
qed

definition bus_fields :: "string \<Rightarrow> dval list" where
  "bus_fields method =
     str_field HEADER_INTERFACE CHR ''s'' ''org.freedesktop.DBus'' @ str_field HEADER_MEMBER CHR ''s'' method
      @ str_field HEADER_DESTINATION CHR ''s'' ''org.freedesktop.DBus'' @ str_field HEADER_OBJECT_PATH CHR ''o'' ''/org/freedesktop/DBus''
      @ [VStruct [VByte HEADER_SIGNATURE, VVariant (VSig ''s'')]]"

text \<open>Few small fields fit into a header.\<close>

definition small :: "dval \<Rightarrow> bool" where
  "small v \<longleftrightarrow> (\<forall>off. fits off v \<and> length (enc off v) \<le> 100)"

lemma small_list:
  "list_all small vs \<Longrightarrow> fitss off vs \<and> length (encs off vs) \<le> 100 * length vs"
proof (induction vs arbitrary: off)
  case (Cons v vs)
  then have "fits off v" "length (enc off v) \<le> 100" "fitss (off + length (enc off v)) vs"
    "length (encs (off + length (enc off v)) vs) \<le> 100 * length vs" by (simp_all add: small_def)
  then show ?case by (simp add: Let_def)
qed simp

lemma small_array: "list_all small vs \<Longrightarrow> length vs \<le> 100 \<Longrightarrow> fits off (VArr t vs)"
  using small_list[of vs "array_body off t"] by (auto simp: ADBUS_MAXIMUM_ARRAY_LENGTH_def)

lemma pad_short: "0 < a \<Longrightarrow> length (pad off a) \<le> a - 1"
proof -
  assume a: "0 < a"
  have "align off a \<le> off + (a - 1)" unfolding align_def by (rule div_times_less_eq_dividend)
  then show ?thesis using length_pad[OF a, of off] by linarith
qed

lemma small_str: "list_all small (str_field code c t)" if "length t \<le> 80"
proof -
  have "length (enc off (VStruct [VByte code, VVariant (VStr c t)])) \<le> 100" for off
    using that pad_short[of 8 off] pad_short[of 4 "Suc (Suc (Suc (Suc (align off 8))))"] by (simp add: Let_def)
  then show ?thesis by (simp add: str_field_def small_def del: enc.simps)
qed

lemma small_sig: "small (VStruct [VByte code, VVariant (VSig ''s'')])"
proof -
  have "length (pad off 8) \<le> 93" for off using pad_short[of 8 off] by simp
  then show ?thesis by (simp add: small_def Let_def)
qed

lemma bus_fields_fit: "length method \<le> 80 \<Longrightarrow> fits off (VArr ''(yv)'' (bus_fields method))"
  unfolding bus_fields_def
  by (rule small_array) (simp_all add: small_str small_sig, simp add: str_field_def)

lemma bus_message_sendable:
  assumes "mf_messageType m = ADBUS_MSG_METHOD" "mf_flags m = ADBUS_MSG_NO_REPLY" "mf_serial m = uint (q :: 32 word)" "\<not> mf_hasReplySerial m"
    "mf_destination m = ''org.freedesktop.DBus''" "mf_path m = ''/org/freedesktop/DBus''" "mf_interface m = ''org.freedesktop.DBus''"
    "mf_member m = method" "method \<in> {''AddMatch'', ''RemoveMatch''}" "mf_error m = []" "mf_sender m = []"
    "length (buf_sig (mf_buf m)) = 256" "adbus_buf_sig (mf_argbuf m) = ''s''" "buf_b (mf_argbuf m) \<noteq> []"
    "length (buf_b (mf_argbuf m)) < 2 ^ 32" "adbus_buf_end (mf_argbuf m) = Inr ()"
  shows "sendable m"
proof -
  have b: "build_check m" using assms(3,6,8,9) by (auto simp: build_check_def assms(1))
  have "hdr_fields m = bus_fields method"
    using assms(4-14) by (simp add: hdr_fields_def bus_fields_def str_field_def adbus_buf_size_def)
  then have "fits 12 (hdr_array m)" using assms(9) bus_fields_fit[of "method" 12] by (auto simp del: fits.simps)
  then have "wf_factory m" using assms(5-13) by (auto simp: wf_factory_def simp del: fits.simps)
  moreover have "mf_serial m < 2 ^ 32" using assms(3) uint_lt2p[of q] by simp
  ultimately show ?thesis using b assms(2,15,16) by (simp add: sendable_def ADBUS_MSG_NO_REPLY_def)
qed

lemma bus_request_ok:
  assumes p: "bus_proxy p" and mt: "method \<in> {''AddMatch'', ''RemoveMatch''}" and arg: "NUL \<notin> set arg" "length arg < 2 ^ 31"
    and q: "cl_nextSerial cl \<noteq> 0" and send: "ce_send env = Some (\<lambda>m (r, cl, w). (sent m w, r, cl, out m w))"
  shows "\<exists>p' msg. bus_request env state_add p method arg (r, cl, w)
       = Inr (p', r, cl\<lparr>cl_nextSerial := snd (adbus_conn_serial (cl_nextSerial cl))\<rparr>, out msg w)
     \<and> bus_proxy p' \<and> bus_call method arg msg"
proof -
  let ?q = "fst (adbus_conn_serial (cl_nextSerial cl))" and ?cl = "cl\<lparr>cl_nextSerial := snd (adbus_conn_serial (cl_nextSerial cl))\<rparr>"
  have nm: "NUL \<notin> set method" using mt by auto
  obtain m where m: "adbus_call_method p method (-1) (cl_nextSerial cl) = Inr (True, p\<lparr>px_message := m\<rparr>, snd (adbus_conn_serial (cl_nextSerial cl)))"
    "mf_messageType m = ADBUS_MSG_METHOD" "mf_flags m = 0" "mf_serial m = uint ?q" "\<not> mf_hasReplySerial m"
    "mf_destination m = ''org.freedesktop.DBus''" "mf_path m = ''/org/freedesktop/DBus''" "mf_interface m = ''org.freedesktop.DBus''"
    "mf_member m = method" "mf_error m = []" "mf_sender m = []" "length (buf_sig (mf_buf m)) = 256" "fresh_buf (mf_argbuf m)"
    using call_method_bus[OF p nm] by blast
  have "length arg < 2 ^ 32" using arg(2) by simp
  from reply_string[OF m(13) arg(1) this, of "int (length arg)" 1] obtain b0 b where
    b: "adbus_buf_setsig (mf_argbuf m) ''s'' 1 = Inr b0" "adbus_buf_string b0 arg (int (length arg)) = Inr b" "adbus_buf_end b = Inr ()"
    "buf_b b = enc 0 (VStr CHR ''s'' arg)" "adbus_buf_sig b = ''s''" "length (buf_sig b) = 256"
    by (auto simp: res_convs simp del: enc.simps)
  let ?m = "m\<lparr>mf_argbuf := b, mf_flags := ADBUS_MSG_NO_REPLY\<rparr>"
  have "length (buf_b b) < 2 ^ 32" "buf_b b \<noteq> []" using b(4) arg(2) by (simp_all add: pad_def align_def)
  then have sm: "sendable ?m" by (intro bus_message_sendable[of ?m ?q "method"]) (use m b mt in simp_all)
  have "mf_serial ?m \<noteq> 0" using m(4) serial_nonzero[OF q] by (simp add: uint_0_iff)
  from msg_send_ok[OF sm this send] obtain buf ret where
    buf: "buf_b buf = built ?m" "length (buf_sig buf) = 256" "adbus_msg_send env ?m (r, ?cl, w)
      = Inr (ret, ?m\<lparr>mf_buf := buf\<rparr>, r, ?cl, out (build_message (?m\<lparr>mf_buf := buf\<rparr>)) w)" by fastforce
  let ?msg = "build_message (?m\<lparr>mf_buf := buf\<rparr>)" and ?p = "p\<lparr>px_message := ?m\<lparr>mf_buf := buf\<rparr>\<rparr>"
  have pc: "px_connection p" "px_type p = METHOD_CALL" using p by (simp_all add: bus_proxy_def)
  have "adbus_msg_setflags (m\<lparr>mf_argbuf := b\<rparr>) (adbus_msg_flags (m\<lparr>mf_argbuf := b\<rparr>) OR ADBUS_MSG_NO_REPLY) = ?m"
    using m(3) by (simp add: adbus_msg_setflags_def adbus_msg_flags_def)
  then have "bus_request env state_add p method arg (r, cl, w) = Inr (?p, r, ?cl, out ?msg w)"
    using m(1) b(1-3) pc buf(3)
    by (simp add: bus_request_def adbus_call_send_def register_call_def call_zero_def Let_def)
  moreover have "bus_proxy ?p" using p buf(2) b(6) by (simp add: bus_proxy_def)
  moreover have "drop (msg_argdata ?msg) (msg_data ?msg) = enc 0 (VStr CHR ''s'' arg)"
    using buf(1) b(4) by (simp add: build_message_def Let_def adbus_buf_size_def built_def del: enc.simps)
  then have "bus_call method arg ?msg"
    using m b(4,5) mt by (auto simp: bus_call_def build_message_def Let_def field_opt_def adbus_buf_size_def)
  ultimately show ?thesis by blast
qed

section \<open>Adding and removing a match\<close>

text \<open>The match that is kept for a registration.\<close>

definition kept_match :: "string option \<Rightarrow> adbus_ConnMatch \<Rightarrow> adbus_ConnMatch" where
  "kept_match service reg = reg\<lparr>cm_m := (CloneMatch (cm_m reg))\<lparr>am_sender := (if service = None then CloneString (am_sender (cm_m reg)) else None)\<rparr>,
     cm_service := service\<rparr>"


definition sample_bus :: adbus_Proxy where
  "sample_bus = adbus_proxy_setinterface (adbus_proxy_init (adbus_proxy_new True) True ''org.freedesktop.DBus'' (-1)
     ''/org/freedesktop/DBus'' (-1)) ''org.freedesktop.DBus'' (-1)"

definition sample_reg :: adbus_ConnMatch where
  "sample_reg = (any_match 3)\<lparr>cm_m := sample_match, cm_release0 := Some (8, 9)\<rparr>"

lemma sample_reg_rule:
  "adbusI_matchString [] (cm_m (kept_match None sample_reg)) = adbusI_matchString [] sample_match"
  "match_fine (cm_m (kept_match None sample_reg))"
  by code_simp+


end
