(* ===== verification/Signals.thy ===== *)
theory Signals
  imports Calls
begin

text \<open>
  Emitting signals: \<^verbatim>\<open>adbus/signal.c\<close>. A signal is bound to paths on connections, known by a number; \<open>conns\<close> has the state of every
  connection and \<open>envs\<close> its callbacks. The message factory is \<open>None\<close> when it has been freed.
\<close>

section \<open>Operations\<close>

record adbus_Signal =
  sg_binds :: "(string \<times> nat) list"
  sg_message :: "adbus_MsgFactory option"
  sg_member :: adbus_Member
  sg_interface :: string

definition adbus_sig_new :: "adbus_Member \<Rightarrow> string \<Rightarrow> adbus_Signal" where
  "adbus_sig_new mbr interface = \<lparr>sg_binds = [], sg_message = Some adbus_msg_new, sg_member = mbr, sg_interface = interface\<rparr>"

definition get_message :: "adbus_Signal \<Rightarrow> adbus_MsgFactory res" where
  "get_message s = (case sg_message s of None \<Rightarrow> Inl Fault | Some m \<Rightarrow> Inr m)"

definition adbus_sig_reset :: "adbus_Signal \<Rightarrow> adbus_Signal res" where
  "adbus_sig_reset s = bindr (get_message s) (\<lambda>_. Inr (s\<lparr>sg_message := None, sg_binds := []\<rparr>))"

definition adbus_sig_bind :: "adbus_Signal \<Rightarrow> nat \<Rightarrow> string \<Rightarrow> int \<Rightarrow> adbus_Signal" where
  "adbus_sig_bind s c path pathSize = s\<lparr>sg_binds := sg_binds s @ [(sized path pathSize, c)]\<rparr>"

definition adbus_sig_msg :: "adbus_Signal \<Rightarrow> (adbus_MsgFactory \<times> adbus_Signal) res" where
  "adbus_sig_msg s =
     bindr (get_message s) (\<lambda>m.
       let m = adbus_msg_reset m; sig = mb_argsig (sg_member s)
       in bindr (adbus_buf_setsig (mf_argbuf m) sig (int (length sig))) (\<lambda>b.
            let m = m\<lparr>mf_argbuf := b\<rparr> in Inr (m, s\<lparr>sg_message := Some m\<rparr>)))"

text \<open>The message for one bind.\<close>

definition signal_for :: "adbus_MsgFactory \<Rightarrow> 32 word \<Rightarrow> string \<Rightarrow> adbus_MsgFactory res" where
  "signal_for m serial path =
     adbus_msg_setpath (adbus_msg_setserial (adbus_msg_setflags (adbus_msg_settype m ADBUS_MSG_SIGNAL) ADBUS_MSG_NO_REPLY) serial)
       path (int (length path))"

primrec emit_binds ::
    "(nat \<Rightarrow> 'w client_env) \<Rightarrow> (string \<times> nat) list \<Rightarrow> adbus_MsgFactory \<Rightarrow> (nat \<Rightarrow> 'w cstate)
     \<Rightarrow> (adbus_MsgFactory \<times> (nat \<Rightarrow> 'w cstate)) res" where
  "emit_binds envs [] m conns = Inr (m, conns)"
| "emit_binds envs (b # bs) m conns =
     (case conns (snd b) of (r, cl, w) \<Rightarrow>
        let (serial, next) = adbus_conn_serial (cl_nextSerial cl)
        in bindr (signal_for m serial (fst b)) (\<lambda>m.
           bindr (adbus_msg_send (envs (snd b)) m (r, cl\<lparr>cl_nextSerial := next\<rparr>, w)) (\<lambda>(_, m, s).
             emit_binds envs bs m (conns(snd b := s)))))"

definition adbus_sig_emit ::
    "(nat \<Rightarrow> 'w client_env) \<Rightarrow> adbus_Signal \<Rightarrow> (nat \<Rightarrow> 'w cstate) \<Rightarrow> (adbus_Signal \<times> (nat \<Rightarrow> 'w cstate)) res" where
  "adbus_sig_emit envs s conns =
     bindr (get_message s) (\<lambda>m.
     bindr (adbus_buf_end (mf_argbuf m)) (\<lambda>_.
     bindr (adbus_msg_setmember m (mb_name (sg_member s)) (int (length (mb_name (sg_member s))))) (\<lambda>m.
     bindr (adbus_msg_setinterface m (sg_interface s) (int (length (sg_interface s)))) (\<lambda>m.
     bindr (emit_binds envs (sg_binds s) m conns) (\<lambda>(m, conns).
     bindr (adbus_sig_msg (s\<lparr>sg_message := Some m\<rparr>)) (\<lambda>(_, s). Inr (s, conns)))))))"

section \<open>Every bind gets the signal\<close>

definition as_signal :: "adbus_MsgFactory \<Rightarrow> string \<Rightarrow> adbus_MsgFactory" where
  "as_signal m path = m\<lparr>mf_messageType := ADBUS_MSG_SIGNAL, mf_flags := ADBUS_MSG_NO_REPLY, mf_serial := 1, mf_path := path\<rparr>"

text \<open>What the message of a signal tells.\<close>

definition signal_msg :: "adbus_MsgFactory \<Rightarrow> string \<Rightarrow> adbus_Message \<Rightarrow> bool" where
  "signal_msg m path msg \<longleftrightarrow> msg_type msg = ADBUS_MSG_SIGNAL \<and> msg_path msg = field_opt path \<and> msg_member msg = field_opt (mf_member m)
     \<and> msg_interface msg = field_opt (mf_interface m) \<and> drop (msg_argdata msg) (msg_data msg) = buf_b (mf_argbuf m)"

lemma signal_for_ok: "NUL \<notin> set path \<Longrightarrow> signal_for m serial path = Inr ((as_signal m path)\<lparr>mf_serial := uint serial\<rparr>)"
  by (simp add: signal_for_def adbus_msg_settype_def adbus_msg_setflags_def adbus_msg_setserial_def adbus_msg_setpath_def field_arg_ok as_signal_def)

lemma sendable_serial:
  assumes "sendable (as_signal m path)" "length (buf_sig buf) = 256"
  shows "sendable ((as_signal (m\<lparr>mf_buf := buf\<rparr>) path)\<lparr>mf_serial := uint (q :: 32 word)\<rparr>)"
proof -
  have "hdr_fields ((as_signal (m\<lparr>mf_buf := buf\<rparr>) path)\<lparr>mf_serial := uint q\<rparr>) = hdr_fields (as_signal m path)"
    by (simp add: hdr_fields_def as_signal_def)
  moreover have "uint q < 2 ^ 32" using uint_lt2p[of q] by simp
  ultimately show ?thesis using assms
    by (simp add: sendable_def wf_factory_def build_check_def as_signal_def del: fits.simps)
qed

lemma send_signal:
  assumes m: "sendable (as_signal m path)" "length (buf_sig buf) = 256" and q: "(q :: 32 word) \<noteq> 0"
    and send: "ce_send env = Some (\<lambda>m (r, cl, w). (sent m w, r, cl, w @ [m]))"
  shows "\<exists>buf' msg ret. adbus_msg_send env ((as_signal (m\<lparr>mf_buf := buf\<rparr>) path)\<lparr>mf_serial := uint q\<rparr>) (r, cl, w)
       = Inr (ret, (as_signal (m\<lparr>mf_buf := buf'\<rparr>) path)\<lparr>mf_serial := uint q\<rparr>, r, cl, w @ [msg])
     \<and> length (buf_sig buf') = 256 \<and> signal_msg m path msg"
proof -
  let ?m = "(as_signal (m\<lparr>mf_buf := buf\<rparr>) path)\<lparr>mf_serial := uint q\<rparr>"
  have "mf_serial ?m \<noteq> 0" using q by (simp add: uint_0_iff)
  from msg_send_ok[OF sendable_serial[OF m] this send] obtain buf' ret where
    b: "buf_b buf' = built ?m" "length (buf_sig buf') = 256" "adbus_msg_send env ?m (r, cl, w)
      = Inr (ret, ?m\<lparr>mf_buf := buf'\<rparr>, r, cl, w @ [build_message (?m\<lparr>mf_buf := buf'\<rparr>)])" by fastforce
  have "?m\<lparr>mf_buf := buf'\<rparr> = (as_signal (m\<lparr>mf_buf := buf'\<rparr>) path)\<lparr>mf_serial := uint q\<rparr>" by (simp add: as_signal_def)
  moreover have "signal_msg m path (build_message (?m\<lparr>mf_buf := buf'\<rparr>))"
    using b(1) by (simp add: signal_msg_def build_message_def Let_def as_signal_def adbus_buf_size_def built_def del: enc.simps)
  ultimately show ?thesis using b(2,3) by metis
qed

lemma as_signal_again:
  "signal_for ((as_signal (m\<lparr>mf_buf := buf\<rparr>) p)\<lparr>mf_serial := x\<rparr>) q path = signal_for (m\<lparr>mf_buf := buf\<rparr>) q path"
  by (simp add: signal_for_def adbus_msg_settype_def adbus_msg_setflags_def adbus_msg_setserial_def adbus_msg_setpath_def as_signal_def)

definition out_of :: "'w cstate \<Rightarrow> 'w" where "out_of s = snd (snd s)"

lemma emit_binds_ok:
  assumes "\<forall>b \<in> set bs. NUL \<notin> set (fst b) \<and> sendable (as_signal m (fst b))"
    and "\<And>c. ce_send (envs c) = Some (\<lambda>m (r, cl, w). (sent m w, r, cl, w @ [m]))"
    and "\<And>c. cl_nextSerial (fst (snd (conns c))) \<noteq> 0"
    and "m0 = m\<lparr>mf_buf := buf\<rparr> \<or> (\<exists>p x. m0 = (as_signal (m\<lparr>mf_buf := buf\<rparr>) p)\<lparr>mf_serial := x\<rparr>)" "length (buf_sig buf) = 256"
  shows "\<exists>m' conns'. emit_binds envs bs m0 conns = Inr (m', conns') \<and> length (buf_sig (mf_argbuf m')) = length (buf_sig (mf_argbuf m))
     \<and> (\<forall>c. \<exists>msgs. out_of (conns' c) = out_of (conns c) @ msgs
           \<and> list_all2 (\<lambda>b msg. signal_msg m (fst b) msg) (filter (\<lambda>b. snd b = c) bs) msgs)"
  using assms(1,3-)
proof (induction bs arbitrary: m0 conns buf)
  case Nil
  then show ?case by (auto simp: as_signal_def)
next
  case (Cons b bs)
  obtain r cl w where c: "conns (snd b) = (r, cl, w)" by (cases "conns (snd b)")
  let ?q = "fst (adbus_conn_serial (cl_nextSerial cl))" and ?n = "snd (adbus_conn_serial (cl_nextSerial cl))"
  have q: "?q \<noteq> 0" "?n \<noteq> 0" using serial_nonzero[of "cl_nextSerial cl"] Cons.prems(2)[of "snd b"] c by simp_all
  have b: "NUL \<notin> set (fst b)" "sendable (as_signal m (fst b))" using Cons.prems(1) by simp_all
  have f: "signal_for m0 ?q (fst b) = Inr ((as_signal (m\<lparr>mf_buf := buf\<rparr>) (fst b))\<lparr>mf_serial := uint ?q\<rparr>)"
    using Cons.prems(3) signal_for_ok[OF b(1), of "m\<lparr>mf_buf := buf\<rparr>" ?q] as_signal_again by metis
  obtain buf' msg ret where s: "adbus_msg_send (envs (snd b)) ((as_signal (m\<lparr>mf_buf := buf\<rparr>) (fst b))\<lparr>mf_serial := uint ?q\<rparr>)
      (r, cl\<lparr>cl_nextSerial := ?n\<rparr>, w)
       = Inr (ret, (as_signal (m\<lparr>mf_buf := buf'\<rparr>) (fst b))\<lparr>mf_serial := uint ?q\<rparr>, r, cl\<lparr>cl_nextSerial := ?n\<rparr>, w @ [msg])"
    "length (buf_sig buf') = 256" "signal_msg m (fst b) msg"
    using send_signal[OF b(2) Cons.prems(4) q(1) assms(2)] by blast
  let ?conns = "conns(snd b := (r, cl\<lparr>cl_nextSerial := ?n\<rparr>, w @ [msg]))"
  have nz: "cl_nextSerial (fst (snd (?conns c))) \<noteq> 0" for c using Cons.prems(2)[of c] q(2) by simp
  let ?m1 = "(as_signal (m\<lparr>mf_buf := buf'\<rparr>) (fst b))\<lparr>mf_serial := uint ?q\<rparr>"
  have p1: "\<forall>b \<in> set bs. NUL \<notin> set (fst b) \<and> sendable (as_signal m (fst b))" using Cons.prems(1) by simp
  have d1: "?m1 = m\<lparr>mf_buf := buf'\<rparr> \<or> (\<exists>p x. ?m1 = (as_signal (m\<lparr>mf_buf := buf'\<rparr>) p)\<lparr>mf_serial := x\<rparr>)" by blast
  obtain m' conns' where ih: "emit_binds envs bs ((as_signal (m\<lparr>mf_buf := buf'\<rparr>) (fst b))\<lparr>mf_serial := uint ?q\<rparr>) ?conns = Inr (m', conns')"
    "length (buf_sig (mf_argbuf m')) = length (buf_sig (mf_argbuf m))"
    "\<And>c. \<exists>msgs. out_of (conns' c) = out_of (?conns c) @ msgs
           \<and> list_all2 (\<lambda>b msg. signal_msg m (fst b) msg) (filter (\<lambda>b. snd b = c) bs) msgs"
    using Cons.IH[where conns = ?conns, OF p1 nz d1 s(2)] by blast
  have "emit_binds envs (b # bs) m0 conns = Inr (m', conns')"
    using c f s(1) ih(1) by (simp add: Let_def case_prod_beta)
  moreover have "\<exists>msgs. out_of (conns' d) = out_of (conns d) @ msgs
           \<and> list_all2 (\<lambda>b msg. signal_msg m (fst b) msg) (filter (\<lambda>b. snd b = d) (b # bs)) msgs" for d
  proof (cases "snd b = d")
    case True
    obtain msgs where "out_of (conns' d) = out_of (?conns d) @ msgs"
      "list_all2 (\<lambda>b msg. signal_msg m (fst b) msg) (filter (\<lambda>b. snd b = d) bs) msgs" using ih(3) by blast
    then show ?thesis using True c s(3) by (intro exI[of _ "msg # msgs"]) (auto simp: out_of_def)
  next
    case False
    then show ?thesis using ih(3)[of d] by (simp add: out_of_def)
  qed
  ultimately show ?case using ih(2) by blast
qed

text \<open>C23: Emitting a signal sends one message per bind, on the connection of the bind and in the order of the binds, with the path of
  the bind, the name and interface of the signal and the arguments, and leaves the signal ready for the next one.\<close>

theorem signal_reaches_every_bind:
  assumes s: "sg_message s = Some m" "adbus_buf_end (mf_argbuf m) = Inr ()" "length (buf_sig (mf_buf m)) = 256"
    "length (buf_sig (mf_argbuf m)) = 256"
    "NUL \<notin> set (mb_name (sg_member s))" "NUL \<notin> set (sg_interface s)" "NUL \<notin> set (mb_argsig (sg_member s))"
    "length (mb_argsig (sg_member s)) < 256"
    and full: "full = m\<lparr>mf_member := mb_name (sg_member s), mf_interface := sg_interface s\<rparr>"
    and b: "\<forall>b \<in> set (sg_binds s). NUL \<notin> set (fst b) \<and> sendable (as_signal full (fst b))"
    and send: "\<And>c. ce_send (envs c) = Some (\<lambda>m (r, cl, w). (sent m w, r, cl, w @ [m]))"
    and conns: "\<And>c. cl_nextSerial (fst (snd (conns c))) \<noteq> 0"
  shows "\<exists>s' conns' m'. adbus_sig_emit envs s conns = Inr (s', conns')
     \<and> (\<forall>c. \<exists>msgs. out_of (conns' c) = out_of (conns c) @ msgs
           \<and> list_all2 (\<lambda>b msg. signal_msg full (fst b) msg) (filter (\<lambda>b. snd b = c) (sg_binds s)) msgs)
     \<and> sg_binds s' = sg_binds s \<and> sg_message s' = Some m' \<and> buf_b (mf_argbuf m') = [] \<and> adbus_buf_sig (mf_argbuf m') = mb_argsig (sg_member s)"
proof -
  have eq: "full = full\<lparr>mf_buf := mf_buf m\<rparr>" by (simp add: full)
  obtain m1 conns' where e: "emit_binds envs (sg_binds s) full conns = Inr (m1, conns')" "length (buf_sig (mf_argbuf m1)) = 256"
    "\<forall>c. \<exists>msgs. out_of (conns' c) = out_of (conns c) @ msgs
           \<and> list_all2 (\<lambda>b msg. signal_msg full (fst b) msg) (filter (\<lambda>b. snd b = c) (sg_binds s)) msgs"
    using emit_binds_ok[where conns = conns and envs = envs, OF b send conns disjI1[OF eq] s(3)] s(4) full by auto
  have "fresh_buf (mf_argbuf (adbus_msg_reset m1))" using e(2) by (simp add: adbus_msg_reset_def)
  from setsig_fresh[OF this s(7,8), of "int (length (mb_argsig (sg_member s)))"] obtain b' where
    b': "adbus_buf_setsig (mf_argbuf (adbus_msg_reset m1)) (mb_argsig (sg_member s)) (int (length (mb_argsig (sg_member s)))) = Inr b'"
    "buf_b b' = []" "adbus_buf_sig b' = mb_argsig (sg_member s)" by auto
  have "adbus_sig_emit envs s conns = Inr (s\<lparr>sg_message := Some ((adbus_msg_reset m1)\<lparr>mf_argbuf := b'\<rparr>)\<rparr>, conns')"
    using s(1,2,5,6) e(1) b'(1)
    by (simp add: adbus_sig_emit_def get_message_def adbus_msg_setmember_def adbus_msg_setinterface_def field_arg_ok full adbus_sig_msg_def Let_def)
  with e(3) b'(2,3) show ?thesis by (auto intro!: exI)
qed

definition sample_signal :: adbus_Signal where
  "sample_signal = adbus_sig_bind (adbus_sig_bind (adbus_sig_new (new_member ADBUSI_SIGNAL ''Sig'') ''x.Y'') 0 ''/a'' (-1)) 1 ''/b'' (-1)"

lemma sample_signal_sendable:
  "length p = 2 \<Longrightarrow> NUL \<notin> set p \<Longrightarrow> sendable (as_signal (adbus_msg_new\<lparr>mf_member := ''Sig'', mf_interface := ''x.Y''\<rparr>) p)"
  by (cases p) (simp_all add: sendable_def as_signal_def wf_factory_def build_check_def adbus_buf_end_def sigp_char_def
      sigp_str_def adbus_msg_new_def adbus_buf_new_def hdr_fields_def str_field_def adbus_buf_sig_def
      adbus_buf_size_def array_body_def sig_align_def align_def sRequiredAlignment_def pad_def
      ADBUS_MAXIMUM_ARRAY_LENGTH_def ADBUS_MSG_NO_REPLY_def)

theorem signal_reaches_every_bind_witness:
  "\<exists>s conns msg. adbus_sig_emit (\<lambda>c. call_env) sample_signal (\<lambda>c. (no_replies, sample_client, [])) = Inr (s, conns)
     \<and> out_of (conns 1) = [msg] \<and> msg_path msg = Some ''/b'' \<and> msg_member msg = Some ''Sig'' \<and> out_of (conns 2) = []"
proof -
  let ?m = "adbus_msg_new" and ?s = sample_signal
  let ?f = "?m\<lparr>mf_member := mb_name (sg_member ?s), mf_interface := sg_interface ?s\<rparr>"
  have mb: "mb_name (sg_member ?s) = ''Sig''" "mb_argsig (sg_member ?s) = []" "sg_interface ?s = ''x.Y''" "sg_binds ?s = [(''/a'', 0), (''/b'', 1)]"
    "sg_message ?s = Some ?m"
    by (simp_all add: sample_signal_def adbus_sig_bind_def adbus_sig_new_def new_member_def sized_def)
  have s: "adbus_buf_end (mf_argbuf ?m) = Inr ()" "length (buf_sig (mf_buf ?m)) = 256" "length (buf_sig (mf_argbuf ?m)) = 256"
    by (simp_all add: adbus_msg_new_def adbus_buf_new_def adbus_buf_end_def sigp_char_def sigp_str_def)
  have n: "NUL \<notin> set (mb_name (sg_member ?s))" "NUL \<notin> set (sg_interface ?s)" "NUL \<notin> set (mb_argsig (sg_member ?s))"
    "length (mb_argsig (sg_member ?s)) < 256" by (simp_all add: mb)
  have b: "\<forall>b \<in> set (sg_binds ?s). NUL \<notin> set (fst b) \<and> sendable (as_signal ?f (fst b))"
    using sample_signal_sendable[of "''/a''"] sample_signal_sendable[of "''/b''"] by (simp add: mb)
  have e: "ce_send call_env = Some (\<lambda>m (r, cl, w). (int (msg_size m), r, cl, w @ [m]))" by (simp add: call_env_def)
  have c: "cl_nextSerial (fst (snd (no_replies, sample_client, []))) \<noteq> 0" by (simp add: sample_client_def)
  obtain s' conns' where r: "adbus_sig_emit (\<lambda>c. call_env) ?s (\<lambda>c. (no_replies, sample_client, [])) = Inr (s', conns')"
    "\<forall>c. \<exists>msgs. out_of (conns' c) = out_of (no_replies, sample_client, []) @ msgs
       \<and> list_all2 (\<lambda>b msg. signal_msg ?f (fst b) msg) (filter (\<lambda>b. snd b = c) (sg_binds ?s)) msgs"
    using signal_reaches_every_bind[OF mb(5) s n refl b, where envs = "\<lambda>c. call_env" and conns = "\<lambda>c. (no_replies, sample_client, [])", OF e c]
    by blast
  obtain msgs where ms: "out_of (conns' 1) = msgs" "list_all2 (\<lambda>b msg. signal_msg ?f (fst b) msg) [(''/b'', 1 :: nat)] msgs"
    using r(2)[rule_format, of 1] by (auto simp: mb out_of_def)
  then obtain msg where msg: "msgs = [msg]" "signal_msg ?f ''/b'' msg" by (auto simp: list_all2_Cons1)
  have "out_of (conns' 2) = []" using r(2)[rule_format, of 2] by (auto simp: mb out_of_def)
  with r(1) ms(1) msg show ?thesis
    by (intro exI[of _ s'] exI[of _ conns'] exI[of _ msg]) (simp add: signal_msg_def field_opt_def mb)
qed

text \<open>After a reset the message factory is gone, and so the signal can neither be emitted nor freed.\<close>

lemma reset_signal_faults:
  assumes "adbus_sig_reset s = Inr s'"
  shows "adbus_sig_emit envs s' conns = Inl Fault" "adbus_sig_msg s' = Inl Fault" "adbus_sig_reset s' = Inl Fault"
  using assms by (auto simp: adbus_sig_reset_def adbus_sig_emit_def adbus_sig_msg_def get_message_def split: option.splits)

end
