(* ===== verification/Spec2Isabelle.thy ===== *)
theory Spec2Isabelle
  imports Vector Hash_Resize Unmarshal Parse Auth Hello_First Object_Map Conn_Parse Signals
begin

text \<open>
  adbus is a C library for the D-Bus protocol: a client library, with connections, objects, matches and replies, and a
  bus server. This development models the code under \<^verbatim>\<open>src/adbus\<close> and the containers of \<^verbatim>\<open>src/include/c/dmem\<close> that
  decide what the program does with its data.

  \<^bold>\<open>Parts and theories, from the bottom up.\<close>

  \<^item> Containers. \<^verbatim>\<open>Vector\<close>: \<^verbatim>\<open>dmem/vector.h\<close> and \<^verbatim>\<open>dmem/string.h\<close> on their memory (capacity, size, growth), refined
    to lists. \<^verbatim>\<open>Hash\<close>: \<^verbatim>\<open>dmem/hash.h\<close>, the open-addressed table with its packed flags, with its proofs in
    \<^verbatim>\<open>Hash_Probe\<close>, \<^verbatim>\<open>Hash_Map\<close> and \<^verbatim>\<open>Hash_Resize\<close>: any sequence of operations ends and agrees with a map.
  \<^item> \<^verbatim>\<open>Misc\<close>: \<^verbatim>\<open>misc.c\<close>, the checks of names and paths, the alignment table, the signature walker, the path helpers; each
    check is compared with a reference definition.
  \<^item> Wire format. \<^verbatim>\<open>Buffer\<close> (\<^verbatim>\<open>rbuffer.c\<close>, serialising with signature tracking), \<^verbatim>\<open>Marshal\<close> (the encoding as a
    function on values, and that the operations of the buffer write it), \<^verbatim>\<open>Iterator\<close> (\<^verbatim>\<open>riterator.c\<close>, \<^verbatim>\<open>adbus-iterator.h\<close>)
    with the memory safety of the basic reads, \<^verbatim>\<open>Unmarshal\<close> (what was written is read back), \<^verbatim>\<open>Flip\<close> (the byte order
    conversion of \<^verbatim>\<open>riterator.c\<close>).
  \<^item> Messages. \<^verbatim>\<open>Message\<close> (\<^verbatim>\<open>message.c\<close>, the factory and \<^verbatim>\<open>adbus_msg_build\<close>), \<^verbatim>\<open>Parse\<close> (\<^verbatim>\<open>parse.c\<close>): what is built is
    parsed back; foreign byte order aborts.
  \<^item> Authentication. \<^verbatim>\<open>Sha1\<close> (\<^verbatim>\<open>sha1.c\<close>, streaming is the hash of the whole) and \<^verbatim>\<open>Auth\<close> (\<^verbatim>\<open>auth.c\<close>, the line
    protocol of client and server): no success without approval, the handshake completes, the cuts of the stream do not matter.
  \<^item> \<^verbatim>\<open>Match_Rules\<close>: the match string of the client (\<^verbatim>\<open>misc.c\<close>), the rule parser and the matching of the server
    (\<^verbatim>\<open>server.c\<close>, \<^verbatim>\<open>server-dispatch.c\<close>).
  \<^item> \<^verbatim>\<open>Callback\<close>: the data of a callback, \<^verbatim>\<open>adbus_dispatch\<close>, the check functions with their \<^verbatim>\<open>longjmp\<close>, the error
    replies (\<^verbatim>\<open>messages.c\<close>, \<^verbatim>\<open>riterator.c\<close>, \<^verbatim>\<open>misc.c\<close>).
  \<^item> Bus server. \<^verbatim>\<open>Bus_Names\<close> and \<^verbatim>\<open>Bus_Registry\<close> (\<^verbatim>\<open>server.c\<close>, remotes, names and their queues: invariant, outcomes,
    the journal of owner changes), \<^verbatim>\<open>Bus_Methods\<close> (\<^verbatim>\<open>server-bus.c\<close>, the methods of \<^verbatim>\<open>org.freedesktop.DBus\<close>),
    \<^verbatim>\<open>Bus_Dispatch\<close> (\<^verbatim>\<open>server-dispatch.c\<close>, routing), \<^verbatim>\<open>Server_Parse\<close>, \<^verbatim>\<open>Sender_Field\<close> and \<^verbatim>\<open>Hello_First\<close> (\<^verbatim>\<open>server-parse.c\<close>, the
    stream parser of a remote, which stamps the sender and lets nothing but Hello pass first).
  \<^item> Client. \<^verbatim>\<open>Interface\<close> (\<^verbatim>\<open>interface.c\<close>: interfaces, members, introspection), \<^verbatim>\<open>Object_Tree\<close> with \<^verbatim>\<open>Object_Inv\<close> and
    \<^verbatim>\<open>Object_Map\<close> (\<^verbatim>\<open>bind.c\<close>: objects and binds; the tree refines a map, its objects are the bound paths and their
    ancestors, and it empties), \<^verbatim>\<open>Replies\<close> (\<^verbatim>\<open>reply.c\<close>, and the part of \<^verbatim>\<open>client-service.c\<close> that moves replies to a
    unique name: a reply is delivered once), \<^verbatim>\<open>Client\<close> (\<^verbatim>\<open>match.c\<close>, the dispatch of \<^verbatim>\<open>connection.c\<close>, \<^verbatim>\<open>bind.c\<close> and
    \<^verbatim>\<open>interface.c\<close>: who gets a message and how a call is answered), \<^verbatim>\<open>Conn_Parse\<close> (\<^verbatim>\<open>adbus_conn_parse\<close>: a stream of messages is
    dispatched in order), \<^verbatim>\<open>Calls\<close> (\<^verbatim>\<open>proxy.c\<close>, and adding and removing matches: a call waits for its reply, a match asks
    the bus for its messages), \<^verbatim>\<open>Signals\<close> (\<^verbatim>\<open>signal.c\<close>: every bind of a signal gets it).

  \<^bold>\<open>How state and operations correspond.\<close> A struct is a record with the names of its fields, a function is a
  definition with the name of the function; loops and larger branches are definitions of their own, listed with the lines they model.
  Fallible code returns \<open>'a res\<close> (\<^verbatim>\<open>Prelude\<close>): \<open>Failed\<close> is the error return of the code, \<open>Abort\<close> a failed assert, \<open>Fault\<close> a
  read, write or call through a pointer that is null, freed or outside of its block. Machine integers are words where
  they wrap. The model is of a little-endian host with 64-bit pointers. Memory that belongs to a message is a list
  of bytes and a pointer into it an offset. Objects that are shared (remotes, services, binds, interfaces, replies) are
  known by their address, a number, and found in a map; a freed one is absent or marked, so that a use after free is a
  \<open>Fault\<close>. Above \<^verbatim>\<open>Vector\<close> and \<^verbatim>\<open>Hash\<close> containers are described by their contents. Callbacks of the application, its
  proxies, its send function and the system calls of the authentication are parameters.

  \<^bold>\<open>Interfaces.\<close> What one part relies on in another is a locale, interpreted on the model: \<open>byte_vector\<close> and \<open>char_sink\<close> (what buffers and strings rely on, given by \<^verbatim>\<open>Vector\<close>),
  \<open>map_store\<close> (what every user of a table relies on, given by \<^verbatim>\<open>Hash_Resize\<close>), \<open>registry\<close> (what the application relies on when
  it registers something with a connection, given by \<^verbatim>\<open>Object_Map\<close> for binds and by \<^verbatim>\<open>Replies\<close> for replies).

  \<^bold>\<open>Termination, bounds and fuel.\<close> Loops that may run forever in the code return an option, with \<open>None\<close> for a loop that
  does not end (\<open>while_option\<close> for the probes of the hash table, \<open>partial_function\<close> for rehashing and for the removal
  of objects), and the theorems show that the result is there. The hash table is treated up to the largest prime below \<open>2^17\<close> of
  its list of sizes, which fewer than \<open>2^15\<close> operations cannot leave. \<open>adbus_flip_value\<close>, which recurses through the data of a
  message, takes fuel; the theorem about foreign messages holds for every fuel above eight.

  \<^bold>\<open>Not modelled.\<close> Creating, connecting and freeing a connection (\<^verbatim>\<open>connection.c\<close>, \<^verbatim>\<open>bus.c\<close>). \<^verbatim>\<open>state.c\<close>, which hands
  registrations to other threads and back, and with it the requests that look up the owner of a service
  (\<^verbatim>\<open>client-service.c\<close>): the result of a lookup is an argument, and so is registration through a state. The callbacks of the Properties interface; \<^verbatim>\<open>socket.c\<close> (system calls);
  \<^verbatim>\<open>debug.c\<close> (tracing); the printf-style operations of \<^verbatim>\<open>dmem/string.c\<close>; \<^verbatim>\<open>dmem/queue.h\<close>, which nothing uses, and the pointers of
  \<^verbatim>\<open>dmem/list.h\<close>, whose users are modelled with the contents of the list. The wrappers for C++, Lua and Qt, the vendored Lua
  interpreter, the examples and the tests.
\<close>

end
